(* ===== verification/KendyPrelude.thy ===== *)
theory KendyPrelude
  imports Main "HOL-Library.Word" "HOL-Library.Multiset"
begin

text \<open>
  Shared vocabulary of the development: the machine types of the Go program, the result type
  of Go functions that may panic, Go slices with their backing array, big-endian
  encoding of unsigned words (package \<open>encoding/binary\<close>), and the generic facts on lists and words
  that the component theories use.

  Conventions. Go's unsigned types are words of their width. Values of Go's signed types are
  \<^typ>\<open>int\<close>, with the conversions \<open>word_of_int\<close> and \<open>sint\<close> written where the source converts.
  Positions and lengths, which Go keeps in \<open>int\<close>, are \<^typ>\<open>int\<close> where the source may pass a
  negative one and \<^typ>\<open>nat\<close> where they are lengths of slices.
\<close>

unbundle bit_operations_syntax

section \<open>Machine types\<close>

type_synonym byte = "8 word"
type_synonym uint16 = "16 word"
type_synonym uint32 = "32 word"
type_synonym uint64 = "64 word"

text \<open>Proof automation shared by the component theories: unfolding of one-line definitions, and
  preservation lemmas of the well-formedness predicates.\<close>

named_theorems go_defs "definitions unfolded in component proofs"
named_theorems wf_pres "operations that preserve a well-formedness predicate"

section \<open>Panics\<close>

datatype panic = IndexOutOfRange | SliceBounds | NilDeref | CloseOfClosed | UserPanic string

datatype 'a go = Ret 'a | Panic panic

fun bind_go :: "'a go \<Rightarrow> ('a \<Rightarrow> 'b go) \<Rightarrow> 'b go" where
  "bind_go (Ret x) f = f x"
| "bind_go (Panic p) f = Panic p"

fun map_ret :: "('a \<Rightarrow> 'b) \<Rightarrow> 'a go \<Rightarrow> 'b go" where
  "map_ret f (Ret x) = Ret (f x)"
| "map_ret f (Panic p) = Panic p"

lemma bind_go_eq_Ret: "bind_go m f = Ret y \<longleftrightarrow> (\<exists>x. m = Ret x \<and> f x = Ret y)"
  by (cases m) auto

lemma map_ret_eq_Ret: "map_ret f m = Ret y \<longleftrightarrow> (\<exists>x. m = Ret x \<and> y = f x)"
  by (cases m) auto

section \<open>Slices\<close>

text \<open>
  A Go slice of bytes: the backing array from the slice's first element to the end of its
  capacity, and the length. Elements between the length and the capacity exist and survive
  reslicing; \<open>append\<close> overwrites them in place when they suffice and otherwise allocates an array
  whose spare capacity is the run-time's choice (\<open>slack\<close>, a parameter of the model).
\<close>

record slice =
  sarr :: "byte list"
  slen :: nat

definition nil_slice :: slice where
  "nil_slice = \<lparr>sarr = [], slen = 0\<rparr>"

definition sbytes :: "slice \<Rightarrow> byte list" where
  "sbytes s = take (slen s) (sarr s)"

definition scap :: "slice \<Rightarrow> nat" where
  "scap s = length (sarr s)"

definition wf_slice :: "slice \<Rightarrow> bool" where
  "wf_slice s \<longleftrightarrow> slen s \<le> length (sarr s)"

text \<open>The run-time's growth policy: current capacity and needed length to spare capacity.\<close>

type_synonym growth = "nat \<Rightarrow> nat \<Rightarrow> nat"

definition go_append :: "growth \<Rightarrow> slice \<Rightarrow> byte list \<Rightarrow> slice" where
  "go_append slack s xs =
     (let n = slen s + length xs in
      if n \<le> scap s
      then \<lparr>sarr = take (slen s) (sarr s) @ xs @ drop n (sarr s), slen = n\<rparr>
      else \<lparr>sarr = take (slen s) (sarr s) @ xs @ replicate (slack (scap s) n) 0, slen = n\<rparr>)"

text \<open>\<open>s[lo:hi]\<close>: the upper bound is the capacity, not the length.\<close>

definition reslice :: "slice \<Rightarrow> int \<Rightarrow> int \<Rightarrow> slice go" where
  "reslice s lo hi =
     (if 0 \<le> lo \<and> lo \<le> hi \<and> hi \<le> int (scap s)
      then Ret \<lparr>sarr = drop (nat lo) (sarr s), slen = nat hi - nat lo\<rparr>
      else Panic SliceBounds)"

text \<open>Stores \<open>xs\<close> at position \<open>p\<close> of the backing array (through any slice that shares it).\<close>

definition store_at :: "slice \<Rightarrow> nat \<Rightarrow> byte list \<Rightarrow> slice" where
  "store_at s p xs =
     s\<lparr>sarr := take p (sarr s) @ xs @ drop (p + length xs) (sarr s)\<rparr>"

lemmas slice_defs = sbytes_def scap_def wf_slice_def go_append_def store_at_def nil_slice_def

lemma sbytes_nil [simp]: "sbytes nil_slice = []"
  by (simp add: slice_defs)

lemma wf_nil_slice [simp]: "wf_slice nil_slice"
  by (simp add: slice_defs)

lemma length_sbytes [simp]: "wf_slice s \<Longrightarrow> length (sbytes s) = slen s"
  by (simp add: slice_defs)

lemma wf_go_append [simp, wf_pres]: "wf_slice s \<Longrightarrow> wf_slice (go_append slack s xs)"
  by (auto simp: slice_defs Let_def)

lemma sbytes_go_append [simp]:
  "wf_slice s \<Longrightarrow> sbytes (go_append slack s xs) = sbytes s @ xs"
  by (auto simp: slice_defs Let_def)

lemma slen_go_append [simp]: "slen (go_append slack s xs) = slen s + length xs"
  by (simp add: slice_defs Let_def)

lemma scap_go_append_mono: "wf_slice s \<Longrightarrow> scap s \<le> scap (go_append slack s xs)"
  by (auto simp: slice_defs Let_def)

lemma reslice_prefix:
  assumes "wf_slice s" and "0 \<le> l" and "l \<le> int (slen s)"
  shows "reslice s 0 l = Ret \<lparr>sarr = sarr s, slen = nat l\<rparr>"
  using assms by (simp add: reslice_def slice_defs)

section \<open>Big-endian encoding\<close>

text \<open>
  \<open>be_put n w\<close> is what \<open>binary.BigEndian.PutUint\<dots>\<close> stores in a slice of \<open>n\<close> bytes, and
  \<open>be_get\<close> is \<open>binary.BigEndian.Uint\<dots>\<close>: the most significant byte first.
\<close>

definition be_put :: "nat \<Rightarrow> 'a::len word \<Rightarrow> byte list" where
  "be_put n w = map (\<lambda>i. ucast (drop_bit (8 * (n - 1 - i)) w)) [0..<n]"

definition be_get :: "byte list \<Rightarrow> 'a::len word" where
  "be_get bs = fold (\<lambda>b acc. push_bit 8 acc OR ucast b) bs 0"

lemma length_be_put [simp]: "length (be_put n w) = n"
  by (simp add: be_put_def)

lemma nth_be_put: "i < n \<Longrightarrow> be_put n w ! i = ucast (drop_bit (8 * (n - 1 - i)) w)"
  by (simp add: be_put_def)

lemma be_get_snoc: "be_get (bs @ [b]) = push_bit 8 (be_get bs) OR ucast b"
  by (simp add: be_get_def)

lemma bit_be_get:
  "bit (be_get bs :: 'a::len word) n \<longleftrightarrow>
     n < LENGTH('a) \<and> n div 8 < length bs \<and> bit (rev bs ! (n div 8)) (n mod 8)"
proof (induction bs arbitrary: n rule: rev_induct)
  case Nil
  then show ?case by (simp add: be_get_def)
next
  case (snoc b bs)
  show ?case
  proof (cases "n < 8")
    case True
    then show ?thesis
      by (auto simp: be_get_snoc bit_simps snoc.IH)
  next
    case False
    then obtain m where m: "n = m + 8" by (metis add.commute le_Suc_ex not_less)
    have "\<not> bit b (m + 8)" by (auto dest: bit_imp_le_length)
    moreover have "(m + 8) div 8 = Suc (m div 8)" by simp
    ultimately show ?thesis
      by (auto simp: m be_get_snoc bit_simps snoc.IH)
  qed
qed

lemma be_get_put:
  assumes "LENGTH('a::len) \<le> 8 * n"
  shows "be_get (be_put n w) = (w :: 'a word)"
proof (rule bit_word_eqI)
  fix k assume k: "k < LENGTH('a)"
  define q where "q = k div 8"
  have q: "q < n" using k assms by (simp add: q_def)
  have "rev (be_put n w) ! q = ucast (drop_bit (8 * q) w)"
    using q by (simp add: rev_nth nth_be_put)
  then show "bit (be_get (be_put n w) :: 'a word) k = bit w k"
    using k q by (auto simp: bit_be_get q_def[symmetric] bit_simps) (auto simp: q_def)
qed

lemma be_put_get:
  assumes "length bs = n" and "8 * n \<le> LENGTH('a::len)"
  shows "be_put n (be_get bs :: 'a word) = bs"
proof (rule nth_equalityI)
  show "length (be_put n (be_get bs :: 'a word)) = length bs" using assms by simp
next
  fix i assume "i < length (be_put n (be_get bs :: 'a word))"
  then have i: "i < n" by simp
  show "be_put n (be_get bs :: 'a word) ! i = bs ! i"
  proof (rule bit_word_eqI)
    fix k assume k: "k < LENGTH(8)"
    have p: "(8 * (n - 1 - i) + k) div 8 = n - 1 - i" "(8 * (n - 1 - i) + k) mod 8 = k"
      using k by simp_all
    have lt: "8 * (n - 1 - i) + k < LENGTH('a)"
      using k i assms(2) by simp
    have "rev bs ! (n - 1 - i) = bs ! i"
      using i assms(1) by (simp add: rev_nth)
    then show "bit (be_put n (be_get bs :: 'a word) ! i) k = bit (bs ! i) k"
      using i k lt assms(1)
      by (simp add: nth_be_put bit_simps bit_be_get p)
  qed
qed

section \<open>Words\<close>

lemma word_less_succ:
  fixes w :: "'a::len word"
  assumes "w \<noteq> - 1"
  shows "w < w + 1"
proof -
  have "w < - 1" using assms word_order.extremum [of w] by (simp add: order_le_less)
  then have "uint w < uint (- 1 :: 'a word)" by (simp add: word_less_def)
  also have "uint (- 1 :: 'a word) = 2 ^ LENGTH('a) - 1" by (simp add: unsigned_minus_1_eq_mask mask_eq_exp_minus_1)
  finally have "uint w + 1 < 2 ^ LENGTH('a)" by simp
  moreover have "uint (w + 1) = (uint w + 1) mod 2 ^ LENGTH('a)"
    by (simp add: uint_word_ariths)
  ultimately have "uint (w + 1) = uint w + 1" by (simp)
  then show ?thesis by (simp add: word_less_def)
qed

section \<open>Lists\<close>

text \<open>The number of elements with a property: the goroutines at a program point.\<close>

definition cnt :: "('a \<Rightarrow> bool) \<Rightarrow> 'a list \<Rightarrow> nat" where
  "cnt P xs = length (filter P xs)"

lemma cnt_Nil [simp]: "cnt P [] = 0"
  by (simp add: cnt_def)

lemma cnt_Cons: "cnt P (x # xs) = (if P x then 1 else 0) + cnt P xs"
  by (simp add: cnt_def)

lemma cnt_append [simp]: "cnt P (xs @ ys) = cnt P xs + cnt P ys"
  by (simp add: cnt_def)

lemma cnt_replicate [simp]: "cnt P (replicate n x) = (if P x then n else 0)"
  by (simp add: cnt_def)

lemma cnt_False [simp]: "cnt (\<lambda>x. False) xs = 0"
  by (simp add: cnt_def)

lemma cnt_map: "cnt P (map f xs) = cnt (\<lambda>x. P (f x)) xs"
  by (induction xs) (simp_all add: cnt_Cons)

lemma cnt_gt_0: "0 < cnt P xs \<longleftrightarrow> (\<exists>x\<in>set xs. P x)"
  by (auto simp: cnt_def filter_empty_conv)

lemma cnt_eq_0: "cnt P xs = 0 \<longleftrightarrow> (\<forall>x\<in>set xs. \<not> P x)"
  by (simp add: cnt_def filter_empty_conv)

lemma cnt_disj: "(\<And>x. \<not> (P x \<and> Q x)) \<Longrightarrow> cnt (\<lambda>x. P x \<or> Q x) xs = cnt P xs + cnt Q xs"
  by (induction xs) (auto simp: cnt_Cons)

text \<open>A step of goroutine \<open>i\<close> changes only its own contribution to each count.\<close>

lemma cnt_at:
  assumes "i < length xs"
  obtains base where "\<And>P. cnt P xs = base P + (if P (xs ! i) then 1 else 0)"
    and "\<And>P x. cnt P (xs[i := x]) = base P + (if P x then 1 else 0)"
proof
  let ?base = "\<lambda>P. cnt P (take i xs) + cnt P (drop (Suc i) xs)"
  have xs: "xs = take i xs @ xs ! i # drop (Suc i) xs"
    using assms by (simp add: id_take_nth_drop)
  show "cnt P xs = ?base P + (if P (xs ! i) then 1 else 0)" for P
    by (subst xs) (simp add: cnt_Cons)
  show "cnt P (xs[i := x]) = ?base P + (if P x then 1 else 0)" for P x
    using assms by (simp add: upd_conv_take_nth_drop cnt_Cons)
qed

lemma length_concat_update:
  assumes "i < length xss"
  shows "length (concat (xss[i := ys])) + length (xss ! i) = length (concat xss) + length ys"
proof -
  have "xss = take i xss @ xss ! i # drop (Suc i) xss"
    using assms by (simp add: id_take_nth_drop)
  then have "length (concat xss) = length (concat (take i xss)) + length (xss ! i) +
      length (concat (drop (Suc i) xss))"
    by (metis add.assoc concat.simps(2) concat_append length_append)
  then show ?thesis using assms by (simp add: upd_conv_take_nth_drop)
qed

lemma mset_concat_update:
  assumes "i < length xss"
  shows "mset (concat (xss[i := ys])) + mset (xss ! i) = mset (concat xss) + mset ys"
proof -
  have "xss = take i xss @ xss ! i # drop (Suc i) xss"
    using assms by (simp add: id_take_nth_drop)
  then have "mset (concat xss) = mset (concat (take i xss)) + mset (xss ! i) +
      mset (concat (drop (Suc i) xss))"
    by (metis add.assoc concat.simps(2) concat_append mset_append)
  then show ?thesis using assms by (simp add: upd_conv_take_nth_drop)
qed

lemma concat_eq_Nil_nth: "concat xss = [] \<longleftrightarrow> (\<forall>i<length xss. xss ! i = [])"
  by (auto simp: all_set_conv_all_nth)

lemma filter_key: "distinct (map fst xs) \<Longrightarrow> (k, v) \<in> set xs \<Longrightarrow> filter (\<lambda>e. fst e = k) xs = [(k, v)]"
proof (induction xs)
  case Nil
  then show ?case by simp
next
  case (Cons x xs)
  show ?case
  proof (cases "fst x = k")
    case True
    have k: "k \<notin> fst ` set xs" using Cons.prems(1) True by simp
    then have "filter (\<lambda>e. fst e = k) xs = []" unfolding filter_empty_conv by blast
    moreover have "(k, v) \<notin> set xs" using k by force
    then have "x = (k, v)" using Cons.prems(2) by simp
    ultimately show ?thesis using True by simp
  next
    case False
    then show ?thesis using Cons by auto
  qed
qed

end
