(* ===== verification/Buffers.thy ===== *)
theory Buffers
  imports KendyPrelude
begin

text \<open>
  Package \<open>buffer\<close>, file \<open>src/buffer/buffer.go\<close>: the growable byte buffer the sockets encode
  into, the append functions on plain slices, and the cursor \<open>BufferReader\<close>. A buffer is a
  record of its slice and the pool it came from (an address; the pools are in theory BufferPool, with
  \<open>Free\<close>). Strings are byte sequences. A method that returns its receiver returns the
  updated record.
\<close>

section \<open>Definitions\<close>

datatype buf_error = ErrBeyondSize

record buffer =
  bs :: slice
  bpool :: "nat option"

definition New :: "slice list \<Rightarrow> buffer" where
  "New os = (case os of
      p # _ \<Rightarrow> \<lparr>bs = p\<lparr>slen := 0\<rparr>, bpool = None\<rparr>
    | [] \<Rightarrow> \<lparr>bs = nil_slice, bpool = None\<rparr>)"

subsection \<open>Appending to slices\<close>

definition AppendByte :: "growth \<Rightarrow> slice \<Rightarrow> byte \<Rightarrow> slice" where
  "AppendByte g s v = go_append g s [v]"

definition AppendString :: "growth \<Rightarrow> slice \<Rightarrow> byte list \<Rightarrow> slice" where
  "AppendString g s str = go_append g s str"

definition AppendBytes :: "growth \<Rightarrow> slice \<Rightarrow> byte list \<Rightarrow> slice" where
  "AppendBytes g s bytes = go_append g s bytes"

definition AppendUint16 :: "growth \<Rightarrow> slice \<Rightarrow> uint16 \<Rightarrow> slice" where
  "AppendUint16 g s u16 = (let bu = be_put 2 u16 in AppendBytes g s bu)"

definition AppendUint32 :: "growth \<Rightarrow> slice \<Rightarrow> uint32 \<Rightarrow> slice" where
  "AppendUint32 g s u32 = (let bu = be_put 4 u32 in AppendBytes g s bu)"

definition AppendUint64 :: "growth \<Rightarrow> slice \<Rightarrow> uint64 \<Rightarrow> slice" where
  "AppendUint64 g s u64 = (let bu = be_put 8 u64 in AppendBytes g s bu)"

definition AppendInt16 :: "growth \<Rightarrow> slice \<Rightarrow> int \<Rightarrow> slice" where
  "AppendInt16 g s i16 = AppendUint16 g s (word_of_int i16)"

definition AppendInt32 :: "growth \<Rightarrow> slice \<Rightarrow> int \<Rightarrow> slice" where
  "AppendInt32 g s i32 = AppendUint32 g s (word_of_int i32)"

definition AppendInt64 :: "growth \<Rightarrow> slice \<Rightarrow> int \<Rightarrow> slice" where
  "AppendInt64 g s i64 = AppendUint64 g s (word_of_int i64)"

definition AppendInt :: "growth \<Rightarrow> slice \<Rightarrow> int \<Rightarrow> slice" where
  "AppendInt g s i = AppendUint32 g s (word_of_int i)"

subsection \<open>Methods of Buffer\<close>

definition Buffer_AppendByte :: "growth \<Rightarrow> buffer \<Rightarrow> byte \<Rightarrow> buffer" where
  "Buffer_AppendByte g b v = b\<lparr>bs := go_append g (bs b) [v]\<rparr>"

definition Buffer_AppendString :: "growth \<Rightarrow> buffer \<Rightarrow> byte list \<Rightarrow> buffer" where
  "Buffer_AppendString g b s = b\<lparr>bs := go_append g (bs b) s\<rparr>"

definition Buffer_AppendBytes :: "growth \<Rightarrow> buffer \<Rightarrow> byte list \<Rightarrow> buffer" where
  "Buffer_AppendBytes g b bytes = b\<lparr>bs := go_append g (bs b) bytes\<rparr>"

definition Buffer_Write :: "growth \<Rightarrow> buffer \<Rightarrow> byte list \<Rightarrow> buffer \<times> nat \<times> buf_error option" where
  "Buffer_Write g b bytes = (Buffer_AppendBytes g b bytes, length bytes, None)"

definition Buffer_AppendUint16 :: "growth \<Rightarrow> buffer \<Rightarrow> uint16 \<Rightarrow> buffer" where
  "Buffer_AppendUint16 g b u16 = (let bu = be_put 2 u16 in Buffer_AppendBytes g b bu)"

definition Buffer_SetUint32 :: "buffer \<Rightarrow> int \<Rightarrow> uint32 \<Rightarrow> buffer go" where
  "Buffer_SetUint32 b pos u32 =
     bind_go (reslice (bs b) pos (pos + 4))
       (\<lambda>bu. Ret (b\<lparr>bs := store_at (bs b) (nat pos) (be_put 4 u32)\<rparr>))"

definition Buffer_AppendUint32 :: "growth \<Rightarrow> buffer \<Rightarrow> uint32 \<Rightarrow> buffer" where
  "Buffer_AppendUint32 g b u32 = (let bu = be_put 4 u32 in Buffer_AppendBytes g b bu)"

definition Buffer_AppendUint64 :: "growth \<Rightarrow> buffer \<Rightarrow> uint64 \<Rightarrow> buffer" where
  "Buffer_AppendUint64 g b u64 = (let bu = be_put 8 u64 in Buffer_AppendBytes g b bu)"

definition Buffer_AppendInt16 :: "growth \<Rightarrow> buffer \<Rightarrow> int \<Rightarrow> buffer" where
  "Buffer_AppendInt16 g b i16 = Buffer_AppendUint16 g b (word_of_int i16)"

definition Buffer_AppendInt32 :: "growth \<Rightarrow> buffer \<Rightarrow> int \<Rightarrow> buffer" where
  "Buffer_AppendInt32 g b i32 = Buffer_AppendUint32 g b (word_of_int i32)"

definition Buffer_AppendInt64 :: "growth \<Rightarrow> buffer \<Rightarrow> int \<Rightarrow> buffer" where
  "Buffer_AppendInt64 g b i64 = Buffer_AppendUint64 g b (word_of_int i64)"

definition Buffer_AppendInt :: "growth \<Rightarrow> buffer \<Rightarrow> int \<Rightarrow> buffer" where
  "Buffer_AppendInt g b i = Buffer_AppendUint32 g b (word_of_int i)"

definition Bytes :: "buffer \<Rightarrow> byte list" where
  "Bytes b = sbytes (bs b)"

definition Len :: "buffer \<Rightarrow> nat" where
  "Len b = slen (bs b)"

definition Cap :: "buffer \<Rightarrow> nat" where
  "Cap b = scap (bs b)"

definition Reset :: "buffer \<Rightarrow> buffer" where
  "Reset b = b\<lparr>bs := (bs b)\<lparr>slen := 0\<rparr>\<rparr>"

definition SetLen :: "buffer \<Rightarrow> int \<Rightarrow> buffer go" where
  "SetLen b l =
     (if l < int (slen (bs b))
      then map_ret (\<lambda>s. b\<lparr>bs := s\<rparr>) (reslice (bs b) 0 l)
      else Ret b)"

definition DropFirstNBytes :: "buffer \<Rightarrow> int \<Rightarrow> buffer" where
  "DropFirstNBytes b n =
     (if n > 0 \<and> n \<le> int (slen (bs b)) then
        (if n = int (slen (bs b)) then b\<lparr>bs := (bs b)\<lparr>slen := 0\<rparr>\<rparr>
         else (let s = store_at (bs b) 0 (drop (nat n) (sbytes (bs b)))
               in b\<lparr>bs := s\<lparr>slen := slen (bs b) - nat n\<rparr>\<rparr>))
      else b)"

definition ToStrUnsafe :: "buffer \<Rightarrow> byte list" where
  "ToStrUnsafe b = sbytes (bs b)"

subsection \<open>BufferReader\<close>

record reader =
  rbs :: "byte list"
  offset :: nat

text \<open>The dynamic types \<open>NewReader\<close> distinguishes.\<close>

datatype reader_arg = ArgBuffer buffer | ArgBytes "byte list" | ArgOther

definition NewReader :: "reader_arg \<Rightarrow> reader" where
  "NewReader a = (case a of
      ArgBuffer b \<Rightarrow> \<lparr>rbs = sbytes (bs b), offset = 0\<rparr>
    | ArgBytes xs \<Rightarrow> \<lparr>rbs = xs, offset = 0\<rparr>
    | ArgOther \<Rightarrow> \<lparr>rbs = [], offset = 0\<rparr>)"

definition GetAll :: "reader \<Rightarrow> byte list go" where
  "GetAll r = (if offset r \<le> length (rbs r) then Ret (drop (offset r) (rbs r)) else Panic SliceBounds)"

definition GetOffset :: "reader \<Rightarrow> nat" where
  "GetOffset r = offset r"

definition IsOver :: "reader \<Rightarrow> bool" where
  "IsOver r \<longleftrightarrow> offset r \<ge> length (rbs r)"

text \<open>\<open>this.bs[this.offset : this.offset+n]\<close> inside the length.\<close>

definition window :: "reader \<Rightarrow> nat \<Rightarrow> byte list" where
  "window r n = take n (drop (offset r) (rbs r))"

definition GetByte :: "reader \<Rightarrow> byte \<times> reader" where
  "GetByte r = (if offset r + 1 > length (rbs r) then (0, r)
                else (rbs r ! offset r, r\<lparr>offset := offset r + 1\<rparr>))"

definition CheckGetByte :: "reader \<Rightarrow> (byte \<times> buf_error option) \<times> reader" where
  "CheckGetByte r = (if offset r + 1 > length (rbs r) then ((0, Some ErrBeyondSize), r)
                     else ((rbs r ! offset r, None), r\<lparr>offset := offset r + 1\<rparr>))"

definition GetUint16 :: "reader \<Rightarrow> uint16 \<times> reader" where
  "GetUint16 r = (if offset r + 2 > length (rbs r) then (0, r)
                  else (be_get (window r 2), r\<lparr>offset := offset r + 2\<rparr>))"

definition CheckGetUint16 :: "reader \<Rightarrow> (uint16 \<times> buf_error option) \<times> reader" where
  "CheckGetUint16 r = (if offset r + 2 > length (rbs r) then ((0, Some ErrBeyondSize), r)
                       else ((be_get (window r 2), None), r\<lparr>offset := offset r + 2\<rparr>))"

definition GetInt16 :: "reader \<Rightarrow> int \<times> reader" where
  "GetInt16 r = (case GetUint16 r of (u, r') \<Rightarrow> (sint u, r'))"

definition CheckGetInt16 :: "reader \<Rightarrow> (int \<times> buf_error option) \<times> reader" where
  "CheckGetInt16 r = (case CheckGetUint16 r of
      ((u, Some err), r') \<Rightarrow> ((0, Some err), r')
    | ((u, None), r') \<Rightarrow> ((sint u, None), r'))"

definition GetUint32 :: "reader \<Rightarrow> uint32 \<times> reader" where
  "GetUint32 r = (if offset r + 4 > length (rbs r) then (0, r)
                  else (be_get (window r 4), r\<lparr>offset := offset r + 4\<rparr>))"

definition CheckGetUint32 :: "reader \<Rightarrow> (uint32 \<times> buf_error option) \<times> reader" where
  "CheckGetUint32 r = (if offset r + 4 > length (rbs r) then ((0, Some ErrBeyondSize), r)
                       else ((be_get (window r 4), None), r\<lparr>offset := offset r + 4\<rparr>))"

definition GetInt32 :: "reader \<Rightarrow> int \<times> reader" where
  "GetInt32 r = (case GetUint32 r of (u, r') \<Rightarrow> (sint u, r'))"

definition CheckGetInt32 :: "reader \<Rightarrow> (int \<times> buf_error option) \<times> reader" where
  "CheckGetInt32 r = (case CheckGetUint32 r of
      ((u, Some err), r') \<Rightarrow> ((0, Some err), r')
    | ((u, None), r') \<Rightarrow> ((sint u, None), r'))"

text \<open>\<open>int(uint32)\<close> keeps the unsigned value: Go's \<open>int\<close> has 64 bits.\<close>

definition GetInt :: "reader \<Rightarrow> int \<times> reader" where
  "GetInt r = (case GetUint32 r of (u, r') \<Rightarrow> (uint u, r'))"

definition CheckGetInt :: "reader \<Rightarrow> (int \<times> buf_error option) \<times> reader" where
  "CheckGetInt r = (case CheckGetUint32 r of
      ((u, Some err), r') \<Rightarrow> ((0, Some err), r')
    | ((u, None), r') \<Rightarrow> ((uint u, None), r'))"

definition GetUint64 :: "reader \<Rightarrow> uint64 \<times> reader" where
  "GetUint64 r = (if offset r + 8 > length (rbs r) then (0, r)
                  else (be_get (window r 8), r\<lparr>offset := offset r + 8\<rparr>))"

definition CheckGetUint64 :: "reader \<Rightarrow> (uint64 \<times> buf_error option) \<times> reader" where
  "CheckGetUint64 r = (if offset r + 8 > length (rbs r) then ((0, Some ErrBeyondSize), r)
                       else ((be_get (window r 8), None), r\<lparr>offset := offset r + 8\<rparr>))"

definition GetInt64 :: "reader \<Rightarrow> int \<times> reader" where
  "GetInt64 r = (case GetUint64 r of (u, r') \<Rightarrow> (sint u, r'))"

definition CheckGetInt64 :: "reader \<Rightarrow> (int \<times> buf_error option) \<times> reader" where
  "CheckGetInt64 r = (case CheckGetUint64 r of
      ((u, Some err), r') \<Rightarrow> ((0, Some err), r')
    | ((u, None), r') \<Rightarrow> ((sint u, None), r'))"

text \<open>\<open>this.bs[this.offset : this.offset+sz]\<close> for a size of either sign, then the advance.\<close>

definition slice_advance :: "reader \<Rightarrow> int \<Rightarrow> (byte list \<times> reader) go" where
  "slice_advance r sz =
     (if 0 \<le> sz \<and> int (offset r) + sz \<le> int (length (rbs r))
      then Ret (window r (nat sz), r\<lparr>offset := offset r + nat sz\<rparr>)
      else Panic SliceBounds)"

definition GetBytes :: "reader \<Rightarrow> int \<Rightarrow> (byte list \<times> reader) go" where
  "GetBytes r sz =
     (let left = int (length (rbs r)) - int (offset r);
          sz' = (if left < sz then left else sz)
      in slice_advance r sz')"

definition CheckGetBytes :: "reader \<Rightarrow> int \<Rightarrow> ((byte list \<times> buf_error option) \<times> reader) go" where
  "CheckGetBytes r sz =
     (if int (length (rbs r)) - int (offset r) < sz then Ret (([], Some ErrBeyondSize), r)
      else map_ret (\<lambda>(xs, r'). ((xs, None), r')) (slice_advance r sz))"

definition GetString :: "reader \<Rightarrow> int \<Rightarrow> (byte list \<times> reader) go" where
  "GetString r sz = GetBytes r sz"

definition CheckGetString :: "reader \<Rightarrow> int \<Rightarrow> ((byte list \<times> buf_error option) \<times> reader) go" where
  "CheckGetString r sz =
     map_ret (\<lambda>((b, err), r'). (case err of Some e \<Rightarrow> (([], Some e), r') | None \<Rightarrow> ((b, None), r')))
       (CheckGetBytes r sz)"

lemmas append_defs = AppendByte_def AppendString_def AppendBytes_def AppendUint16_def
  AppendUint32_def AppendUint64_def AppendInt16_def AppendInt32_def AppendInt64_def AppendInt_def

lemmas buffer_append_defs = Buffer_AppendByte_def Buffer_AppendString_def Buffer_AppendBytes_def
  Buffer_AppendUint16_def Buffer_AppendUint32_def Buffer_AppendUint64_def Buffer_AppendInt16_def
  Buffer_AppendInt32_def Buffer_AppendInt64_def Buffer_AppendInt_def

lemmas check_get_defs = CheckGetByte_def CheckGetUint16_def CheckGetInt16_def CheckGetUint32_def
  CheckGetInt32_def CheckGetInt_def CheckGetUint64_def CheckGetInt64_def CheckGetBytes_def
  CheckGetString_def slice_advance_def

lemmas get_defs = GetByte_def GetUint16_def GetInt16_def GetUint32_def GetInt32_def GetInt_def
  GetUint64_def GetInt64_def GetBytes_def GetString_def slice_advance_def

section \<open>Well-formedness\<close>

definition wf_buffer :: "buffer \<Rightarrow> bool" where
  "wf_buffer b \<longleftrightarrow> wf_slice (bs b)"

definition wf_reader :: "reader \<Rightarrow> bool" where
  "wf_reader r \<longleftrightarrow> offset r \<le> length (rbs r)"

text \<open>What is left to read.\<close>

definition rest :: "reader \<Rightarrow> byte list" where
  "rest r = drop (offset r) (rbs r)"

section \<open>The buffer as a byte sequence\<close>

lemma wf_New [simp, wf_pres]: "wf_buffer (New os)"
  by (auto simp: New_def wf_buffer_def slice_defs split: list.split)

lemma Bytes_New [simp]: "Bytes (New os) = []"
  by (auto simp: New_def Bytes_def slice_defs split: list.split)

lemma wf_AppendBytes [simp, wf_pres]: "wf_buffer b \<Longrightarrow> wf_buffer (Buffer_AppendBytes g b xs)"
  by (simp add: wf_buffer_def Buffer_AppendBytes_def)

lemma Bytes_AppendBytes [simp]:
  "wf_buffer b \<Longrightarrow> Bytes (Buffer_AppendBytes g b xs) = Bytes b @ xs"
  by (simp add: wf_buffer_def Buffer_AppendBytes_def Bytes_def)

lemma Len_Bytes: "wf_buffer b \<Longrightarrow> Len b = length (Bytes b)"
  by (simp add: wf_buffer_def Len_def Bytes_def)

lemma wf_Reset [simp, wf_pres]: "wf_buffer (Reset b)"
  by (simp add: wf_buffer_def Reset_def wf_slice_def)

lemma Bytes_Reset [simp]: "Bytes (Reset b) = []"
  by (simp add: Bytes_def Reset_def sbytes_def)

lemma Cap_Reset [simp]: "Cap (Reset b) = Cap b"
  by (simp add: Cap_def Reset_def scap_def)

lemma SetLen_Ret:
  assumes "wf_buffer b" and "0 \<le> l"
  shows "\<exists>b'. SetLen b l = Ret b' \<and> wf_buffer b' \<and> Bytes b' = take (nat l) (Bytes b)"
proof (cases "l < int (slen (bs b))")
  case True
  with assms show ?thesis
    by (auto simp: SetLen_def wf_buffer_def Bytes_def reslice_def slice_defs)
next
  case False
  then have "slen (bs b) \<le> nat l" by simp
  with assms False show ?thesis
    by (simp add: SetLen_def wf_buffer_def Bytes_def slice_defs min_def)
qed

lemma SetLen_negative: "l < 0 \<Longrightarrow> SetLen b l = Panic SliceBounds"
  by (simp add: SetLen_def reslice_def)

lemma wf_Drop [simp, wf_pres]: "wf_buffer b \<Longrightarrow> wf_buffer (DropFirstNBytes b n)"
  by (auto simp: DropFirstNBytes_def wf_buffer_def slice_defs Let_def)

lemma Bytes_Drop:
  assumes "wf_buffer b"
  shows "Bytes (DropFirstNBytes b n) =
     (if 0 < n \<and> n \<le> int (length (Bytes b)) then drop (nat n) (Bytes b) else Bytes b)"
  using assms
  by (auto simp: DropFirstNBytes_def wf_buffer_def Bytes_def slice_defs Let_def)

subsection \<open>The contract the encoders and senders use\<close>

text \<open>
  A byte sink: what \<open>sendThreadFunc\<close> and \<open>doSend\<close> rely on of a buffer. Its laws give the two
  facts those loops need: discarding what a failed encoder wrote restores the buffer, and a
  write that is reported in pieces transmits exactly the contents.
\<close>

locale byte_sink =
  fixes inv :: "'b \<Rightarrow> bool"
    and contents :: "'b \<Rightarrow> byte list"
    and append_bytes :: "'b \<Rightarrow> byte list \<Rightarrow> 'b"
    and truncate :: "'b \<Rightarrow> nat \<Rightarrow> 'b"
    and drop_first :: "'b \<Rightarrow> nat \<Rightarrow> 'b"
  assumes inv_append: "inv b \<Longrightarrow> inv (append_bytes b xs)"
    and inv_truncate: "inv b \<Longrightarrow> inv (truncate b n)"
    and inv_drop: "inv b \<Longrightarrow> inv (drop_first b n)"
    and contents_append: "inv b \<Longrightarrow> contents (append_bytes b xs) = contents b @ xs"
    and contents_truncate: "inv b \<Longrightarrow> contents (truncate b n) = take n (contents b)"
    and contents_drop: "inv b \<Longrightarrow> n \<le> length (contents b) \<Longrightarrow>
        contents (drop_first b n) = drop n (contents b)"
begin

lemma sink_discard:
  "inv b \<Longrightarrow> contents (truncate (append_bytes b xs) (length (contents b))) = contents b"
  by (simp add: contents_truncate contents_append inv_append)

lemma sink_append_all:
  "inv b \<Longrightarrow> contents (fold (\<lambda>xs b. append_bytes b xs) xss b) = contents b @ concat xss"
proof (induction xss arbitrary: b)
  case Nil
  then show ?case by simp
next
  case (Cons xs xss)
  then show ?case by (simp add: inv_append contents_append)
qed

lemma sink_partial_write:
  "inv b \<Longrightarrow> n \<le> length (contents b) \<Longrightarrow>
     take n (contents b) @ contents (drop_first b n) = contents b"
  by (simp add: contents_drop)

end

text \<open>\<open>SetLen\<close> with a length taken from \<open>Len\<close>, as the callers use it: it cannot panic.\<close>

definition set_len :: "buffer \<Rightarrow> nat \<Rightarrow> buffer" where
  "set_len b n = (case SetLen b (int n) of Ret b' \<Rightarrow> b' | Panic p \<Rightarrow> b)"

lemma SetLen_set_len: "wf_buffer b \<Longrightarrow> SetLen b (int n) = Ret (set_len b n)"
  using SetLen_Ret [of b "int n"] by (auto simp: set_len_def)

lemma wf_set_len [simp, wf_pres]: "wf_buffer b \<Longrightarrow> wf_buffer (set_len b n)"
  using SetLen_Ret [of b "int n"] by (auto simp: set_len_def)

lemma Bytes_set_len [simp]: "wf_buffer b \<Longrightarrow> Bytes (set_len b n) = take n (Bytes b)"
  using SetLen_Ret [of b "int n"] by (auto simp: set_len_def)

interpretation bsink: byte_sink wf_buffer Bytes "Buffer_AppendBytes g" set_len
    "\<lambda>b n. DropFirstNBytes b (int n)" for g
  by unfold_locales (auto simp: Bytes_Drop)

section \<open>Reading back what was appended\<close>

text \<open>One value of the wire format, and the kind a reader asks for.\<close>

datatype field = FByte byte | FUint16 uint16 | FInt16 int | FUint32 uint32 | FInt32 int
  | FInt int | FUint64 uint64 | FInt64 int | FBytes "byte list" | FString "byte list"

datatype kind = KByte | KUint16 | KInt16 | KUint32 | KInt32 | KInt | KUint64 | KInt64 | KBytes int | KString int

fun kind_of :: "field \<Rightarrow> kind" where
  "kind_of (FByte _) = KByte"
| "kind_of (FUint16 _) = KUint16"
| "kind_of (FInt16 _) = KInt16"
| "kind_of (FUint32 _) = KUint32"
| "kind_of (FInt32 _) = KInt32"
| "kind_of (FInt _) = KInt"
| "kind_of (FUint64 _) = KUint64"
| "kind_of (FInt64 _) = KInt64"
| "kind_of (FBytes s) = KBytes (int (length s))"
| "kind_of (FString s) = KString (int (length s))"

fun in_range :: "field \<Rightarrow> bool" where
  "in_range (FInt16 i) \<longleftrightarrow> - (2 ^ 15) \<le> i \<and> i < 2 ^ 15"
| "in_range (FInt32 i) \<longleftrightarrow> - (2 ^ 31) \<le> i \<and> i < 2 ^ 31"
| "in_range (FInt64 i) \<longleftrightarrow> - (2 ^ 63) \<le> i \<and> i < 2 ^ 63"
| "in_range _ \<longleftrightarrow> True"

fun put_field :: "growth \<Rightarrow> field \<Rightarrow> buffer \<Rightarrow> buffer" where
  "put_field g (FByte v) b = Buffer_AppendByte g b v"
| "put_field g (FUint16 v) b = Buffer_AppendUint16 g b v"
| "put_field g (FInt16 v) b = Buffer_AppendInt16 g b v"
| "put_field g (FUint32 v) b = Buffer_AppendUint32 g b v"
| "put_field g (FInt32 v) b = Buffer_AppendInt32 g b v"
| "put_field g (FInt v) b = Buffer_AppendInt g b v"
| "put_field g (FUint64 v) b = Buffer_AppendUint64 g b v"
| "put_field g (FInt64 v) b = Buffer_AppendInt64 g b v"
| "put_field g (FBytes v) b = Buffer_AppendBytes g b v"
| "put_field g (FString v) b = Buffer_AppendString g b v"

fun tag_result :: "('a \<Rightarrow> field) \<Rightarrow> ('a \<times> buf_error option) \<times> reader
    \<Rightarrow> (buf_error + field) \<times> reader" where
  "tag_result c ((v, None), r) = (Inr (c v), r)"
| "tag_result c ((v, Some e), r) = (Inl e, r)"

fun get_field :: "kind \<Rightarrow> reader \<Rightarrow> ((buf_error + field) \<times> reader) go" where
  "get_field KByte r = Ret (tag_result FByte (CheckGetByte r))"
| "get_field KUint16 r = Ret (tag_result FUint16 (CheckGetUint16 r))"
| "get_field KInt16 r = Ret (tag_result FInt16 (CheckGetInt16 r))"
| "get_field KUint32 r = Ret (tag_result FUint32 (CheckGetUint32 r))"
| "get_field KInt32 r = Ret (tag_result FInt32 (CheckGetInt32 r))"
| "get_field KInt r = Ret (tag_result FInt (CheckGetInt r))"
| "get_field KUint64 r = Ret (tag_result FUint64 (CheckGetUint64 r))"
| "get_field KInt64 r = Ret (tag_result FInt64 (CheckGetInt64 r))"
| "get_field (KBytes n) r = map_ret (tag_result FBytes) (CheckGetBytes r n)"
| "get_field (KString n) r = map_ret (tag_result FString) (CheckGetString r n)"

fun get_fields :: "kind list \<Rightarrow> reader \<Rightarrow> ((buf_error + field list) \<times> reader) go" where
  "get_fields [] r = Ret (Inr [], r)"
| "get_fields (k # ks) r = bind_go (get_field k r) (\<lambda>(x, r'). case x of
      Inl e \<Rightarrow> Ret (Inl e, r')
    | Inr f \<Rightarrow> map_ret (\<lambda>(y, r''). (case y of Inl e \<Rightarrow> (Inl e, r'') | Inr fs \<Rightarrow> (Inr (f # fs), r'')))
                 (get_fields ks r'))"

text \<open>The bytes a field is encoded to.\<close>

fun enc :: "field \<Rightarrow> byte list" where
  "enc (FByte v) = [v]"
| "enc (FUint16 v) = be_put 2 v"
| "enc (FInt16 v) = be_put 2 (word_of_int v :: uint16)"
| "enc (FUint32 v) = be_put 4 v"
| "enc (FInt32 v) = be_put 4 (word_of_int v :: uint32)"
| "enc (FInt v) = be_put 4 (word_of_int v :: uint32)"
| "enc (FUint64 v) = be_put 8 v"
| "enc (FInt64 v) = be_put 8 (word_of_int v :: uint64)"
| "enc (FBytes v) = v"
| "enc (FString v) = v"

text \<open>What the reader makes of a value: an \<open>int\<close> is stored in 32 bits and read as an unsigned number, any other value is itself.\<close>

fun read_back :: "field \<Rightarrow> field" where
  "read_back (FInt i) = FInt (i mod 2 ^ 32)"
| "read_back f = f"

lemma put_field_enc:
  "put_field g f b = Buffer_AppendBytes g b (enc f)"
  by (cases f) (simp_all add: buffer_append_defs Let_def)

lemma put_fields_Bytes:
  "wf_buffer b \<Longrightarrow> Bytes (fold (put_field g) fs b) = Bytes b @ concat (map enc fs)"
proof -
  have "fold (put_field g) fs b = fold (\<lambda>xs b. Buffer_AppendBytes g b xs) (map enc fs) b"
    by (induction fs arbitrary: b) (simp_all add: put_field_enc)
  then show "wf_buffer b \<Longrightarrow> Bytes (fold (put_field g) fs b) = Bytes b @ concat (map enc fs)"
    by (simp add: bsink.sink_append_all)
qed

lemma sint_word_of_int16: "- (2 ^ 15) \<le> i \<Longrightarrow> i < 2 ^ 15 \<Longrightarrow> sint (word_of_int i :: uint16) = i"
  by (simp add: int_word_sint)

lemma sint_word_of_int32: "- (2 ^ 31) \<le> i \<Longrightarrow> i < 2 ^ 31 \<Longrightarrow> sint (word_of_int i :: uint32) = i"
  by (simp add: int_word_sint)

lemma sint_word_of_int64: "- (2 ^ 63) \<le> i \<Longrightarrow> i < 2 ^ 63 \<Longrightarrow> sint (word_of_int i :: uint64) = i"
  by (simp add: int_word_sint)

lemmas sint_back = sint_word_of_int16 sint_word_of_int32 sint_word_of_int64

lemma rest_advance:
  "rest r = xs @ ys \<Longrightarrow> rest (r\<lparr>offset := offset r + length xs\<rparr>) = ys"
  by (metis add.commute append_eq_conv_conj drop_drop reader.select_convs(1,2)
      reader.surjective reader.update_convs(2) rest_def)

lemma rest_fits:
  assumes "rest r = xs @ ys" and "wf_reader r"
  shows "offset r + length xs \<le> length (rbs r)" and "window r (length xs) = xs"
proof -
  have "length (rest r) = length xs + length ys" using assms(1) by simp
  then show "offset r + length xs \<le> length (rbs r)"
    using assms(2) by (simp add: rest_def wf_reader_def)
  show "window r (length xs) = xs"
    using assms(1) by (simp add: window_def rest_def)
qed

lemma get_field_enc:
  assumes "wf_reader r" and "in_range f" and "rest r = enc f @ ys"
  shows "get_field (kind_of f) r = Ret (Inr (read_back f), r\<lparr>offset := offset r + length (enc f)\<rparr>)"
proof -
  note fits = rest_fits [OF assms(3,1)]
  have nth: "rbs r ! offset r = v" if "enc f = [v]" for v
  proof -
    have "rest r ! 0 = v" using assms(3) that by simp
    then show ?thesis using fits(1) that by (simp add: rest_def)
  qed
  show ?thesis
    using fits nth assms(2)
    by (cases f) (simp_all add: check_get_defs be_get_put sint_back uint_word_of_int)
qed

lemma get_fields_enc:
  assumes "wf_reader r" and "\<forall>f \<in> set fs. in_range f" and "rest r = concat (map enc fs)"
  shows "\<exists>r'. get_fields (map kind_of fs) r = Ret (Inr (map read_back fs), r') \<and> rest r' = [] \<and> wf_reader r'"
  using assms
proof (induction fs arbitrary: r)
  case Nil
  then show ?case by simp
next
  case (Cons f fs)
  let ?r = "r\<lparr>offset := offset r + length (enc f)\<rparr>"
  have rest: "rest r = enc f @ concat (map enc fs)" using Cons.prems(3) by simp
  have step: "get_field (kind_of f) r = Ret (Inr (read_back f), ?r)"
    using get_field_enc [OF Cons.prems(1) _ rest] Cons.prems(2) by simp
  have "rest ?r = concat (map enc fs)" using rest by (rule rest_advance)
  moreover have "wf_reader ?r"
    using rest_fits(1) [OF rest Cons.prems(1)] by (simp add: wf_reader_def)
  ultimately obtain r' where "get_fields (map kind_of fs) ?r = Ret (Inr (map read_back fs), r')"
      "rest r' = []" "wf_reader r'"
    using Cons.IH [of ?r] Cons.prems(2) by auto
  then show ?case by (simp add: step)
qed

lemma wf_NewReader [simp, wf_pres]: "wf_reader (NewReader a)"
  by (cases a) (simp_all add: NewReader_def wf_reader_def)

lemma rest_NewReader_buffer [simp]: "rest (NewReader (ArgBuffer b)) = Bytes b"
  by (simp add: NewReader_def rest_def Bytes_def)

lemma IsOver_rest: "IsOver r \<longleftrightarrow> rest r = []"
  by (auto simp: IsOver_def rest_def)

text \<open>C11. Wire round trip: whatever typed values are appended to a new buffer, in any order and
  number, the matching checked getters of a reader over that buffer return those values in that
  order, report no error, and leave the reader at its end; an \<open>int\<close> appended by \<open>AppendInt\<close> comes back modulo \<open>2 ^ 32\<close>, so unchanged
  exactly when it is between 0 and \<open>2 ^ 32\<close>, every other value unchanged.\<close>

theorem buffer_roundtrip:
  assumes "\<forall>f \<in> set fs. in_range f"
  shows "\<exists>r'. get_fields (map kind_of fs) (NewReader (ArgBuffer (fold (put_field g) fs (New os))))
           = Ret (Inr (map read_back fs), r') \<and> IsOver r'"
proof -
  have "Bytes (fold (put_field g) fs (New os)) = concat (map enc fs)"
    by (simp add: put_fields_Bytes)
  then show ?thesis
    using get_fields_enc [of "NewReader (ArgBuffer (fold (put_field g) fs (New os)))" fs] assms
    by (auto simp: IsOver_rest)
qed

theorem buffer_roundtrip_witness:
  "\<exists>r'. get_fields (map kind_of [FInt16 (-5), FString [104, 105], FInt (-1), FUint32 7])
      (NewReader (ArgBuffer (fold (put_field (\<lambda>_ n. n)) [FInt16 (-5), FString [104, 105], FInt (-1), FUint32 7]
         (New [])))) = Ret (Inr [FInt16 (-5), FString [104, 105], FInt 4294967295, FUint32 7], r') \<and> IsOver r'"
  using buffer_roundtrip [of "[FInt16 (-5), FString [104, 105], FInt (-1), FUint32 7]" "\<lambda>_ n. n" "[]"] by simp

section \<open>Bounds of the reader\<close>

fun width :: "kind \<Rightarrow> nat" where
  "width KByte = 1"
| "width KUint16 = 2"
| "width KInt16 = 2"
| "width KUint32 = 4"
| "width KInt32 = 4"
| "width KInt = 4"
| "width KUint64 = 8"
| "width KInt64 = 8"
| "width (KBytes n) = nat n"
| "width (KString n) = nat n"

text \<open>A size that is not negative.\<close>

fun sized :: "kind \<Rightarrow> bool" where
  "sized (KBytes n) \<longleftrightarrow> 0 \<le> n"
| "sized (KString n) \<longleftrightarrow> 0 \<le> n"
| "sized _ \<longleftrightarrow> True"

lemma get_field_width:
  assumes "wf_reader r" and "sized k"
  shows "if length (rest r) < width k then get_field k r = Ret (Inl ErrBeyondSize, r)
         else \<exists>f. get_field k r = Ret (Inr f, r\<lparr>offset := offset r + width k\<rparr>)"
  using assms
  by (cases k) (auto simp: check_get_defs rest_def wf_reader_def)

lemma get_field_negative: "wf_reader r \<Longrightarrow> \<not> sized k \<Longrightarrow> get_field k r = Panic SliceBounds"
  by (cases k) (auto simp: check_get_defs wf_reader_def)

lemma Get_wf_reader [wf_pres]:
  assumes "wf_reader r"
  shows "wf_reader (snd (GetByte r))" "wf_reader (snd (GetUint16 r))" "wf_reader (snd (GetInt16 r))"
    "wf_reader (snd (GetUint32 r))" "wf_reader (snd (GetInt32 r))" "wf_reader (snd (GetInt r))"
    "wf_reader (snd (GetUint64 r))" "wf_reader (snd (GetInt64 r))"
  using assms by (auto simp: get_defs wf_reader_def split: if_splits)

lemma GetBytes_Ret:
  assumes "wf_reader r" and "0 \<le> n"
  shows "\<exists>r'. GetBytes r n = Ret (take (nat n) (rest r), r') \<and> wf_reader r' \<and>
           rest r' = drop (nat n) (rest r)"
proof -
  let ?m = "min (nat n) (length (rbs r) - offset r)"
  have "GetBytes r n = Ret (window r ?m, r\<lparr>offset := offset r + ?m\<rparr>)"
    using assms by (auto simp: GetBytes_def slice_advance_def wf_reader_def Let_def min_def nat_diff_distrib
        intro!: arg_cong2 [where f = window])
  moreover have "window r ?m = take (nat n) (rest r)"
    by (simp add: window_def rest_def min_def)
  ultimately show ?thesis
    using assms by (auto simp: wf_reader_def rest_def min_def add.commute)
qed

text \<open>C17. The checked getters never read past the end: when the reader has too few bytes left
  they return \<open>ErrBeyondSize\<close> and leave the reader where it was; otherwise they
  return a value, advance by exactly its width and stay within bounds. Only \<open>CheckGetBytes\<close> and \<open>CheckGetString\<close> can panic, and they
  do so exactly when they are asked for a negative number of bytes: the check does not see that.\<close>

theorem reader_bounds:
  assumes "wf_reader r"
  shows "if \<not> sized k then get_field k r = Panic SliceBounds
         else if length (rest r) < width k then get_field k r = Ret (Inl ErrBeyondSize, r)
         else \<exists>f r'. get_field k r = Ret (Inr f, r') \<and> wf_reader r' \<and>
                rbs r' = rbs r \<and> GetOffset r' = GetOffset r + width k \<and> rest r' = drop (width k) (rest r)"
proof (cases "sized k \<and> \<not> length (rest r) < width k")
  case True
  then obtain f where "get_field k r = Ret (Inr f, r\<lparr>offset := offset r + width k\<rparr>)"
    using get_field_width [OF assms, of k] by auto
  then show ?thesis
    using True assms by (auto simp: wf_reader_def rest_def GetOffset_def add.commute)
next
  case False
  then show ?thesis using get_field_width [OF assms, of k] get_field_negative [OF assms, of k] by auto
qed

theorem reader_bounds_witness:
  "get_field KUint32 (NewReader (ArgBytes [1, 2])) = Ret (Inl ErrBeyondSize, NewReader (ArgBytes [1, 2])) \<and>
   get_field (KString (-1)) (NewReader (ArgBytes [1, 2])) = Panic SliceBounds"
  using reader_bounds [of "NewReader (ArgBytes [1, 2])" KUint32] reader_bounds [of "NewReader (ArgBytes [1, 2])" "KString (-1)"]
  by (simp add: NewReader_def rest_def wf_reader_def)

text \<open>Back-patching a header: \<open>SetUint32\<close> at a position inside the contents replaces exactly
  the four bytes there by the big-endian value and changes nothing else.\<close>

theorem SetUint32_patch:
  assumes "wf_buffer b" and "0 \<le> pos" and "nat pos + 4 \<le> Len b"
  shows "\<exists>b'. Buffer_SetUint32 b pos u = Ret b' \<and> wf_buffer b' \<and> Cap b' = Cap b \<and>
           Bytes b' = take (nat pos) (Bytes b) @ be_put 4 u @ drop (nat pos + 4) (Bytes b)"
  using assms
  by (auto simp: Buffer_SetUint32_def reslice_def wf_buffer_def Bytes_def Len_def Cap_def slice_defs
      min_def take_drop)

theorem SetUint32_patch_witness:
  "\<exists>b'. Buffer_SetUint32 (Buffer_AppendUint32 (\<lambda>_ _. 0) (New []) 0) 0 258 = Ret b' \<and> wf_buffer b' \<and>
     Cap b' = Cap (Buffer_AppendUint32 (\<lambda>_ _. 0) (New []) 0) \<and> Bytes b' = [0, 0, 1, 2]"
proof -
  let ?b = "Buffer_AppendUint32 (\<lambda>_ _. 0) (New []) 0"
  have wf: "wf_buffer ?b" by (simp add: Buffer_AppendUint32_def)
  have len: "nat 0 + 4 \<le> Len ?b"
    by (simp add: wf Len_Bytes) (simp add: Buffer_AppendUint32_def)
  have "be_put 4 (258 :: uint32) = [0, 0, 1, 2]" by code_simp
  moreover have "drop 4 (Bytes ?b) = []"
    by (simp add: Buffer_AppendUint32_def)
  ultimately show ?thesis using SetUint32_patch [OF wf _ len, of 258] by simp
qed

text \<open>\<open>AppendInt\<close> keeps the low 32 bits of its argument and \<open>GetInt\<close> reads them as an
  unsigned number, so a value is read back modulo \<open>2 ^ 32\<close>: the pair is a round trip exactly on
  the values of an unsigned 32-bit integer, unlike \<open>AppendInt32\<close> and \<open>GetInt32\<close>, and a negative
  value comes back as a large positive one.\<close>

theorem AppendInt_GetInt:
  "fst (GetInt (NewReader (ArgBuffer (Buffer_AppendInt g (New os) i)))) = i mod 2 ^ 32"
proof -
  let ?w = "word_of_int i :: uint32"
  have bytes: "Bytes (Buffer_AppendInt g (New os) i) = be_put 4 ?w"
    by (simp add: Buffer_AppendInt_def Buffer_AppendUint32_def Let_def)
  have "window (NewReader (ArgBuffer (Buffer_AppendInt g (New os) i))) 4 = be_put 4 ?w"
    using bytes by (simp add: NewReader_def window_def Bytes_def)
  then have "fst (GetInt (NewReader (ArgBuffer (Buffer_AppendInt g (New os) i)))) = uint ?w"
    using bytes by (simp add: GetInt_def GetUint32_def NewReader_def Bytes_def be_get_put)
  then show ?thesis by (simp add: uint_word_of_int)
qed

end
