(* ===== verification/SocksProxy.thy ===== *)
theory SocksProxy
  imports Buffers
begin

text \<open>
  The proxy of \<open>src/example/sock_proxy.go\<close>: the handshakes of SOCKS 4 and 5 as a state machine over what the client has sent, and the
  forwarding in both directions. The program uses a \<open>ByteBuffer\<close> that is not in the sources: its operations are the argument \<open>B\<close>, with the
  locale \<open>byte_buffer\<close> for what their names promise, interpreted on the library's \<open>Buffer\<close>. The answer of \<open>Dial\<close> is an argument
  too. The handlers run one after the other, except for the end of a handshake: the receive goroutine of the server's session is
  started before the reply is sent, so sending it is a step of its own.
\<close>

section \<open>Definitions: constants and buffers\<close>

datatype px_status = CHECK_VERSION | PROCESS_REQUEST | ESTABLISHED

definition SOCKS_VERSION_4 :: byte where "SOCKS_VERSION_4 = 4"
definition SOCKS_VERSION_5 :: byte where "SOCKS_VERSION_5 = 5"

definition SOCKS5_AUTH_NONE :: byte where "SOCKS5_AUTH_NONE = 0"
definition SOCKS5_AUTH_UNACCEPTABLE :: byte where "SOCKS5_AUTH_UNACCEPTABLE = 255"

definition SOCKS_CMD_CONNECT :: byte where "SOCKS_CMD_CONNECT = 1"

definition SOCKS5_ATYP_IPV4 :: byte where "SOCKS5_ATYP_IPV4 = 1"
definition SOCKS5_ATYP_IPV6 :: byte where "SOCKS5_ATYP_IPV6 = 4"

text \<open>The replies are a block of constants of which only the first has a value: Go repeats that expression, so all of them are 0.\<close>

definition SOCKS5_SUCCEEDED :: byte where "SOCKS5_SUCCEEDED = 0"
definition SOCKS5_COMMAND_NOT_SUPPORTED :: byte where "SOCKS5_COMMAND_NOT_SUPPORTED = SOCKS5_SUCCEEDED"
definition SOCKS5_ADDRESS_TYPE_NOT_SUPPORTED :: byte where "SOCKS5_ADDRESS_TYPE_NOT_SUPPORTED = SOCKS5_SUCCEEDED"

record 'b bytebuffer =
  NewByteBuffer :: "nat \<Rightarrow> 'b"
  bb_AppendBytes :: "'b \<Rightarrow> byte list \<Rightarrow> 'b"
  bb_AppendByte :: "'b \<Rightarrow> byte \<Rightarrow> 'b"
  bb_AppendUint64 :: "'b \<Rightarrow> uint64 \<Rightarrow> 'b"
  bb_PutByte :: "'b \<Rightarrow> nat \<Rightarrow> byte \<Rightarrow> 'b"
  bb_Reset :: "'b \<Rightarrow> 'b"
  bb_Bytes :: "'b \<Rightarrow> byte list"
  bb_Len :: "'b \<Rightarrow> nat"

text \<open>\<open>b[i]\<close> and \<open>b[i:j]\<close>.\<close>

definition idx :: "byte list \<Rightarrow> nat \<Rightarrow> byte go" where
  "idx b i = (if i < length b then Ret (b ! i) else Panic IndexOutOfRange)"

definition sub_bytes :: "byte list \<Rightarrow> nat \<Rightarrow> nat \<Rightarrow> byte list go" where
  "sub_bytes b i j = (if i \<le> j \<and> j \<le> length b then Ret (take (j - i) (drop i b)) else Panic SliceBounds)"

section \<open>Definitions: the session\<close>

text \<open>\<open>px_client\<close> and \<open>px_server\<close>: the pointers are not nil. \<open>px_reply\<close> is the reply that the handler of the client's last message, still
  running, has to send. The histories are the messages sent to either side and the addresses
  dialled.\<close>

record 'b proxy =
  px_client :: bool
  px_server :: bool
  px_buff :: 'b
  px_stat :: px_status
  px_closed :: bool
  px_reply :: "byte list option"
  to_client :: "byte list list"
  to_server :: "byte list list"
  dials :: "(byte list \<times> uint16) list"

definition new_proxy :: "'b bytebuffer \<Rightarrow> 'b proxy" where
  "new_proxy B = \<lparr>px_client = True, px_server = False, px_buff = NewByteBuffer B 128, px_stat = CHECK_VERSION, px_closed = False, px_reply = None,
     to_client = [], to_server = [], dials = []\<rparr>"

definition px_Close :: "'b proxy \<Rightarrow> 'b proxy go" where
  "px_Close p =
     (if px_closed p then Ret p
      else if \<not> px_client p then Panic NilDeref
      else Ret (p\<lparr>px_closed := True, px_client := False, px_server := False\<rparr>))"

definition client_SendMessage :: "byte list \<Rightarrow> 'b proxy \<Rightarrow> 'b proxy go" where
  "client_SendMessage msg p = (if px_client p then Ret (p\<lparr>to_client := to_client p @ [msg]\<rparr>) else Panic NilDeref)"

definition server_SendMessage :: "byte list \<Rightarrow> 'b proxy \<Rightarrow> 'b proxy go" where
  "server_SendMessage msg p = (if px_server p then Ret (p\<lparr>to_server := to_server p @ [msg]\<rparr>) else Panic NilDeref)"

definition onServerEvent :: "byte list \<Rightarrow> 'b proxy \<Rightarrow> 'b proxy go" where
  "onServerEvent msg p = client_SendMessage msg p"

text \<open>The end of both handshakes: \<open>Dial\<close>, and on success the new state of the session and \<open>BeginRecv\<close>, from where on the server's messages
  are handled; the reply is still to be sent. After an error the handler just returns.\<close>

definition establish :: "(byte list \<Rightarrow> uint16 \<Rightarrow> string option) \<Rightarrow> byte list \<Rightarrow> uint16 \<Rightarrow> byte list \<Rightarrow> 'b proxy \<Rightarrow> 'b proxy go" where
  "establish dial ip port response p =
     (let p1 = p\<lparr>dials := dials p @ [(ip, port)]\<rparr> in
      case dial ip port of
        Some e \<Rightarrow> Ret p1
      | None \<Rightarrow> Ret (p1\<lparr>px_server := True, px_stat := ESTABLISHED, px_reply := Some response\<rparr>))"

definition send_reply :: "'b proxy \<Rightarrow> 'b proxy go" where
  "send_reply p = (case px_reply p of None \<Rightarrow> Ret p | Some response \<Rightarrow> client_SendMessage response (p\<lparr>px_reply := None\<rparr>))"

text \<open>A response that refuses, and the close that follows it.\<close>

definition refuse :: "byte list \<Rightarrow> 'b proxy \<Rightarrow> 'b proxy go" where
  "refuse response p = bind_go (client_SendMessage response p) px_Close"

definition ProcessSockV4 :: "'b bytebuffer \<Rightarrow> (byte list \<Rightarrow> uint16 \<Rightarrow> string option) \<Rightarrow> 'b proxy \<Rightarrow> 'b proxy go" where
  "ProcessSockV4 B dial p =
     (if bb_Len B (px_buff p) \<ge> 9 then
        (let b = bb_Bytes B (px_buff p);
             responseBuff = bb_AppendUint64 B (NewByteBuffer B 8) 0;
             answer = (\<lambda>v. bb_Bytes B (bb_PutByte B responseBuff 1 v))
         in bind_go (idx b 8) (\<lambda>b8.
              if b8 \<noteq> 0 then refuse (answer 91) p
              else bind_go (idx b 1) (\<lambda>CMD.
                if CMD \<noteq> SOCKS_CMD_CONNECT then refuse (answer 91) p
                else bind_go (sub_bytes b 2 4) (\<lambda>pt. bind_go (sub_bytes b 4 8) (\<lambda>ip.
                  establish dial ip (be_get pt) (answer 90) p)))))
      else Ret p)"

text \<open>The loop over the methods that the client offers.\<close>

fun scan_methods :: "byte list \<Rightarrow> nat \<Rightarrow> nat \<Rightarrow> byte \<Rightarrow> byte go" where
  "scan_methods b i 0 METHOD = Ret METHOD"
| "scan_methods b i (Suc n) METHOD =
     bind_go (idx b i) (\<lambda>v. scan_methods b (Suc i) n (if v = SOCKS5_AUTH_NONE then SOCKS5_AUTH_NONE else METHOD))"

text \<open>\<open>ProcessSockV5\<close> in its first state. \<open>2+NMETHODS\<close> is a sum of bytes.\<close>

definition check_version :: "'b bytebuffer \<Rightarrow> 'b proxy \<Rightarrow> 'b proxy go" where
  "check_version B p =
     (if bb_Len B (px_buff p) \<ge> 2 then
        (let b = bb_Bytes B (px_buff p) in
         bind_go (idx b 0) (\<lambda>VER.
           if VER \<noteq> SOCKS_VERSION_5 then px_Close p
           else bind_go (idx b 1) (\<lambda>NMETHODS.
             bind_go (if bb_Len B (px_buff p) \<ge> unat (2 + NMETHODS) then scan_methods b 2 (unat NMETHODS) SOCKS5_AUTH_UNACCEPTABLE
                      else Ret SOCKS5_AUTH_UNACCEPTABLE) (\<lambda>METHOD.
               let p1 = p\<lparr>px_buff := bb_Reset B (px_buff p)\<rparr>;
                   response = bb_Bytes B (bb_AppendByte B (bb_AppendByte B (NewByteBuffer B 2) VER) METHOD)
               in bind_go (client_SendMessage response p1) (\<lambda>p2.
                    if METHOD \<noteq> SOCKS5_AUTH_NONE then px_Close p2 else Ret (p2\<lparr>px_stat := PROCESS_REQUEST\<rparr>))))))
      else Ret p)"

text \<open>\<open>ProcessSockV5\<close> in its second state.\<close>

definition process_request :: "'b bytebuffer \<Rightarrow> (byte list \<Rightarrow> uint16 \<Rightarrow> string option) \<Rightarrow> 'b proxy \<Rightarrow> 'b proxy go" where
  "process_request B dial p =
     (if bb_Len B (px_buff p) \<ge> 4 then
        (let b = bb_Bytes B (px_buff p); len = bb_Len B (px_buff p) in
         bind_go (idx b 1) (\<lambda>CMD. bind_go (idx b 0) (\<lambda>VER.
           let resp = bb_AppendByte B (NewByteBuffer B 12) VER in
           if CMD \<noteq> SOCKS_CMD_CONNECT then refuse (bb_Bytes B (bb_AppendByte B resp SOCKS5_COMMAND_NOT_SUPPORTED)) p
           else bind_go (idx b 3) (\<lambda>ATYP.
             if ATYP \<noteq> SOCKS5_ATYP_IPV4 \<and> ATYP \<noteq> SOCKS5_ATYP_IPV6
             then refuse (bb_Bytes B (bb_AppendByte B resp SOCKS5_ADDRESS_TYPE_NOT_SUPPORTED)) p
             else
               (let addrSize = (if ATYP = SOCKS5_ATYP_IPV4 then 4 else 8) in
                if len < 6 + addrSize then Ret p
                else bind_go (sub_bytes b (4 + addrSize) (6 + addrSize)) (\<lambda>pt.
                  bind_go (sub_bytes b 4 (4 + addrSize)) (\<lambda>ip.
                    bind_go (sub_bytes b 3 (6 + addrSize)) (\<lambda>addr.
                      establish dial ip (be_get pt)
                        (bb_Bytes B (bb_AppendBytes B (bb_AppendByte B (bb_AppendByte B resp SOCKS5_SUCCEEDED) 0) addr)) p))))))))
      else Ret p)"

definition ProcessSockV5 :: "'b bytebuffer \<Rightarrow> (byte list \<Rightarrow> uint16 \<Rightarrow> string option) \<Rightarrow> 'b proxy \<Rightarrow> 'b proxy go" where
  "ProcessSockV5 B dial p =
     (case px_stat p of CHECK_VERSION \<Rightarrow> check_version B p | PROCESS_REQUEST \<Rightarrow> process_request B dial p | ESTABLISHED \<Rightarrow> Ret p)"

definition ProcessClientMsg :: "'b bytebuffer \<Rightarrow> (byte list \<Rightarrow> uint16 \<Rightarrow> string option) \<Rightarrow> byte list \<Rightarrow> 'b proxy \<Rightarrow> 'b proxy go" where
  "ProcessClientMsg B dial msg p =
     (if px_stat p = ESTABLISHED then server_SendMessage msg p
      else
        (let p1 = p\<lparr>px_buff := bb_AppendBytes B (px_buff p) msg\<rparr>; b = bb_Bytes B (px_buff p1) in
         if length b \<ge> 1 then
           bind_go (idx b 0) (\<lambda>v.
             if v = SOCKS_VERSION_4 then ProcessSockV4 B dial p1
             else if v = SOCKS_VERSION_5 then ProcessSockV5 B dial p1
             else px_Close p1)
         else Ret p1))"

text \<open>The messages of both sides as they come, and the moment at which the handler of a request sends its reply: before the client's
  next message at the latest, since the messages of a session are handled by one goroutine, but possibly after messages of the server.\<close>

datatype px_event = FromClient "byte list" | FromServer "byte list" | SendReply

fun px_run :: "'b bytebuffer \<Rightarrow> (byte list \<Rightarrow> uint16 \<Rightarrow> string option) \<Rightarrow> px_event list \<Rightarrow> 'b proxy \<Rightarrow> 'b proxy go" where
  "px_run B dial [] p = Ret p"
| "px_run B dial (FromClient msg # es) p = bind_go (bind_go (send_reply p) (ProcessClientMsg B dial msg)) (px_run B dial es)"
| "px_run B dial (FromServer msg # es) p = bind_go (onServerEvent msg p) (px_run B dial es)"
| "px_run B dial (SendReply # es) p = bind_go (send_reply p) (px_run B dial es)"

lemma send_reply_None [simp]: "px_reply p = None \<Longrightarrow> send_reply p = Ret p"
  by (simp add: send_reply_def)

lemma new_proxy_reply [simp]: "px_reply (new_proxy B) = None"
  by (simp add: new_proxy_def)

section \<open>What a byte buffer promises\<close>

locale byte_buffer =
  fixes B :: "'b bytebuffer" and inv :: "'b \<Rightarrow> bool"
  assumes new_buffer: "inv (NewByteBuffer B n)" "bb_Bytes B (NewByteBuffer B n) = []"
    and append_bytes: "inv b \<Longrightarrow> inv (bb_AppendBytes B b xs)" "inv b \<Longrightarrow> bb_Bytes B (bb_AppendBytes B b xs) = bb_Bytes B b @ xs"
    and append_byte: "inv b \<Longrightarrow> inv (bb_AppendByte B b v)" "inv b \<Longrightarrow> bb_Bytes B (bb_AppendByte B b v) = bb_Bytes B b @ [v]"
    and append_word: "inv b \<Longrightarrow> inv (bb_AppendUint64 B b w)" "inv b \<Longrightarrow> bb_Bytes B (bb_AppendUint64 B b w) = bb_Bytes B b @ be_put 8 w"
    and put_byte: "inv b \<Longrightarrow> i < length (bb_Bytes B b) \<Longrightarrow> bb_Bytes B (bb_PutByte B b i v) = (bb_Bytes B b)[i := v]"
    and reset_buffer: "inv b \<Longrightarrow> inv (bb_Reset B b)" "inv b \<Longrightarrow> bb_Bytes B (bb_Reset B b) = []"
    and buffer_length: "inv b \<Longrightarrow> bb_Len B b = length (bb_Bytes B b)"
begin

lemmas buffer_simps = new_buffer append_bytes append_byte append_word put_byte reset_buffer buffer_length

text \<open>A session whose handshake is at the given state, with the bytes \<open>b\<close> received and not used.\<close>

definition waiting :: "px_status \<Rightarrow> byte list \<Rightarrow> 'b proxy \<Rightarrow> bool" where
  "waiting st b p \<longleftrightarrow> px_stat p = st \<and> inv (px_buff p) \<and> bb_Bytes B (px_buff p) = b \<and> px_client p \<and> \<not> px_closed p \<and>
     px_reply p = None"

lemma waiting_reply: "waiting st b p \<Longrightarrow> px_reply p = None"
  by (simp add: waiting_def)

lemma new_waiting: "waiting CHECK_VERSION [] (new_proxy B)"
  by (simp add: waiting_def new_proxy_def buffer_simps)

text \<open>The first message of a SOCKS 5 client, with the methods that it offers.\<close>

lemma greeting_accepted:
  assumes w: "waiting CHECK_VERSION [] p" and n: "length ms = unat n"
  shows "\<exists>p'. ProcessClientMsg B dial ([5, n] @ ms) p = Ret p' \<and> dials p' = dials p \<and> to_server p' = to_server p \<and>
    (if 0 \<in> set ms then waiting PROCESS_REQUEST [] p' \<and> to_client p' = to_client p @ [[5, 0]]
     else px_closed p' \<and> to_client p' = to_client p @ [[5, 255]])"
proof -
  have scan: "scan_methods b i k m = Ret (if 0 \<in> set (take k (drop i b)) then 0 else m)" if "i + k \<le> length b" for b i k m
    using that
  proof (induction k arbitrary: i m)
    case (Suc k)
    have "take (Suc k) (drop i b) = b ! i # take k (drop (Suc i) b)"
      using Suc.prems by (simp add: Cons_nth_drop_Suc [symmetric])
    then show ?case using Suc by (simp add: idx_def SOCKS5_AUTH_NONE_def)
  qed simp
  let ?p = "p\<lparr>px_buff := bb_AppendBytes B (px_buff p) ([5, n] @ ms)\<rparr>"
  have b: "bb_Bytes B (px_buff ?p) = 5 # n # ms" "inv (px_buff ?p)" "bb_Len B (px_buff ?p) = 2 + length ms"
    using w by (simp_all add: waiting_def buffer_simps)
  have "unat (2 + n) \<le> 2 + unat n" by (simp add: unat_word_ariths)
  then have le: "unat (2 + n) \<le> bb_Len B (px_buff ?p)" using n b(3) by simp
  have sc: "scan_methods (5 # n # ms) 2 (unat n) SOCKS5_AUTH_UNACCEPTABLE = Ret (if 0 \<in> set ms then 0 else 255)"
    using scan [of 2 "unat n" "5 # n # ms"] n by (simp add: SOCKS5_AUTH_UNACCEPTABLE_def)
  have "ProcessClientMsg B dial ([5, n] @ ms) p = check_version B ?p"
    using w b by (simp add: ProcessClientMsg_def waiting_def idx_def SOCKS_VERSION_4_def SOCKS_VERSION_5_def ProcessSockV5_def Let_def)
  also have "\<dots> = (let m = (if 0 \<in> set ms then 0 else 255); p1 = ?p\<lparr>px_buff := bb_Reset B (px_buff ?p)\<rparr>
      in bind_go (client_SendMessage [5, m] p1) (\<lambda>p2. if m \<noteq> 0 then px_Close p2 else Ret (p2\<lparr>px_stat := PROCESS_REQUEST\<rparr>)))"
    unfolding check_version_def using b le sc
    by (simp add: idx_def SOCKS_VERSION_5_def SOCKS5_AUTH_NONE_def buffer_simps Let_def del: buffer_length)
  finally show ?thesis using w b(2)
    by (auto simp: client_SendMessage_def px_Close_def waiting_def buffer_simps Let_def)
qed

end

context byte_buffer
begin

text \<open>A request for an IPv4 address, whole or in part.\<close>

lemma request_part:
  assumes w: "waiting PROCESS_REQUEST b p" and req: "b @ msg @ later = [5, 1, r, 1] @ ip @ pt" and len: "length ip = 4" "length pt = 2"
    and part: "later \<noteq> []"
  shows "\<exists>p'. ProcessClientMsg B dial msg p = Ret p' \<and> waiting PROCESS_REQUEST (b @ msg) p' \<and> dials p' = dials p \<and>
    to_client p' = to_client p \<and> to_server p' = to_server p"
proof -
  let ?p = "p\<lparr>px_buff := bb_AppendBytes B (px_buff p) msg\<rparr>"
  have b: "bb_Bytes B (px_buff ?p) = b @ msg" "inv (px_buff ?p)" "bb_Len B (px_buff ?p) = length (b @ msg)"
    using w by (simp_all add: waiting_def buffer_simps)
  have n: "length (b @ msg) < 10" using arg_cong [OF req, of length] len part by (cases later) auto
  have pre: "(b @ msg) ! i = ([5, 1, r, 1] @ ip @ pt) ! i" if "i < length (b @ msg)" for i
    using req that nth_append [of "b @ msg" later i] by simp
  have "process_request B dial ?p = Ret ?p"
    using b n pre [of 0] pre [of 1] pre [of 3]
    by (auto simp: process_request_def idx_def SOCKS_CMD_CONNECT_def SOCKS5_ATYP_IPV4_def SOCKS5_ATYP_IPV6_def Let_def)
  moreover have "ProcessClientMsg B dial msg p = (if b @ msg = [] then Ret ?p else process_request B dial ?p)"
    using w b pre [of 0]
    by (auto simp: ProcessClientMsg_def waiting_def idx_def SOCKS_VERSION_4_def SOCKS_VERSION_5_def ProcessSockV5_def Let_def Suc_le_eq)
  ultimately have "ProcessClientMsg B dial msg p = Ret ?p" by simp
  moreover have "waiting PROCESS_REQUEST (b @ msg) ?p" using w b by (simp add: waiting_def)
  ultimately show ?thesis by simp
qed

lemma request_whole:
  assumes w: "waiting PROCESS_REQUEST b p" and req: "b @ msg = [5, 1, r, 1] @ ip @ pt @ extra" and len: "length ip = 4" "length pt = 2"
  shows "ProcessClientMsg B dial msg p =
    establish dial ip (be_get pt) ([5, 0, 0, 1] @ ip @ pt) (p\<lparr>px_buff := bb_AppendBytes B (px_buff p) msg\<rparr>)"
proof -
  let ?p = "p\<lparr>px_buff := bb_AppendBytes B (px_buff p) msg\<rparr>"
  have b: "bb_Bytes B (px_buff ?p) = [5, 1, r, 1] @ ip @ pt @ extra" "inv (px_buff ?p)" "bb_Len B (px_buff ?p) = 10 + length extra"
    using w req len by (simp_all add: waiting_def buffer_simps)
  have s: "sub_bytes ([5, 1, r, 1] @ ip @ pt @ extra) 8 10 = Ret pt" "sub_bytes ([5, 1, r, 1] @ ip @ pt @ extra) 4 8 = Ret ip"
    "sub_bytes ([5, 1, r, 1] @ ip @ pt @ extra) 3 10 = Ret (1 # ip @ pt)"
    using len by (simp_all add: sub_bytes_def)
  have "process_request B dial ?p = establish dial ip (be_get pt) ([5, 0, 0, 1] @ ip @ pt) ?p"
    unfolding process_request_def b(1,3) using s
    by (simp add: idx_def SOCKS_CMD_CONNECT_def SOCKS5_ATYP_IPV4_def SOCKS5_SUCCEEDED_def buffer_simps(1-12) Let_def)
  then show ?thesis using w b
    by (simp add: ProcessClientMsg_def waiting_def idx_def SOCKS_VERSION_4_def SOCKS_VERSION_5_def ProcessSockV5_def Let_def)
qed

end

context byte_buffer
begin

lemma request_pieces:
  assumes "waiting PROCESS_REQUEST b p" and "b @ concat cs @ c = [5, 1, r, 1] @ ip @ pt" and "length ip = 4" "length pt = 2" and "c \<noteq> []"
  shows "\<exists>p'. (\<forall>es. px_run B dial (map FromClient cs @ es) p = px_run B dial es p') \<and> waiting PROCESS_REQUEST (b @ concat cs) p' \<and>
    dials p' = dials p \<and> to_client p' = to_client p \<and> to_server p' = to_server p"
  using assms(1,2)
proof (induction cs arbitrary: b p)
  case Nil
  then show ?case by (intro exI [of _ p]) simp
next
  case (Cons m cs)
  have "b @ m @ (concat cs @ c) = [5, 1, r, 1] @ ip @ pt" "concat cs @ c \<noteq> []" using Cons.prems(2) assms(5) by simp_all
  from request_part [OF Cons.prems(1) this(1) assms(3,4) this(2)] obtain p1 where
      p1: "ProcessClientMsg B dial m p = Ret p1" "waiting PROCESS_REQUEST (b @ m) p1" "dials p1 = dials p"
        "to_client p1 = to_client p" "to_server p1 = to_server p" by blast
  have "(b @ m) @ concat cs @ c = [5, 1, r, 1] @ ip @ pt" using Cons.prems(2) by simp
  from Cons.IH [OF p1(2) this] obtain p' where "\<forall>es. px_run B dial (map FromClient cs @ es) p1 = px_run B dial es p'"
      "waiting PROCESS_REQUEST ((b @ m) @ concat cs) p'" "dials p' = dials p1" "to_client p' = to_client p1" "to_server p' = to_server p1" by blast
  then show ?case using p1 waiting_reply [OF Cons.prems(1)] by (intro exI [of _ p']) simp
qed

end

text \<open>What was said after the handshake.\<close>

definition client_said :: "px_event list \<Rightarrow> byte list list" where
  "client_said es = [m. FromClient m \<leftarrow> es]"

definition server_said :: "px_event list \<Rightarrow> byte list list" where
  "server_said es = [m. FromServer m \<leftarrow> es]"

lemma px_run_early:
  "px_client p \<Longrightarrow> px_run B dial (map FromServer ms @ es) p = px_run B dial es (p\<lparr>to_client := to_client p @ ms\<rparr>)"
  by (induction ms arbitrary: p) (simp_all add: onServerEvent_def client_SendMessage_def)

lemma px_run_relays:
  assumes "px_stat p = ESTABLISHED" and "px_client p" and "px_server p" and "px_reply p = None"
  shows "px_run B dial es p = Ret (p\<lparr>to_client := to_client p @ server_said es, to_server := to_server p @ client_said es\<rparr>)"
  using assms
proof (induction es arbitrary: p)
  case Nil
  then show ?case by (simp add: client_said_def server_said_def)
next
  case (Cons e es)
  then show ?case
    by (cases e) (simp_all add: ProcessClientMsg_def onServerEvent_def client_SendMessage_def server_SendMessage_def
        client_said_def server_said_def)
qed

context byte_buffer
begin

lemma session_connects:
  assumes "length ms = unat n" and "0 \<in> set ms" and "length ip = 4" "length pt = 2"
    and "concat cs @ c = [5, 1, r, 1] @ ip @ pt @ extra" and "length (concat cs) < 10"
  shows "\<exists>p. waiting PROCESS_REQUEST (concat cs) p \<and> dials p = [] \<and> to_client p = [[5, 0]] \<and> to_server p = [] \<and>
    (\<forall>es. px_run B dial (FromClient ([5, n] @ ms) # map FromClient (cs @ [c]) @ es) (new_proxy B) =
       bind_go (establish dial ip (be_get pt) ([5, 0, 0, 1] @ ip @ pt) (p\<lparr>px_buff := bb_AppendBytes B (px_buff p) c\<rparr>)) (px_run B dial es))"
proof -
  from greeting_accepted [OF new_waiting assms(1), of dial] assms(2) obtain p1 where
      p1: "ProcessClientMsg B dial ([5, n] @ ms) (new_proxy B) = Ret p1" "waiting PROCESS_REQUEST [] p1" "dials p1 = []"
        "to_client p1 = [[5, 0]]" "to_server p1 = []" by (auto simp: new_proxy_def)
  let ?req = "[5, 1, r, 1] @ ip @ pt"
  have len: "length ?req = 10" using assms(3,4) by simp
  have "take (length (concat cs)) (?req @ extra) = concat cs" using assms(5) by (metis append_assoc append_eq_conv_conj)
  moreover have "take (length (concat cs)) (?req @ extra) = take (length (concat cs)) ?req"
    using assms(6) len take_append [of "length (concat cs)" ?req extra] by (simp del: append_Cons)
  ultimately have whole: "[] @ concat cs @ drop (length (concat cs)) ?req = ?req" by (metis append_Nil append_take_drop_id)
  have "drop (length (concat cs)) ?req \<noteq> []" using assms(6) len by simp
  from request_pieces [OF p1(2) whole assms(3,4) this, of dial] obtain p where
      p: "\<And>es. px_run B dial (map FromClient cs @ es) p1 = px_run B dial es p" "waiting PROCESS_REQUEST (concat cs) p"
        "dials p = []" "to_client p = [[5, 0]]" "to_server p = []" using p1(3-5) by auto
  have "px_run B dial (FromClient ([5, n] @ ms) # map FromClient (cs @ [c]) @ es) (new_proxy B) =
       bind_go (establish dial ip (be_get pt) ([5, 0, 0, 1] @ ip @ pt) (p\<lparr>px_buff := bb_AppendBytes B (px_buff p) c\<rparr>)) (px_run B dial es)" for es
    using p1(1) p(1) [of "FromClient c # es"] request_whole [OF p(2) assms(5,3,4), of dial] waiting_reply [OF p(2)] by simp
  then show ?thesis using p(2-5) by blast
qed

text \<open>Fewer methods than the first message announces: none is looked at, unless the sum of bytes has wrapped.\<close>

lemma short_greeting:
  assumes "length ms < unat n"
  shows "\<exists>p. ProcessClientMsg B dial ([5, n] @ ms) (new_proxy B) =
      (if unat (2 + n) \<le> 2 + length ms then Panic IndexOutOfRange else Ret p) \<and> px_closed p \<and> to_client p = [[5, 255]]"
proof -
  have scan: "scan_methods b i k m = Panic IndexOutOfRange" if "i \<le> length b" "length b < i + k" for b i k m
    using that by (induction k arbitrary: i m) (auto simp: idx_def)
  let ?p = "(new_proxy B)\<lparr>px_buff := bb_AppendBytes B (px_buff (new_proxy B)) ([5, n] @ ms)\<rparr>"
  have w: "px_client ?p" "\<not> px_closed ?p" "px_stat ?p = CHECK_VERSION" "to_client ?p = []" by (simp_all add: new_proxy_def)
  have b: "bb_Bytes B (px_buff ?p) = 5 # n # ms" "inv (px_buff ?p)" "bb_Len B (px_buff ?p) = 2 + length ms"
    by (simp_all add: new_proxy_def buffer_simps)
  have sc: "scan_methods (5 # n # ms) 2 (unat n) SOCKS5_AUTH_UNACCEPTABLE = Panic IndexOutOfRange"
    using scan [of 2 "5 # n # ms" "unat n"] assms by simp
  let ?q = "?p\<lparr>px_buff := bb_Reset B (px_buff ?p), to_client := [[5, 255]], px_closed := True, px_client := False, px_server := False\<rparr>"
  have "ProcessClientMsg B dial ([5, n] @ ms) (new_proxy B) = check_version B ?p"
    using b w(3) by (simp add: ProcessClientMsg_def idx_def SOCKS_VERSION_4_def SOCKS_VERSION_5_def ProcessSockV5_def Let_def)
  also have "\<dots> = (if unat (2 + n) \<le> 2 + length ms then Panic IndexOutOfRange else Ret ?q)"
    unfolding check_version_def using b sc w
    by (simp add: idx_def SOCKS_VERSION_5_def SOCKS5_AUTH_NONE_def SOCKS5_AUTH_UNACCEPTABLE_def buffer_simps client_SendMessage_def
        px_Close_def Let_def del: buffer_length)
  finally show ?thesis by (intro exI [of _ ?q]) simp
qed

text \<open>A request for anything but a connection.\<close>

lemma request_refused:
  assumes w: "waiting PROCESS_REQUEST [] p" and "cmd \<noteq> 1"
  shows "\<exists>p'. ProcessClientMsg B dial ([5, cmd, r, t] @ msg) p = Ret p' \<and> px_closed p' \<and> to_client p' = to_client p @ [[5, 0]]"
proof -
  let ?p = "p\<lparr>px_buff := bb_AppendBytes B (px_buff p) ([5, cmd, r, t] @ msg)\<rparr>"
  have b: "bb_Bytes B (px_buff ?p) = 5 # cmd # r # t # msg" "inv (px_buff ?p)" "bb_Len B (px_buff ?p) = 4 + length msg"
    using w by (simp_all add: waiting_def buffer_simps)
  have "process_request B dial ?p = refuse [5, 0] ?p"
    unfolding process_request_def b(1,3) using assms(2)
    by (simp add: idx_def SOCKS_CMD_CONNECT_def SOCKS5_COMMAND_NOT_SUPPORTED_def SOCKS5_SUCCEEDED_def buffer_simps(1-12) Let_def)
  then show ?thesis using w b
    by (simp add: ProcessClientMsg_def waiting_def idx_def SOCKS_VERSION_4_def SOCKS_VERSION_5_def ProcessSockV5_def Let_def
        refuse_def client_SendMessage_def px_Close_def)
qed

end

context byte_buffer
begin

text \<open>SOCKS 4: a request in one message, with an empty user name.\<close>

lemma socks4_request:
  assumes w: "waiting CHECK_VERSION [] p" and len: "length pt = 2" "length ip = 4"
  shows "ProcessClientMsg B dial ([4, cmd] @ pt @ ip @ [0]) p =
    (let p1 = p\<lparr>px_buff := bb_AppendBytes B (px_buff p) ([4, cmd] @ pt @ ip @ [0])\<rparr> in
     if cmd = 1 then establish dial ip (be_get pt) [0, 90, 0, 0, 0, 0, 0, 0] p1 else refuse [0, 91, 0, 0, 0, 0, 0, 0] p1)"
proof -
  let ?m = "[4, cmd] @ pt @ ip @ [0]"
  let ?p = "p\<lparr>px_buff := bb_AppendBytes B (px_buff p) ?m\<rparr>"
  have b: "bb_Bytes B (px_buff ?p) = ?m" "inv (px_buff ?p)" "bb_Len B (px_buff ?p) = 9"
    using w len by (simp_all add: waiting_def buffer_simps)
  have s: "sub_bytes ?m 2 4 = Ret pt" "sub_bytes ?m 4 8 = Ret ip" "idx ?m 8 = Ret 0" "idx ?m 1 = Ret cmd"
    using len by (simp_all add: sub_bytes_def idx_def nth_append)
  have z: "be_put 8 (0 :: uint64) = [0, 0, 0, 0, 0, 0, 0, 0]" by code_simp
  have "bb_Bytes B (bb_PutByte B (bb_AppendUint64 B (NewByteBuffer B 8) 0) 1 v) = [0, v, 0, 0, 0, 0, 0, 0]" for v
    by (simp add: buffer_simps z)
  then have "ProcessSockV4 B dial ?p =
      (if cmd = 1 then establish dial ip (be_get pt) [0, 90, 0, 0, 0, 0, 0, 0] ?p else refuse [0, 91, 0, 0, 0, 0, 0, 0] ?p)"
    unfolding ProcessSockV4_def b(1,3) using s by (cases "cmd = 1") (simp_all add: SOCKS_CMD_CONNECT_def Let_def)
  then show ?thesis using w b by (simp add: ProcessClientMsg_def waiting_def idx_def SOCKS_VERSION_4_def Let_def)
qed

end

section \<open>The library's buffer\<close>

definition lib_buffer :: "growth \<Rightarrow> buffer bytebuffer" where
  "lib_buffer g = \<lparr>NewByteBuffer = (\<lambda>n. New [\<lparr>sarr = replicate n 0, slen = 0\<rparr>]), bb_AppendBytes = Buffer_AppendBytes g,
     bb_AppendByte = Buffer_AppendByte g, bb_AppendUint64 = Buffer_AppendUint64 g,
     bb_PutByte = (\<lambda>b i v. b\<lparr>bs := (bs b)\<lparr>sarr := (sarr (bs b))[i := v]\<rparr>\<rparr>),
     bb_Reset = Reset, bb_Bytes = Bytes, bb_Len = Len\<rparr>"

interpretation lb: byte_buffer "lib_buffer g" wf_buffer for g
proof unfold_locales
  fix b i v
  assume "wf_buffer b" "i < length (bb_Bytes (lib_buffer g) b)"
  then show "bb_Bytes (lib_buffer g) (bb_PutByte (lib_buffer g) b i v) = (bb_Bytes (lib_buffer g) b)[i := v]"
    by (simp add: lib_buffer_def Bytes_def slice_defs take_update_swap)
qed (use wf_New Bytes_New wf_Reset Bytes_Reset in
    \<open>auto simp: lib_buffer_def buffer_append_defs wf_buffer_def Bytes_def Len_def append_defs\<close>)

section \<open>Properties\<close>

text \<open>C38. A SOCKS 5 session: a client that offers the method without authentication and asks for an IPv4 address, the request cut into
  messages in any way, is answered as the protocol says, and the proxy dials exactly this address and port once. When that succeeds
  everything the client says in later messages goes to the server and everything the server says to the client, unchanged and in order,
  in whatever order the two speak. What the server says before the reply is sent reaches the client before the reply, and the bytes
  \<open>extra\<close> that follow the request in its last message stay in the buffer: they never reach the server.\<close>

theorem socks5_session:
  assumes "byte_buffer B ok" and "length ms = unat n" and "0 \<in> set ms" and "length ip = 4" "length pt = 2"
    and "concat cs @ c = [5, 1, r, 1] @ ip @ pt @ extra" and "length (concat cs) < 10" and "dial ip (be_get pt) = None"
  shows "\<exists>p. px_run B dial (FromClient ([5, n] @ ms) # map FromClient (cs @ [c]) @ map FromServer early @ SendReply # es) (new_proxy B) = Ret p \<and>
    px_stat p = ESTABLISHED \<and> dials p = [(ip, be_get pt)] \<and>
    to_client p = [[5, 0]] @ early @ [[5, 0, 0, 1] @ ip @ pt] @ server_said es \<and> to_server p = client_said es \<and>
    bb_Bytes B (px_buff p) = [5, 1, r, 1] @ ip @ pt @ extra"
proof -
  let ?es = "map FromServer early @ SendReply # es"
  from byte_buffer.session_connects [OF assms(1-7), of dial] obtain p where
      p: "byte_buffer.waiting B ok PROCESS_REQUEST (concat cs) p" "dials p = []" "to_client p = [[5, 0]]" "to_server p = []"
      and run: "px_run B dial (FromClient ([5, n] @ ms) # map FromClient (cs @ [c]) @ ?es) (new_proxy B) =
       bind_go (establish dial ip (be_get pt) ([5, 0, 0, 1] @ ip @ pt) (p\<lparr>px_buff := bb_AppendBytes B (px_buff p) c\<rparr>)) (px_run B dial ?es)"
    by blast
  have w: "px_client p" "ok (px_buff p)" "bb_Bytes B (px_buff p) = concat cs"
    using p(1) byte_buffer.waiting_def [OF assms(1)] by blast+
  have b: "bb_Bytes B (bb_AppendBytes B (px_buff p) c) = [5, 1, r, 1] @ ip @ pt @ extra"
    using byte_buffer.append_bytes(2) [OF assms(1) w(2), of c] w(3) assms(6) by simp
  show ?thesis unfolding run using p(2-4) w(1) b assms(8)
    by (simp add: establish_def px_run_early send_reply_def client_SendMessage_def px_run_relays)
qed

theorem socks5_session_witness:
  "\<exists>p. px_run (lib_buffer (\<lambda>_ n. n)) (\<lambda>ip port. None) (FromClient ([5, 2] @ [2, 0]) #
       map FromClient ([[5, 1], []] @ [[0, 1, 127, 0, 0, 1, 0, 80, 33]]) @ map FromServer [[6]] @ SendReply # [FromClient [7], FromServer [8], FromServer [9]])
       (new_proxy (lib_buffer (\<lambda>_ n. n))) = Ret p \<and>
     to_client p = [[5, 0], [6], [5, 0, 0, 1, 127, 0, 0, 1, 0, 80], [8], [9]] \<and> to_server p = [[7]]"
  using socks5_session [OF lb.byte_buffer_axioms [of "\<lambda>_ n. n"], of "[2, 0]" 2 "[127, 0, 0, 1]" "[0, 80]" "[[5, 1], []]" "[0, 1, 127, 0, 0, 1, 0, 80, 33]" 0
      "[33]" "\<lambda>ip port. None" "[[6]]" "[FromClient [7], FromServer [8], FromServer [9]]"]
  by (auto simp: server_said_def client_said_def)

text \<open>C39. What the proxy gets wrong, whatever the client's address. A client that announces 254 or 255 methods and sends fewer in its first message
  ends the process: the sum of bytes wraps, and the loop runs past the message. With fewer methods announced, a first message that is
  cut short is refused. A command that is not supported is refused with the code of success. When \<open>Dial\<close> fails the client gets no answer
  and the session stays open.\<close>

theorem socks5_faults:
  assumes "byte_buffer B ok"
  shows "(length ms < unat n \<longrightarrow> 254 \<le> n \<longrightarrow> px_run B dial [FromClient ([5, n] @ ms)] (new_proxy B) = Panic IndexOutOfRange) \<and>
    (length ms < unat n \<longrightarrow> n < 254 \<longrightarrow>
      (\<exists>p. px_run B dial [FromClient ([5, n] @ ms)] (new_proxy B) = Ret p \<and> px_closed p \<and> to_client p = [[5, 255]])) \<and>
    (cmd \<noteq> 1 \<longrightarrow>
      (\<exists>p. px_run B dial [FromClient [5, 1, 0], FromClient [5, cmd, 0, 1]] (new_proxy B) = Ret p \<and> px_closed p \<and> to_client p = [[5, 0], [5, 0]])) \<and>
    (length ip = 4 \<longrightarrow> length pt = 2 \<longrightarrow> dial ip (be_get pt) \<noteq> None \<longrightarrow>
      (\<exists>p. px_run B dial [FromClient [5, 1, 0], FromClient ([5, 1, 0, 1] @ ip @ pt)] (new_proxy B) = Ret p \<and> \<not> px_closed p \<and> to_client p = [[5, 0]]))"
proof (intro conjI impI)
  have wrap: "unat (2 + n) = (2 + unat n) mod 256" by (simp add: unat_word_ariths)
  have bound: "unat n < 256" using unsigned_less [of n] by simp
  note short = byte_buffer.short_greeting [OF assms, of ms n dial]
  show "px_run B dial [FromClient ([5, n] @ ms)] (new_proxy B) = Panic IndexOutOfRange" if "length ms < unat n" "254 \<le> n"
  proof -
    have "254 \<le> unat n" using that(2) by (simp add: word_le_nat_alt)
    then have "unat (2 + n) \<le> 2 + length ms" unfolding wrap using bound by (auto simp: mod_if)
    then show ?thesis using short [OF that(1)] by auto
  qed
  show "\<exists>p. px_run B dial [FromClient ([5, n] @ ms)] (new_proxy B) = Ret p \<and> px_closed p \<and> to_client p = [[5, 255]]"
    if "length ms < unat n" "n < 254"
  proof -
    have "unat n < 254" using that(2) by (simp add: word_less_nat_alt)
    then have "\<not> unat (2 + n) \<le> 2 + length ms" unfolding wrap using that(1) by simp
    then show ?thesis using short [OF that(1)] by auto
  qed
  from byte_buffer.greeting_accepted [OF assms byte_buffer.new_waiting [OF assms], of "[0]" 1 dial] obtain p1 where
      p1: "ProcessClientMsg B dial [5, 1, 0] (new_proxy B) = Ret p1" "byte_buffer.waiting B ok PROCESS_REQUEST [] p1" "to_client p1 = [[5, 0]]"
    by (auto simp: new_proxy_def)
  have reply: "px_reply p1 = None" by (rule byte_buffer.waiting_reply [OF assms p1(2)])
  show "\<exists>p. px_run B dial [FromClient [5, 1, 0], FromClient [5, cmd, 0, 1]] (new_proxy B) = Ret p \<and> px_closed p \<and> to_client p = [[5, 0], [5, 0]]"
    if "cmd \<noteq> 1"
    using byte_buffer.request_refused [OF assms p1(2) that, of dial 0 1 "[]"] p1(1,3) reply by auto
  show "\<exists>p. px_run B dial [FromClient [5, 1, 0], FromClient ([5, 1, 0, 1] @ ip @ pt)] (new_proxy B) = Ret p \<and> \<not> px_closed p \<and> to_client p = [[5, 0]]"
    if l: "length ip = 4" "length pt = 2" and d: "dial ip (be_get pt) \<noteq> None"
  proof -
    obtain e where "dial ip (be_get pt) = Some e" using d by blast
    moreover have "\<not> px_closed p1" using p1(2) byte_buffer.waiting_def [OF assms] by blast
    ultimately show ?thesis
      using byte_buffer.request_whole [OF assms p1(2) _ l, of "[5, 1, 0, 1] @ ip @ pt" 0 "[]" dial] p1(1,3) reply by (simp add: establish_def)
  qed
qed

theorem socks5_faults_witness:
  "px_run (lib_buffer (\<lambda>_ n. n)) (\<lambda>ip port. Some ''refused'') [FromClient ([5, 254] @ [])] (new_proxy (lib_buffer (\<lambda>_ n. n))) = Panic IndexOutOfRange \<and>
   (\<exists>p. px_run (lib_buffer (\<lambda>_ n. n)) (\<lambda>ip port. Some ''refused'') [FromClient [5, 1, 0], FromClient [5, 2, 0, 1]] (new_proxy (lib_buffer (\<lambda>_ n. n))) = Ret p \<and>
      px_closed p \<and> to_client p = [[5, 0], [5, 0]]) \<and>
   (\<exists>p. px_run (lib_buffer (\<lambda>_ n. n)) (\<lambda>ip port. Some ''refused'') [FromClient [5, 1, 0], FromClient ([5, 1, 0, 1] @ [127, 0, 0, 1] @ [0, 80])]
      (new_proxy (lib_buffer (\<lambda>_ n. n))) = Ret p \<and> \<not> px_closed p \<and> to_client p = [[5, 0]])"
proof -
  note f = socks5_faults [OF lb.byte_buffer_axioms [of "\<lambda>_ n. n"], where dial = "\<lambda>ip port. Some ''refused''"]
  show ?thesis using f [of "[]" 254 2 "[127, 0, 0, 1]" "[0, 80]"] by simp
qed

end
