(* ===== verification/CircList.thy ===== *)
theory CircList
  imports KendyPrelude
begin

text \<open>
  The intrusive circular singly linked list with a tail pointer. The source has it four times
  with the same statements: \<open>list.push\<close> and \<open>list.pop\<close> of the event package
  (\<open>src/event/priorityQueue.go\<close>), \<open>handlerSlot.push\<close> and \<open>handlerSlot.pop\<close>
  (\<open>src/event/eventHandler.go\<close>), \<open>linkList.pushItem\<close> and \<open>linkList.popItem\<close>
  (\<open>src/gopool/gopool.go\<close>), and inlined on the free routines of the goroutine pool
  (\<open>putRoutine\<close>, \<open>getRoutine\<close>). The store maps an item's address to its next pointer.
  The theory gives the pointer operations, the abstraction to a HOL list in first-in
  first-out order, and the interface \<open>fifo\<close> with the facts its clients use.
\<close>

type_synonym addr = nat
type_synonym links = "addr \<Rightarrow> addr option"

section \<open>Operations\<close>

text \<open>\<open>push\<close>: the new item becomes the tail and points to the head.\<close>

definition list_push :: "addr \<Rightarrow> links \<times> addr option \<Rightarrow> links \<times> addr option" where
  "list_push item = (\<lambda>(nxt, tail).
     (case tail of
        None \<Rightarrow> (let head = Some item in (nxt(item := head), Some item))
      | Some t \<Rightarrow> (let head = nxt t; nxt' = nxt(t := Some item)
                   in (nxt'(item := head), Some item))))"

text \<open>\<open>pop\<close>: the tail's successor leaves; a broken link would be a nil dereference.\<close>

definition list_pop :: "links \<times> addr option \<Rightarrow> ((links \<times> addr option) \<times> addr option) go" where
  "list_pop = (\<lambda>(nxt, tail).
     (case tail of
        None \<Rightarrow> Ret ((nxt, None), None)
      | Some t \<Rightarrow>
          (case nxt t of
             None \<Rightarrow> Panic NilDeref
           | Some item \<Rightarrow>
               if item = t then Ret ((nxt(item := None), None), Some item)
               else (let nxt' = nxt(t := nxt item)
                     in Ret ((nxt'(item := None), Some t), Some item)))))"

definition list_empty :: "links \<times> addr option \<Rightarrow> bool" where
  "list_empty = (\<lambda>(nxt, tail). tail = None)"

section \<open>Abstraction\<close>

text \<open>\<open>chain nxt xs y\<close>: the items \<open>xs\<close> are linked in this order and the last one points to \<open>y\<close>.\<close>

primrec chain :: "links \<Rightarrow> addr list \<Rightarrow> addr \<Rightarrow> bool" where
  "chain nxt [] y \<longleftrightarrow> True"
| "chain nxt (x # xs) y \<longleftrightarrow> nxt x = Some (hd (xs @ [y])) \<and> chain nxt xs y"

definition circ :: "links \<times> addr option \<Rightarrow> addr list \<Rightarrow> bool" where
  "circ q xs \<longleftrightarrow> distinct xs \<and>
     (if xs = [] then snd q = None
      else snd q = Some (last xs) \<and> chain (fst q) xs (hd xs))"

lemma chain_append:
  "chain nxt (xs @ ys) y \<longleftrightarrow> chain nxt xs (hd (ys @ [y])) \<and> chain nxt ys y"
  by (induction xs) (auto simp: hd_append)

lemma chain_last: "chain nxt xs y \<Longrightarrow> xs \<noteq> [] \<Longrightarrow> nxt (last xs) = Some y"
  by (induction xs) (auto simp: hd_append split: if_splits)

lemma chain_upd [simp]: "a \<notin> set xs \<Longrightarrow> chain (nxt(a := v)) xs y = chain nxt xs y"
  by (induction xs) auto

lemma chain_cong: "(\<And>x. x \<in> set xs \<Longrightarrow> f x = g x) \<Longrightarrow> chain f xs y = chain g xs y"
  by (induction xs) auto

lemma circ_Nil [simp]: "circ (nxt, tail) [] \<longleftrightarrow> tail = None"
  by (simp add: circ_def)

lemma circ_cong:
  "(\<And>x. x \<in> set xs \<Longrightarrow> f x = g x) \<Longrightarrow> circ (f, tail) xs = circ (g, tail) xs"
  by (simp add: circ_def chain_cong [of xs f g])

lemma circ_distinct: "circ q xs \<Longrightarrow> distinct xs"
  by (simp add: circ_def)

lemma circ_empty: "circ q xs \<Longrightarrow> list_empty q = (xs = [])"
  by (cases q) (auto simp: circ_def list_empty_def split: if_splits)

lemma circ_push:
  assumes "circ q xs" and "item \<notin> set xs"
  shows "circ (list_push item q) (xs @ [item])"
proof (cases "xs = []")
  case True
  with assms show ?thesis
    by (cases q) (simp add: circ_def list_push_def)
next
  case False
  obtain nxt tail where q: "q = (nxt, tail)" by (cases q)
  obtain ys t where xs: "xs = ys @ [t]" using False by (metis rev_exhaust)
  have "tail = Some t" "distinct xs" "chain nxt xs (hd xs)"
    using assms(1) by (auto simp: circ_def q xs)
  moreover have "hd (ys @ [t, item]) = hd xs" by (cases ys) (simp_all add: xs)
  ultimately show ?thesis
    using assms(2) by (auto simp: circ_def q xs list_push_def Let_def chain_append)
qed

lemma circ_pop_Nil: "circ q [] \<Longrightarrow> list_pop q = Ret (q, None)"
  by (cases q) (simp add: list_pop_def)

lemma circ_pop_Cons:
  assumes "circ q (x # xs)"
  shows "\<exists>q'. list_pop q = Ret (q', Some x) \<and> circ q' xs"
proof -
  obtain nxt tail where q: "q = (nxt, tail)" by (cases q)
  show ?thesis
  proof (cases "xs = []")
    case True
    with assms show ?thesis by (auto simp: circ_def q list_pop_def)
  next
    case False
    obtain ys t where xs: "xs = ys @ [t]" using False by (metis rev_exhaust)
    have t: "tail = Some t" "distinct (x # xs)" "nxt t = Some x" "x \<noteq> t"
        "nxt x = Some (hd xs)" "chain nxt ys t"
      using assms by (auto simp: circ_def q xs chain_append hd_append)
    have "list_pop q = Ret (((nxt(t := nxt x))(x := None), Some t), Some x)"
      using t by (simp add: q list_pop_def)
    moreover have "circ ((nxt(t := nxt x))(x := None), Some t) xs"
      using t by (auto simp: circ_def xs chain_append hd_append)
    ultimately show ?thesis by blast
  qed
qed

text \<open>An operation on one list changes no link outside its items.\<close>

lemma list_push_frame:
  assumes "circ q xs" and "y \<notin> set xs" and "y \<noteq> item"
  shows "fst (list_push item q) y = fst q y"
proof (cases "xs = []")
  case True
  with assms show ?thesis by (cases q) (simp add: circ_def list_push_def)
next
  case False
  with assms have "snd q = Some (last xs)" "last xs \<noteq> y" by (auto simp: circ_def)
  with assms show ?thesis by (cases q) (simp add: list_push_def Let_def)
qed

lemma list_pop_frame:
  assumes "circ q xs" and "list_pop q = Ret (q', r)" and "y \<notin> set xs"
  shows "fst q' y = fst q y"
proof (cases xs)
  case Nil
  with assms show ?thesis by (simp add: circ_pop_Nil)
next
  case (Cons x ys)
  obtain nxt tail where q: "q = (nxt, tail)" by (cases q)
  have "tail = Some (last xs)" "nxt (last xs) = Some x"
    using assms(1) Cons chain_last [of nxt xs x] by (auto simp: circ_def q)
  moreover have "y \<noteq> last xs" "y \<noteq> x" using assms(3) Cons by (auto dest: last_in_set)
  ultimately show ?thesis using assms(2) by (auto simp: q list_pop_def split: if_splits)
qed

section \<open>The queue interface\<close>

text \<open>
  What the clients of the list rely on: \<open>rep q xs\<close> says that the structure \<open>q\<close> holds the
  items \<open>xs\<close> in arrival order.
\<close>

locale fifo =
  fixes rep :: "'q \<Rightarrow> 'a list \<Rightarrow> bool"
    and push :: "'a \<Rightarrow> 'q \<Rightarrow> 'q"
    and pop :: "'q \<Rightarrow> ('q \<times> 'a option) go"
  assumes rep_push: "rep q xs \<Longrightarrow> x \<notin> set xs \<Longrightarrow> rep (push x q) (xs @ [x])"
    and pop_Nil: "rep q [] \<Longrightarrow> pop q = Ret (q, None)"
    and pop_Cons: "rep q (x # xs) \<Longrightarrow> \<exists>q'. pop q = Ret (q', Some x) \<and> rep q' xs"
begin

lemma rep_pushes:
  "rep q xs \<Longrightarrow> distinct (xs @ ys) \<Longrightarrow> rep (fold push ys q) (xs @ ys)"
proof (induction ys arbitrary: q xs)
  case Nil
  then show ?case by simp
next
  case (Cons y ys)
  then have "rep (push y q) (xs @ [y])" by (auto intro: rep_push)
  from Cons.IH [OF this] Cons.prems(2) show ?case by simp
qed

primrec drain :: "nat \<Rightarrow> 'q \<Rightarrow> ('q \<times> 'a list) go" where
  "drain 0 q = Ret (q, [])"
| "drain (Suc n) q = bind_go (pop q) (\<lambda>(q', r). case r of
      None \<Rightarrow> Ret (q', [])
    | Some x \<Rightarrow> map_ret (\<lambda>(q'', ys). (q'', x # ys)) (drain n q'))"

lemma drain_all: "rep q xs \<Longrightarrow> length xs \<le> n \<Longrightarrow> \<exists>q'. drain n q = Ret (q', xs) \<and> rep q' []"
proof (induction n arbitrary: q xs)
  case 0
  then show ?case by simp
next
  case (Suc n)
  show ?case
  proof (cases xs)
    case Nil
    with Suc.prems show ?thesis by (simp add: pop_Nil)
  next
    case (Cons x ys)
    then obtain q' where q': "pop q = Ret (q', Some x)" "rep q' ys"
      using pop_Cons Suc.prems(1) by blast
    then obtain q'' where "drain n q' = Ret (q'', ys)" "rep q'' []"
      using Suc.IH [of q' ys] Suc.prems(2) Cons by auto
    then show ?thesis using q'(1) Cons by simp
  qed
qed

lemma first_in_first_out:
  assumes "rep q []" and "distinct ys"
  shows "\<exists>q'. drain (length ys) (fold push ys q) = Ret (q', ys) \<and> rep q' []"
  using drain_all [OF rep_pushes [OF assms(1), of ys]] assms(2) by simp

end

interpretation cl: fifo circ list_push list_pop
proof unfold_locales
  fix q x xs assume "circ q (x # xs)"
  then show "\<exists>q'. list_pop q = Ret (q', Some x) \<and> circ q' xs" by (rule circ_pop_Cons)
qed (simp_all add: circ_push circ_pop_Nil)

end
