(* ===== verification/DList.thy ===== *)
theory DList
  imports CircList
begin

text \<open>
  Intrusive doubly linked lists. The source has three: the waiters of a condition variable
  (\<open>stWait\<close> in \<open>src/socket/sendqueue.go\<close>, a ring through a head node), the
  handlers of an event (\<open>handList\<close> in \<open>src/event/eventHandler.go\<close>, between a head and a tail
  node) and the pending calls of a channel (\<open>channelCalls\<close> in \<open>src/rpc/client.go\<close>, a ring whose
  head keeps no valid back pointer). The theory has the two link fields, the segment predicate
  they share, and the two pointer manipulations: linking a node behind another one and unlinking it.
\<close>

section \<open>Links\<close>

record dlinks =
  nnext :: links
  pprev :: links

definition set_next :: "addr \<Rightarrow> addr option \<Rightarrow> dlinks \<Rightarrow> dlinks" where
  "set_next a v l = l\<lparr>nnext := (nnext l)(a := v)\<rparr>"

definition set_prev :: "addr \<Rightarrow> addr option \<Rightarrow> dlinks \<Rightarrow> dlinks" where
  "set_prev a v l = l\<lparr>pprev := (pprev l)(a := v)\<rparr>"

lemma set_next_simps [simp]:
  "nnext (set_next a v l) = (nnext l)(a := v)" "pprev (set_next a v l) = pprev l"
  by (simp_all add: set_next_def)

lemma set_prev_simps [simp]:
  "pprev (set_prev a v l) = (pprev l)(a := v)" "nnext (set_prev a v l) = nnext l"
  by (simp_all add: set_prev_def)

text \<open>\<open>prev.nnext = next; next.pprev = prev; n.nnext = nil; n.pprev = nil\<close>.\<close>

definition unlink :: "addr \<Rightarrow> addr \<Rightarrow> addr \<Rightarrow> dlinks \<Rightarrow> dlinks" where
  "unlink prv n nxt l =
     set_prev n None (set_next n None (set_prev nxt (Some prv) (set_next prv (Some nxt) l)))"

section \<open>Segments\<close>

text \<open>\<open>dseg l a xs b\<close>: following next pointers from \<open>a\<close> visits \<open>xs\<close> and then \<open>b\<close>, and every node
  of \<open>xs\<close> points back to the node before it.\<close>

primrec dseg :: "dlinks \<Rightarrow> addr \<Rightarrow> addr list \<Rightarrow> addr \<Rightarrow> bool" where
  "dseg l a [] b \<longleftrightarrow> nnext l a = Some b"
| "dseg l a (x # xs) b \<longleftrightarrow> nnext l a = Some x \<and> pprev l x = Some a \<and> dseg l x xs b"

lemma dseg_split:
  "dseg l a (xs @ y # ys) b \<longleftrightarrow> dseg l a xs y \<and> pprev l y = Some (last (a # xs)) \<and> dseg l y ys b"
  by (induction xs arbitrary: a) auto

lemma dseg_cong:
  assumes "\<And>x. x \<in> set (a # xs) \<Longrightarrow> nnext l' x = nnext l x"
    and "\<And>x. x \<in> set xs \<Longrightarrow> pprev l' x = pprev l x"
  shows "dseg l' a xs b = dseg l a xs b"
  using assms by (induction xs arbitrary: a) auto

lemma dseg_last: "dseg l a xs b \<Longrightarrow> nnext l (last (a # xs)) = Some b"
  by (induction xs arbitrary: a) auto

lemma dseg_append_back:
  assumes "dseg l a xs b" and "n \<notin> set (a # xs)" and "distinct (a # xs)"
    and "nnext l' = (nnext l)(last (a # xs) := Some n, n := Some b)"
    and "pprev l' n = Some (last (a # xs))"
    and "\<And>x. x \<in> set xs \<Longrightarrow> pprev l' x = pprev l x"
  shows "dseg l' a (xs @ [n]) b"
proof -
  have "dseg l' a xs n"
  proof (cases xs rule: rev_cases)
    case Nil
    then show ?thesis using assms(2,4) by simp
  next
    case (snoc ys t)
    have "dseg l a ys t" "pprev l t = Some (last (a # ys))"
      using assms(1) by (simp_all add: snoc dseg_split)
    moreover have "dseg l' a ys t = dseg l a ys t"
      using assms(2,3,4,6) by (intro dseg_cong) (auto simp: snoc)
    ultimately show ?thesis
      using assms(2,4,6) by (auto simp: snoc dseg_split)
  qed
  then show ?thesis using assms(4,5) by (simp add: dseg_split)
qed

lemma dseg_unlink:
  assumes "dseg l a (xs @ n # ys) b" and "distinct (a # xs @ n # ys)" and "b \<notin> set (xs @ n # ys)"
    and "nxt = hd (ys @ [b])" and "prv = last (a # xs)"
  shows "dseg (unlink prv n nxt l) a (xs @ ys) b"
proof -
  let ?l = "unlink prv n nxt l"
  have left_seg: "dseg l a xs n" and right_seg: "dseg l n ys b"
    using assms(1) by (simp_all add: dseg_split)
  have pn: "prv \<noteq> n" "nxt \<noteq> n" using assms by (auto simp: hd_append split: if_splits)
  have link_prv: "nnext ?l prv = Some nxt" using pn by (simp add: unlink_def)
  have leftx: "dseg ?l a xs nxt"
  proof (cases xs rule: rev_cases)
    case Nil
    then show ?thesis using link_prv assms(5) by simp
  next
    case (snoc us t)
    have "dseg l a us t" using left_seg by (simp add: snoc dseg_split)
    moreover have "dseg ?l a us t = dseg l a us t"
      using assms(2-5) by (intro dseg_cong)
        (auto simp: unlink_def snoc hd_append split: if_splits)
    moreover have "pprev ?l t = pprev l t"
      using assms(2-5) by (auto simp: unlink_def snoc hd_append split: if_splits)
    ultimately show ?thesis
      using left_seg link_prv assms(5) by (simp add: snoc dseg_split)
  qed
  show ?thesis
  proof (cases ys)
    case Nil
    then show ?thesis using leftx assms(4) by simp
  next
    case (Cons y zs)
    have y: "nxt = y" using assms(4) Cons by simp
    have "prv \<notin> set (y # zs)"
      using assms(2,5) Cons last_in_set [of "a # xs"] by auto
    then have "prv \<noteq> y" "prv \<notin> set zs" by simp_all
    note prv_out = this
    have "dseg l y zs b" using right_seg by (simp add: Cons)
    moreover have "dseg ?l y zs b = dseg l y zs b"
      using assms(2) prv_out y by (intro dseg_cong) (auto simp: unlink_def Cons)
    moreover have "pprev ?l y = Some prv" using pn y by (simp add: unlink_def)
    ultimately show ?thesis using leftx y assms(5) by (simp add: Cons dseg_split)
  qed
qed

lemma unlink_frame:
  "x \<noteq> prv \<Longrightarrow> x \<noteq> n \<Longrightarrow> nnext (unlink prv n nxt l) x = nnext l x"
  "x \<noteq> nxt \<Longrightarrow> x \<noteq> n \<Longrightarrow> pprev (unlink prv n nxt l) x = pprev l x"
  "nxt \<noteq> n \<Longrightarrow> pprev (unlink prv n nxt l) nxt = Some prv"
  "nnext (unlink prv n nxt l) n = None" "pprev (unlink prv n nxt l) n = None"
  by (simp_all add: unlink_def)

lemma dseg_unique:
  "dseg l a xs b \<Longrightarrow> dseg l a ys b \<Longrightarrow> b \<notin> set xs \<Longrightarrow> b \<notin> set ys \<Longrightarrow> xs = ys"
proof (induction xs arbitrary: a ys)
  case Nil
  then show ?case by (cases ys) auto
next
  case (Cons x xs)
  then show ?case by (cases ys) auto
qed

text \<open>The neighbours of a node of a segment.\<close>

lemma dseg_neighbours:
  assumes "dseg l a (xs @ n # ys) b"
  shows "pprev l n = Some (last (a # xs))" and "nnext l n = Some (hd (ys @ [b]))"
proof -
  show "pprev l n = Some (last (a # xs))" using assms by (simp only: dseg_split)
  have "dseg l n ys b" using assms by (simp only: dseg_split)
  then show "nnext l n = Some (hd (ys @ [b]))" by (cases ys) simp_all
qed

end
