(* ===== verification/RpcClient.thy ===== *)
theory RpcClient
  imports DList
begin

text \<open>
  The client of the RPC package, \<open>src/rpc/client.go\<close>: call contexts and the rings
  \<open>channelCalls\<close> that link the calls of one channel, the two maps of \<open>RPCClient\<close>, and every
  method that changes them. The encoder, the decoder and the channel are interfaces the
  application implements: their results are arguments of the methods. A callback that runs is an entry of
  the log that each operation returns.
\<close>

section \<open>Definitions: messages\<close>

datatype rpc_error = ErrCallTimeout | ErrChannelDisconnected | ErrCbNil | ErrOther string

text \<open>\<open>Error()\<close> of these errors.\<close>

fun Error :: "rpc_error \<Rightarrow> string" where
  "Error ErrCallTimeout = ''rpc call timeout''"
| "Error ErrChannelDisconnected = ''channel disconnected''"
| "Error ErrCbNil = ''cb == nil''"
| "Error (ErrOther msg) = msg"

record 'm rpc_request =
  req_seq :: uint64
  req_method :: string
  req_arg :: 'm
  needResp :: bool

record 'm rpc_response =
  resp_seq :: uint64
  resp_err :: "rpc_error option"
  resp_ret :: 'm

datatype 'm rpc_message = Request "'m rpc_request" | Response "'m rpc_response"

definition RPC_REQUEST :: byte where "RPC_REQUEST = 1"

definition RPC_RESPONSE :: byte where "RPC_RESPONSE = 2"

fun Type :: "'m rpc_message \<Rightarrow> byte" where
  "Type (Request r) = RPC_REQUEST"
| "Type (Response r) = RPC_RESPONSE"

fun GetSeq :: "'m rpc_message \<Rightarrow> uint64" where
  "GetSeq (Request r) = req_seq r"
| "GetSeq (Response r) = resp_seq r"

section \<open>Definitions: channelCalls\<close>

text \<open>The ring of a channel's calls goes through a head node. \<open>add\<close> links in front; it does not
  maintain the back pointer of the head.\<close>

definition cc_empty :: "addr option \<Rightarrow> dlinks \<Rightarrow> bool go" where
  "cc_empty cc l = (case cc of None \<Rightarrow> Panic NilDeref | Some h \<Rightarrow> Ret (nnext l h = Some h))"

definition cc_add :: "addr \<Rightarrow> addr \<Rightarrow> dlinks \<Rightarrow> dlinks go" where
  "cc_add h c l =
     (case nnext l h of
        None \<Rightarrow> Panic NilDeref
      | Some nxt \<Rightarrow>
          (let l1 = set_next c (Some nxt) l;
               l2 = set_prev c (Some h) l1;
               l3 = set_next h (Some c) l2
           in Ret (if nxt \<noteq> h then set_prev nxt (Some c) l3 else l3)))"

definition cc_remove :: "addr \<Rightarrow> dlinks \<Rightarrow> dlinks go" where
  "cc_remove c l =
     (case (pprev l c, nnext l c) of
        (Some prv, Some nxt) \<Rightarrow> Ret (unlink prv c nxt l)
      | _ \<Rightarrow> Panic NilDeref)"

definition cc_new :: "addr \<Rightarrow> dlinks \<Rightarrow> dlinks" where
  "cc_new h l = set_prev h (Some h) (set_next h (Some h) l)"

section \<open>Definitions: RPCClient\<close>

text \<open>\<open>armed\<close> is the state of the context's \<open>deadlineTimer\<close>: started and neither fired nor stopped.\<close>

record 'cb callContext =
  seqno :: uint64
  channelID :: uint64
  onResponse :: 'cb
  armed :: bool

record 'cb rpc_client =
  sequence :: uint64
  callContexts :: "uint64 \<rightharpoonup> addr"
  channels :: "uint64 \<rightharpoonup> addr"
  ctx :: "addr \<rightharpoonup> 'cb callContext"
  clinks :: dlinks

text \<open>A callback that ran: the call's sequence number, the callback, and its two arguments.\<close>

type_synonym ('cb, 'm) fired = "uint64 \<times> 'cb \<times> 'm option \<times> rpc_error option"

definition NewClient :: "uint64 \<Rightarrow> 'cb rpc_client" where
  "NewClient sq = \<lparr>sequence = sq, callContexts = Map.empty, channels = Map.empty, ctx = Map.empty,
                   clinks = \<lparr>nnext = \<lambda>_. None, pprev = \<lambda>_. None\<rparr>\<rparr>"

text \<open>\<open>a\<close> is the context, filled in by the caller, and \<open>h\<close> the head that is allocated when the channel
  has none.\<close>

definition addCall :: "addr \<Rightarrow> addr \<Rightarrow> 'cb callContext \<Rightarrow> 'cb rpc_client \<Rightarrow> 'cb rpc_client go" where
  "addCall a h call c =
     (let c1 = c\<lparr>callContexts := (callContexts c)(seqno call \<mapsto> a)\<rparr>;
          (cc, c2) = (case channels c1 (channelID call) of
              Some cc \<Rightarrow> (cc, c1)
            | None \<Rightarrow> (h, c1\<lparr>clinks := cc_new h (clinks c1),
                             channels := (channels c1)(channelID call \<mapsto> h)\<rparr>))
      in bind_go (cc_add cc a (clinks c2))
           (\<lambda>l. Ret (c2\<lparr>clinks := l, ctx := (ctx c2)(a \<mapsto> call\<lparr>armed := True\<rparr>)\<rparr>)))"

text \<open>\<open>deadlineTimer.Stop()\<close>.\<close>

definition stopTimer :: "addr \<Rightarrow> 'cb rpc_client \<Rightarrow> 'cb rpc_client" where
  "stopTimer a c = c\<lparr>ctx := (ctx c)(a := map_option (\<lambda>call. call\<lparr>armed := False\<rparr>) (ctx c a))\<rparr>"

definition removeCallBySeqno :: "uint64 \<Rightarrow> 'cb rpc_client \<Rightarrow> ('cb rpc_client \<times> addr option) go" where
  "removeCallBySeqno sq c =
     (case callContexts c sq of
        None \<Rightarrow> Ret (c, None)
      | Some a \<Rightarrow>
          (case ctx c a of
             None \<Rightarrow> Panic NilDeref
           | Some call \<Rightarrow>
               (let c1 = c\<lparr>callContexts := (callContexts c)(sq := None)\<rparr>;
                    cc = channels c1 (channelID call)
                in bind_go (cc_remove a (clinks c1)) (\<lambda>l.
                     let c2 = c1\<lparr>clinks := l\<rparr> in
                     bind_go (cc_empty cc l) (\<lambda>e.
                       let c3 = (if e then c2\<lparr>channels := (channels c2)(channelID call := None)\<rparr> else c2)
                       in Ret (stopTimer a c3, Some a))))))"

text \<open>The callback of context \<open>a\<close> runs with result \<open>ret\<close> and error \<open>err\<close>.\<close>

definition fire :: "addr \<Rightarrow> 'm option \<Rightarrow> rpc_error option \<Rightarrow> 'cb rpc_client \<Rightarrow> ('cb, 'm) fired list" where
  "fire a ret err c =
     (case ctx c a of None \<Rightarrow> [] | Some call \<Rightarrow> [(seqno call, onResponse call, ret, err)])"

text \<open>\<open>onTimeout\<close> runs when the timer of context \<open>a\<close> fires, which it does only while armed.\<close>

definition onTimeout :: "addr \<Rightarrow> 'cb rpc_client \<Rightarrow> ('cb rpc_client \<times> ('cb, 'm) fired list) go" where
  "onTimeout a c =
     (case ctx c a of
        None \<Rightarrow> Ret (c, [])
      | Some call \<Rightarrow>
          (let c0 = stopTimer a c in
           bind_go (removeCallBySeqno (seqno call) c0) (\<lambda>(c', r).
             Ret (c', if r \<noteq> None then fire a None (Some ErrCallTimeout) c' else []))))"

text \<open>\<open>OnRPCMessage\<close>: \<open>None\<close> is a decoding error.\<close>

definition OnRPCMessage :: "'m rpc_message option \<Rightarrow> 'cb rpc_client \<Rightarrow> ('cb rpc_client \<times> ('cb, 'm) fired list) go" where
  "OnRPCMessage msg c =
     (case msg of
        Some (Response resp) \<Rightarrow>
          bind_go (removeCallBySeqno (GetSeq (Response resp)) c) (\<lambda>(c', r).
            Ret (c', case r of None \<Rightarrow> [] | Some a \<Rightarrow> fire a (Some (resp_ret resp)) (resp_err resp) c'))
      | _ \<Rightarrow> Ret (c, []))"

text \<open>\<open>OnChannelDisconnect\<close>: the critical section that takes the ring out of the map, and the loop
  over it with fuel, one critical section per call. \<open>rpc_disconnect\<close> shows that one more than the
  number of calls is enough.\<close>

definition disconnect_take :: "uint64 \<Rightarrow> 'cb rpc_client \<Rightarrow> 'cb rpc_client \<times> addr option" where
  "disconnect_take uid c =
     (case channels c uid of
        None \<Rightarrow> (c, None)
      | Some cc \<Rightarrow> (c\<lparr>channels := (channels c)(uid := None)\<rparr>, Some cc))"

fun disconnect_loop :: "nat \<Rightarrow> addr option \<Rightarrow> addr \<Rightarrow> 'cb rpc_client \<Rightarrow>
    ('cb rpc_client \<times> ('cb, 'm) fired list) go option" where
  "disconnect_loop 0 cur h c = None"
| "disconnect_loop (Suc fuel) cur h c =
     (case cur of
        None \<Rightarrow> Some (Panic NilDeref)
      | Some a \<Rightarrow>
          if a = h then Some (Ret (c, []))
          else (case ctx c a of
             None \<Rightarrow> Some (Panic NilDeref)
           | Some call \<Rightarrow>
               (let nxt = nnext (clinks c) a;
                    ok = (callContexts c (seqno call) \<noteq> None);
                    c1 = (if ok then c\<lparr>callContexts := (callContexts c)(seqno call := None)\<rparr> else c);
                    c2 = (if ok then stopTimer a c1 else c1);
                    out = (if ok then fire a None (Some ErrChannelDisconnected) c2 else [])
                in map_option (map_ret (\<lambda>(c', log). (c', out @ log))) (disconnect_loop fuel nxt h c2))))"

definition OnChannelDisconnect :: "nat \<Rightarrow> uint64 \<Rightarrow> 'cb rpc_client \<Rightarrow>
    ('cb rpc_client \<times> ('cb, 'm) fired list) go option" where
  "OnChannelDisconnect fuel uid c =
     (case disconnect_take uid c of
        (c', None) \<Rightarrow> Some (Ret (c', []))
      | (c', Some h) \<Rightarrow> disconnect_loop fuel (nnext (clinks c') h) h c')"

text \<open>\<open>Post\<close> and \<open>AsynCall\<close>, with the results of \<open>Encode\<close> and \<open>SendRequest\<close>.\<close>

definition Post :: "rpc_error option \<Rightarrow> rpc_error option \<Rightarrow> 'cb rpc_client \<Rightarrow> 'cb rpc_client \<times> rpc_error option" where
  "Post encErr sendErr c =
     (let c1 = c\<lparr>sequence := sequence c + 1\<rparr> in
      case encErr of
        Some e \<Rightarrow> (c1, Some (ErrOther (''encode error:'' @ Error e @ [CHR 0x0A])))
      | None \<Rightarrow> (c1, sendErr))"

definition AsynCall :: "addr \<Rightarrow> addr \<Rightarrow> uint64 \<Rightarrow> 'cb option \<Rightarrow> rpc_error option \<Rightarrow> rpc_error option \<Rightarrow>
    'cb rpc_client \<Rightarrow> ('cb rpc_client \<times> rpc_error option) go" where
  "AsynCall a h uid cb encErr sendErr c =
     (case cb of
        None \<Rightarrow> Ret (c, Some ErrCbNil)
      | Some f \<Rightarrow>
          (let sq = sequence c + 1; c1 = c\<lparr>sequence := sq\<rparr> in
           case encErr of
             Some e \<Rightarrow> Ret (c1, Some e)
           | None \<Rightarrow>
               (let call = \<lparr>seqno = sq, channelID = uid, onResponse = f, armed = False\<rparr> in
                bind_go (addCall a h call c1) (\<lambda>c2.
                  case sendErr of
                    None \<Rightarrow> Ret (c2, None)
                  | Some e \<Rightarrow> bind_go (removeCallBySeqno sq c2) (\<lambda>(c3, r). Ret (c3, Some e))))))"

section \<open>Rings of calls\<close>

definition callring :: "dlinks \<Rightarrow> addr \<Rightarrow> addr list \<Rightarrow> bool" where
  "callring l h as \<longleftrightarrow> dseg l h as h \<and> distinct (h # as)"

lemma callring_new: "callring (cc_new h l) h []"
  by (simp add: callring_def cc_new_def)

lemma callring_empty: "callring l h as \<Longrightarrow> cc_empty (Some h) l = Ret (as = [])"
  by (cases as) (auto simp: callring_def cc_empty_def)

lemma callring_add:
  assumes "callring l h as" and "a \<notin> set (h # as)"
  shows "\<exists>l'. cc_add h a l = Ret l' \<and> callring l' h (a # as) \<and>
           (\<forall>x. x \<notin> set (a # h # as) \<longrightarrow> nnext l' x = nnext l x \<and> pprev l' x = pprev l x)"
proof (cases as)
  case Nil
  then show ?thesis using assms by (auto simp: callring_def cc_add_def Let_def)
next
  case (Cons b bs)
  let ?l' = "set_prev b (Some a) (set_next h (Some a) (set_prev a (Some h) (set_next a (Some b) l)))"
  have r: "nnext l h = Some b" "dseg l b bs h" "distinct (h # b # bs)"
    using assms(1) by (auto simp: callring_def Cons)
  have "dseg ?l' b bs h = dseg l b bs h"
    using assms(2) r(3) by (intro dseg_cong) (auto simp: Cons)
  then have "callring ?l' h (a # as)" using assms(2) r by (auto simp: callring_def Cons)
  moreover have "cc_add h a l = Ret ?l'" using r(1,3) by (auto simp: cc_add_def Let_def)
  ultimately show ?thesis by (auto simp: Cons)
qed

lemma callring_remove:
  assumes "callring l h (xs @ a # ys)"
  shows "\<exists>l'. cc_remove a l = Ret l' \<and> callring l' h (xs @ ys) \<and>
           (\<forall>x. x \<notin> set (h # xs @ a # ys) \<longrightarrow> nnext l' x = nnext l x \<and> pprev l' x = pprev l x)"
proof -
  let ?nxt = "hd (ys @ [h])" and ?prv = "last (h # xs)"
  have r: "dseg l h (xs @ a # ys) h" "distinct (h # xs @ a # ys)" using assms by (simp_all add: callring_def)
  have nb: "pprev l a = Some ?prv" "nnext l a = Some ?nxt" using dseg_neighbours [OF r(1)] by simp_all
  have "dseg (unlink ?prv a ?nxt l) h (xs @ ys) h"
    using r(2) by (intro dseg_unlink [OF r(1)]) auto
  then have "callring (unlink ?prv a ?nxt l) h (xs @ ys)" using r(2) by (simp add: callring_def)
  moreover have "cc_remove a l = Ret (unlink ?prv a ?nxt l)" using nb by (simp add: cc_remove_def)
  moreover have "nnext (unlink ?prv a ?nxt l) x = nnext l x \<and> pprev (unlink ?prv a ?nxt l) x = pprev l x"
    if "x \<notin> set (h # xs @ a # ys)" for x
  proof -
    have "?prv \<in> set (h # xs)" by (rule last_in_set) simp
    moreover have "?nxt \<in> set (ys @ [h])" by (rule hd_in_set) simp
    ultimately have "x \<noteq> ?prv" "x \<noteq> ?nxt" "x \<noteq> a" using that by auto
    then show ?thesis by (simp add: unlink_frame)
  qed
  ultimately show ?thesis by blast
qed

lemma callring_frame:
  assumes "callring l h as"
    and "\<And>x. x \<in> set (h # as) \<Longrightarrow> nnext l' x = nnext l x \<and> pprev l' x = pprev l x"
  shows "callring l' h as"
proof -
  have "dseg l' h as h = dseg l h as h" using assms(2) by (intro dseg_cong) auto
  then show ?thesis using assms(1) by (simp add: callring_def)
qed

section \<open>The invariant of the client\<close>

text \<open>\<open>client_inv c rs\<close>: the ring of channel \<open>uid\<close> links the contexts \<open>rs uid\<close>; these are exactly the
  contexts of the pending calls on \<open>uid\<close>; a channel without calls has no ring; no head or context is
  in two rings; and no pending sequence number is ahead of the counter.\<close>

definition client_inv :: "'cb rpc_client \<Rightarrow> (uint64 \<Rightarrow> addr list) \<Rightarrow> bool" where
  "client_inv c rs \<longleftrightarrow>
     (\<forall>uid. (channels c uid = None) = (rs uid = [])) \<and>
     (\<forall>uid h. channels c uid = Some h \<longrightarrow> callring (clinks c) h (rs uid)) \<and>
     (\<forall>uid. \<forall>a\<in>set (rs uid). \<exists>call. ctx c a = Some call \<and> channelID call = uid \<and>
        callContexts c (seqno call) = Some a) \<and>
     (\<forall>sq a. callContexts c sq = Some a \<longrightarrow>
        (\<exists>call. ctx c a = Some call \<and> seqno call = sq \<and> a \<in> set (rs (channelID call)))) \<and>
     (\<forall>u v h. channels c u = Some h \<longrightarrow> channels c v = Some h \<longrightarrow> u = v) \<and>
     (\<forall>u v h. channels c u = Some h \<longrightarrow> h \<notin> set (rs v)) \<and>
     (\<forall>sq. callContexts c sq \<noteq> None \<longrightarrow> sq \<le> sequence c)"

lemma client_invD:
  assumes "client_inv c rs"
  shows "channels c uid = None \<longleftrightarrow> rs uid = []"
    and "channels c uid = Some h \<Longrightarrow> callring (clinks c) h (rs uid)"
    and "a \<in> set (rs uid) \<Longrightarrow>
           \<exists>call. ctx c a = Some call \<and> channelID call = uid \<and> callContexts c (seqno call) = Some a"
    and "callContexts c sq = Some a \<Longrightarrow>
           \<exists>call. ctx c a = Some call \<and> seqno call = sq \<and> a \<in> set (rs (channelID call))"
    and "channels c u = Some h \<Longrightarrow> channels c v = Some h \<Longrightarrow> u = v"
    and "channels c u = Some h \<Longrightarrow> h \<notin> set (rs v)"
    and "callContexts c sq \<noteq> None \<Longrightarrow> sq \<le> sequence c"
  using assms unfolding client_inv_def by metis+

text \<open>What the allocator and \<open>sync.Pool\<close> provide: an address not in use.\<close>

definition free_addr :: "'cb rpc_client \<Rightarrow> addr \<Rightarrow> bool" where
  "free_addr c x \<longleftrightarrow> x \<notin> ran (callContexts c) \<and> x \<notin> ran (channels c)"

lemma free_addr_ring: "client_inv c rs \<Longrightarrow> free_addr c x \<Longrightarrow> x \<notin> set (rs uid)"
  using client_invD(3) unfolding free_addr_def ran_def by fastforce

lemma free_addr_head: "free_addr c x \<Longrightarrow> channels c uid \<noteq> Some x"
  by (auto simp: free_addr_def ran_def)

lemma client_inv_NewClient: "client_inv (NewClient sq) (\<lambda>_. [])"
  by (simp add: client_inv_def NewClient_def)

lemma ring_nodes_disjoint:
  "client_inv c rs \<Longrightarrow> a \<in> set (rs u) \<Longrightarrow> a \<in> set (rs v) \<Longrightarrow> u = v"
  using client_invD(3) by (metis option.inject)

text \<open>The ring to which \<open>addCall\<close> adds, found or allocated.\<close>

definition with_channel :: "addr \<Rightarrow> uint64 \<Rightarrow> 'cb rpc_client \<Rightarrow> addr \<times> 'cb rpc_client" where
  "with_channel h uid c = (case channels c uid of
      Some cc \<Rightarrow> (cc, c)
    | None \<Rightarrow> (h, c\<lparr>clinks := cc_new h (clinks c), channels := (channels c)(uid \<mapsto> h)\<rparr>))"

lemma addCall_with_channel:
  "addCall a h call c =
     (let (cc, c2) = with_channel h (channelID call) (c\<lparr>callContexts := (callContexts c)(seqno call \<mapsto> a)\<rparr>)
      in bind_go (cc_add cc a (clinks c2))
           (\<lambda>l. Ret (c2\<lparr>clinks := l, ctx := (ctx c2)(a \<mapsto> call\<lparr>armed := True\<rparr>)\<rparr>)))"
  by (simp add: addCall_def with_channel_def Let_def split: option.splits)

lemma addCall_inv:
  assumes inv: "client_inv c rs" and fa: "free_addr c a" and fh: "free_addr c h" and "a \<noteq> h"
    and new: "callContexts c (seqno call) = None" and le: "seqno call \<le> sequence c"
  shows "\<exists>c'. addCall a h call c = Ret c' \<and>
           client_inv c' (rs(channelID call := a # rs (channelID call))) \<and>
           callContexts c' = (callContexts c)(seqno call \<mapsto> a) \<and>
           ctx c' = (ctx c)(a \<mapsto> call\<lparr>armed := True\<rparr>) \<and> sequence c' = sequence c"
proof -
  let ?u = "channelID call"
  let ?rs = "rs(?u := a # rs ?u)"
  have nota: "a \<notin> set (rs v)" "channels c v \<noteq> Some a" for v
    using free_addr_ring [OF inv fa] free_addr_head [OF fa] by simp_all
  have noth: "h \<notin> set (rs v)" "channels c v \<noteq> Some h" for v
    using free_addr_ring [OF inv fh] free_addr_head [OF fh] by simp_all
  define c1 where "c1 = c\<lparr>callContexts := (callContexts c)(seqno call \<mapsto> a)\<rparr>"
  obtain cc c2 where w: "with_channel h ?u c1 = (cc, c2)" by fastforce
  have c2: "callContexts c2 = (callContexts c)(seqno call \<mapsto> a)" "ctx c2 = ctx c" "sequence c2 = sequence c"
      "channels c2 = (channels c)(?u \<mapsto> cc)"
    using w by (auto simp: with_channel_def c1_def split: option.splits)
  have cc: "channels c ?u = Some cc \<and> clinks c2 = clinks c \<or>
      channels c ?u = None \<and> cc = h \<and> clinks c2 = cc_new h (clinks c)"
    using w by (auto simp: with_channel_def c1_def split: option.splits)
  have ccnew: "cc \<noteq> a" "\<And>v. cc \<notin> set (rs v)" "\<And>v. v \<noteq> ?u \<Longrightarrow> channels c v \<noteq> Some cc"
    using cc nota noth assms(4) client_invD(5,6) [OF inv] by metis+
  have ring: "callring (clinks c2) cc (rs ?u)"
    using cc client_invD(1,2) [OF inv] callring_new by metis
  have others: "callring (clinks c2) k (rs v)" if "channels c v = Some k" "v \<noteq> ?u" for v k
  proof -
    have "callring (clinks c) k (rs v)" using client_invD(2) [OF inv that(1)] .
    moreover have "h \<notin> set (k # rs v)" using noth that(1) by auto
    ultimately show ?thesis
      using cc by (auto intro!: callring_frame [of "clinks c"] simp: cc_new_def)
  qed
  have "a \<notin> set (cc # rs ?u)" using ccnew(1) nota(1) by auto
  then obtain l where l: "cc_add cc a (clinks c2) = Ret l" "callring l cc (a # rs ?u)"
      "\<forall>x. x \<notin> set (a # cc # rs ?u) \<longrightarrow> nnext l x = nnext (clinks c2) x \<and> pprev l x = pprev (clinks c2) x"
    using callring_add [OF ring] by blast
  define c' where "c' = c2\<lparr>clinks := l, ctx := (ctx c2)(a \<mapsto> call\<lparr>armed := True\<rparr>)\<rparr>"
  have eq: "addCall a h call c = Ret c'"
    using w l(1) by (simp add: addCall_with_channel c1_def [symmetric] c'_def)
  have rings: "callring l k (?rs v)" if "channels c' v = Some k" for v k
  proof (cases "v = ?u")
    case True
    then show ?thesis using that l(2) by (simp add: c'_def c2)
  next
    case False
    then have k: "channels c v = Some k" using that by (simp add: c'_def c2)
    have "x \<notin> set (a # cc # rs ?u)" if "x \<in> set (k # rs v)" for x
      using that nota k ccnew False ring_nodes_disjoint [OF inv, of x v ?u] client_invD(6) [OF inv k] by auto
    then have "callring l k (rs v)" using l(3) by (intro callring_frame [OF others [OF k False]]) blast
    then show ?thesis using False by simp
  qed
  have "client_inv c' ?rs"
    unfolding client_inv_def
  proof (intro conjI)
    show "\<forall>uid. (channels c' uid = None) = (?rs uid = [])"
      using client_invD(1) [OF inv] by (simp add: c'_def c2)
    show "\<forall>uid k. channels c' uid = Some k \<longrightarrow> callring (clinks c') k (?rs uid)"
      using rings by (simp add: c'_def)
    show "\<forall>uid. \<forall>b\<in>set (?rs uid). \<exists>cl. ctx c' b = Some cl \<and> channelID cl = uid \<and> callContexts c' (seqno cl) = Some b"
    proof (intro allI ballI)
      fix uid b assume b: "b \<in> set (?rs uid)"
      show "\<exists>cl. ctx c' b = Some cl \<and> channelID cl = uid \<and> callContexts c' (seqno cl) = Some b"
      proof (cases "b = a")
        case True
        then have "uid = ?u" using b nota(1) [of uid] by (auto split: if_splits)
        then show ?thesis using True by (simp add: c'_def c2)
      next
        case False
        then have "b \<in> set (rs uid)" using b by (auto split: if_splits)
        then obtain cl where cl: "ctx c b = Some cl" "channelID cl = uid" "callContexts c (seqno cl) = Some b"
          using client_invD(3) [OF inv] by blast
        then have "seqno cl \<noteq> seqno call" using new by auto
        then show ?thesis using cl False by (simp add: c'_def c2)
      qed
    qed
    show "\<forall>sq b. callContexts c' sq = Some b \<longrightarrow>
        (\<exists>cl. ctx c' b = Some cl \<and> seqno cl = sq \<and> b \<in> set (?rs (channelID cl)))"
    proof (intro allI impI)
      fix sq b assume b: "callContexts c' sq = Some b"
      show "\<exists>cl. ctx c' b = Some cl \<and> seqno cl = sq \<and> b \<in> set (?rs (channelID cl))"
      proof (cases "sq = seqno call")
        case True
        then show ?thesis using b by (auto simp: c'_def c2)
      next
        case False
        then have "callContexts c sq = Some b" using b by (simp add: c'_def c2)
        moreover from this have "b \<noteq> a" using fa by (auto simp: free_addr_def ran_def)
        ultimately show ?thesis using client_invD(4) [OF inv, of sq b] by (auto simp: c'_def c2)
      qed
    qed
    show "\<forall>u v k. channels c' u = Some k \<longrightarrow> channels c' v = Some k \<longrightarrow> u = v"
      using client_invD(5) [OF inv] ccnew(3) by (auto simp: c'_def c2)
    show "\<forall>u v k. channels c' u = Some k \<longrightarrow> k \<notin> set (?rs v)"
      using client_invD(6) [OF inv] ccnew(1,2) nota(2) by (auto simp: c'_def c2)
    show "\<forall>sq. callContexts c' sq \<noteq> None \<longrightarrow> sq \<le> sequence c'"
      using client_invD(7) [OF inv] le by (simp add: c'_def c2)
  qed
  then show ?thesis using eq by (simp add: c'_def c2)
qed

lemma stopTimer_simps [simp]:
  "callContexts (stopTimer a c) = callContexts c" "channels (stopTimer a c) = channels c"
  "clinks (stopTimer a c) = clinks c" "sequence (stopTimer a c) = sequence c"
  by (simp_all add: stopTimer_def)

lemma ctx_stopTimer:
  "ctx (stopTimer a c) b = (if b = a then map_option (\<lambda>call. call\<lparr>armed := False\<rparr>) (ctx c b) else ctx c b)"
  by (simp add: stopTimer_def)

lemma ctx_stopTimer_Some:
  "ctx c b = Some call \<Longrightarrow> \<exists>call'. ctx (stopTimer a c) b = Some call' \<and> seqno call' = seqno call \<and>
     channelID call' = channelID call \<and> onResponse call' = onResponse call"
  by (cases "b = a") (auto simp: ctx_stopTimer)

lemma ctx_stopTimer_D:
  "ctx (stopTimer a c) b = Some call' \<Longrightarrow> \<exists>call. ctx c b = Some call \<and> seqno call' = seqno call \<and>
     channelID call' = channelID call \<and> onResponse call' = onResponse call"
  by (auto simp: ctx_stopTimer split: if_splits)

lemma client_inv_stopTimer:
  assumes "client_inv c rs"
  shows "client_inv (stopTimer a c) rs"
  unfolding client_inv_def stopTimer_simps
proof (intro conjI)
  show "\<forall>uid. \<forall>b\<in>set (rs uid). \<exists>call. ctx (stopTimer a c) b = Some call \<and> channelID call = uid \<and>
      callContexts c (seqno call) = Some b"
  proof (intro allI ballI)
    fix uid b assume "b \<in> set (rs uid)"
    then obtain call where "ctx c b = Some call" "channelID call = uid" "callContexts c (seqno call) = Some b"
      using client_invD(3) [OF assms] by blast
    then show "\<exists>call. ctx (stopTimer a c) b = Some call \<and> channelID call = uid \<and>
        callContexts c (seqno call) = Some b"
      using ctx_stopTimer_Some [of c b call a] by auto
  qed
  show "\<forall>sq b. callContexts c sq = Some b \<longrightarrow>
      (\<exists>call. ctx (stopTimer a c) b = Some call \<and> seqno call = sq \<and> b \<in> set (rs (channelID call)))"
  proof (intro allI impI)
    fix sq b assume "callContexts c sq = Some b"
    then obtain call where "ctx c b = Some call" "seqno call = sq" "b \<in> set (rs (channelID call))"
      using client_invD(4) [OF assms] by blast
    then show "\<exists>call. ctx (stopTimer a c) b = Some call \<and> seqno call = sq \<and> b \<in> set (rs (channelID call))"
      using ctx_stopTimer_Some [of c b call a] by auto
  qed
qed (use assms in \<open>simp_all add: client_inv_def\<close>)

lemma removeCall_none: "callContexts c sq = None \<Longrightarrow> removeCallBySeqno sq c = Ret (c, None)"
  by (simp add: removeCallBySeqno_def)

text \<open>The calls left in the rings after the one with context \<open>a\<close> is gone.\<close>

definition rings_without :: "addr \<Rightarrow> (uint64 \<Rightarrow> addr list) \<Rightarrow> uint64 \<Rightarrow> addr list" where
  "rings_without a rs uid = filter (\<lambda>b. b \<noteq> a) (rs uid)"

lemma removeCall_some:
  assumes inv: "client_inv c rs" and sq: "callContexts c sq = Some a"
  shows "\<exists>c'. removeCallBySeqno sq c = Ret (c', Some a) \<and> client_inv c' (rings_without a rs) \<and>
           callContexts c' = (callContexts c)(sq := None) \<and> sequence c' = sequence c \<and>
           ctx c' = ctx (stopTimer a c)"
proof -
  obtain call where call: "ctx c a = Some call" "seqno call = sq" "a \<in> set (rs (channelID call))"
    using client_invD(4) [OF inv sq] by blast
  let ?u = "channelID call" and ?rs = "rings_without a rs"
  obtain xs ys where split: "rs ?u = xs @ a # ys" using call(3) by (metis split_list)
  obtain h where h: "channels c ?u = Some h" using client_invD(1) [OF inv] split by fastforce
  have ring: "callring (clinks c) h (xs @ a # ys)" using client_invD(2) [OF inv h] split by simp
  then have dist: "a \<notin> set (h # xs @ ys)" "distinct (xs @ ys)" by (auto simp: callring_def)
  have "filter (\<lambda>b. b \<noteq> a) xs = xs" "filter (\<lambda>b. b \<noteq> a) ys = ys"
    using dist by (auto simp: filter_id_conv)
  then have rsu: "?rs ?u = xs @ ys" by (simp add: rings_without_def split)
  have rsv: "?rs v = rs v" if "v \<noteq> ?u" for v
    using ring_nodes_disjoint [OF inv call(3), of v] that by (auto simp: rings_without_def filter_id_conv)
  obtain l where l: "cc_remove a (clinks c) = Ret l" "callring l h (xs @ ys)"
      "\<forall>x. x \<notin> set (h # xs @ a # ys) \<longrightarrow> nnext l x = nnext (clinks c) x \<and> pprev l x = pprev (clinks c) x"
    using callring_remove [OF ring] by blast
  define c3 where "c3 = c\<lparr>callContexts := (callContexts c)(sq := None), clinks := l,
      channels := (if xs @ ys = [] then (channels c)(?u := None) else channels c)\<rparr>"
  have eq: "removeCallBySeqno sq c = Ret (stopTimer a c3, Some a)"
    using l(1) h callring_empty [OF l(2)]
    by (simp add: removeCallBySeqno_def sq call(1) c3_def Let_def)
  have sub: "set (?rs v) \<subseteq> set (rs v)" "a \<notin> set (?rs v)" for v by (auto simp: rings_without_def)
  have chD: "channels c v = Some k" if "channels c3 v = Some k" for v k
    using that by (auto simp: c3_def split: if_splits)
  have "client_inv c3 ?rs"
    unfolding client_inv_def
  proof (intro conjI)
    show "\<forall>uid. (channels c3 uid = None) = (?rs uid = [])"
    proof
      fix uid show "(channels c3 uid = None) = (?rs uid = [])"
        using client_invD(1) [OF inv, of uid] rsu rsv [of uid] h
        by (cases "uid = ?u") (auto simp: c3_def)
    qed
    show "\<forall>uid k. channels c3 uid = Some k \<longrightarrow> callring (clinks c3) k (?rs uid)"
    proof (intro allI impI)
      fix uid k assume k: "channels c3 uid = Some k"
      note kc = chD [OF k]
      show "callring (clinks c3) k (?rs uid)"
      proof (cases "uid = ?u")
        case True
        then show ?thesis using l(2) rsu kc h by (simp add: c3_def)
      next
        case False
        have "x \<notin> set (h # xs @ a # ys)" if x: "x \<in> set (k # rs uid)" for x
        proof -
          have "k \<noteq> h" using client_invD(5) [OF inv kc, of ?u] h False by auto
          moreover have "k \<notin> set (rs ?u)" "h \<notin> set (rs uid)"
            using client_invD(6) [OF inv] kc h by blast+
          moreover have "x \<in> set (rs uid) \<Longrightarrow> x \<notin> set (rs ?u)"
            using ring_nodes_disjoint [OF inv, of x uid ?u] False by blast
          ultimately show ?thesis using x split by auto
        qed
        then have "callring l k (rs uid)"
          using l(3) by (intro callring_frame [OF client_invD(2) [OF inv kc]]) blast
        then show ?thesis using rsv [OF False] by (simp add: c3_def)
      qed
    qed
    show "\<forall>uid. \<forall>b\<in>set (?rs uid). \<exists>cl. ctx c3 b = Some cl \<and> channelID cl = uid \<and> callContexts c3 (seqno cl) = Some b"
    proof (intro allI ballI)
      fix uid b assume b: "b \<in> set (?rs uid)"
      obtain cl where cl: "ctx c b = Some cl" "channelID cl = uid" "callContexts c (seqno cl) = Some b"
        using client_invD(3) [OF inv, of b uid] b sub by blast
      then have "seqno cl \<noteq> sq" using sq b sub(2) by auto
      then show "\<exists>cl. ctx c3 b = Some cl \<and> channelID cl = uid \<and> callContexts c3 (seqno cl) = Some b"
        using cl by (simp add: c3_def)
    qed
    show "\<forall>s b. callContexts c3 s = Some b \<longrightarrow>
        (\<exists>cl. ctx c3 b = Some cl \<and> seqno cl = s \<and> b \<in> set (?rs (channelID cl)))"
    proof (intro allI impI)
      fix s b assume "callContexts c3 s = Some b"
      then have s: "s \<noteq> sq" "callContexts c s = Some b" by (auto simp: c3_def split: if_splits)
      then obtain cl where cl: "ctx c b = Some cl" "seqno cl = s" "b \<in> set (rs (channelID cl))"
        using client_invD(4) [OF inv] by blast
      moreover have "b \<noteq> a" using cl call s(1) by auto
      ultimately show "\<exists>cl. ctx c3 b = Some cl \<and> seqno cl = s \<and> b \<in> set (?rs (channelID cl))"
        by (simp add: c3_def rings_without_def)
    qed
    show "\<forall>u v k. channels c3 u = Some k \<longrightarrow> channels c3 v = Some k \<longrightarrow> u = v"
      using chD client_invD(5) [OF inv] by blast
    show "\<forall>u v k. channels c3 u = Some k \<longrightarrow> k \<notin> set (?rs v)"
      using chD client_invD(6) [OF inv] sub(1) by blast
    show "\<forall>s. callContexts c3 s \<noteq> None \<longrightarrow> s \<le> sequence c3"
      using client_invD(7) [OF inv] by (simp add: c3_def)
  qed
  then have "client_inv (stopTimer a c3) ?rs" by (rule client_inv_stopTimer)
  then show ?thesis using eq by (simp add: c3_def stopTimer_def)
qed

text \<open>The loop over a detached ring: every call of it leaves \<open>callContexts\<close> and is answered once.\<close>

definition drop_calls :: "addr set \<Rightarrow> 'cb rpc_client \<Rightarrow> 'cb rpc_client" where
  "drop_calls A c = c\<lparr>
     callContexts := (\<lambda>s. case callContexts c s of None \<Rightarrow> None | Some a \<Rightarrow> if a \<in> A then None else Some a),
     ctx := (\<lambda>a. if a \<in> A then map_option (\<lambda>call. call\<lparr>armed := False\<rparr>) (ctx c a) else ctx c a)\<rparr>"

lemma drop_calls_simps [simp]:
  "channels (drop_calls A c) = channels c" "clinks (drop_calls A c) = clinks c"
  "sequence (drop_calls A c) = sequence c"
  by (simp_all add: drop_calls_def)

lemma drop_calls_ctx:
  "ctx (drop_calls A c) a = (if a \<in> A then map_option (\<lambda>call. call\<lparr>armed := False\<rparr>) (ctx c a) else ctx c a)"
  by (simp add: drop_calls_def)

lemma drop_calls_callContexts:
  "callContexts (drop_calls A c) s = Some a \<longleftrightarrow> callContexts c s = Some a \<and> a \<notin> A"
  by (auto simp: drop_calls_def split: option.splits)

lemma drop_calls_empty: "drop_calls {} c = c"
proof -
  have "(\<lambda>s. case callContexts c s of None \<Rightarrow> None | Some a \<Rightarrow> if a \<in> {} then None else Some a) = callContexts c"
    by (rule ext) (simp split: option.splits)
  then show ?thesis by (simp add: drop_calls_def)
qed

lemma drop_calls_insert: "drop_calls A (drop_calls {a} c) = drop_calls (insert a A) c"
  by (auto simp: drop_calls_def fun_eq_iff option.map_comp comp_def split: option.splits)

lemma fire_drop: "fire b ret err (drop_calls A c) = fire b ret err c"
  by (auto simp: fire_def drop_calls_def split: option.splits)

lemma disconnect_loop_run:
  fixes c :: "'cb rpc_client"
  assumes "dseg (clinks c) x as h" and "h \<notin> set as" and "distinct as"
    and "\<And>a. a \<in> set as \<Longrightarrow> \<exists>call. ctx c a = Some call \<and> callContexts c (seqno call) = Some a"
    and "\<And>s a. callContexts c s = Some a \<Longrightarrow> \<exists>call. ctx c a = Some call \<and> seqno call = s"
    and "length as < fuel"
  shows "(disconnect_loop fuel (nnext (clinks c) x) h c :: ('cb rpc_client \<times> ('cb, 'm) fired list) go option) =
           Some (Ret (drop_calls (set as) c, concat (map (\<lambda>a. fire a None (Some ErrChannelDisconnected) c) as)))"
  using assms
proof (induction as arbitrary: x c fuel)
  case Nil
  show ?case using Nil.prems(1,6) by (cases fuel) (simp_all add: drop_calls_empty)
next
  case (Cons a as)
  obtain f where f: "fuel = Suc f" using Cons.prems(6) by (cases fuel) auto
  obtain call where call: "ctx c a = Some call" "callContexts c (seqno call) = Some a"
    using Cons.prems(4) [of a] by auto
  have sq: "s = seqno call" if "callContexts c s = Some a" for s
    using Cons.prems(5) [OF that] call(1) by auto
  have one: "stopTimer a (c\<lparr>callContexts := (callContexts c)(seqno call := None)\<rparr>) = drop_calls {a} c"
  proof -
    have cm: "(callContexts c)(seqno call := None) =
        (\<lambda>s. case callContexts c s of None \<Rightarrow> None | Some b \<Rightarrow> if b \<in> {a} then None else Some b)"
    proof (rule ext)
      fix s show "((callContexts c)(seqno call := None)) s =
          (case callContexts c s of None \<Rightarrow> None | Some b \<Rightarrow> if b \<in> {a} then None else Some b)"
        using sq [of s] call(2) by (cases "callContexts c s") auto
    qed
    have cx: "(ctx c)(a := map_option f (ctx c a)) = (\<lambda>b. if b \<in> {a} then map_option f (ctx c b) else ctx c b)" for f
      by (rule ext) simp
    show ?thesis by (simp add: stopTimer_def drop_calls_def cm cx)
  qed
  let ?c = "drop_calls {a} c"
  have IH: "(disconnect_loop f (nnext (clinks ?c) a) h ?c :: ('cb rpc_client \<times> ('cb, 'm) fired list) go option) =
      Some (Ret (drop_calls (set as) ?c, concat (map (\<lambda>a. fire a None (Some ErrChannelDisconnected) ?c) as)))"
  proof (rule Cons.IH)
    show "\<exists>call. ctx ?c b = Some call \<and> callContexts ?c (seqno call) = Some b" if "b \<in> set as" for b
    proof -
      have "b \<noteq> a" using that Cons.prems(3) by auto
      then show ?thesis using Cons.prems(4) [of b] that by (simp add: drop_calls_ctx drop_calls_callContexts)
    qed
    show "\<exists>call. ctx ?c b = Some call \<and> seqno call = s" if "callContexts ?c s = Some b" for s b
    proof -
      have "callContexts c s = Some b" "b \<noteq> a" using that by (simp_all add: drop_calls_callContexts)
      then show ?thesis using Cons.prems(5) [of s b] by (simp add: drop_calls_ctx)
    qed
  qed (use Cons.prems(1,2,3,6) f in \<open>simp_all\<close>)
  have "nnext (clinks c) x = Some a" "a \<noteq> h" using Cons.prems(1,2) by auto
  then have "(disconnect_loop fuel (nnext (clinks c) x) h c :: ('cb rpc_client \<times> ('cb, 'm) fired list) go option) =
      map_option (map_ret (\<lambda>(c', log). (c', fire a None (Some ErrChannelDisconnected) ?c @ log)))
        (disconnect_loop f (nnext (clinks c) a) h ?c)"
    using call one by (simp add: f Let_def)
  then show ?case
    using IH [unfolded drop_calls_simps] by (simp add: fire_drop drop_calls_insert)
qed

lemma disconnect_spec:
  assumes inv: "client_inv c rs" and fuel: "length (rs uid) < fuel"
  shows "\<exists>c'. OnChannelDisconnect fuel uid c =
           Some (Ret (c', concat (map (\<lambda>a. fire a None (Some ErrChannelDisconnected) c) (rs uid)))) \<and>
           client_inv c' (rs(uid := [])) \<and> sequence c' = sequence c \<and>
           callContexts c' = callContexts (drop_calls (set (rs uid)) c) \<and>
           ctx c' = ctx (drop_calls (set (rs uid)) c)"
proof (cases "channels c uid")
  case None
  then have e: "rs uid = []" using client_invD(1) [OF inv] by blast
  then have rs: "rs(uid := []) = rs" by (simp add: fun_eq_iff)
  have "OnChannelDisconnect fuel uid c = Some (Ret (c, []))"
    using None by (simp add: OnChannelDisconnect_def disconnect_take_def)
  then show ?thesis using inv by (intro exI [of _ c]) (simp add: e rs drop_calls_empty)
next
  case (Some h)
  define c1 where "c1 = c\<lparr>channels := (channels c)(uid := None)\<rparr>"
  have ring: "callring (clinks c) h (rs uid)" using client_invD(2) [OF inv Some] .
  have "disconnect_loop fuel (nnext (clinks c1) h) h c1 =
      Some (Ret (drop_calls (set (rs uid)) c1, concat (map (\<lambda>a. fire a None (Some ErrChannelDisconnected) c1) (rs uid))))"
  proof (rule disconnect_loop_run)
    show "\<exists>call. ctx c1 a = Some call \<and> callContexts c1 (seqno call) = Some a" if "a \<in> set (rs uid)" for a
      using client_invD(3) [OF inv that] by (auto simp: c1_def)
    show "\<exists>call. ctx c1 a = Some call \<and> seqno call = s" if "callContexts c1 s = Some a" for s a
      using client_invD(4) [OF inv, of s a] that by (auto simp: c1_def)
  qed (use ring fuel in \<open>simp_all add: callring_def c1_def\<close>)
  then have eq: "OnChannelDisconnect fuel uid c = Some (Ret (drop_calls (set (rs uid)) c1,
      concat (map (\<lambda>a. fire a None (Some ErrChannelDisconnected) c) (rs uid))))"
    using Some by (simp add: OnChannelDisconnect_def disconnect_take_def c1_def fire_def)
  let ?c = "drop_calls (set (rs uid)) c1" and ?rs = "rs(uid := [])"
  have "client_inv ?c ?rs"
    unfolding client_inv_def
  proof (intro conjI)
    show "\<forall>u. \<forall>a\<in>set (?rs u). \<exists>call. ctx ?c a = Some call \<and> channelID call = u \<and> callContexts ?c (seqno call) = Some a"
    proof (intro allI ballI)
      fix u a assume a: "a \<in> set (?rs u)"
      then have u: "u \<noteq> uid" "a \<in> set (rs u)" by (auto split: if_splits)
      then have "a \<notin> set (rs uid)" using ring_nodes_disjoint [OF inv] by blast
      then show "\<exists>call. ctx ?c a = Some call \<and> channelID call = u \<and> callContexts ?c (seqno call) = Some a"
        using client_invD(3) [OF inv u(2)] by (auto simp: drop_calls_def c1_def)
    qed
    show "\<forall>s a. callContexts ?c s = Some a \<longrightarrow> (\<exists>call. ctx ?c a = Some call \<and> seqno call = s \<and> a \<in> set (?rs (channelID call)))"
    proof (intro allI impI)
      fix s a assume "callContexts ?c s = Some a"
      then have a: "callContexts c s = Some a" "a \<notin> set (rs uid)"
        by (auto simp: drop_calls_def c1_def split: option.splits if_splits)
      then obtain call where "ctx c a = Some call" "seqno call = s" "a \<in> set (rs (channelID call))"
        using client_invD(4) [OF inv] by blast
      then show "\<exists>call. ctx ?c a = Some call \<and> seqno call = s \<and> a \<in> set (?rs (channelID call))"
        using a(2) by (auto simp: drop_calls_def c1_def)
    qed
    show "\<forall>s. callContexts ?c s \<noteq> None \<longrightarrow> s \<le> sequence ?c"
      using client_invD(7) [OF inv] by (auto simp: drop_calls_def c1_def split: option.splits)
  qed (use client_invD(1,2,5,6) [OF inv] in \<open>auto simp: c1_def split: if_splits\<close>)
  moreover have "callContexts ?c = callContexts (drop_calls (set (rs uid)) c)" "sequence ?c = sequence c"
      "ctx ?c = ctx (drop_calls (set (rs uid)) c)"
    by (simp_all add: drop_calls_def c1_def cong: if_cong)
  ultimately show ?thesis using eq by blast
qed

section \<open>Histories\<close>

text \<open>The client with two histories: the calls whose \<open>AsynCall\<close> returned nil, with their callbacks, and
  the callbacks that ran. Each operation is one step; an admissible call gets unused addresses
  and a sequence number that does not wrap around, and only an armed timer fires.\<close>

record ('cb, 'm) rpc_sys =
  client :: "'cb rpc_client"
  issued :: "(uint64 \<times> 'cb) list"
  log :: "('cb, 'm) fired list"

fun issue :: "uint64 \<Rightarrow> 'cb option \<Rightarrow> rpc_error option \<Rightarrow> (uint64 \<times> 'cb) list" where
  "issue sq (Some f) None = [(sq, f)]"
| "issue sq cb err = []"

inductive rpc_step :: "('cb, 'm) rpc_sys \<Rightarrow> ('cb, 'm) rpc_sys \<Rightarrow> bool" where
  post: "sequence (client S) \<noteq> - 1 \<Longrightarrow> Post encErr sendErr (client S) = (c', r) \<Longrightarrow>
     rpc_step S (S\<lparr>client := c'\<rparr>)"
| call: "free_addr (client S) a \<Longrightarrow> free_addr (client S) h \<Longrightarrow> a \<noteq> h \<Longrightarrow> sequence (client S) \<noteq> - 1 \<Longrightarrow>
     AsynCall a h uid cb encErr sendErr (client S) = Ret (c', r) \<Longrightarrow>
     rpc_step S (S\<lparr>client := c', issued := issued S @ issue (sequence (client S) + 1) cb r\<rparr>)"
| message: "OnRPCMessage msg (client S) = Ret (c', out) \<Longrightarrow>
     rpc_step S (S\<lparr>client := c', log := log S @ out\<rparr>)"
| timeout: "ctx (client S) a = Some cl \<Longrightarrow> armed cl \<Longrightarrow> onTimeout a (client S) = Ret (c', out) \<Longrightarrow>
     rpc_step S (S\<lparr>client := c', log := log S @ out\<rparr>)"
| disconnect: "OnChannelDisconnect fuel uid (client S) = Some (Ret (c', out)) \<Longrightarrow>
     rpc_step S (S\<lparr>client := c', log := log S @ out\<rparr>)"

inductive rpc_reach :: "('cb, 'm) rpc_sys \<Rightarrow> bool" where
  init: "rpc_reach \<lparr>client = NewClient sq, issued = [], log = []\<rparr>"
| step: "rpc_reach S \<Longrightarrow> rpc_step S S' \<Longrightarrow> rpc_reach S'"

text \<open>Timers of contexts that are not pending are stopped.\<close>

definition timers_inv :: "'cb rpc_client \<Rightarrow> bool" where
  "timers_inv c \<longleftrightarrow> (\<forall>a call. ctx c a = Some call \<longrightarrow> armed call \<longrightarrow> callContexts c (seqno call) = Some a)"

definition rpc_inv :: "('cb, 'm) rpc_sys \<Rightarrow> bool" where
  "rpc_inv S \<longleftrightarrow>
     (\<exists>rs. client_inv (client S) rs) \<and> timers_inv (client S) \<and>
     distinct (map fst (issued S)) \<and> distinct (map fst (log S)) \<and>
     set (map fst (issued S)) = fst ` set (log S) \<union> dom (callContexts (client S)) \<and>
     fst ` set (log S) \<inter> dom (callContexts (client S)) = {} \<and>
     (\<forall>sq\<in>fst ` set (issued S). sq \<le> sequence (client S)) \<and>
     (\<forall>(sq, f, ret, err)\<in>set (log S). (sq, f) \<in> set (issued S)) \<and>
     (\<forall>sq a call. callContexts (client S) sq = Some a \<longrightarrow> ctx (client S) a = Some call \<longrightarrow>
        (sq, onResponse call) \<in> set (issued S))"

lemma rpc_invD:
  assumes "rpc_inv S"
  shows "\<exists>rs. client_inv (client S) rs" and "timers_inv (client S)"
    and "distinct (map fst (issued S))" and "distinct (map fst (log S))"
    and "fst ` set (issued S) = fst ` set (log S) \<union> dom (callContexts (client S))"
    and "fst ` set (log S) \<inter> dom (callContexts (client S)) = {}"
    and "sq \<in> fst ` set (issued S) \<Longrightarrow> sq \<le> sequence (client S)"
    and "(sq, f, ret, err) \<in> set (log S) \<Longrightarrow> (sq, f) \<in> set (issued S)"
    and "callContexts (client S) sq = Some a \<Longrightarrow> ctx (client S) a = Some call \<Longrightarrow> (sq, onResponse call) \<in> set (issued S)"
proof -
  show "\<exists>rs. client_inv (client S) rs" "timers_inv (client S)" "distinct (map fst (issued S))" "distinct (map fst (log S))"
    "fst ` set (issued S) = fst ` set (log S) \<union> dom (callContexts (client S))"
    "fst ` set (log S) \<inter> dom (callContexts (client S)) = {}"
    using assms by (simp_all add: rpc_inv_def)
  show "sq \<in> fst ` set (issued S) \<Longrightarrow> sq \<le> sequence (client S)"
    "(sq, f, ret, err) \<in> set (log S) \<Longrightarrow> (sq, f) \<in> set (issued S)"
    "callContexts (client S) sq = Some a \<Longrightarrow> ctx (client S) a = Some call \<Longrightarrow> (sq, onResponse call) \<in> set (issued S)"
    using assms unfolding rpc_inv_def by blast+
qed

text \<open>Answering pending calls: they leave the table, each with its own callback run once.\<close>

lemma answer_inv:
  assumes inv: "rpc_inv S" and ci: "client_inv c' rs'" and ti: "timers_inv c'"
    and sq: "sequence c' = sequence (client S)" and dist: "distinct (map fst out)"
    and dom: "dom (callContexts c') = dom (callContexts (client S)) - fst ` set out"
    and keep: "\<And>s a. callContexts c' s = Some a \<Longrightarrow> callContexts (client S) s = Some a"
    and cb: "\<And>a call. ctx c' a = Some call \<Longrightarrow> \<exists>call0. ctx (client S) a = Some call0 \<and> onResponse call0 = onResponse call"
    and out: "\<And>s f ret err. (s, f, ret, err) \<in> set out \<Longrightarrow>
       \<exists>a call. callContexts (client S) s = Some a \<and> ctx (client S) a = Some call \<and> onResponse call = f"
  shows "rpc_inv (S\<lparr>client := c', log := log S @ out\<rparr>)" (is "rpc_inv ?S")
proof -
  have pend: "fst ` set out \<subseteq> dom (callContexts (client S))" using out by fastforce
  show ?thesis
    unfolding rpc_inv_def
  proof (intro conjI)
    show "\<exists>rs. client_inv (client ?S) rs" using ci by auto
    have "fst ` set (log S) \<inter> fst ` set out = {}" using rpc_invD(6) [OF inv] pend by blast
    then show "distinct (map fst (log ?S))" using rpc_invD(4) [OF inv] dist by simp
    show "set (map fst (issued ?S)) = fst ` set (log ?S) \<union> dom (callContexts (client ?S))"
      using rpc_invD(5) [OF inv] pend dom by (simp add: image_Un) blast
    show "fst ` set (log ?S) \<inter> dom (callContexts (client ?S)) = {}"
      using rpc_invD(6) [OF inv] dom by (simp add: image_Un) blast
    show "\<forall>(s, f, ret, err)\<in>set (log ?S). (s, f) \<in> set (issued ?S)"
    proof (clarify)
      fix s f ret err assume "(s, f, ret, err) \<in> set (log ?S)"
      then show "(s, f) \<in> set (issued ?S)"
        using rpc_invD(8) [OF inv] out [of s f ret err] rpc_invD(9) [OF inv] by auto
    qed
    show "\<forall>s a call. callContexts (client ?S) s = Some a \<longrightarrow> ctx (client ?S) a = Some call \<longrightarrow>
        (s, onResponse call) \<in> set (issued ?S)"
    proof (intro allI impI)
      fix s a call assume a: "callContexts (client ?S) s = Some a" "ctx (client ?S) a = Some call"
      then obtain call0 where "ctx (client S) a = Some call0" "onResponse call0 = onResponse call"
        using cb [of a call] by auto
      then show "(s, onResponse call) \<in> set (issued ?S)"
        using keep [of s a] a rpc_invD(9) [OF inv, of s a call0] by simp
    qed
  qed (use rpc_invD(3,7) [OF inv] ti sq in \<open>simp_all\<close>)
qed

lemma timers_inv_remove:
  assumes "timers_inv c" and "client_inv c rs" and "callContexts c sq = Some a"
    and "callContexts c' = (callContexts c)(sq := None)" and "ctx c' = ctx (stopTimer a c)"
  shows "timers_inv c'"
  unfolding timers_inv_def
proof (intro allI impI)
  fix b call assume b: "ctx c' b = Some call" "armed call"
  have "b \<noteq> a" using b assms(5) by (auto simp: ctx_stopTimer)
  then have "ctx c b = Some call" using b assms(5) by (simp add: ctx_stopTimer)
  then have "callContexts c (seqno call) = Some b" using assms(1) b(2) by (simp add: timers_inv_def)
  moreover from this have "seqno call \<noteq> sq" using assms(3) \<open>b \<noteq> a\<close> by auto
  ultimately show "callContexts c' (seqno call) = Some b" using assms(4) by simp
qed

text \<open>Removing a pending call and running its callback: responses and timeouts.\<close>

lemma remove_answer_inv:
  assumes inv: "rpc_inv S" and sq: "callContexts (client S) sq = Some a"
  shows "\<exists>c' f. removeCallBySeqno sq (client S) = Ret (c', Some a) \<and> fire a ret err c' = [(sq, f, ret, err)] \<and>
           rpc_inv (S\<lparr>client := c', log := log S @ [(sq, f, ret, err)]\<rparr>)"
proof -
  obtain rs where rs: "client_inv (client S) rs" using rpc_invD(1) [OF inv] by blast
  obtain c' where c': "removeCallBySeqno sq (client S) = Ret (c', Some a)" "client_inv c' (rings_without a rs)"
      "callContexts c' = (callContexts (client S))(sq := None)" "sequence c' = sequence (client S)"
      "ctx c' = ctx (stopTimer a (client S))"
    using removeCall_some [OF rs sq] by blast
  obtain call where call: "ctx (client S) a = Some call" "seqno call = sq"
    using client_invD(4) [OF rs sq] by blast
  have fire: "fire a ret err c' = [(sq, onResponse call, ret, err)]"
    using call by (simp add: fire_def c'(5) ctx_stopTimer)
  have "rpc_inv (S\<lparr>client := c', log := log S @ [(sq, onResponse call, ret, err)]\<rparr>)"
  proof (rule answer_inv [OF inv c'(2) _ c'(4)])
    show "timers_inv c'" using timers_inv_remove [OF rpc_invD(2) [OF inv] rs sq c'(3,5)] .
    show "\<exists>call0. ctx (client S) b = Some call0 \<and> onResponse call0 = onResponse cl"
      if "ctx c' b = Some cl" for b cl
      using ctx_stopTimer_D [of a "client S" b cl] that c'(5) by auto
    show "\<exists>b cl. callContexts (client S) s = Some b \<and> ctx (client S) b = Some cl \<and> onResponse cl = f"
      if "(s, f, r, e) \<in> set [(sq, onResponse call, ret, err)]" for s f r e
      using that sq call by auto
  qed (use c'(3) in \<open>auto split: if_splits\<close>)
  then show ?thesis using c'(1) fire by blast
qed

lemma message_ok:
  assumes inv: "rpc_inv S"
  shows "\<exists>c' out. OnRPCMessage msg (client S) = Ret (c', out) \<and> rpc_inv (S\<lparr>client := c', log := log S @ out\<rparr>)"
proof (cases "\<exists>resp. msg = Some (Response resp)")
  case True
  then obtain resp where msg: "msg = Some (Response resp)" by blast
  show ?thesis
  proof (cases "callContexts (client S) (resp_seq resp)")
    case None
    then show ?thesis using inv by (simp add: OnRPCMessage_def msg removeCall_none)
  next
    case (Some a)
    then show ?thesis
      using remove_answer_inv [OF inv Some, of "Some (resp_ret resp)" "resp_err resp"]
      by (auto simp: OnRPCMessage_def msg)
  qed
next
  case False
  then have "OnRPCMessage msg (client S) = Ret (client S, [])"
    by (auto simp: OnRPCMessage_def split: option.splits rpc_message.splits)
  then show ?thesis using inv by simp
qed

lemma stopTimer_inv: "rpc_inv S \<Longrightarrow> rpc_inv (S\<lparr>client := stopTimer a (client S)\<rparr>)"
proof -
  assume inv: "rpc_inv S"
  obtain rs where rs: "client_inv (client S) rs" using rpc_invD(1) [OF inv] by blast
  have "timers_inv (stopTimer a (client S))"
    using rpc_invD(2) [OF inv] by (auto simp: timers_inv_def ctx_stopTimer split: if_splits)
  moreover have "\<exists>call0. ctx (client S) b = Some call0 \<and> onResponse call0 = onResponse cl"
    if "ctx (stopTimer a (client S)) b = Some cl" for b cl
    using ctx_stopTimer_D [OF that] by auto
  ultimately show ?thesis
    using answer_inv [OF inv client_inv_stopTimer [OF rs, of a], of "[]"] by simp
qed

lemma timeout_ok:
  assumes inv: "rpc_inv S" and a: "ctx (client S) a = Some call" "armed call"
  shows "\<exists>c' out. onTimeout a (client S) = Ret (c', out) \<and> rpc_inv (S\<lparr>client := c', log := log S @ out\<rparr>)"
proof -
  let ?S = "S\<lparr>client := stopTimer a (client S)\<rparr>"
  have "callContexts (client ?S) (seqno call) = Some a"
    using rpc_invD(2) [OF inv] a by (simp add: timers_inv_def)
  from remove_answer_inv [OF stopTimer_inv [OF inv] this, of None "Some ErrCallTimeout"]
  show ?thesis by (auto simp: onTimeout_def a(1))
qed

lemma disconnect_ok:
  fixes S :: "('a, 'b) rpc_sys"
  assumes inv: "rpc_inv S"
  shows "\<exists>n. \<forall>fuel>n. \<exists>c' out. OnChannelDisconnect fuel uid (client S) = Some (Ret (c', out)) \<and>
           rpc_inv (S\<lparr>client := c', log := log S @ out\<rparr>)"
proof -
  obtain rs where rs: "client_inv (client S) rs" using rpc_invD(1) [OF inv] by blast
  let ?as = "rs uid" and ?c = "client S"
  have call: "\<exists>call. ctx ?c a = Some call \<and> callContexts ?c (seqno call) = Some a" if "a \<in> set ?as" for a
    using client_invD(3) [OF rs that] by blast
  define sqn where "sqn = (\<lambda>a. seqno (the (ctx ?c a)))"
  define out where "out = map (\<lambda>a. (sqn a, onResponse (the (ctx ?c a)), None :: 'b option, Some ErrChannelDisconnected)) ?as"
  have outs: "concat (map (\<lambda>a. fire a None (Some ErrChannelDisconnected) ?c) ?as) = out"
  proof -
    have "map (\<lambda>a. fire a None (Some ErrChannelDisconnected) ?c) ?as =
        map (\<lambda>a. [(sqn a, onResponse (the (ctx ?c a)), None :: 'b option, Some ErrChannelDisconnected)]) ?as"
    proof (rule map_cong [OF refl])
      fix a assume "a \<in> set ?as"
      then obtain cl where "ctx ?c a = Some cl" using call by blast
      then show "fire a None (Some ErrChannelDisconnected) ?c =
          [(sqn a, onResponse (the (ctx ?c a)), None :: 'b option, Some ErrChannelDisconnected)]"
        by (simp add: fire_def sqn_def)
    qed
    then show ?thesis unfolding out_def by (simp only: concat_map_singleton)
  qed
  have inj: "inj_on sqn (set ?as)"
    by (rule inj_onI) (metis call option.inject option.sel sqn_def)
  have "distinct ?as"
    using client_invD(1,2) [OF rs, of uid] by (cases "channels ?c uid") (auto simp: callring_def)
  then have dist: "distinct (map fst out)"
    using inj by (simp add: out_def comp_def distinct_map)
  have pend: "callContexts ?c s = Some a \<Longrightarrow> a \<in> set ?as \<longleftrightarrow> s \<in> fst ` set out" for s a
  proof -
    assume s: "callContexts ?c s = Some a"
    then have sa: "s = sqn a" using client_invD(4) [OF rs s] by (auto simp: sqn_def)
    have "b = a" if "b \<in> set ?as" "sqn b = s" for b
      using call [OF that(1)] that(2) s by (auto simp: sqn_def)
    then show ?thesis using sa by (auto simp: out_def image_image)
  qed
  have "\<exists>c'. OnChannelDisconnect fuel uid ?c = Some (Ret (c', out)) \<and>
      rpc_inv (S\<lparr>client := c', log := log S @ out\<rparr>)" if fuel: "length ?as < fuel" for fuel
  proof -
    obtain c' where c': "OnChannelDisconnect fuel uid ?c = Some (Ret (c', out))" "client_inv c' (rs(uid := []))"
        "sequence c' = sequence ?c" "callContexts c' = callContexts (drop_calls (set ?as) ?c)"
        "ctx c' = ctx (drop_calls (set ?as) ?c)"
    proof -
      have "\<exists>c'. OnChannelDisconnect fuel uid ?c = Some (Ret (c', out)) \<and>
           client_inv c' (rs(uid := [])) \<and> sequence c' = sequence ?c \<and>
           callContexts c' = callContexts (drop_calls (set ?as) ?c) \<and>
           ctx c' = ctx (drop_calls (set ?as) ?c)"
        unfolding outs [symmetric] by (rule disconnect_spec [OF rs fuel])
      then show ?thesis using that by blast
    qed
    have "rpc_inv (S\<lparr>client := c', log := log S @ out\<rparr>)"
    proof (rule answer_inv [OF inv c'(2) _ c'(3) dist])
      have cc: "callContexts c' s = Some a \<longleftrightarrow> callContexts ?c s = Some a \<and> a \<notin> set ?as" for s a
        by (simp add: c'(4) drop_calls_callContexts)
      show "timers_inv c'"
        unfolding timers_inv_def
      proof (intro allI impI)
        fix b cl assume b: "ctx c' b = Some cl" "armed cl"
        then have "b \<notin> set ?as" "ctx ?c b = Some cl" by (auto simp: c'(5) drop_calls_ctx split: if_splits)
        then show "callContexts c' (seqno cl) = Some b"
          using rpc_invD(2) [OF inv] b(2) by (simp add: cc timers_inv_def)
      qed
      show "dom (callContexts c') = dom (callContexts ?c) - fst ` set out"
      proof (rule set_eqI)
        fix s show "s \<in> dom (callContexts c') \<longleftrightarrow> s \<in> dom (callContexts ?c) - fst ` set out"
          using cc [of s] pend [of s] by (cases "callContexts ?c s") (auto simp: dom_def)
      qed
      show "callContexts c' s = Some a \<Longrightarrow> callContexts ?c s = Some a" for s a by (simp add: cc)
      show "\<exists>call0. ctx ?c b = Some call0 \<and> onResponse call0 = onResponse cl" if "ctx c' b = Some cl" for b cl
        using that by (auto simp: c'(5) drop_calls_ctx split: if_splits)
      show "\<exists>b cl. callContexts ?c s = Some b \<and> ctx ?c b = Some cl \<and> onResponse cl = f"
        if mem: "(s, f, r, e) \<in> set out" for s f r e
      proof -
        obtain b where b: "b \<in> set ?as" "s = sqn b" "f = onResponse (the (ctx ?c b))"
          using mem by (auto simp: out_def)
        obtain cl where "ctx ?c b = Some cl" "callContexts ?c (seqno cl) = Some b" using call [OF b(1)] by blast
        then show ?thesis using b by (auto simp: sqn_def)
      qed
    qed
    then show ?thesis using c'(1) by blast
  qed
  then show ?thesis by blast
qed

text \<open>More fuel does not change a result of the loop.\<close>

lemma disconnect_loop_mono:
  "disconnect_loop fuel cur h c = Some r \<Longrightarrow> fuel \<le> fuel' \<Longrightarrow> disconnect_loop fuel' cur h c = Some r"
proof (induction fuel arbitrary: cur c r fuel')
  case 0
  then show ?case by simp
next
  case (Suc fuel)
  obtain f' where f': "fuel' = Suc f'" "fuel \<le> f'" using Suc.prems(2) by (cases fuel') auto
  show ?case
    using Suc.prems(1) Suc.IH [OF _ f'(2)] by (auto simp: f'(1) Let_def split: option.splits if_splits)
qed

lemma disconnect_run_inv:
  assumes "rpc_inv S" and "OnChannelDisconnect fuel uid (client S) = Some (Ret (c', out))"
  shows "rpc_inv (S\<lparr>client := c', log := log S @ out\<rparr>)"
proof -
  obtain n where n: "\<forall>fuel>n. \<exists>c' out. OnChannelDisconnect fuel uid (client S) = Some (Ret (c', out)) \<and>
      rpc_inv (S\<lparr>client := c', log := log S @ out\<rparr>)"
    using disconnect_ok [OF assms(1)] by blast
  obtain c1 cc where take: "disconnect_take uid (client S) = (c1, cc)" by fastforce
  have "OnChannelDisconnect (Suc (max n fuel)) uid (client S) = Some (Ret (c', out))"
  proof (cases cc)
    case None
    then show ?thesis using assms(2) take by (simp add: OnChannelDisconnect_def)
  next
    case (Some h)
    then have "disconnect_loop fuel (nnext (clinks c1) h) h c1 = Some (Ret (c', out))"
      using assms(2) take by (simp add: OnChannelDisconnect_def)
    then have "disconnect_loop (Suc (max n fuel)) (nnext (clinks c1) h) h c1 = Some (Ret (c', out))"
      by (rule disconnect_loop_mono) simp
    then show ?thesis using take Some by (simp add: OnChannelDisconnect_def)
  qed
  then show ?thesis using n [rule_format, of "Suc (max n fuel)"] by auto
qed

lemma bump_inv:
  assumes inv: "rpc_inv S" and nowrap: "sequence (client S) \<noteq> - 1"
  shows "rpc_inv (S\<lparr>client := (client S)\<lparr>sequence := sequence (client S) + 1\<rparr>\<rparr>)"
proof -
  let ?c = "(client S)\<lparr>sequence := sequence (client S) + 1\<rparr>"
  have lt: "sequence (client S) \<le> sequence (client S) + 1"
    using word_less_succ [OF nowrap] by (rule order.strict_implies_order)
  obtain rs where rs: "client_inv (client S) rs" using rpc_invD(1) [OF inv] by blast
  have "sq \<le> sequence ?c" if "callContexts ?c sq \<noteq> None" for sq
    using client_invD(7) [OF rs, of sq] that lt by simp
  then have "client_inv ?c rs" using rs unfolding client_inv_def by simp
  moreover have "sq \<le> sequence ?c" if "sq \<in> fst ` set (issued S)" for sq
    using rpc_invD(7) [OF inv that] lt by simp
  ultimately show ?thesis using inv unfolding rpc_inv_def by (auto simp: timers_inv_def)
qed

lemma issue_inv:
  assumes inv: "rpc_inv S" and ci: "client_inv c' rs'" and new: "sq \<notin> fst ` set (issued S)"
    and c': "callContexts c' = (callContexts (client S))(sq \<mapsto> a)" "ctx c' = (ctx (client S))(a \<mapsto> call)"
      "sequence c' = sequence (client S)"
    and call: "seqno call = sq" "onResponse call = f" "sq \<le> sequence (client S)"
    and a: "a \<notin> ran (callContexts (client S))"
  shows "rpc_inv (S\<lparr>client := c', issued := issued S @ [(sq, f)]\<rparr>)" (is "rpc_inv ?S")
proof -
  have nosq: "callContexts (client S) sq = None" "sq \<notin> fst ` set (log S)"
    using rpc_invD(5) [OF inv] new by blast+
  have other: "callContexts (client S) s = Some b \<Longrightarrow> b \<noteq> a" for s b using a by (auto simp: ran_def)
  show ?thesis
    unfolding rpc_inv_def
  proof (intro conjI)
    show "\<exists>rs. client_inv (client ?S) rs" using ci by auto
    show "timers_inv (client ?S)"
      using rpc_invD(2) [OF inv] nosq(1) call c' by (fastforce simp: timers_inv_def)
    show "set (map fst (issued ?S)) = fst ` set (log ?S) \<union> dom (callContexts (client ?S))"
      using rpc_invD(5) [OF inv] c'(1) by (simp add: image_Un)
    show "fst ` set (log ?S) \<inter> dom (callContexts (client ?S)) = {}"
      using rpc_invD(6) [OF inv] nosq(2) c'(1) by simp
    show "\<forall>s\<in>fst ` set (issued ?S). s \<le> sequence (client ?S)"
      using rpc_invD(7) [OF inv] call(3) c'(3) by auto
    show "\<forall>(s, g, ret, err)\<in>set (log ?S). (s, g) \<in> set (issued ?S)"
      using rpc_invD(8) [OF inv] by auto
    show "\<forall>s b cl. callContexts (client ?S) s = Some b \<longrightarrow> ctx (client ?S) b = Some cl \<longrightarrow>
        (s, onResponse cl) \<in> set (issued ?S)"
    proof (intro allI impI)
      fix s b cl assume b: "callContexts (client ?S) s = Some b" "ctx (client ?S) b = Some cl"
      show "(s, onResponse cl) \<in> set (issued ?S)"
      proof (cases "s = sq")
        case True
        then show ?thesis using b c' call by auto
      next
        case False
        then have s: "callContexts (client S) s = Some b" using b c' by simp
        then have "ctx (client S) b = Some cl" using other [OF s] b c' by simp
        then show ?thesis using rpc_invD(9) [OF inv s] by simp
      qed
    qed
  qed (use rpc_invD(3,4) [OF inv] new in \<open>simp_all\<close>)
qed

lemma call_ok:
  assumes inv: "rpc_inv S" and free: "free_addr (client S) a" "free_addr (client S) h" "a \<noteq> h"
    and nowrap: "sequence (client S) \<noteq> - 1"
  shows "\<exists>c' r. AsynCall a h uid cb encErr sendErr (client S) = Ret (c', r) \<and>
           rpc_inv (S\<lparr>client := c', issued := issued S @ issue (sequence (client S) + 1) cb r\<rparr>)"
proof (cases cb)
  case None
  then show ?thesis using inv by (simp add: AsynCall_def)
next
  case (Some f)
  define sq where "sq = sequence (client S) + 1"
  define c1 where "c1 = (client S)\<lparr>sequence := sq\<rparr>"
  have inv1: "rpc_inv (S\<lparr>client := c1\<rparr>)" using bump_inv [OF inv nowrap] by (simp add: c1_def sq_def)
  obtain rs where rs: "client_inv c1 rs" using rpc_invD(1) [OF inv1] by auto
  have lt: "\<not> sq \<le> sequence (client S)" using word_less_succ [OF nowrap] by (simp add: sq_def not_le)
  then have new: "sq \<notin> fst ` set (issued S)" using rpc_invD(7) [OF inv] by blast
  then have none: "callContexts c1 sq = None" using rpc_invD(5) [OF inv] by (auto simp: c1_def)
  define call where "call = \<lparr>seqno = sq, channelID = uid, onResponse = f, armed = False\<rparr>"
  have fr: "free_addr c1 a" "free_addr c1 h" using free by (simp_all add: free_addr_def c1_def)
  obtain c2 where c2: "addCall a h call c1 = Ret c2" "client_inv c2 (rs(uid := a # rs uid))"
      "callContexts c2 = (callContexts c1)(sq \<mapsto> a)" "ctx c2 = (ctx c1)(a \<mapsto> call\<lparr>armed := True\<rparr>)"
      "sequence c2 = sequence c1"
    using addCall_inv [OF rs fr free(3), of call] none by (auto simp: call_def c1_def)
  show ?thesis
  proof (cases encErr)
    case enc: (Some e)
    then have "AsynCall a h uid cb encErr sendErr (client S) = Ret (c1, Some e)"
      by (simp add: AsynCall_def Some Let_def c1_def sq_def)
    then show ?thesis using inv1 Some by simp
  next
    case enc: None
    have run: "AsynCall a h uid cb encErr sendErr (client S) = (case sendErr of
        None \<Rightarrow> Ret (c2, None)
      | Some e \<Rightarrow> bind_go (removeCallBySeqno sq c2) (\<lambda>(c3, r). Ret (c3, Some e)))"
      using c2(1) by (simp add: AsynCall_def Some enc Let_def c1_def sq_def call_def split: option.splits)
    have inv2: "rpc_inv (S\<lparr>client := c2, issued := issued S @ [(sq, f)]\<rparr>)"
      using issue_inv [OF inv1 c2(2), of sq a "call\<lparr>armed := True\<rparr>" f] new c2(3-5) fr(1)
      by (simp add: call_def c1_def free_addr_def)
    show ?thesis
    proof (cases sendErr)
      case None
      have "AsynCall a h uid cb encErr sendErr (client S) = Ret (c2, None)"
        unfolding run using c2(1) None by simp
      then show ?thesis using inv2 Some by (simp add: sq_def)
    next
      case snd: (Some e)
      obtain c3 where c3: "removeCallBySeqno sq c2 = Ret (c3, Some a)"
          "client_inv c3 (rings_without a (rs(uid := a # rs uid)))"
          "callContexts c3 = (callContexts c2)(sq := None)" "sequence c3 = sequence c2"
          "ctx c3 = ctx (stopTimer a c2)"
        using removeCall_some [OF c2(2), of sq a] c2(3) by auto
      have eq: "AsynCall a h uid cb encErr sendErr (client S) = Ret (c3, Some e)"
        unfolding run using c2(1) c3(1) snd by simp
      have cc: "callContexts c3 = callContexts c1" using c3(3) c2(3) none by auto
      have "timers_inv c2" "callContexts c2 sq = Some a" using rpc_invD(2) [OF inv2] c2(3) by simp_all
      then have "timers_inv c3" using timers_inv_remove [OF _ c2(2) _ c3(3,5)] by blast
      moreover have "fst ` set (issued S) = fst ` set (log S) \<union> dom (callContexts c3)"
        using rpc_invD(5) [OF inv] cc by (simp add: c1_def)
      moreover have "ctx c3 b = ctx c1 b" if "callContexts c3 s = Some b" for s b
        using that fr(1) by (auto simp: c3(5) ctx_stopTimer c2(4) cc free_addr_def ran_def)
      ultimately have "rpc_inv (S\<lparr>client := c3\<rparr>)"
        using inv1 c3(2,4) c2(5) unfolding rpc_inv_def by (auto simp: cc)
      then show ?thesis using eq Some by simp
    qed
  qed
qed

lemma rpc_step_inv:
  assumes "rpc_step S S'" and "rpc_inv S"
  shows "rpc_inv S'"
  using assms(1)
proof (cases rule: rpc_step.cases)
  case (post encErr sendErr c' r)
  then have "c' = (client S)\<lparr>sequence := sequence (client S) + 1\<rparr>"
    by (auto simp: Post_def Let_def split: option.splits)
  then show ?thesis using post bump_inv [OF assms(2)] by simp
next
  case (call a h uid cb encErr sendErr c' r)
  then show ?thesis using call_ok [OF assms(2), of a h uid cb encErr sendErr] by auto
next
  case (message msg c' out)
  then show ?thesis using message_ok [OF assms(2), of msg] by auto
next
  case (timeout a cl c' out)
  then show ?thesis using timeout_ok [OF assms(2), of a cl] by auto
next
  case (disconnect fuel uid c' out)
  then show ?thesis using disconnect_run_inv [OF assms(2)] by auto
qed

lemma rpc_reach_inv: "rpc_reach S \<Longrightarrow> rpc_inv S"
proof (induction rule: rpc_reach.induct)
  case (init sq)
  have "client_inv (NewClient sq :: 'a rpc_client) (\<lambda>_. [])" by (rule client_inv_NewClient)
  then show ?case by (auto simp: rpc_inv_def timers_inv_def NewClient_def)
next
  case (step S S')
  then show ?case using rpc_step_inv by blast
qed

lemma answered_once:
  assumes inv: "rpc_inv S" and "(sq, f) \<in> set (issued S)"
  shows "callContexts (client S) sq \<noteq> None \<and> filter (\<lambda>e. fst e = sq) (log S) = [] \<or>
         callContexts (client S) sq = None \<and>
           (\<exists>ret err. filter (\<lambda>e. fst e = sq) (log S) = [(sq, f, ret, err)])"
proof -
  have mem: "sq \<in> fst ` set (log S) \<union> dom (callContexts (client S))"
    using rpc_invD(5) [OF inv] assms(2) by force
  show ?thesis
  proof (cases "callContexts (client S) sq")
    case None
    then obtain g ret err where e: "(sq, g, ret, err) \<in> set (log S)" using mem by auto
    then have "(sq, g) \<in> set (issued S)" by (rule rpc_invD(8) [OF inv])
    then have "g = f" using eq_key_imp_eq_value [OF rpc_invD(3) [OF inv]] assms(2) by metis
    then show ?thesis using None filter_key [OF rpc_invD(4) [OF inv] e] by auto
  next
    case (Some a)
    then have "sq \<notin> fst ` set (log S)" using rpc_invD(6) [OF inv] by blast
    then show ?thesis using Some by (auto simp: filter_empty_conv)
  qed
qed

section \<open>Properties\<close>

text \<open>Every call whose \<open>AsynCall\<close> returned nil is, in every reachable state, either
  pending with its callback not yet run, or no longer pending with its own callback run exactly
  once, whatever responses (duplicate or unknown ones too), timeouts and disconnects came in
  which order.\<close>

theorem rpc_exactly_once:
  assumes "rpc_reach S" and "(sq, f) \<in> set (issued S)"
  shows "callContexts (client S) sq \<noteq> None \<and> filter (\<lambda>e. fst e = sq) (log S) = [] \<or>
         callContexts (client S) sq = None \<and>
           (\<exists>ret err. filter (\<lambda>e. fst e = sq) (log S) = [(sq, f, ret, err)])"
  using answered_once [OF rpc_reach_inv [OF assms(1)] assms(2)] .

text \<open>A client with one pending call, for the witnesses.\<close>

definition one_call :: "(string, string) rpc_sys" where
  "one_call = \<lparr>client =
      \<lparr>sequence = 1, callContexts = [1 \<mapsto> 10], channels = [7 \<mapsto> 20],
       ctx = [10 \<mapsto> \<lparr>seqno = 1, channelID = 7, onResponse = ''cb'', armed = True\<rparr>],
       clinks = \<lparr>nnext = [20 \<mapsto> 10, 10 \<mapsto> 20], pprev = [20 \<mapsto> 20, 10 \<mapsto> 20]\<rparr>\<rparr>,
     issued = [(1, ''cb'')], log = []\<rparr>"

lemma one_call_reach: "rpc_reach one_call"
proof -
  let ?S0 = "\<lparr>client = NewClient 0, issued = [], log = []\<rparr> :: (string, string) rpc_sys"
  let ?c = "client one_call"
  have run: "AsynCall 10 20 7 (Some ''cb'') None None (client ?S0) = Ret (?c, None)"
    by (simp add: AsynCall_def addCall_def NewClient_def cc_add_def cc_new_def set_next_def set_prev_def
        one_call_def Let_def fun_upd_twist)
  have "rpc_step ?S0 (?S0\<lparr>client := ?c, issued := issued ?S0 @ issue (sequence (client ?S0) + 1) (Some ''cb'') None\<rparr>)"
    by (rule rpc_step.call [OF _ _ _ _ run]) (simp_all add: free_addr_def NewClient_def)
  moreover have "?S0\<lparr>client := ?c, issued := issued ?S0 @ issue (sequence (client ?S0) + 1) (Some ''cb'') None\<rparr> = one_call"
    by (simp add: one_call_def NewClient_def)
  ultimately show ?thesis using rpc_reach.step [OF rpc_reach.init] by metis
qed

theorem rpc_exactly_once_witness:
  "callContexts (client one_call) 1 \<noteq> None \<and> filter (\<lambda>e. fst e = 1) (log one_call) = []"
  using rpc_exactly_once [OF one_call_reach, of 1 "''cb''"] by (simp add: one_call_def)

text \<open>The critical sections of \<open>OnChannelDisconnect\<close> do not compose: when a response or a
  timeout for a call of the channel comes after the first of them has taken the ring out of the
  map and before the loop has reached the call, \<open>removeCallBySeqno\<close> dereferences the missing ring and
  panics.\<close>

lemma disconnect_race_panics:
  assumes "client_inv c rs" and "callContexts c sq = Some a" and "ctx c a = Some call"
    and "disconnect_take (channelID call) c = (c', Some h)"
  shows "removeCallBySeqno sq c' = Panic NilDeref"
proof -
  let ?u = "channelID call"
  obtain cl where cl: "ctx c a = Some cl" "a \<in> set (rs (channelID cl))" using client_invD(4) [OF assms(1,2)] by blast
  then have a: "a \<in> set (rs ?u)" using assms(3) by simp
  have h: "channels c ?u = Some h" "c' = c\<lparr>channels := (channels c)(?u := None)\<rparr>"
    using assms(4) by (auto simp: disconnect_take_def split: option.splits)
  obtain xs ys where "rs ?u = xs @ a # ys" using a by (metis split_list)
  then obtain l where "cc_remove a (clinks c) = Ret l"
    using callring_remove [of "clinks c" h xs a ys] client_invD(2) [OF assms(1) h(1)] by auto
  then show ?thesis using assms(2,3) by (simp add: removeCallBySeqno_def h(2) cc_empty_def Let_def)
qed

lemma disconnect_take_removal:
  assumes inv: "client_inv c rs" and sq: "callContexts c sq = Some a" and call: "ctx c a = Some call"
  shows "if channelID call = uid then removeCallBySeqno sq (fst (disconnect_take uid c)) = Panic NilDeref
         else \<exists>c'. removeCallBySeqno sq (fst (disconnect_take uid c)) = Ret (c', Some a)"
proof (cases "channelID call = uid")
  case True
  have "a \<in> set (rs uid)" using client_invD(4) [OF inv sq] call True by auto
  then obtain h where "channels c uid = Some h" using client_invD(1) [OF inv, of uid] by fastforce
  then have "disconnect_take (channelID call) c = (fst (disconnect_take uid c), Some h)"
    by (simp add: disconnect_take_def True)
  from disconnect_race_panics [OF inv sq call this] show ?thesis by (simp add: True)
next
  case False
  have a: "a \<in> set (rs (channelID call))" using client_invD(4) [OF inv sq] call by auto
  then obtain h where h: "channels c (channelID call) = Some h"
    using client_invD(1) [OF inv, of "channelID call"] by fastforce
  obtain xs ys where xs: "rs (channelID call) = xs @ a # ys" using a by (metis split_list)
  obtain l where l: "cc_remove a (clinks c) = Ret l" "callring l h (xs @ ys)"
    using callring_remove [of "clinks c" h xs a ys] client_invD(2) [OF inv h] xs by auto
  have "channels (fst (disconnect_take uid c)) (channelID call) = Some h"
      "clinks (fst (disconnect_take uid c)) = clinks c" "ctx (fst (disconnect_take uid c)) = ctx c"
      "callContexts (fst (disconnect_take uid c)) = callContexts c"
    using False h by (auto simp: disconnect_take_def split: option.splits)
  then show ?thesis
    using l(1) callring_empty [OF l(2)] False by (simp add: removeCallBySeqno_def sq call Let_def)
qed

text \<open>C14. Run one after the other, the operations of the client neither panic nor loop: in every
  reachable state a message, a timer that is armed, a call with unused addresses and a disconnect
  all return, the disconnect for every fuel above some bound. Interleaved they can panic: right
  after the first critical section of \<open>OnChannelDisconnect\<close> has taken a ring out of the map, before its
  loop has reached them, removing any call of that channel (for a response or a timeout) panics with
  a nil dereference, while removing a call of another channel returns it.\<close>

theorem rpc_total:
  fixes S :: "('cb, 'm) rpc_sys" and msg :: "'m rpc_message option"
  assumes "rpc_reach S"
  shows "(\<exists>c' out. OnRPCMessage msg (client S) = Ret (c', out)) \<and>
         (\<forall>call. ctx (client S) a = Some call \<longrightarrow> armed call \<longrightarrow> (\<exists>c' (out :: ('cb, 'm) fired list). onTimeout a (client S) = Ret (c', out))) \<and>
         (free_addr (client S) b \<longrightarrow> free_addr (client S) h \<longrightarrow> b \<noteq> h \<longrightarrow> sequence (client S) \<noteq> - 1 \<longrightarrow>
            (\<exists>c' r. AsynCall b h uid cb encErr sendErr (client S) = Ret (c', r))) \<and>
         (\<exists>n. \<forall>fuel>n. \<exists>c' (out :: ('cb, 'm) fired list). OnChannelDisconnect fuel uid (client S) = Some (Ret (c', out))) \<and>
         (\<forall>sq d call. callContexts (client S) sq = Some d \<longrightarrow> ctx (client S) d = Some call \<longrightarrow>
            (if channelID call = uid
             then removeCallBySeqno sq (fst (disconnect_take uid (client S))) = Panic NilDeref
             else \<exists>c'. removeCallBySeqno sq (fst (disconnect_take uid (client S))) = Ret (c', Some d)))"
proof -
  note inv = rpc_reach_inv [OF assms]
  obtain rs where "client_inv (client S) rs" using rpc_invD(1) [OF inv] by blast
  note race = disconnect_take_removal [OF this]
  show ?thesis
  proof (intro conjI allI impI)
    fix sq d call assume "callContexts (client S) sq = Some d" and "ctx (client S) d = Some call"
    then show "if channelID call = uid
        then removeCallBySeqno sq (fst (disconnect_take uid (client S))) = Panic NilDeref
        else \<exists>c'. removeCallBySeqno sq (fst (disconnect_take uid (client S))) = Ret (c', Some d)"
      by (rule race)
  qed (use message_ok [OF inv, of msg] timeout_ok [OF inv, of a] call_ok [OF inv, of b h uid cb encErr sendErr]
      disconnect_ok [OF inv, of uid] in blast)+
qed

theorem rpc_total_witness:
  "(\<exists>c' out. OnRPCMessage (Some (Response \<lparr>resp_seq = 1, resp_err = None, resp_ret = ''r''\<rparr>)) (client one_call) = Ret (c', out)) \<and>
   (\<exists>c' (out :: (string, string) fired list). onTimeout 10 (client one_call) = Ret (c', out)) \<and>
   (\<exists>n. \<forall>fuel>n. \<exists>c' (out :: (string, string) fired list). OnChannelDisconnect fuel 7 (client one_call) = Some (Ret (c', out))) \<and>
   removeCallBySeqno 1 (fst (disconnect_take 7 (client one_call))) = Panic NilDeref"
proof -
  have "ctx (client one_call) 10 = Some \<lparr>seqno = 1, channelID = 7, onResponse = ''cb'', armed = True\<rparr>"
      "callContexts (client one_call) 1 = Some 10"
    by (simp_all add: one_call_def)
  then show ?thesis
    using rpc_total [OF one_call_reach, where a = 10 and uid = 7 and
        msg = "Some (Response \<lparr>resp_seq = 1, resp_err = None, resp_ret = ''r''\<rparr>)"]
    by (metis callContext.select_convs(2,4))
qed

end
