(* ===== verification/RpcRace.thy ===== *)
theory RpcRace
  imports RpcClient
begin

text \<open>
  The RPC client under concurrency (\<open>src/rpc/client.go\<close>): the goroutines that are in \<open>AsynCall\<close>, \<open>OnRPCMessage\<close>, \<open>onTimeout\<close> and
  \<open>OnChannelDisconnect\<close> interleave between their critical sections and between every read of a shared context, and contexts go back
  to \<open>callContextPool\<close> and are used again while stale pointers to them exist. The critical sections are those of RpcClient.
  A goroutine that panics ends the process, so it has no step.
\<close>

section \<open>Definitions\<close>

text \<open>The points of the goroutines, each with its local variables: \<open>AFill\<close> with a sequence number before the context is taken from
  the pool, \<open>AAdd\<close> with a filled context (and the address of a new list head)
  before \<open>addCall\<close>, \<open>ASend\<close> before \<open>SendRequest\<close>, \<open>AFail\<close> before the read of \<open>context.seq\<close>, \<open>ARemove\<close> before the removal;
  \<open>RMsg\<close> with a response; \<open>TRead\<close> and \<open>TRemove\<close> in \<open>onTimeout\<close>; \<open>Run\<close> with a call that was removed, before its callback;
  \<open>DTake\<close> and \<open>DStart\<close> at the begin of \<open>OnChannelDisconnect\<close>, \<open>DLoop\<close> at the head of its loop, \<open>DLock\<close> before the
  critical section, \<open>DStop\<close> and \<open>DRun\<close> before the timer is stopped and the callback runs.\<close>

datatype ('cb, 'm) rpc_pc =
    AFill uint64 'cb uint64
  | AAdd addr addr uint64 'cb uint64
  | ASend addr 'cb uint64
  | AFail addr
  | ARemove addr uint64
  | RMsg "'m rpc_response"
  | TRead addr
  | TRemove addr uint64
  | Run addr "'m option" "rpc_error option"
  | DTake uint64
  | DStart addr
  | DLoop "addr option" addr
  | DLock addr "addr option" addr
  | DStop addr "addr option" addr
  | DRun addr "addr option" addr

text \<open>What a context says: the sequence number and the callback; and whether its timer is armed.\<close>

definition info :: "'cb rpc_client \<Rightarrow> addr \<Rightarrow> (uint64 \<times> 'cb) option" where
  "info c a = map_option (\<lambda>call. (seqno call, onResponse call)) (ctx c a)"

definition timer :: "'cb rpc_client \<Rightarrow> addr \<Rightarrow> bool" where
  "timer c a = (case ctx c a of None \<Rightarrow> False | Some call \<Rightarrow> armed call)"

text \<open>The client with four histories: the calls that \<open>addCall\<close> has entered, those whose \<open>AsynCall\<close> has returned nil, the callbacks
  that ran, and the calls that a failing \<open>AsynCall\<close> has removed.\<close>

record ('cb, 'm) race =
  rclient :: "'cb rpc_client"
  added :: "(uint64 \<times> 'cb) list"
  returned :: "(uint64 \<times> 'cb) list"
  ran_cbs :: "('cb, 'm) fired list"
  dropped :: "(uint64 \<times> 'cb) list"
  threads :: "('cb, 'm) rpc_pc list"

text \<open>One step of a goroutine: the new state, and the points that replace its own; the step from \<open>AFill\<close> needs a context and is
  below. \<open>sendErr\<close> is the answer of \<open>SendRequest\<close>.\<close>

fun rpc_thread :: "rpc_error option \<Rightarrow> ('cb, 'm) rpc_pc \<Rightarrow> ('cb, 'm) race \<Rightarrow> (('cb, 'm) race \<times> ('cb, 'm) rpc_pc list) go" where
  "rpc_thread sendErr (AFill uid f sq) S = Ret (S, [AFill uid f sq])"
| "rpc_thread sendErr (AAdd a h uid f sq) S =
     map_ret (\<lambda>c. (S\<lparr>rclient := c, added := added S @ [(sq, f)]\<rparr>, [ASend a f sq]))
       (addCall a h \<lparr>seqno = sq, channelID = uid, onResponse = f, armed = False\<rparr> (rclient S))"
| "rpc_thread sendErr (ASend a f sq) S =
     Ret (case sendErr of None \<Rightarrow> (S\<lparr>returned := returned S @ [(sq, f)]\<rparr>, []) | Some e \<Rightarrow> (S, [AFail a]))"
| "rpc_thread sendErr (AFail a) S =
     (case ctx (rclient S) a of None \<Rightarrow> Panic NilDeref | Some call \<Rightarrow> Ret (S, [ARemove a (seqno call)]))"
| "rpc_thread sendErr (ARemove a sq) S =
     map_ret (\<lambda>(c, r). (S\<lparr>rclient := c, dropped := dropped S @ (case r of None \<Rightarrow> [] | Some b \<Rightarrow> [the (info c b)])\<rparr>, []))
       (removeCallBySeqno sq (rclient S))"
| "rpc_thread sendErr (RMsg resp) S =
     map_ret (\<lambda>(c, r). (S\<lparr>rclient := c\<rparr>, case r of None \<Rightarrow> [] | Some b \<Rightarrow> [Run b (Some (resp_ret resp)) (resp_err resp)]))
       (removeCallBySeqno (resp_seq resp) (rclient S))"
| "rpc_thread sendErr (TRead a) S =
     (case ctx (rclient S) a of None \<Rightarrow> Panic NilDeref | Some call \<Rightarrow> Ret (S, [TRemove a (seqno call)]))"
| "rpc_thread sendErr (TRemove a sq) S =
     map_ret (\<lambda>(c, r). (S\<lparr>rclient := c\<rparr>, if r \<noteq> None then [Run a None (Some ErrCallTimeout)] else []))
       (removeCallBySeqno sq (rclient S))"
| "rpc_thread sendErr (Run a ret err) S = Ret (S\<lparr>ran_cbs := ran_cbs S @ fire a ret err (rclient S)\<rparr>, [])"
| "rpc_thread sendErr (DTake uid) S =
     (case disconnect_take uid (rclient S) of
        (c, None) \<Rightarrow> Ret (S\<lparr>rclient := c\<rparr>, [])
      | (c, Some h) \<Rightarrow> Ret (S\<lparr>rclient := c\<rparr>, [DStart h]))"
| "rpc_thread sendErr (DStart h) S = Ret (S, [DLoop (nnext (clinks (rclient S)) h) h])"
| "rpc_thread sendErr (DLoop cur h) S =
     (case cur of
        None \<Rightarrow> Panic NilDeref
      | Some a \<Rightarrow> Ret (S, if a = h then [] else [DLock a (nnext (clinks (rclient S)) a) h]))"
| "rpc_thread sendErr (DLock a nxt h) S =
     (case ctx (rclient S) a of
        None \<Rightarrow> Panic NilDeref
      | Some call \<Rightarrow>
          Ret (if callContexts (rclient S) (seqno call) \<noteq> None
               then (S\<lparr>rclient := (rclient S)\<lparr>callContexts := (callContexts (rclient S))(seqno call := None)\<rparr>\<rparr>, [DStop a nxt h])
               else (S, [DLoop nxt h])))"
| "rpc_thread sendErr (DStop a nxt h) S = Ret (S\<lparr>rclient := stopTimer a (rclient S)\<rparr>, [DRun a nxt h])"
| "rpc_thread sendErr (DRun a nxt h) S =
     Ret (S\<lparr>ran_cbs := ran_cbs S @ fire a None (Some ErrChannelDisconnected) (rclient S)\<rparr>, [DLoop nxt h])"

text \<open>The addresses that the allocator and the pool do not hand out: contexts in the table, contexts that a goroutine still has to add
  or to answer, and list heads. A context that only stale pointers refer to is in the pool.\<close>

fun owned :: "('cb, 'm) rpc_pc \<Rightarrow> addr list" where
  "owned (AAdd a h uid f sq) = [a, h]"
| "owned (Run a ret err) = [a]"
| "owned (DStop a nxt h) = [a]"
| "owned (DRun a nxt h) = [a]"
| "owned p = []"

fun heads :: "('cb, 'm) rpc_pc \<Rightarrow> addr list" where
  "heads (DStart h) = [h]"
| "heads (DLoop cur h) = [h]"
| "heads (DLock a nxt h) = [h]"
| "heads (DStop a nxt h) = [h]"
| "heads (DRun a nxt h) = [h]"
| "heads p = []"

definition busy :: "('cb, 'm) race \<Rightarrow> addr set" where
  "busy S = ran (callContexts (rclient S)) \<union> ran (channels (rclient S)) \<union> set (concat (map owned (threads S))) \<union>
     set (concat (map heads (threads S)))"

text \<open>A context that is filled in.\<close>

definition fill_ctx :: "addr \<Rightarrow> uint64 \<Rightarrow> 'cb \<Rightarrow> uint64 \<Rightarrow> 'cb rpc_client \<Rightarrow> 'cb rpc_client" where
  "fill_ctx a uid f sq c = c\<lparr>ctx := (ctx c)(a \<mapsto> \<lparr>seqno = sq, channelID = uid, onResponse = f, armed = False\<rparr>)\<rparr>"

text \<open>The steps: a goroutine goes on, or one begins. \<open>faults\<close> says whether \<open>SendRequest\<close> may fail. \<open>no_call\<close> is a \<open>Post\<close>, or
  an \<open>AsynCall\<close> whose request cannot be encoded.\<close>

inductive race_step :: "bool \<Rightarrow> ('cb, 'm) race \<Rightarrow> ('cb, 'm) race \<Rightarrow> bool" for faults where
  thread: "threads S = xs @ p # ys \<Longrightarrow> sendErr = None \<or> faults \<Longrightarrow> rpc_thread sendErr p S = Ret (S', qs) \<Longrightarrow>
     race_step faults S (S'\<lparr>threads := xs @ qs @ ys\<rparr>)"
| asyn_call: "sequence (rclient S) \<noteq> - 1 \<Longrightarrow>
     race_step faults S (S\<lparr>rclient := (rclient S)\<lparr>sequence := sequence (rclient S) + 1\<rparr>,
       threads := threads S @ [AFill uid f (sequence (rclient S) + 1)]\<rparr>)"
| fill: "threads S = xs @ AFill uid f sq # ys \<Longrightarrow> a \<notin> busy S \<Longrightarrow> h \<notin> busy S \<Longrightarrow> a \<noteq> h \<Longrightarrow>
     race_step faults S (S\<lparr>rclient := fill_ctx a uid f sq (rclient S), threads := xs @ AAdd a h uid f sq # ys\<rparr>)"
| no_call: "sequence (rclient S) \<noteq> - 1 \<Longrightarrow>
     race_step faults S (S\<lparr>rclient := (rclient S)\<lparr>sequence := sequence (rclient S) + 1\<rparr>\<rparr>)"
| message: "race_step faults S (S\<lparr>threads := threads S @ [RMsg resp]\<rparr>)"
| timer_fires: "timer (rclient S) a \<Longrightarrow>
     race_step faults S (S\<lparr>rclient := stopTimer a (rclient S), threads := threads S @ [TRead a]\<rparr>)"
| disconnect: "race_step faults S (S\<lparr>threads := threads S @ [DTake uid]\<rparr>)"

definition race_init :: "uint64 \<Rightarrow> ('cb, 'm) race" where
  "race_init sq = \<lparr>rclient = NewClient sq, added = [], returned = [], ran_cbs = [], dropped = [], threads = []\<rparr>"

inductive race_reach :: "bool \<Rightarrow> ('cb, 'm) race \<Rightarrow> bool" for faults where
  race_start: "race_reach faults (race_init sq)"
| race_next: "race_reach faults S \<Longrightarrow> race_step faults S S' \<Longrightarrow> race_reach faults S'"

section \<open>What the critical sections do to the tables\<close>

lemma info_stopTimer [simp]: "info (stopTimer a c) = info c"
  by (auto simp: info_def stopTimer_def fun_eq_iff option.map_comp comp_def)

lemma timer_stopTimer [simp]: "timer (stopTimer a c) b \<longleftrightarrow> timer c b \<and> b \<noteq> a"
  by (auto simp: timer_def stopTimer_def split: option.split)

lemma info_timer_update [simp]:
  "info (c\<lparr>callContexts := T\<rparr>) = info c" "timer (c\<lparr>callContexts := T\<rparr>) = timer c"
  "info (c\<lparr>sequence := q\<rparr>) = info c" "timer (c\<lparr>sequence := q\<rparr>) = timer c"
  "info (c\<lparr>channels := ch\<rparr>) = info c" "timer (c\<lparr>channels := ch\<rparr>) = timer c"
  "info (c\<lparr>clinks := l\<rparr>) = info c" "timer (c\<lparr>clinks := l\<rparr>) = timer c"
  by (simp_all add: info_def timer_def fun_eq_iff)

lemma removeCall_effect:
  assumes "removeCallBySeqno sq c = Ret (c', r)"
  shows "r = callContexts c sq" and "callContexts c' = (callContexts c)(sq := None)" and "sequence c' = sequence c"
    and "info c' = info c" and "timer c' b \<longleftrightarrow> timer c b \<and> callContexts c sq \<noteq> Some b"
  using assms
  by (auto simp: removeCallBySeqno_def Let_def bind_go_eq_Ret split: option.splits if_splits)

lemma addCall_effect:
  assumes "addCall a h \<lparr>seqno = sq, channelID = uid, onResponse = f, armed = False\<rparr> c = Ret c'"
  shows "callContexts c' = (callContexts c)(sq \<mapsto> a)" and "sequence c' = sequence c"
    and "info c' = (info c)(a \<mapsto> (sq, f))" and "timer c' b \<longleftrightarrow> timer c b \<or> b = a"
  using assms
  by (auto simp: addCall_def Let_def bind_go_eq_Ret info_def timer_def fun_eq_iff split: option.splits prod.splits if_splits)

lemma disconnect_take_effect:
  assumes "disconnect_take uid c = (c', r)"
  shows "callContexts c' = callContexts c" and "sequence c' = sequence c" and "info c' = info c" and "timer c' = timer c"
  using assms by (auto simp: disconnect_take_def split: option.splits)

section \<open>The invariant\<close>

text \<open>The contexts whose callback a goroutine is about to run, and the calls they are for; the sequence numbers that are not in a
  context yet.\<close>

fun duty :: "('cb, 'm) rpc_pc \<Rightarrow> addr list" where
  "duty (Run a ret err) = [a]"
| "duty (DStop a nxt h) = [a]"
| "duty (DRun a nxt h) = [a]"
| "duty p = []"

fun unused :: "('cb, 'm) rpc_pc \<Rightarrow> uint64 list" where
  "unused (AFill uid f sq) = [sq]"
| "unused p = []"

definition in_hand :: "'cb rpc_client \<Rightarrow> ('cb, 'm) rpc_pc list \<Rightarrow> (uint64 \<times> 'cb) list" where
  "in_hand c ps = map (\<lambda>a. the (info c a)) (concat (map duty ps))"

definition pending :: "'cb rpc_client \<Rightarrow> uint64 \<times> 'cb \<Rightarrow> bool" where
  "pending c x \<longleftrightarrow> (\<exists>a. callContexts c (fst x) = Some a \<and> info c a = Some x)"

definition entry :: "('cb, 'm) fired \<Rightarrow> uint64 \<times> 'cb" where
  "entry y = (fst y, fst (snd y))"

text \<open>Every call that was entered is at exactly one place: answered, dropped, in the hands of a goroutine, or in the table.\<close>

definition balanced :: "('cb, 'm) race \<Rightarrow> bool" where
  "balanced S \<longleftrightarrow> (\<forall>x. count_list (map entry (ran_cbs S)) x + count_list (dropped S) x + count_list (in_hand (rclient S) (threads S)) x +
     of_bool (pending (rclient S) x) = count_list (added S) x)"

text \<open>No context is at two places, and no two contexts carry the same sequence number.\<close>

definition exclusive :: "'cb rpc_client \<Rightarrow> ('cb, 'm) rpc_pc list \<Rightarrow> bool" where
  "exclusive c ps \<longleftrightarrow> (\<forall>a. count_list (concat (map owned ps)) a + of_bool (a \<in> ran (callContexts c)) \<le> 1)"

definition well_numbered :: "'cb rpc_client \<Rightarrow> ('cb, 'm) rpc_pc list \<Rightarrow> bool" where
  "well_numbered c ps \<longleftrightarrow>
     (\<forall>sq a. callContexts c sq = Some a \<longrightarrow> (\<exists>f. info c a = Some (sq, f))) \<and>
     (\<forall>a b sq f g. info c a = Some (sq, f) \<longrightarrow> info c b = Some (sq, g) \<longrightarrow> a = b) \<and>
     (\<forall>a sq f. info c a = Some (sq, f) \<longrightarrow> sq \<le> sequence c) \<and>
     distinct (concat (map unused ps)) \<and> (\<forall>sq \<in> set (concat (map unused ps)). sq \<le> sequence c \<and> (\<forall>a f. info c a \<noteq> Some (sq, f)))"

text \<open>What a goroutine's local variables have to do with the shared state.\<close>

fun local :: "'cb rpc_client \<Rightarrow> (uint64 \<times> 'cb) list \<Rightarrow> uint64 list \<Rightarrow> ('cb, 'm) rpc_pc \<Rightarrow> bool" where
  "local c A U (AFill uid f sq) \<longleftrightarrow> sq \<notin> fst ` set A"
| "local c A U (AAdd a h uid f sq) \<longleftrightarrow> info c a = Some (sq, f) \<and> sq \<notin> fst ` set A"
| "local c A U (ASend a f sq) \<longleftrightarrow> (sq, f) \<in> set A"
| "local c A U (TRemove a sq) \<longleftrightarrow> sq \<le> sequence c \<and> sq \<notin> set U \<and> (\<forall>b f. info c b = Some (sq, f) \<longrightarrow> b = a)"
| "local c A U (Run a ret err) \<longleftrightarrow> info c a \<noteq> None"
| "local c A U (DStop a nxt h) \<longleftrightarrow> info c a \<noteq> None"
| "local c A U (DRun a nxt h) \<longleftrightarrow> info c a \<noteq> None"
| "local c A U p \<longleftrightarrow> True"

text \<open>A pending call has a timer that is armed or on its way.\<close>

definition timed :: "'cb rpc_client \<Rightarrow> ('cb, 'm) rpc_pc list \<Rightarrow> bool" where
  "timed c ps \<longleftrightarrow> (\<forall>sq a. callContexts c sq = Some a \<longrightarrow> timer c a \<or> TRead a \<in> set ps \<or> TRemove a sq \<in> set ps)"

definition race_inv :: "('cb, 'm) race \<Rightarrow> bool" where
  "race_inv S \<longleftrightarrow>
     balanced S \<and> exclusive (rclient S) (threads S) \<and> well_numbered (rclient S) (threads S) \<and>
     (\<forall>p \<in> set (threads S). local (rclient S) (added S) (concat (map unused (threads S))) p) \<and> timed (rclient S) (threads S) \<and>
     distinct (map fst (added S)) \<and> (\<forall>sq \<in> fst ` set (added S). sq \<le> sequence (rclient S)) \<and> set (returned S) \<subseteq> set (added S)"

lemma race_invI:
  assumes "balanced S" "exclusive (rclient S) (threads S)" "well_numbered (rclient S) (threads S)"
    and "\<forall>p \<in> set (threads S). local (rclient S) (added S) (concat (map unused (threads S))) p" "timed (rclient S) (threads S)"
    and "distinct (map fst (added S))" "\<forall>sq \<in> fst ` set (added S). sq \<le> sequence (rclient S)" "set (returned S) \<subseteq> set (added S)"
  shows "race_inv S"
  using assms by (simp add: race_inv_def)

lemma race_invD:
  assumes "race_inv S"
  shows "balanced S" "exclusive (rclient S) (threads S)" "well_numbered (rclient S) (threads S)"
    and "\<forall>p \<in> set (threads S). local (rclient S) (added S) (concat (map unused (threads S))) p" "timed (rclient S) (threads S)"
    and "distinct (map fst (added S))" "\<forall>sq \<in> fst ` set (added S). sq \<le> sequence (rclient S)" "set (returned S) \<subseteq> set (added S)"
  using assms by (simp_all add: race_inv_def)

lemma race_inv_init: "race_inv (race_init sq)"
  by (simp add: race_inv_def race_init_def NewClient_def balanced_def exclusive_def well_numbered_def timed_def in_hand_def pending_def info_def)

lemma well_numberedD:
  assumes "well_numbered c ps"
  shows "callContexts c sq = Some a \<Longrightarrow> \<exists>f. info c a = Some (sq, f)"
    and "info c a = Some (sq, f) \<Longrightarrow> info c b = Some (sq, g) \<Longrightarrow> a = b"
    and "info c a = Some (sq, f) \<Longrightarrow> sq \<le> sequence c"
    and "distinct (concat (map unused ps))"
    and "sq \<in> set (concat (map unused ps)) \<Longrightarrow> sq \<le> sequence c \<and> (\<forall>a f. info c a \<noteq> Some (sq, f))"
  using assms unfolding well_numbered_def by blast+

section \<open>Every step keeps it\<close>

lemma local_cong: "info c' = info c \<Longrightarrow> sequence c' = sequence c \<Longrightarrow> local c' A U p = local c A U p"
  by (cases p) simp_all

lemma pending_cong: "info c' = info c \<Longrightarrow> callContexts c' = callContexts c \<Longrightarrow> pending c' = pending c"
  by (simp add: pending_def fun_eq_iff)

lemma in_hand_append [simp]: "in_hand c (xs @ ys) = in_hand c xs @ in_hand c ys"
  by (simp add: in_hand_def)

lemma in_hand_Cons: "in_hand c (p # ps) = map (\<lambda>a. the (info c a)) (duty p) @ in_hand c ps"
  by (simp add: in_hand_def)

lemma in_hand_cong: "info c' = info c \<Longrightarrow> in_hand c' = in_hand c"
  by (simp add: in_hand_def fun_eq_iff)

lemma in_hand_no_duty: "concat (map duty ps) = [] \<Longrightarrow> in_hand c ps = []"
  by (simp add: in_hand_def)

definition places :: "'cb rpc_client \<Rightarrow> ('cb, 'm) rpc_pc list \<Rightarrow> addr \<Rightarrow> nat" where
  "places c ps a = count_list (concat (map owned ps)) a + of_bool (a \<in> ran (callContexts c))"

lemma exclusive_places: "exclusive c ps \<longleftrightarrow> (\<forall>a. places c ps a \<le> 1)"
  by (simp add: exclusive_def places_def)

lemma exclusive_mono: "exclusive c ps \<Longrightarrow> (\<And>a. places c' ps' a \<le> places c ps a) \<Longrightarrow> exclusive c' ps'"
  unfolding exclusive_places using le_trans by blast

lemma timed_step:
  assumes "timed c (xs @ p # ys)"
    and "\<And>sq a. callContexts c' sq = Some a \<Longrightarrow> callContexts c sq = Some a \<and> (timer c a \<longrightarrow> timer c' a)"
    and "\<And>sq a. callContexts c' sq = Some a \<Longrightarrow> p = TRead a \<Longrightarrow> TRemove a sq \<in> set qs"
    and "\<And>sq a. callContexts c' sq = Some a \<Longrightarrow> p \<noteq> TRemove a sq"
  shows "timed c' (xs @ qs @ ys)"
  unfolding timed_def
proof (intro allI impI)
  fix sq a
  assume T: "callContexts c' sq = Some a"
  then have "timer c a \<or> TRead a \<in> set (xs @ p # ys) \<or> TRemove a sq \<in> set (xs @ p # ys)"
    using assms(1,2) unfolding timed_def by blast
  then show "timer c' a \<or> TRead a \<in> set (xs @ qs @ ys) \<or> TRemove a sq \<in> set (xs @ qs @ ys)"
    using assms(2-4) [OF T] by auto
qed

text \<open>A step that leaves the table alone, and takes no call and answers none.\<close>

lemma inv_move:
  assumes inv: "race_inv S" and thr: "threads S = xs @ p # ys" "threads S' = xs @ qs @ ys"
    and c': "callContexts (rclient S') = callContexts (rclient S)" "info (rclient S') = info (rclient S)" "sequence (rclient S') = sequence (rclient S)"
    and tm: "\<And>sq a. callContexts (rclient S) sq = Some a \<Longrightarrow> timer (rclient S) a \<Longrightarrow> timer (rclient S') a"
    and h': "added S' = added S" "ran_cbs S' = ran_cbs S" "dropped S' = dropped S" "set (returned S') \<subseteq> set (added S)"
    and qs: "concat (map duty qs) = duty p" "\<And>a. count_list (concat (map owned qs)) a \<le> count_list (owned p) a"
      "concat (map unused qs) = unused p"
    and loc: "\<And>q. q \<in> set qs \<Longrightarrow> local (rclient S) (added S) (concat (map unused (threads S))) q"
    and rd: "\<And>sq a. callContexts (rclient S) sq = Some a \<Longrightarrow> p = TRead a \<Longrightarrow> TRemove a sq \<in> set qs"
    and rm: "\<And>sq a. callContexts (rclient S) sq = Some a \<Longrightarrow> p \<noteq> TRemove a sq"
  shows "race_inv S'"
proof -
  note D = race_invD [OF inv]
  have U: "concat (map unused (threads S')) = concat (map unused (threads S))" using qs(3) thr by simp
  have hand: "in_hand (rclient S') (threads S') = in_hand (rclient S) (threads S)"
    using qs(1) by (simp add: in_hand_cong [OF c'(2)] thr in_hand_def)
  show ?thesis
  proof (rule race_invI)
    show "balanced S'" using D(1) hand pending_cong [OF c'(2,1)] by (simp add: balanced_def h')
    show "exclusive (rclient S') (threads S')"
      by (rule exclusive_mono [OF D(2)]) (use qs(2) thr c'(1) in \<open>simp add: places_def\<close>)
    show "well_numbered (rclient S') (threads S')" using D(3) unfolding well_numbered_def c' U .
    have "\<forall>q \<in> set (xs @ qs @ ys). local (rclient S) (added S) (concat (map unused (threads S))) q" using D(4) loc thr by auto
    then show "\<forall>q \<in> set (threads S'). local (rclient S') (added S') (concat (map unused (threads S'))) q"
      unfolding thr(2) [symmetric] h' U local_cong [OF c'(2,3)] .
    show "timed (rclient S') (threads S')"
      unfolding thr(2) by (rule timed_step [OF D(5) [unfolded thr(1)]]) (use tm rd rm c'(1) in auto)
  qed (use D(6-8) c' h' in simp_all)
qed

text \<open>A step that takes a call out of the table: into the goroutine's hands, or dropped.\<close>

lemma pending_take:
  assumes wn: "well_numbered c ps" and T: "callContexts c sq = Some a" "info c a = Some (sq, f)"
    and c': "callContexts c' = (callContexts c)(sq := None)" "info c' = info c"
  shows "of_bool (pending c x) = of_bool (pending c' x) + (of_bool (x = (sq, f)) :: nat)"
proof (cases "fst x = sq")
  case True
  then have "pending c x \<longleftrightarrow> x = (sq, f)" "\<not> pending c' x" using T c' by (auto simp: pending_def)
  then show ?thesis by simp
next
  case False
  then have "pending c' x \<longleftrightarrow> pending c x" "x \<noteq> (sq, f)" using c' by (auto simp: pending_def)
  then show ?thesis by simp
qed

lemma ran_take:
  assumes wn: "well_numbered c ps" and T: "callContexts c sq = Some a"
    and c': "callContexts c' = (callContexts c)(sq := None)"
  shows "of_bool (b \<in> ran (callContexts c')) + (of_bool (b = a) :: nat) \<le> of_bool (b \<in> ran (callContexts c))"
proof -
  have "a \<notin> ran (callContexts c')"
  proof
    assume "a \<in> ran (callContexts c')"
    then obtain s where s: "s \<noteq> sq" "callContexts c s = Some a" unfolding c' ran_def by (auto split: if_splits)
    then show False using well_numberedD(1) [OF wn s(2)] well_numberedD(1) [OF wn T] by auto
  qed
  moreover have "ran (callContexts c') \<subseteq> ran (callContexts c)" unfolding c' ran_def by auto
  moreover have "a \<in> ran (callContexts c)" using T by (rule ranI)
  ultimately show ?thesis by (cases "b = a") auto
qed

lemma inv_take:
  assumes inv: "race_inv S" and thr: "threads S = xs @ p # ys" "threads S' = xs @ qs @ ys"
    and T: "callContexts (rclient S) sq = Some a" "info (rclient S) a = Some (sq, f)"
    and c': "callContexts (rclient S') = (callContexts (rclient S))(sq := None)" "info (rclient S') = info (rclient S)"
      "sequence (rclient S') = sequence (rclient S)"
    and tm: "\<And>b. b \<noteq> a \<Longrightarrow> timer (rclient S) b \<Longrightarrow> timer (rclient S') b"
    and h': "added S' = added S" "ran_cbs S' = ran_cbs S" "returned S' = returned S"
    and p: "duty p = []" "unused p = []" "\<And>b. p \<noteq> TRead b" "\<And>b s. p = TRemove b s \<Longrightarrow> s = sq"
    and qs: "\<And>b. count_list (concat (map owned qs)) b \<le> of_bool (b = a)" "concat (map unused qs) = []"
      "\<And>x. count_list (dropped S') x + count_list (in_hand (rclient S) qs) x = count_list (dropped S) x + of_bool (x = (sq, f))"
    and loc: "\<And>q. q \<in> set qs \<Longrightarrow> local (rclient S) (added S) (concat (map unused (threads S))) q"
  shows "race_inv S'"
proof -
  note D = race_invD [OF inv]
  have U: "concat (map unused (threads S')) = concat (map unused (threads S))" using qs(2) p(2) thr by simp
  note pend = pending_take [OF D(3) T c'(1,2)] and rn = ran_take [OF D(3) T(1) c'(1)]
  show ?thesis
  proof (rule race_invI)
    show "balanced S'" unfolding balanced_def
    proof
      fix x
      have "in_hand (rclient S') (threads S') = in_hand (rclient S) xs @ in_hand (rclient S) qs @ in_hand (rclient S) ys"
        "in_hand (rclient S) (threads S) = in_hand (rclient S) xs @ in_hand (rclient S) ys"
        using p(1) by (simp_all add: thr in_hand_cong [OF c'(2)] in_hand_Cons)
      then show "count_list (map entry (ran_cbs S')) x + count_list (dropped S') x + count_list (in_hand (rclient S') (threads S')) x +
          of_bool (pending (rclient S') x) = count_list (added S') x"
        using D(1) [unfolded balanced_def, rule_format, of x] pend [of x] qs(3) [of x] unfolding h' by simp
    qed
    show "exclusive (rclient S') (threads S')"
    proof (rule exclusive_mono [OF D(2)])
      fix b
      show "places (rclient S') (threads S') b \<le> places (rclient S) (threads S) b"
        using rn [of b] qs(1) [of b] by (simp add: places_def thr)
    qed
    show "well_numbered (rclient S') (threads S')" using D(3) unfolding well_numbered_def c'(2,3) U c'(1) by simp
    have "\<forall>q \<in> set (xs @ qs @ ys). local (rclient S) (added S) (concat (map unused (threads S))) q" using D(4) loc thr by auto
    then show "\<forall>q \<in> set (threads S'). local (rclient S') (added S') (concat (map unused (threads S'))) q"
      unfolding thr(2) [symmetric] h' U local_cong [OF c'(2,3)] .
    have keep: "callContexts (rclient S) s = Some b \<and> s \<noteq> sq \<and> b \<noteq> a" if "callContexts (rclient S') s = Some b" for s b
    proof -
      have s: "s \<noteq> sq" "callContexts (rclient S) s = Some b" using that c'(1) by (simp_all split: if_splits)
      then show ?thesis using well_numberedD(1) [OF D(3) s(2)] T(2) by auto
    qed
    show "timed (rclient S') (threads S')"
      unfolding thr(2) by (rule timed_step [OF D(5) [unfolded thr(1)]]) (use keep tm p in blast)+
  qed (use D(6-8) c' h' in simp_all)
qed

text \<open>A step that runs a callback.\<close>

lemma inv_fire:
  assumes inv: "race_inv S" and thr: "threads S = xs @ p # ys" "threads S' = xs @ qs @ ys"
    and p: "duty p = [a]" "owned p = [a]" "unused p = []" "\<And>b. p \<noteq> TRead b" "\<And>b s. p \<noteq> TRemove b s"
    and c': "rclient S' = rclient S"
    and h': "added S' = added S" "dropped S' = dropped S" "returned S' = returned S"
      "ran_cbs S' = ran_cbs S @ fire a ret err (rclient S)"
    and qs: "concat (map owned qs) = []" "concat (map duty qs) = []" "concat (map unused qs) = []"
    and loc: "\<And>q. q \<in> set qs \<Longrightarrow> local (rclient S) (added S) (concat (map unused (threads S))) q"
    and i: "info (rclient S) a \<noteq> None"
  shows "race_inv S'"
proof -
  note D = race_invD [OF inv]
  obtain call where call: "ctx (rclient S) a = Some call" using i by (auto simp: info_def)
  then have ent: "map entry (fire a ret err (rclient S)) = [the (info (rclient S) a)]" by (simp add: fire_def info_def entry_def)
  have U: "concat (map unused (threads S')) = concat (map unused (threads S))" using qs(3) p(3) thr by simp
  show ?thesis
  proof (rule race_invI)
    show "balanced S'" unfolding balanced_def
    proof
      fix x
      have "in_hand (rclient S) (threads S') = in_hand (rclient S) xs @ in_hand (rclient S) ys"
        "in_hand (rclient S) (threads S) = in_hand (rclient S) xs @ the (info (rclient S) a) # in_hand (rclient S) ys"
        using p(1) qs(2) by (simp_all add: thr in_hand_Cons in_hand_no_duty)
      then show "count_list (map entry (ran_cbs S')) x + count_list (dropped S') x + count_list (in_hand (rclient S') (threads S')) x +
          of_bool (pending (rclient S') x) = count_list (added S') x"
        using D(1) [unfolded balanced_def, rule_format, of x] ent unfolding h' c'
        by (cases "the (info (rclient S) a) = x") simp_all
    qed
    show "exclusive (rclient S') (threads S')"
      by (rule exclusive_mono [OF D(2)]) (use qs(1) p(2) in \<open>simp add: places_def thr c'\<close>)
    show "well_numbered (rclient S') (threads S')" using D(3) unfolding well_numbered_def c' U .
    have "\<forall>q \<in> set (xs @ qs @ ys). local (rclient S) (added S) (concat (map unused (threads S))) q" using D(4) loc thr by auto
    then show "\<forall>q \<in> set (threads S'). local (rclient S') (added S') (concat (map unused (threads S'))) q"
      unfolding thr(2) [symmetric] h' U c' .
    show "timed (rclient S') (threads S')"
      unfolding thr(2) c' by (rule timed_step [OF D(5) [unfolded thr(1)]]) (use p in blast)+
  qed (use D(6-8) c' h' in simp_all)
qed

text \<open>\<open>addCall\<close>.\<close>

lemma owned_twice:
  assumes "exclusive c (xs @ p # ys)" and "a \<in> set (owned p)" and "q \<in> set xs \<or> q \<in> set ys" and "a \<in> set (owned q)"
  shows False
proof -
  have "count_list (owned p) a \<ge> 1" using assms(2) by (simp add: Suc_le_eq count_list_0_iff flip: neq0_conv)
  moreover have "count_list (concat (map owned xs)) a + count_list (concat (map owned ys)) a \<ge> 1"
  proof -
    have "a \<in> set (concat (map owned xs @ map owned ys))" using assms(3,4) by auto
    then have "count_list (concat (map owned xs) @ concat (map owned ys)) a \<noteq> 0" by (simp add: count_list_0_iff)
    then show ?thesis unfolding count_list_append by linarith
  qed
  moreover have "places c (xs @ p # ys) a \<le> 1" using assms(1) by (simp add: exclusive_places)
  ultimately show False by (simp add: places_def)
qed

lemma balanced_added: "balanced S \<Longrightarrow> pending (rclient S) x \<Longrightarrow> x \<in> set (added S)"
  unfolding balanced_def by (metis add_gr_0 count_list_0_iff not_gr_zero of_bool_eq(2) zero_less_one)

lemma inv_put:
  assumes inv: "race_inv S" and thr: "threads S = xs @ AAdd a h uid f sq # ys" "threads S' = xs @ [ASend a f sq] @ ys"
    and c': "callContexts (rclient S') = (callContexts (rclient S))(sq \<mapsto> a)" "info (rclient S') = (info (rclient S))(a \<mapsto> (sq, f))"
      "sequence (rclient S') = sequence (rclient S)" "\<And>b. timer (rclient S') b \<longleftrightarrow> timer (rclient S) b \<or> b = a"
    and h': "added S' = added S @ [(sq, f)]" "ran_cbs S' = ran_cbs S" "dropped S' = dropped S" "returned S' = returned S"
  shows "race_inv S'"
proof -
  note D = race_invD [OF inv]
  have loc: "info (rclient S) a = Some (sq, f)" "sq \<notin> fst ` set (added S)" using D(4) thr(1) by auto
  then have i: "info (rclient S') = info (rclient S)" using c'(2) by (simp add: fun_upd_idem)
  have le: "sq \<le> sequence (rclient S)" by (rule well_numberedD(3) [OF D(3) loc(1)])
  have none: "callContexts (rclient S) sq = None"
  proof (rule ccontr)
    assume "callContexts (rclient S) sq \<noteq> None"
    then obtain b where b: "callContexts (rclient S) sq = Some b" by blast
    then obtain g where "info (rclient S) b = Some (sq, g)" using well_numberedD(1) [OF D(3) b] by blast
    then have "pending (rclient S) (sq, g)" using b by (simp add: pending_def)
    then show False using balanced_added [OF D(1)] loc(2) by force
  qed
  have pend: "pending (rclient S') x \<longleftrightarrow> pending (rclient S) x \<or> x = (sq, f)" for x
    using none loc(1) by (auto simp: pending_def i c'(1))
  have npend: "\<not> pending (rclient S) (sq, f)" using none by (simp add: pending_def)
  have U: "concat (map unused (threads S')) = concat (map unused (threads S))" using thr by simp
  show ?thesis
  proof (rule race_invI)
    show "balanced S'" unfolding balanced_def
    proof
      fix x
      have "in_hand (rclient S') (threads S') = in_hand (rclient S) (threads S)" by (simp add: thr in_hand_cong [OF i] in_hand_Cons)
      then show "count_list (map entry (ran_cbs S')) x + count_list (dropped S') x + count_list (in_hand (rclient S') (threads S')) x +
          of_bool (pending (rclient S') x) = count_list (added S') x"
        using D(1) [unfolded balanced_def, rule_format, of x] pend [of x] npend unfolding h' by (cases "x = (sq, f)") auto
    qed
    have rn: "ran (callContexts (rclient S')) = insert a (ran (callContexts (rclient S)))"
      unfolding c'(1) using none by (simp add: ran_map_upd)
    show "exclusive (rclient S') (threads S')"
      by (rule exclusive_mono [OF D(2)]) (auto simp: places_def thr rn)
    show "well_numbered (rclient S') (threads S')"
      using D(3) loc(1) unfolding well_numbered_def i c'(3) U c'(1) by simp
    show "\<forall>q \<in> set (threads S'). local (rclient S') (added S') (concat (map unused (threads S'))) q"
    proof
      fix q
      assume "q \<in> set (threads S')"
      then consider "q = ASend a f sq" | "q \<in> set xs \<or> q \<in> set ys" using thr(2) by auto
      then show "local (rclient S') (added S') (concat (map unused (threads S'))) q"
      proof cases
        case 2
        then have q: "local (rclient S) (added S) (concat (map unused (threads S))) q" "q \<in> set (threads S)" using D(4) thr(1) by auto
        have "sq2 \<noteq> sq" if "q = AFill uid2 f2 sq2" for uid2 f2 sq2
        proof -
          have "sq2 \<in> set (concat (map unused (threads S)))" using q(2) that by force
          then show ?thesis using well_numberedD(5) [OF D(3)] loc(1) by blast
        qed
        moreover have "sq2 \<noteq> sq" if "q = AAdd a2 h2 uid2 f2 sq2" for a2 h2 uid2 f2 sq2
        proof
          assume "sq2 = sq"
          then have "a2 = a" using q(1) that loc(1) well_numberedD(2) [OF D(3)] by auto
          then show False using owned_twice [OF D(2) [unfolded thr(1)], of a q] 2 that by simp
        qed
        ultimately show ?thesis using q(1) unfolding U h' by (cases q) (auto simp: i c'(3))
      qed (simp add: h')
    qed
    show "timed (rclient S') (threads S')"
      using D(5) unfolding timed_def thr c'(1) by (auto simp: c'(4) split: if_splits)
  qed (use D(6-8) c'(3) h' loc(2) le in auto)
qed

text \<open>A context is taken from the pool and filled in.\<close>

lemma duty_owned: "set (duty p) \<subseteq> set (owned p)"
  by (cases p) simp_all

lemma inv_fill:
  assumes inv: "race_inv S" and thr: "threads S = xs @ AFill uid f sq # ys" "threads S' = xs @ AAdd a h uid f sq # ys"
    and fresh: "a \<notin> busy S" "h \<notin> busy S" "a \<noteq> h"
    and c': "rclient S' = fill_ctx a uid f sq (rclient S)"
    and h': "added S' = added S" "ran_cbs S' = ran_cbs S" "dropped S' = dropped S" "returned S' = returned S"
  shows "race_inv S'"
proof -
  note D = race_invD [OF inv]
  have T: "callContexts (rclient S') = callContexts (rclient S)" "sequence (rclient S') = sequence (rclient S)"
      "info (rclient S') = (info (rclient S))(a \<mapsto> (sq, f))" "timer (rclient S') b \<longleftrightarrow> timer (rclient S) b \<and> b \<noteq> a" for b
    by (auto simp: c' fill_ctx_def info_def timer_def fun_eq_iff)
  have na: "a \<notin> ran (callContexts (rclient S))" "a \<notin> set (concat (map owned (threads S)))" using fresh(1) by (auto simp: busy_def)
  have nh: "h \<notin> ran (callContexts (rclient S))" "h \<notin> set (concat (map owned (threads S)))" using fresh(2) by (auto simp: busy_def)
  have na': "a \<notin> set (owned q)" if "q \<in> set (threads S)" for q using na(2) that by auto
  have sq: "sq \<le> sequence (rclient S)" "info (rclient S) b \<noteq> Some (sq, g)" for b g
    using well_numberedD(5) [OF D(3), of sq] thr(1) by auto
  have U: "concat (map unused (threads S)) = concat (map unused xs) @ sq # concat (map unused ys)"
    "concat (map unused (threads S')) = concat (map unused xs) @ concat (map unused ys)" using thr by simp_all
  have inf: "info (rclient S') b = info (rclient S) b" if "b \<noteq> a" for b using that T(3) by simp
  show ?thesis
  proof (rule race_invI)
    show "balanced S'" unfolding balanced_def
    proof
      fix x
      have "a \<notin> set (concat (map duty (threads S)))" using na(2) duty_owned by fastforce
      then have "in_hand (rclient S') (threads S) = in_hand (rclient S) (threads S)" unfolding in_hand_def T(3) by (auto intro!: map_cong)
      then have "in_hand (rclient S') (threads S') = in_hand (rclient S) (threads S)" by (simp add: thr in_hand_Cons)
      moreover have "pending (rclient S') x \<longleftrightarrow> pending (rclient S) x" unfolding pending_def T(1) using na(1) inf by (metis ranI)
      ultimately show "count_list (map entry (ran_cbs S')) x + count_list (dropped S') x + count_list (in_hand (rclient S') (threads S')) x +
          of_bool (pending (rclient S') x) = count_list (added S') x"
        using D(1) [unfolded balanced_def, rule_format, of x] unfolding h' by simp
    qed
    have "places (rclient S') (threads S') b \<le> 1" for b
    proof -
      have "places (rclient S) (threads S) a = 0" "places (rclient S) (threads S) h = 0"
        using na nh by (simp_all add: places_def count_list_0_iff)
      moreover have "places (rclient S') (threads S') b = places (rclient S) (threads S) b + of_bool (b = a) + of_bool (b = h)"
        using fresh(3) by (simp add: places_def thr T(1))
      moreover have "places (rclient S) (threads S) b \<le> 1" using D(2) by (simp add: exclusive_places)
      ultimately show ?thesis using fresh(3) by auto
    qed
    then show "exclusive (rclient S') (threads S')" by (simp add: exclusive_places)
    show "well_numbered (rclient S') (threads S')" unfolding well_numbered_def T(1,2)
    proof (intro conjI allI impI ballI)
      show "\<exists>f. info (rclient S') b = Some (s, f)" if t: "callContexts (rclient S) s = Some b" for s b
      proof -
        have "b \<noteq> a" using t na(1) by (auto simp: ran_def)
        then show ?thesis using well_numberedD(1) [OF D(3) t] inf by simp
      qed
      show "b = d" if "info (rclient S') b = Some (s, g)" "info (rclient S') d = Some (s, g')" for b d s g g'
        using that sq(2) well_numberedD(2) [OF D(3), of b s g d g'] unfolding T(3) by (auto split: if_splits)
      show "s \<le> sequence (rclient S)" if "info (rclient S') b = Some (s, g)" for b s g
        using that sq(1) well_numberedD(3) [OF D(3), of b s g] unfolding T(3) by (auto split: if_splits)
      show "distinct (concat (map unused (threads S')))" using well_numberedD(4) [OF D(3)] unfolding U by simp
      fix s
      assume s: "s \<in> set (concat (map unused (threads S')))"
      have ne: "s \<noteq> sq" using s well_numberedD(4) [OF D(3)] unfolding U by auto
      have old: "s \<le> sequence (rclient S) \<and> (\<forall>a f. info (rclient S) a \<noteq> Some (s, f))"
        using s by (intro well_numberedD(5) [OF D(3)]) (auto simp: U)
      then show "s \<le> sequence (rclient S)" by blast
      show "info (rclient S') b \<noteq> Some (s, g)" for b g using old ne unfolding T(3) by simp
    qed
    show "\<forall>q \<in> set (threads S'). local (rclient S') (added S') (concat (map unused (threads S'))) q"
    proof
      fix q
      assume "q \<in> set (threads S')"
      then consider "q = AAdd a h uid f sq" | "q \<in> set xs \<or> q \<in> set ys" using thr(2) by auto
      then show "local (rclient S') (added S') (concat (map unused (threads S'))) q"
      proof cases
        case 1
        have "local (rclient S) (added S) (concat (map unused (threads S))) (AFill uid f sq :: ('a, 'b) rpc_pc)"
          using D(4) thr(1) by (metis in_set_conv_decomp)
        then show ?thesis using 1 by (simp add: T(3) h')
      next
        case 2
        then have q: "local (rclient S) (added S) (concat (map unused (threads S))) q" "a \<notin> set (owned q)" using D(4) thr(1) na' by auto
        then show ?thesis unfolding U h' by (cases q) (auto simp: T)
      qed
    qed
    show "timed (rclient S') (threads S')"
      using D(5) na(1) unfolding timed_def thr T(1) by (auto simp: T(4) ran_def)
  qed (use D(6-8) T(2) h' in auto)
qed

text \<open>A new goroutine, or a new sequence number.\<close>

lemma inv_spawn:
  assumes inv: "race_inv S" and thr: "threads S' = threads S @ qs"
    and c': "callContexts (rclient S') = callContexts (rclient S)" "info (rclient S') = info (rclient S)"
      "sequence (rclient S) \<le> sequence (rclient S')"
    and tm: "\<And>b. timer (rclient S) b \<Longrightarrow> timer (rclient S') b \<or> TRead b \<in> set qs"
    and h': "added S' = added S" "ran_cbs S' = ran_cbs S" "dropped S' = dropped S" "returned S' = returned S"
    and qs: "concat (map owned qs) = []" "concat (map duty qs) = []" "distinct (concat (map unused qs))"
      "\<And>sq. sq \<in> set (concat (map unused qs)) \<Longrightarrow> sequence (rclient S) < sq \<and> sq \<le> sequence (rclient S')"
    and loc: "\<And>q. q \<in> set qs \<Longrightarrow> local (rclient S) (added S) [] q"
      "\<And>q a sq. q \<in> set qs \<Longrightarrow> q \<noteq> TRemove a sq"
  shows "race_inv S'"
proof -
  note D = race_invD [OF inv]
  have U: "concat (map unused (threads S')) = concat (map unused (threads S)) @ concat (map unused qs)" by (simp add: thr)
  show ?thesis
  proof (rule race_invI)
    show "balanced S'"
      using D(1) qs(2) pending_cong [OF c'(2,1)] in_hand_no_duty [of qs "rclient S"]
      by (simp add: balanced_def h' thr in_hand_cong [OF c'(2)])
    show "exclusive (rclient S') (threads S')"
      by (rule exclusive_mono [OF D(2)]) (use qs(1) in \<open>simp add: places_def thr c'(1)\<close>)
    show "well_numbered (rclient S') (threads S')" unfolding well_numbered_def c'(1,2)
    proof (intro conjI allI impI ballI)
      show "distinct (concat (map unused (threads S')))"
        using well_numberedD(4,5) [OF D(3)] qs(3,4) unfolding U by (fastforce simp: not_le)
      fix s
      assume "s \<in> set (concat (map unused (threads S')))"
      then consider "s \<in> set (concat (map unused (threads S)))" | "s \<in> set (concat (map unused qs))" unfolding U by auto
      then have s: "s \<le> sequence (rclient S') \<and> (\<forall>a f. info (rclient S) a \<noteq> Some (s, f))"
      proof cases
        case 1
        then show ?thesis using well_numberedD(5) [OF D(3)] c'(3) by (meson order_trans)
      next
        case 2
        then show ?thesis using qs(4) [of s] well_numberedD(3) [OF D(3)] by (meson leD)
      qed
      then show "s \<le> sequence (rclient S')" by blast
      show "info (rclient S) b \<noteq> Some (s, g)" for b g using s by blast
    next
      show "s \<le> sequence (rclient S')" if "info (rclient S) b = Some (s, g)" for b s g
        using well_numberedD(3) [OF D(3) that] c'(3) by (rule order_trans)
    qed (use well_numberedD(1,2) [OF D(3)] in blast)+
    show "\<forall>q \<in> set (threads S'). local (rclient S') (added S') (concat (map unused (threads S'))) q"
    proof
      fix q
      assume "q \<in> set (threads S')"
      then consider "q \<in> set (threads S)" | "q \<in> set qs" unfolding thr by auto
      then show "local (rclient S') (added S') (concat (map unused (threads S'))) q"
      proof cases
        case 1
        then have q: "local (rclient S) (added S) (concat (map unused (threads S))) q" using D(4) by blast
        have "sq \<notin> set (concat (map unused qs))" if "sq \<le> sequence (rclient S)" for sq using qs(4) [of sq] that by (meson leD)
        then show ?thesis using q c'(3) unfolding U h' by (cases q) (auto simp: c'(2))
      next
        case 2
        show ?thesis using loc(1) [OF 2] loc(2) [OF 2] unfolding h' by (cases q) (auto simp: c'(2))
      qed
    qed
    show "timed (rclient S') (threads S')"
      using D(5) tm unfolding timed_def thr c'(1) by (metis Un_iff set_append)
  qed (use D(6-8) c'(3) h' in \<open>auto intro: order_trans\<close>)
qed

text \<open>The steps of a goroutine, in the order of its points.\<close>

lemma local_at: "race_inv S \<Longrightarrow> threads S = xs @ p # ys \<Longrightarrow> local (rclient S) (added S) (concat (map unused (threads S))) p"
  using race_invD(4) by (metis in_set_conv_decomp)

lemma remove_found:
  assumes "race_inv S" and "removeCallBySeqno sq (rclient S) = Ret (c', Some a)"
  obtains f where "callContexts (rclient S) sq = Some a" and "info (rclient S) a = Some (sq, f)"
  using removeCall_effect(1) [OF assms(2)] well_numberedD(1) [OF race_invD(3) [OF assms(1)]] by metis

lemma inv_remove:
  assumes inv: "race_inv S" and thr: "threads S = xs @ p # ys" "threads S' = xs @ qs @ ys"
    and rm: "removeCallBySeqno sq (rclient S) = Ret (rclient S', r)"
    and p: "duty p = []" "unused p = []" "\<And>b. p \<noteq> TRead b" "\<And>b s. p = TRemove b s \<Longrightarrow> s = sq"
    and h': "added S' = added S" "ran_cbs S' = ran_cbs S" "returned S' = returned S"
    and none: "r = None \<Longrightarrow> dropped S' = dropped S \<and> qs = []"
    and some: "\<And>a. r = Some a \<Longrightarrow> dropped S' = dropped S @ [the (info (rclient S) a)] \<and> qs = [] \<or>
      dropped S' = dropped S \<and> (\<exists>ret err. qs = [Run a ret err])"
  shows "race_inv S'"
proof -
  note D = race_invD [OF inv] and E = removeCall_effect [OF rm]
  show ?thesis
  proof (cases r)
    case None
    then have T: "callContexts (rclient S) sq = None" and d: "dropped S' = dropped S" and q: "qs = []" using E(1) none by simp_all
    have T': "callContexts (rclient S') = callContexts (rclient S)" using E(2) T by (simp add: fun_upd_idem)
    show ?thesis by (rule inv_move [OF inv thr T' E(4,3)]) (use p T E(5) D(8) h' d q in \<open>simp_all, metis option.distinct(1)\<close>)
  next
    case (Some a)
    then obtain f where T: "callContexts (rclient S) sq = Some a" and i: "info (rclient S) a = Some (sq, f)"
      using remove_found [OF inv] rm by metis
    have q: "dropped S' = dropped S @ [(sq, f)] \<and> qs = [] \<or> dropped S' = dropped S \<and> (\<exists>ret err. qs = [Run a ret err])"
      using some [OF Some] i by simp
    show ?thesis
    proof (rule inv_take [OF inv thr T i E(2,4,3) _ h' p])
      show "timer (rclient S') b" if "b \<noteq> a" "timer (rclient S) b" for b using that E(5) T by simp
      show "count_list (dropped S') x + count_list (in_hand (rclient S) qs) x = count_list (dropped S) x + of_bool (x = (sq, f))" for x
        using q i by (auto simp: in_hand_def)
      show "count_list (concat (map owned qs)) d \<le> of_bool (d = a)" for d using q by auto
      show "concat (map unused qs) = []" using q by auto
      show "local (rclient S) (added S) (concat (map unused (threads S))) d" if "d \<in> set qs" for d using q i that by auto
    qed
  qed
qed

lemma inv_lock:
  assumes inv: "race_inv S" and thr: "threads S = xs @ DLock a nxt h # ys" and r: "rpc_thread e (DLock a nxt h) S = Ret (S', qs)"
  shows "race_inv (S'\<lparr>threads := xs @ qs @ ys\<rparr>)"
proof -
  note D = race_invD [OF inv]
  obtain call where call: "ctx (rclient S) a = Some call" using r by (auto split: option.splits)
  then have i: "info (rclient S) a = Some (seqno call, onResponse call)" by (simp add: info_def)
  show ?thesis
  proof (cases "callContexts (rclient S) (seqno call)")
    case None
    then have "S' = S" "qs = [DLoop nxt h]" using r call by simp_all
    then show ?thesis using D(8) by (intro inv_move [OF inv thr, of _ qs]) auto
  next
    case (Some b)
    then have "b = a" using well_numberedD(1) [OF D(3) Some] well_numberedD(2) [OF D(3) i] by auto
    then have T: "callContexts (rclient S) (seqno call) = Some a" using Some by simp
    have S': "S' = S\<lparr>rclient := (rclient S)\<lparr>callContexts := (callContexts (rclient S))(seqno call := None)\<rparr>\<rparr>" "qs = [DStop a nxt h]"
      using r call T by simp_all
    show ?thesis by (rule inv_take [OF inv thr _ T i]) (use S' i in \<open>auto simp: in_hand_def split: if_splits\<close>)
  qed
qed

lemma inv_answer:
  assumes inv: "race_inv S" and thr: "threads S = xs @ p # ys" and p: "p = Run a ret err \<or> p = DRun a nxt h"
    and r: "rpc_thread e p S = Ret (S', qs)"
  shows "race_inv (S'\<lparr>threads := xs @ qs @ ys\<rparr>)"
proof -
  have i: "info (rclient S) a \<noteq> None" using local_at [OF inv thr] p by auto
  obtain ret' err' where
    S': "S' = S\<lparr>ran_cbs := ran_cbs S @ fire a ret' err' (rclient S)\<rparr>" "qs = [] \<or> qs = [DLoop nxt h]"
    using p r by auto
  show ?thesis by (rule inv_fire [OF inv thr, where a = a]) (use p S' i in auto)
qed

lemma inv_thread_call:
  assumes inv: "race_inv S" and thr: "threads S = xs @ p # ys" and r: "rpc_thread e p S = Ret (S', qs)"
    and p: "p = AFill uid f sq \<or> p = AAdd a h uid f sq \<or> p = ASend a f sq \<or> p = AFail a"
  shows "race_inv (S'\<lparr>threads := xs @ qs @ ys\<rparr>)"
proof -
  note D = race_invD [OF inv] and loc = local_at [OF inv thr]
  from p show ?thesis
  proof (elim disjE)
    assume p: "p = AFill uid f sq"
    then have "S' = S" "qs = [p]" using r by simp_all
    then have "S'\<lparr>threads := xs @ qs @ ys\<rparr> = S" using thr by (cases S) simp
    then show ?thesis using inv by simp
  next
    assume p: "p = AAdd a h uid f sq"
    then obtain c' where c: "addCall a h \<lparr>seqno = sq, channelID = uid, onResponse = f, armed = False\<rparr> (rclient S) = Ret c'"
        and S': "S' = S\<lparr>rclient := c', added := added S @ [(sq, f)]\<rparr>" "qs = [ASend a f sq]"
      using r by (auto simp: map_ret_eq_Ret)
    show ?thesis by (rule inv_put [OF inv thr [unfolded p]]) (simp_all add: S' addCall_effect [OF c])
  next
    assume p: "p = ASend a f sq"
    then have mem: "(sq, f) \<in> set (added S)" using loc by simp
    have "S' = S\<lparr>returned := returned S @ [(sq, f)]\<rparr> \<and> qs = [] \<or> S' = S \<and> qs = [AFail a]" using r p by (cases e) auto
    then show ?thesis by (elim disjE; intro inv_move [OF inv thr, of _ qs]) (use p mem D(8) in auto)
  next
    assume p: "p = AFail a"
    then obtain sq where "S' = S" "qs = [ARemove a sq]" using r by (auto split: option.splits)
    then show ?thesis using p D(8) by (intro inv_move [OF inv thr, of _ qs]) auto
  qed
qed

lemma inv_thread_timer:
  assumes inv: "race_inv S" and thr: "threads S = xs @ TRead a # ys" and r: "rpc_thread e (TRead a) S = Ret (S', qs)"
  shows "race_inv (S'\<lparr>threads := xs @ qs @ ys\<rparr>)"
proof -
  note D = race_invD [OF inv]
  obtain call where call: "ctx (rclient S) a = Some call" "S' = S" "qs = [TRemove a (seqno call)]"
    using r by (auto split: option.splits)
  then have i: "info (rclient S) a = Some (seqno call, onResponse call)" by (simp add: info_def)
  have "seqno call \<notin> set (concat (map unused (threads S)))" using well_numberedD(5) [OF D(3)] i by blast
  then have "local (rclient S) (added S) (concat (map unused (threads S))) (TRemove a (seqno call) :: ('a, 'b) rpc_pc)"
    using well_numberedD(3) [OF D(3) i] well_numberedD(2) [OF D(3) _ i] by auto
  moreover have "sq = seqno call" if "callContexts (rclient S) sq = Some a" for sq
    using well_numberedD(1) [OF D(3) that] i by simp
  ultimately show ?thesis using call(2,3) D(8) by (intro inv_move [OF inv thr, of _ qs]) auto
qed

lemma inv_thread_disconnect:
  assumes inv: "race_inv S" and thr: "threads S = xs @ p # ys" and r: "rpc_thread e p S = Ret (S', qs)"
    and p: "p = DTake uid \<or> p = DStart h \<or> p = DLoop cur h \<or> p = DStop a nxt h"
  shows "race_inv (S'\<lparr>threads := xs @ qs @ ys\<rparr>)"
proof -
  note D = race_invD [OF inv] and loc = local_at [OF inv thr]
  from p show ?thesis
  proof (elim disjE)
    assume p: "p = DTake uid"
    obtain c' h where d: "disconnect_take uid (rclient S) = (c', h)" by fastforce
    then have "S' = S\<lparr>rclient := c'\<rparr>" "qs = [] \<or> (\<exists>h. qs = [DStart h])" using r p by (auto split: option.splits)
    then show ?thesis using p D(8) disconnect_take_effect [OF d] by (intro inv_move [OF inv thr, of _ qs]) auto
  next
    assume p: "p = DStart h"
    then show ?thesis using r D(8) by (intro inv_move [OF inv thr, of _ qs]) auto
  next
    assume p: "p = DLoop cur h"
    then have "S' = S" "qs = [] \<or> (\<exists>a nxt. qs = [DLock a nxt h])" using r by (auto split: option.splits if_splits)
    then show ?thesis using p D(8) by (intro inv_move [OF inv thr, of _ qs]) auto
  next
    assume p: "p = DStop a nxt h"
    have "a \<notin> ran (callContexts (rclient S))"
      using D(2) [unfolded exclusive_places thr p, rule_format, of a] by (auto simp: places_def)
    then have "callContexts (rclient S) sq \<noteq> Some a" for sq by (auto simp: ran_def)
    then show ?thesis using r D(8) loc p by (intro inv_move [OF inv thr, of _ qs]) auto
  qed
qed

lemma inv_thread:
  assumes inv: "race_inv S" and thr: "threads S = xs @ p # ys" and r: "rpc_thread e p S = Ret (S', qs)"
  shows "race_inv (S'\<lparr>threads := xs @ qs @ ys\<rparr>)"
proof (cases p)
  case (ARemove a sq)
  then obtain c' o1 where rm: "removeCallBySeqno sq (rclient S) = Ret (c', o1)" using r by (auto simp: map_ret_eq_Ret)
  then have S': "S' = S\<lparr>rclient := c', dropped := dropped S @ (case o1 of None \<Rightarrow> [] | Some b \<Rightarrow> [the (info c' b)])\<rparr>" "qs = []"
    using r ARemove by auto
  show ?thesis by (rule inv_remove [OF inv thr, where sq = sq and r = o1 and qs = qs]) (use ARemove rm S' removeCall_effect(4) [OF rm] in simp_all)
next
  case (RMsg resp)
  then obtain c' o1 where rm: "removeCallBySeqno (resp_seq resp) (rclient S) = Ret (c', o1)" using r by (auto simp: map_ret_eq_Ret)
  then have S': "S' = S\<lparr>rclient := c'\<rparr>" "qs = (case o1 of None \<Rightarrow> [] | Some b \<Rightarrow> [Run b (Some (resp_ret resp)) (resp_err resp)])"
    using r RMsg by simp_all
  show ?thesis by (rule inv_remove [OF inv thr, where sq = "resp_seq resp" and r = o1 and qs = qs]) (use RMsg rm S' in simp_all)
next
  case (TRemove b sq)
  then obtain c' o1 where rm: "removeCallBySeqno sq (rclient S) = Ret (c', o1)" using r by (auto simp: map_ret_eq_Ret)
  then have S': "S' = S\<lparr>rclient := c'\<rparr>" "qs = (if o1 \<noteq> None then [Run b None (Some ErrCallTimeout)] else [])" using r TRemove by simp_all
  have "a = b" if o: "o1 = Some a" for a
  proof -
    obtain f where "info (rclient S) a = Some (sq, f)" using remove_found [OF inv] rm o by metis
    then show ?thesis using local_at [OF inv thr] TRemove by auto
  qed
  then show ?thesis by (intro inv_remove [OF inv thr, where sq = sq and r = o1 and qs = qs]) (use TRemove rm S' in auto)
next
  case (DLock a nxt h)
  then show ?thesis using inv_lock [OF inv] thr r by simp
next
  case (TRead a)
  then show ?thesis using inv_thread_timer [OF inv] thr r by simp
qed (rule inv_thread_call [OF inv thr r] inv_answer [OF inv thr _ r] inv_thread_disconnect [OF inv thr r]; simp)+

lemma race_step_inv: "race_step faults S S' \<Longrightarrow> race_inv S \<Longrightarrow> race_inv S'"
proof (induction rule: race_step.induct)
  case (thread S xs p ys sendErr S' qs)
  then show ?case using inv_thread by blast
next
  case (asyn_call S uid f)
  have "sequence (rclient S) < sequence (rclient S) + 1" using asyn_call.hyps by (rule word_less_succ)
  then show ?case using asyn_call.prems race_invD(7) [OF asyn_call.prems]
    by (intro inv_spawn [OF asyn_call.prems, of _ "[AFill uid f (sequence (rclient S) + 1)]"]) (auto simp: not_le)
next
  case (fill S xs uid f sq ys a h)
  then show ?case by (intro inv_fill [OF fill.prems]) auto
next
  case (no_call S)
  have "sequence (rclient S) < sequence (rclient S) + 1" using no_call.hyps by (rule word_less_succ)
  then show ?case by (intro inv_spawn [OF no_call.prems, of _ "[]"]) auto
next
  case (message S resp)
  then show ?case by (intro inv_spawn [OF message.prems, of _ "[RMsg resp]"]) auto
next
  case (timer_fires S a)
  then show ?case by (intro inv_spawn [OF timer_fires.prems, of _ "[TRead a]"]) auto
next
  case (disconnect S uid)
  then show ?case by (intro inv_spawn [OF disconnect.prems, of _ "[DTake uid]"]) auto
qed

lemma race_reach_inv: "race_reach faults S \<Longrightarrow> race_inv S"
  by (induction rule: race_reach.induct) (simp_all add: race_inv_init race_step_inv)

section \<open>Every call is answered once, unless a failing send takes it\<close>

lemma count_entries: "count_list (map g L) x = length (filter (\<lambda>y. g y = x) L)"
  by (induction L) auto

lemma count_list_distinct: "distinct xs \<Longrightarrow> count_list xs x = of_bool (x \<in> set xs)"
  by (induction xs) auto

lemma distinct_fst_unique: "distinct (map fst A) \<Longrightarrow> (sq, f) \<in> set A \<Longrightarrow> (sq, g) \<in> set A \<Longrightarrow> f = g"
  by (metis eq_key_imp_eq_value)

lemma run_entries:
  assumes inv: "race_inv S" and x: "(sq, f) \<in> set (added S)"
  shows "filter (\<lambda>y. fst y = sq) (ran_cbs S) = filter (\<lambda>y. entry y = (sq, f)) (ran_cbs S)"
proof (rule filter_cong [OF refl])
  fix y
  assume y: "y \<in> set (ran_cbs S)"
  have "entry y \<in> set (added S)"
  proof -
    have "count_list (map entry (ran_cbs S)) (entry y) \<noteq> 0" using y by (simp add: count_list_0_iff)
    then have "count_list (added S) (entry y) \<noteq> 0"
      using race_invD(1) [OF inv, unfolded balanced_def, rule_format, of "entry y"] by linarith
    then show ?thesis by (simp add: count_list_0_iff)
  qed
  then show "fst y = sq \<longleftrightarrow> entry y = (sq, f)"
    using distinct_fst_unique [OF race_invD(6) [OF inv] x] by (auto simp: entry_def)
qed

text \<open>The goroutine that is about to run the callback of a call.\<close>

definition answering :: "'cb rpc_client \<Rightarrow> ('cb, 'm) rpc_pc list \<Rightarrow> uint64 \<times> 'cb \<Rightarrow> bool" where
  "answering c ps x \<longleftrightarrow> (\<exists>p \<in> set ps. \<exists>a \<in> set (duty p). info c a = Some x)"

lemma in_hand_answering:
  assumes "race_inv S"
  shows "x \<in> set (in_hand (rclient S) (threads S)) \<longleftrightarrow> answering (rclient S) (threads S) x"
proof -
  have "info (rclient S) a \<noteq> None" if "p \<in> set (threads S)" "a \<in> set (duty p)" for p a
    using race_invD(4) [OF assms] that by (cases p) auto
  then show ?thesis unfolding in_hand_def answering_def by force
qed

lemma call_place:
  assumes inv: "race_inv S" and x: "(sq, f) \<in> set (added S)"
  shows "(\<exists>ret err. filter (\<lambda>y. fst y = sq) (ran_cbs S) = [(sq, f, ret, err)]) \<and>
           \<not> pending (rclient S) (sq, f) \<and> \<not> answering (rclient S) (threads S) (sq, f) \<and> (sq, f) \<notin> set (dropped S) \<or>
         filter (\<lambda>y. fst y = sq) (ran_cbs S) = [] \<and>
           (pending (rclient S) (sq, f) \<or> answering (rclient S) (threads S) (sq, f) \<or> (sq, f) \<in> set (dropped S))"
proof -
  let ?L = "filter (\<lambda>y. entry y = (sq, f)) (ran_cbs S)"
  have "count_list (added S) (sq, f) = 1"
    using x race_invD(6) [OF inv] by (simp add: count_list_distinct distinct_map)
  then have bal: "length ?L + count_list (dropped S) (sq, f) + count_list (in_hand (rclient S) (threads S)) (sq, f) +
      of_bool (pending (rclient S) (sq, f)) = 1"
    using race_invD(1) [OF inv, unfolded balanced_def, rule_format, of "(sq, f)"] by (simp add: count_entries)
  have d: "(sq, f) \<in> set (dropped S) \<longleftrightarrow> count_list (dropped S) (sq, f) \<noteq> 0" by (simp add: count_list_0_iff)
  have h: "answering (rclient S) (threads S) (sq, f) \<longleftrightarrow> count_list (in_hand (rclient S) (threads S)) (sq, f) \<noteq> 0"
    unfolding in_hand_answering [OF inv, symmetric] by (simp add: count_list_0_iff)
  show ?thesis
  proof (cases "?L = []")
    case True
    then show ?thesis using bal unfolding run_entries [OF inv x] d h by auto
  next
    case False
    then have "length ?L = 1" using bal by (cases ?L) auto
    then obtain y where y: "?L = [y]" by (auto simp: length_Suc_conv)
    then have "entry y = (sq, f)" by (metis (mono_tags, lifting) filter_eq_Cons_iff)
    then obtain ret err where "y = (sq, f, ret, err)" by (cases y) (auto simp: entry_def)
    then show ?thesis using bal y unfolding run_entries [OF inv x] d h by auto
  qed
qed

text \<open>Without failing sends nothing is dropped.\<close>

fun failing :: "('cb, 'm) rpc_pc \<Rightarrow> bool" where
  "failing (AFail a) = True"
| "failing (ARemove a sq) = True"
| "failing p = False"

lemma no_faults_thread:
  assumes "rpc_thread None p S = Ret (S', qs)" and "\<not> failing p"
  shows "dropped S' = dropped S \<and> (\<forall>q \<in> set qs. \<not> failing q)"
  using assms by (cases p) (auto simp: map_ret_eq_Ret split: option.splits if_splits prod.splits)

lemma no_faults:
  assumes "race_reach faults S" and "\<not> faults"
  shows "dropped S = [] \<and> (\<forall>p \<in> set (threads S). \<not> failing p)"
  using assms(1)
proof (induction rule: race_reach.induct)
  case (race_next S S')
  from race_next.hyps(2) race_next.IH show ?case
  proof (cases rule: race_step.cases)
    case (thread xs p ys sendErr S1 qs)
    then have "rpc_thread None p S = Ret (S1, qs)" "\<not> failing p" using assms(2) race_next.IH by auto
    from no_faults_thread [OF this] show ?thesis using thread race_next.IH by auto
  qed auto
qed (simp add: race_init_def)

text \<open>C7. Every call is answered once, in every interleaving of the goroutines of a client. A call whose \<open>AsynCall\<close> has returned nil is
  either answered: its own callback has run exactly once and nobody else holds the call; or it has not run, and the call is pending with
  its timer armed or a timer goroutine under way, or a goroutine is about to run the callback, or a failing \<open>AsynCall\<close> has taken it,
  which cannot happen when no \<open>SendRequest\<close> fails. So when the goroutines have finished and no timer is armed, every call has been
  answered exactly once or was taken.\<close>

theorem rpc_interleaved:
  assumes "race_reach faults S" and "(sq, f) \<in> set (returned S)"
  shows "(\<exists>ret err. filter (\<lambda>y. fst y = sq) (ran_cbs S) = [(sq, f, ret, err)] \<and> callContexts (rclient S) sq = None \<and>
            \<not> answering (rclient S) (threads S) (sq, f) \<and> (sq, f) \<notin> set (dropped S)) \<or>
         filter (\<lambda>y. fst y = sq) (ran_cbs S) = [] \<and>
           ((\<exists>a. callContexts (rclient S) sq = Some a \<and>
               (timer (rclient S) a \<or> TRead a \<in> set (threads S) \<or> TRemove a sq \<in> set (threads S))) \<or>
            answering (rclient S) (threads S) (sq, f) \<or> faults \<and> (sq, f) \<in> set (dropped S))"
proof -
  have inv: "race_inv S" by (rule race_reach_inv [OF assms(1)])
  have x: "(sq, f) \<in> set (added S)" using assms(2) race_invD(8) [OF inv] by blast
  have p: "pending (rclient S) (sq, f) \<longleftrightarrow> callContexts (rclient S) sq \<noteq> None"
  proof
    assume "callContexts (rclient S) sq \<noteq> None"
    then obtain a where a: "callContexts (rclient S) sq = Some a" by blast
    obtain g where g: "info (rclient S) a = Some (sq, g)" using well_numberedD(1) [OF race_invD(3) [OF inv] a] by blast
    then have "pending (rclient S) (sq, g)" using a by (simp add: pending_def)
    then have "g = f" using balanced_added [OF race_invD(1) [OF inv]] distinct_fst_unique [OF race_invD(6) [OF inv] x] by blast
    then show "pending (rclient S) (sq, f)" using a g by (simp add: pending_def)
  qed (auto simp: pending_def)
  have d: "(sq, f) \<in> set (dropped S) \<Longrightarrow> faults" by (rule ccontr) (use no_faults [OF assms(1)] in auto)
  have t: "\<exists>a. callContexts (rclient S) sq = Some a \<and> (timer (rclient S) a \<or> TRead a \<in> set (threads S) \<or> TRemove a sq \<in> set (threads S))"
    if "callContexts (rclient S) sq \<noteq> None" using race_invD(5) [OF inv] that by (auto simp: timed_def)
  from call_place [OF inv x] show ?thesis unfolding p by (elim disjE) (use t d in auto)
qed

text \<open>A run for the witnesses: a call that is entered, and sent; its timer fires and the callback runs.\<close>

lemma reach_thread:
  assumes "race_reach faults S" and "threads S = xs @ p # ys" and "e = None \<or> faults" and "rpc_thread e p S = Ret (S', qs)"
  shows "race_reach faults (S'\<lparr>threads := xs @ qs @ ys\<rparr>)"
  by (rule race_next [OF assms(1) thread [OF assms(2-4)]])

abbreviation client_at :: "uint64 \<Rightarrow> (uint64 \<rightharpoonup> addr) \<Rightarrow> (uint64 \<rightharpoonup> addr) \<Rightarrow> string callContext \<Rightarrow> dlinks \<Rightarrow> string rpc_client" where
  "client_at q T C cl l \<equiv> \<lparr>sequence = q, callContexts = T, channels = C, ctx = [10 \<mapsto> cl], clinks = l\<rparr>"

lemma race_first_call:
  "\<exists>l. race_reach True \<lparr>rclient = client_at 1 [1 \<mapsto> 10] [7 \<mapsto> 20] \<lparr>seqno = 1, channelID = 7, onResponse = ''a'', armed = True\<rparr> l,
     added = [(1, ''a'')], returned = [], ran_cbs = ([] :: (string, string) fired list), dropped = [], threads = [ASend 10 ''a'' 1]\<rparr> \<and>
     nnext l 20 = Some 10 \<and> nnext l 10 = Some 20 \<and> pprev l 10 = Some 20"
proof -
  let ?S0 = "race_init 0 :: (string, string) race"
  let ?S1 = "?S0\<lparr>rclient := (rclient ?S0)\<lparr>sequence := sequence (rclient ?S0) + 1\<rparr>, threads := threads ?S0 @ [AFill 7 ''a'' (sequence (rclient ?S0) + 1)]\<rparr>"
  have r1: "race_reach True ?S1" by (rule race_next [OF race_start asyn_call]) (simp add: race_init_def NewClient_def)
  let ?S2 = "?S1\<lparr>rclient := fill_ctx 10 7 ''a'' 1 (rclient ?S1), threads := [] @ AAdd 10 20 7 ''a'' 1 # []\<rparr>"
  have r2: "race_reach True ?S2"
    by (rule race_next [OF r1 fill]) (simp_all add: race_init_def NewClient_def busy_def)
  let ?l = "set_next 20 (Some 10) (set_prev 10 (Some 20) (set_next 10 (Some 20) (cc_new 20 \<lparr>nnext = \<lambda>_. None, pprev = \<lambda>_. None\<rparr>)))"
  have t: "rpc_thread None (AAdd 10 20 7 ''a'' 1) ?S2 = Ret
     (\<lparr>rclient = client_at 1 [1 \<mapsto> 10] [7 \<mapsto> 20] \<lparr>seqno = 1, channelID = 7, onResponse = ''a'', armed = True\<rparr> ?l,
       added = [(1, ''a'')], returned = [], ran_cbs = [], dropped = [], threads = [AAdd 10 20 7 ''a'' 1]\<rparr>, [ASend 10 ''a'' 1])"
    by (simp add: race_init_def NewClient_def fill_ctx_def addCall_def cc_add_def cc_new_def set_next_def set_prev_def)
  have "threads ?S2 = [] @ AAdd 10 20 7 ''a'' 1 # []" by simp
  from reach_thread [OF r2 this _ t] show ?thesis
    by (intro exI [of _ ?l]) (simp add: cc_new_def set_next_def set_prev_def)
qed

text \<open>With the request sent, \<open>AsynCall\<close> has returned and the call is pending.\<close>

theorem rpc_interleaved_witness:
  "\<exists>S :: (string, string) race. race_reach True S \<and> (1, ''a'') \<in> set (returned S) \<and> filter (\<lambda>y. fst y = 1) (ran_cbs S) = [] \<and>
     (\<exists>a. callContexts (rclient S) 1 = Some a \<and> (timer (rclient S) a \<or> TRead a \<in> set (threads S) \<or> TRemove a 1 \<in> set (threads S)))"
proof -
  obtain l where r: "race_reach True \<lparr>rclient = client_at 1 [1 \<mapsto> 10] [7 \<mapsto> 20] \<lparr>seqno = 1, channelID = 7, onResponse = ''a'', armed = True\<rparr> l,
     added = [(1, ''a'')], returned = [], ran_cbs = ([] :: (string, string) fired list), dropped = [], threads = [ASend 10 ''a'' 1]\<rparr>"
    using race_first_call by blast
  let ?S = "\<lparr>rclient = client_at 1 [1 \<mapsto> 10] [7 \<mapsto> 20] \<lparr>seqno = 1, channelID = 7, onResponse = ''a'', armed = True\<rparr> l,
     added = [(1, ''a'')], returned = [(1, ''a'')], ran_cbs = ([] :: (string, string) fired list), dropped = [], threads = []\<rparr>"
  have reach: "race_reach True ?S"
    using reach_thread [OF r, of "[]" "ASend 10 ''a'' 1" "[]" None] by simp
  have "\<not> answering (rclient ?S) (threads ?S) (1, ''a'')" by (simp add: answering_def)
  then show ?thesis using rpc_interleaved [OF reach, of 1 "''a''"] reach by (intro exI [of _ ?S]) simp
qed

text \<open>The run goes on before the request is sent: the timer fires, the callback runs with the timeout, and the context is free again.\<close>

lemma race_timed_out:
  "\<exists>l. race_reach True \<lparr>rclient = client_at 1 Map.empty Map.empty \<lparr>seqno = 1, channelID = 7, onResponse = ''a'', armed = False\<rparr> l,
     added = [(1, ''a'')], returned = [], ran_cbs = [(1, ''a'', None :: string option, Some ErrCallTimeout)], dropped = [],
     threads = [ASend 10 ''a'' 1]\<rparr>"
proof -
  let ?cl = "\<lparr>seqno = 1, channelID = 7, onResponse = ''a'', armed = False\<rparr>"
  obtain l where r: "race_reach True \<lparr>rclient = client_at 1 [1 \<mapsto> 10] [7 \<mapsto> 20] (?cl\<lparr>armed := True\<rparr>) l,
     added = [(1, ''a'')], returned = [], ran_cbs = ([] :: (string, string) fired list), dropped = [], threads = [ASend 10 ''a'' 1]\<rparr>"
      and l: "nnext l 20 = Some 10" "nnext l 10 = Some 20" "pprev l 10 = Some 20"
    using race_first_call by auto
  have r1: "race_reach True \<lparr>rclient = client_at 1 [1 \<mapsto> 10] [7 \<mapsto> 20] ?cl l,
     added = [(1, ''a'')], returned = [], ran_cbs = ([] :: (string, string) fired list), dropped = [], threads = [ASend 10 ''a'' 1, TRead 10]\<rparr>"
    using race_next [OF r timer_fires, of 10] by (simp add: timer_def stopTimer_def)
  have r2: "race_reach True \<lparr>rclient = client_at 1 [1 \<mapsto> 10] [7 \<mapsto> 20] ?cl l,
     added = [(1, ''a'')], returned = [], ran_cbs = ([] :: (string, string) fired list), dropped = [], threads = [ASend 10 ''a'' 1, TRemove 10 1]\<rparr>"
    using reach_thread [OF r1, of "[ASend 10 ''a'' 1]" "TRead 10" "[]" None] by simp
  let ?l = "unlink 20 10 20 l"
  have rm: "removeCallBySeqno 1 (client_at 1 [1 \<mapsto> 10] [7 \<mapsto> 20] ?cl l) = Ret (client_at 1 Map.empty Map.empty ?cl ?l, Some 10)"
    using l by (simp add: removeCallBySeqno_def cc_remove_def cc_empty_def unlink_def stopTimer_def)
  have r3: "race_reach True \<lparr>rclient = client_at 1 Map.empty Map.empty ?cl ?l, added = [(1, ''a'')], returned = [],
      ran_cbs = ([] :: (string, string) fired list), dropped = [], threads = [ASend 10 ''a'' 1, Run 10 None (Some ErrCallTimeout)]\<rparr>"
    using reach_thread [OF r2, of "[ASend 10 ''a'' 1]" "TRemove 10 1" "[]" None] rm by simp
  show ?thesis
    using reach_thread [OF r3, of "[ASend 10 ''a'' 1]" "Run 10 None (Some ErrCallTimeout)" "[]" None]
    by (intro exI [of _ ?l]) (simp add: fire_def)
qed

text \<open>C15. A failing send can take another call: \<open>AsynCall\<close> reads \<open>context.seq\<close> after \<open>SendRequest\<close> has failed, when the call may have timed out and its
  context may already belong to a later call. Then it removes the later call, whose own \<open>AsynCall\<close> returned nil: in the end no goroutine and no
  timer is left, the call is not pending, and its callback has never run.\<close>

theorem failed_send_takes_other_call:
  "\<exists>S :: (string, string) race. race_reach True S \<and> threads S = [] \<and> (\<forall>a. \<not> timer (rclient S) a) \<and>
     (2, ''b'') \<in> set (returned S) \<and> callContexts (rclient S) 2 = None \<and> filter (\<lambda>y. fst y = 2) (ran_cbs S) = []"
proof -
  let ?a = "\<lparr>seqno = 1, channelID = 7, onResponse = ''a'', armed = False\<rparr>"
  let ?b = "\<lparr>seqno = 2, channelID = 7, onResponse = ''b'', armed = False\<rparr>"
  let ?log = "[(1, ''a'', None :: string option, Some ErrCallTimeout)]"
  obtain l where r: "race_reach True \<lparr>rclient = client_at 1 Map.empty Map.empty ?a l,
     added = [(1, ''a'')], returned = [], ran_cbs = ?log, dropped = [], threads = [ASend 10 ''a'' 1]\<rparr>"
    using race_timed_out by blast
  have r1: "race_reach True \<lparr>rclient = client_at 2 Map.empty Map.empty ?a l,
     added = [(1, ''a'')], returned = [], ran_cbs = ?log, dropped = [], threads = [ASend 10 ''a'' 1, AFill 7 ''b'' 2]\<rparr>"
    using race_next [OF r asyn_call, of 7 "''b''"] by simp
  have r2: "race_reach True \<lparr>rclient = client_at 2 Map.empty Map.empty ?b l,
     added = [(1, ''a'')], returned = [], ran_cbs = ?log, dropped = [], threads = [ASend 10 ''a'' 1, AAdd 10 20 7 ''b'' 2]\<rparr>"
    using race_next [OF r1 fill, of "[ASend 10 ''a'' 1]" 7 "''b''" 2 "[]" 10 20] by (simp add: busy_def fill_ctx_def)
  let ?l = "set_next 20 (Some 10) (set_prev 10 (Some 20) (set_next 10 (Some 20) (cc_new 20 l)))"
  let ?C = "client_at 2 [2 \<mapsto> 10] [7 \<mapsto> 20] (?b\<lparr>armed := True\<rparr>) ?l"
  have add: "addCall 10 20 ?b (client_at 2 Map.empty Map.empty ?b l) = Ret ?C"
    by (simp add: addCall_def cc_add_def cc_new_def)
  have r3: "race_reach True \<lparr>rclient = ?C, added = [(1, ''a''), (2, ''b'')], returned = [], ran_cbs = ?log, dropped = [],
      threads = [ASend 10 ''a'' 1, ASend 10 ''b'' 2]\<rparr>"
    using reach_thread [OF r2, of "[ASend 10 ''a'' 1]" "AAdd 10 20 7 ''b'' 2" "[]" None] add by simp
  have r4: "race_reach True \<lparr>rclient = ?C, added = [(1, ''a''), (2, ''b'')], returned = [(2, ''b'')], ran_cbs = ?log, dropped = [],
      threads = [ASend 10 ''a'' 1]\<rparr>"
    using reach_thread [OF r3, of "[ASend 10 ''a'' 1]" "ASend 10 ''b'' 2" "[]" None] by simp
  have r5: "race_reach True \<lparr>rclient = ?C, added = [(1, ''a''), (2, ''b'')], returned = [(2, ''b'')], ran_cbs = ?log, dropped = [],
      threads = [AFail 10]\<rparr>"
    using reach_thread [OF r4, of "[]" "ASend 10 ''a'' 1" "[]" "Some (ErrOther ''send'')"] by simp
  have r6: "race_reach True \<lparr>rclient = ?C, added = [(1, ''a''), (2, ''b'')], returned = [(2, ''b'')], ran_cbs = ?log, dropped = [],
      threads = [ARemove 10 2]\<rparr>"
    using reach_thread [OF r5, of "[]" "AFail 10" "[]" None] by simp
  let ?D = "client_at 2 Map.empty Map.empty ?b (unlink 20 10 20 ?l)"
  have rm: "removeCallBySeqno 2 ?C = Ret (?D, Some 10)"
    by (simp add: removeCallBySeqno_def cc_remove_def cc_empty_def unlink_def stopTimer_def)
  have "race_reach True \<lparr>rclient = ?D, added = [(1, ''a''), (2, ''b'')], returned = [(2, ''b'')], ran_cbs = ?log, dropped = [(2, ''b'')],
      threads = []\<rparr>"
    using reach_thread [OF r6, of "[]" "ARemove 10 2" "[]" None] rm by (simp add: info_def)
  then show ?thesis by (intro exI conjI) (auto simp: timer_def split: if_splits)
qed

end
