(* ===== verification/WaitList.thy ===== *)
theory WaitList
  imports DList
begin

text \<open>
  The condition variable with timed waits of \<open>src/socket/sendqueue.go\<close>: the nodes \<open>stWait\<close> with
  their pool, the ring operations \<open>pushWait\<close>, \<open>popWait\<close> and \<open>removeWait\<close>, and \<open>newCond\<close>,
  \<open>signal\<close> and \<open>broadcast\<close> on them. A channel is a number; closing it is reported in the result, in the
  order of the \<open>close\<close> calls. The loop of \<open>broadcast\<close> runs outside the lock, so it takes a schedule of the
  ticker branches that come in between. The abstraction of a ring is the list of its nodes, oldest first.
\<close>

section \<open>Definitions: stWait\<close>

text \<open>The two link fields of every node and its channel field.\<close>

record wstore =
  wlinks :: dlinks
  wch :: "addr \<Rightarrow> nat option"

text \<open>\<open>getStWait\<close> hands out some node \<open>n\<close>, the parameter of \<open>pushWait\<close>; \<open>putStWait\<close> clears the
  channel and gives the node back.\<close>

definition putStWait :: "addr \<Rightarrow> wstore \<Rightarrow> wstore" where
  "putStWait i w = w\<lparr>wch := (wch w)(i := None)\<rparr>"

definition pushWait :: "addr \<Rightarrow> addr \<Rightarrow> nat \<Rightarrow> wstore \<Rightarrow> wstore go" where
  "pushWait n head ch w =
     (let w0 = w\<lparr>wch := (wch w)(n := Some ch)\<rparr>; l0 = wlinks w0 in
      case pprev l0 head of
        None \<Rightarrow> Panic NilDeref
      | Some tail \<Rightarrow>
          (let l1 = set_next n (nnext l0 tail) l0;
               l2 = set_prev n (Some tail) l1;
               l3 = set_next tail (Some n) l2;
               l4 = set_prev head (Some n) l3
           in Ret (w0\<lparr>wlinks := l4\<rparr>)))"

definition removeWait :: "addr \<Rightarrow> wstore \<Rightarrow> wstore" where
  "removeWait n w =
     (case (nnext (wlinks w) n, pprev (wlinks w) n) of
        (Some nxt, Some prv) \<Rightarrow>
          (if nxt \<noteq> n \<and> prv \<noteq> n
           then putStWait n (w\<lparr>wlinks := unlink prv n nxt (wlinks w)\<rparr>)
           else w)
      | _ \<Rightarrow> w)"

definition popWait :: "addr \<Rightarrow> wstore \<Rightarrow> (wstore \<times> nat option) go" where
  "popWait head w =
     (case nnext (wlinks w) head of
        None \<Rightarrow> Panic NilDeref
      | Some first \<Rightarrow>
          (if first = head then Ret (w, None)
           else (let ch = wch w first in Ret (removeWait first w, ch))))"

section \<open>Definitions: cond\<close>

text \<open>A head node that is alone in its ring, as \<open>newCond\<close> and \<open>broadcast\<close> make it.\<close>

definition newHead :: "addr \<Rightarrow> wstore \<Rightarrow> wstore" where
  "newHead h w = w\<lparr>wlinks := set_prev h (Some h) (set_next h (Some h) (wlinks w)),
                   wch := (wch w)(h := None)\<rparr>"

text \<open>The state of a \<open>cond\<close> is its head node; \<open>newCond h\<close> allocates it.\<close>

record cond =
  waitList :: addr

definition newCond :: "addr \<Rightarrow> wstore \<Rightarrow> wstore \<times> cond" where
  "newCond h w = (newHead h w, \<lparr>waitList = h\<rparr>)"

text \<open>\<open>wait\<close> and \<open>waitWithTimeout\<close> up to the point where they block: the node that a timeout
  removes is the result of the second.\<close>

definition cond_wait :: "addr \<Rightarrow> nat \<Rightarrow> cond \<Rightarrow> wstore \<Rightarrow> wstore go" where
  "cond_wait n ch c w = pushWait n (waitList c) ch w"

definition waitWithTimeout :: "int \<Rightarrow> addr \<Rightarrow> nat \<Rightarrow> cond \<Rightarrow> wstore \<Rightarrow> (wstore \<times> addr option) go" where
  "waitWithTimeout timeout n ch c w =
     (if timeout \<le> 0 then Ret (w, None)
      else map_ret (\<lambda>w'. (w', Some n)) (pushWait n (waitList c) ch w))"

text \<open>The ticker branch of \<open>waitWithTimeout\<close>.\<close>

definition timeout_branch :: "addr \<Rightarrow> wstore \<Rightarrow> wstore" where
  "timeout_branch node w = removeWait node w"

text \<open>\<open>signal\<close>: the channel it closes, if any.\<close>

definition signal :: "cond \<Rightarrow> wstore \<Rightarrow> (wstore \<times> nat list) go" where
  "signal c w =
     map_ret (\<lambda>(w', r). (w', case r of None \<Rightarrow> [] | Some ch \<Rightarrow> [ch])) (popWait (waitList c) w)"

text \<open>\<open>popWait\<close> reads \<open>head.nnext\<close>, then the channel of the first node, and unlinks it; this is what follows
  the first read.\<close>

definition popWait_rest :: "addr \<Rightarrow> wstore \<Rightarrow> wstore \<times> nat option" where
  "popWait_rest first w = (let ch = wch w first in (removeWait first w, ch))"


type_synonym tickers = "(addr list \<times> addr list) list"

fun next_tickers :: "tickers \<Rightarrow> addr list \<times> addr list" where
  "next_tickers [] = ([], [])"
| "next_tickers (x # xs) = x"

fun broadcast_loop :: "nat \<Rightarrow> tickers \<Rightarrow> addr \<Rightarrow> wstore \<Rightarrow> (wstore \<times> nat list) go option" where
  "broadcast_loop 0 sched head w = None"
| "broadcast_loop (Suc fuel) sched head w =
     (let w1 = fold timeout_branch (fst (next_tickers sched)) w in
      case nnext (wlinks w1) head of
        None \<Rightarrow> Some (Panic NilDeref)
      | Some first \<Rightarrow>
          (if first = head then Some (Ret (w1, []))
           else (case popWait_rest first (fold timeout_branch (snd (next_tickers sched)) w1) of
                   (w2, None) \<Rightarrow> Some (Ret (w2, []))
                 | (w2, Some ch) \<Rightarrow>
                     map_option (map_ret (\<lambda>(w3, chs). (w3, ch # chs))) (broadcast_loop fuel (tl sched) head w2))))"

lemma popWait_split:
  "popWait head w = (case nnext (wlinks w) head of None \<Rightarrow> Panic NilDeref
     | Some first \<Rightarrow> (if first = head then Ret (w, None) else Ret (popWait_rest first w)))"
  by (simp add: popWait_def popWait_rest_def Let_def split: option.splits)

section \<open>Abstraction\<close>

definition ring :: "addr \<Rightarrow> wstore \<Rightarrow> addr list \<Rightarrow> bool" where
  "ring head w ns \<longleftrightarrow>
     dseg (wlinks w) head ns head \<and> pprev (wlinks w) head = Some (last (head # ns)) \<and>
     distinct (head # ns) \<and> (\<forall>n\<in>set ns. wch w n \<noteq> None)"

text \<open>A node in the pool, or fresh: no links and no channel.\<close>

definition pooled :: "wstore \<Rightarrow> addr \<Rightarrow> bool" where
  "pooled w n \<longleftrightarrow> nnext (wlinks w) n = None \<and> pprev (wlinks w) n = None \<and> wch w n = None"

lemma ring_newHead: "ring h (newHead h w) []"
  by (simp add: ring_def newHead_def)

lemma ring_push:
  assumes "ring head w ns" and "n \<notin> set (head # ns)"
  shows "\<exists>w'. pushWait n head ch w = Ret w' \<and> ring head w' (ns @ [n]) \<and>
           wch w' = (wch w)(n := Some ch)"
proof -
  let ?tail = "last (head # ns)"
  let ?l = "wlinks w"
  have r: "dseg ?l head ns head" "pprev ?l head = Some ?tail" "distinct (head # ns)"
    using assms(1) by (simp_all add: ring_def)
  have tn: "nnext ?l ?tail = Some head" using dseg_last [OF r(1)] .
  define l' where "l' = set_prev head (Some n) (set_next ?tail (Some n)
      (set_prev n (Some ?tail) (set_next n (Some head) ?l)))"
  define w' where "w' = w\<lparr>wch := (wch w)(n := Some ch), wlinks := l'\<rparr>"
  have tin: "?tail \<in> set (head # ns)" by (rule last_in_set) simp
  then have nt: "n \<noteq> ?tail" using assms(2) by metis
  have "dseg l' head (ns @ [n]) head"
  proof (rule dseg_append_back [OF r(1) assms(2) r(3)])
    show "nnext l' = (nnext ?l)(?tail := Some n, n := Some head)"
      using nt by (simp add: l'_def fun_upd_twist)
    show "pprev l' n = Some ?tail" using assms(2) by (simp add: l'_def)
    show "\<And>x. x \<in> set ns \<Longrightarrow> pprev l' x = pprev ?l x"
      using assms(2) r(3) by (auto simp: l'_def)
  qed
  moreover have "pprev l' head = Some n" by (simp add: l'_def)
  moreover have "pushWait n head ch w = Ret w'"
    using r(2) tn by (simp add: pushWait_def Let_def w'_def l'_def)
  ultimately show ?thesis
    using assms by (auto simp: ring_def w'_def)
qed

lemma ring_remove:
  assumes "ring head w (xs @ n # ys)"
  shows "ring head (removeWait n w) (xs @ ys)"
    and "pooled (removeWait n w) n"
    and "m \<noteq> n \<Longrightarrow> wch (removeWait n w) m = wch w m"
proof -
  let ?l = "wlinks w"
  let ?nxt = "hd (ys @ [head])" and ?prv = "last (head # xs)"
  have r: "dseg ?l head (xs @ n # ys) head" "pprev ?l head = Some (last (head # xs @ n # ys))"
      "distinct (head # xs @ n # ys)" "\<forall>m\<in>set (xs @ n # ys). wch w m \<noteq> None"
    using assms by (simp_all add: ring_def)
  have nb: "pprev ?l n = Some ?prv" "nnext ?l n = Some ?nxt"
    using dseg_neighbours [OF r(1)] by simp_all
  have ne: "?nxt \<noteq> n" "?prv \<noteq> n" using r(3) by (cases ys; auto)+
  have rem: "removeWait n w = putStWait n (w\<lparr>wlinks := unlink ?prv n ?nxt ?l\<rparr>)"
    using nb ne by (simp add: removeWait_def)
  have seg: "dseg (unlink ?prv n ?nxt ?l) head (xs @ ys) head"
    using r(3) by (intro dseg_unlink [OF r(1)]) auto
  have "pprev (unlink ?prv n ?nxt ?l) head = Some (last (head # xs @ ys))"
  proof (cases ys rule: rev_cases)
    case Nil
    then show ?thesis using r(3) unlink_frame(3) [of head n ?prv ?l] by simp
  next
    case (snoc zs z)
    then have "head \<noteq> ?nxt" "head \<noteq> n" using r(3) by (auto simp: hd_append)
    then show ?thesis using r(2) snoc by (simp add: unlink_frame(2))
  qed
  then show "ring head (removeWait n w) (xs @ ys)"
    using seg r(3,4) by (auto simp: rem ring_def putStWait_def)
  show "pooled (removeWait n w) n"
    by (simp add: rem pooled_def putStWait_def unlink_frame)
  show "m \<noteq> n \<Longrightarrow> wch (removeWait n w) m = wch w m"
    by (simp add: rem putStWait_def)
qed


lemma ring_pop_Nil: "ring head w [] \<Longrightarrow> popWait head w = Ret (w, None)"
  by (simp add: ring_def popWait_def)

lemma ring_pop_Cons:
  assumes "ring head w (n # ns)"
  shows "popWait head w = Ret (removeWait n w, wch w n)"
    and "ring head (removeWait n w) ns" and "wch w n \<noteq> None"
proof -
  show "popWait head w = Ret (removeWait n w, wch w n)"
    using assms by (auto simp: ring_def popWait_def Let_def)
  show "ring head (removeWait n w) ns" using ring_remove(1) [of head w "[]"] assms by simp
  show "wch w n \<noteq> None" using assms by (simp add: ring_def)
qed



section \<open>The interface of a wait list\<close>

text \<open>
  What the condition variable promises its client, the send queue: \<open>rep q xs\<close> says that the
  waiters \<open>xs\<close> are parked, oldest first; \<open>obs\<close> is what waking a waiter yields, and \<open>free x q\<close> that
  \<open>x\<close> may enter.
\<close>

locale wait_queue =
  fixes rep :: "'q \<Rightarrow> 'a list \<Rightarrow> bool"
    and free :: "'a \<Rightarrow> 'q \<Rightarrow> bool"
    and obs :: "'a \<Rightarrow> 'b"
    and enter :: "'a \<Rightarrow> 'q \<Rightarrow> 'q go"
    and wake :: "'q \<Rightarrow> ('q \<times> 'b option) go"
    and leave :: "'a \<Rightarrow> 'q \<Rightarrow> 'q"
  assumes enter_last: "rep q xs \<Longrightarrow> free x q \<Longrightarrow> \<exists>q'. enter x q = Ret q' \<and> rep q' (xs @ [x])"
    and wake_none: "rep q [] \<Longrightarrow> wake q = Ret (q, None)"
    and wake_first: "rep q (x # xs) \<Longrightarrow> \<exists>q'. wake q = Ret (q', Some (obs x)) \<and> rep q' xs \<and> free x q'"
    and leave_one: "rep q (xs @ x # ys) \<Longrightarrow> rep (leave x q) (xs @ ys)"
begin

text \<open>The broadcast loop over the interface: it wakes every waiter exactly once, in order, and
  then stops.\<close>

primrec wake_all :: "nat \<Rightarrow> 'q \<Rightarrow> ('q \<times> 'b list) go option" where
  "wake_all 0 q = None"
| "wake_all (Suc fuel) q =
     (case wake q of
        Panic p \<Rightarrow> Some (Panic p)
      | Ret (q', None) \<Rightarrow> Some (Ret (q', []))
      | Ret (q', Some x) \<Rightarrow> map_option (map_ret (\<lambda>(q'', xs). (q'', x # xs))) (wake_all fuel q'))"

lemma wake_all_ok:
  "rep q xs \<Longrightarrow> length xs < fuel \<Longrightarrow> \<exists>q'. wake_all fuel q = Some (Ret (q', map obs xs)) \<and> rep q' []"
proof (induction fuel arbitrary: q xs)
  case 0
  then show ?case by simp
next
  case (Suc fuel)
  show ?case
  proof (cases xs)
    case Nil
    then show ?thesis using Suc.prems(1) wake_none [of q] by simp
  next
    case (Cons x ys)
    then obtain q1 where q1: "wake q = Ret (q1, Some (obs x))" "rep q1 ys"
      using Suc.prems(1) wake_first by blast
    obtain q2 where "wake_all fuel q1 = Some (Ret (q2, map obs ys))" "rep q2 []"
      using Suc.IH [OF q1(2)] Suc.prems(2) Cons by auto
    then show ?thesis using q1(1) Cons by simp
  qed
qed

text \<open>A waiter that has left is not woken, and its leaving costs no other waiter its wake-up.\<close>

lemma leave_then_wake_all:
  assumes "rep q (xs @ x # ys)" and "length (xs @ ys) < fuel"
  shows "\<exists>q'. wake_all fuel (leave x q) = Some (Ret (q', map obs (xs @ ys))) \<and> rep q' []"
  using wake_all_ok [OF leave_one [OF assms(1)] assms(2)] .

text \<open>Waiters leave in the order they came.\<close>

lemma enter_wake_order:
  assumes "rep q (y # ys)" and "free x q"
  shows "\<exists>q1 q2. enter x q = Ret q1 \<and> wake q1 = Ret (q2, Some (obs y)) \<and> rep q2 (ys @ [x])"
  using enter_last [OF assms] wake_first [of _ y "ys @ [x]"] by fastforce

end

text \<open>The ring with its channels: the waiters are pairs of a node and its channel.\<close>

definition ring_rep :: "addr \<Rightarrow> wstore \<Rightarrow> (addr \<times> nat) list \<Rightarrow> bool" where
  "ring_rep head w ps \<longleftrightarrow> ring head w (map fst ps) \<and> (\<forall>(n, ch)\<in>set ps. wch w n = Some ch)"

definition ring_free :: "addr \<Rightarrow> addr \<times> nat \<Rightarrow> wstore \<Rightarrow> bool" where
  "ring_free head = (\<lambda>(n, ch) w. pooled w n \<and> n \<noteq> head)"

definition ring_enter :: "addr \<Rightarrow> addr \<times> nat \<Rightarrow> wstore \<Rightarrow> wstore go" where
  "ring_enter head = (\<lambda>(n, ch) w. pushWait n head ch w)"

definition ring_leave :: "addr \<times> nat \<Rightarrow> wstore \<Rightarrow> wstore" where
  "ring_leave = (\<lambda>(n, ch) w. timeout_branch n w)"

lemma pooled_not_in_ring: "ring head w ns \<Longrightarrow> pooled w n \<Longrightarrow> n \<notin> set ns"
  by (auto simp: ring_def pooled_def)

lemma ring_rep_enter:
  assumes "ring_rep head w ps" and "ring_free head (n, ch) w"
  shows "\<exists>w'. ring_enter head (n, ch) w = Ret w' \<and> ring_rep head w' (ps @ [(n, ch)])"
proof -
  have n: "n \<notin> set (head # map fst ps)"
    using assms(2) pooled_not_in_ring [of head w "map fst ps" n] assms(1)
    by (simp add: ring_rep_def ring_free_def)
  obtain w' where w': "pushWait n head ch w = Ret w'" "ring head w' (map fst ps @ [n])"
      "wch w' = (wch w)(n := Some ch)"
    using ring_push [of head w "map fst ps" n ch] assms(1) n unfolding ring_rep_def by blast
  have "wch w' m = Some c" if "(m, c) \<in> set ps" for m c
  proof -
    have "m \<noteq> n" using that n by (auto simp: rev_image_eqI)
    then show ?thesis using that w'(3) assms(1) by (auto simp: ring_rep_def)
  qed
  then have "ring_rep head w' (ps @ [(n, ch)])"
    using w'(2,3) by (auto simp: ring_rep_def)
  then show ?thesis using w'(1) by (simp add: ring_enter_def)
qed

lemma ring_rep_leave:
  assumes "ring_rep head w (ps @ (n, ch) # qs)"
  shows "ring_rep head (removeWait n w) (ps @ qs)"
proof -
  have r: "ring head w (map fst ps @ n # map fst qs)" using assms by (simp add: ring_rep_def)
  then have "distinct (map fst ps @ n # map fst qs)" by (simp add: ring_def)
  then have "fst p \<noteq> n" if "p \<in> set (ps @ qs)" for p using that by (auto simp: rev_image_eqI)
  then show ?thesis
    using ring_remove(1) [OF r] ring_remove(3) [OF r] assms by (fastforce simp: ring_rep_def)
qed

lemma ring_rep_wake:
  assumes "ring_rep head w ((n, ch) # ps)"
  shows "popWait head w = Ret (removeWait n w, Some ch)"
    and "ring_rep head (removeWait n w) ps" and "ring_free head (n, ch) (removeWait n w)"
proof -
  have r: "ring head w (n # map fst ps)" and ch: "wch w n = Some ch"
    using assms by (simp_all add: ring_rep_def)
  show "popWait head w = Ret (removeWait n w, Some ch)" using ring_pop_Cons(1) [OF r] ch by simp
  show "ring_rep head (removeWait n w) ps" using ring_rep_leave [of head w "[]"] assms by simp
  show "ring_free head (n, ch) (removeWait n w)"
  proof -
    have "pooled (removeWait n w) n" using ring_remove(2) [of head w "[]" n "map fst ps"] r by simp
    moreover have "n \<noteq> head" using r by (auto simp: ring_def)
    ultimately show ?thesis by (simp add: ring_free_def)
  qed
qed

interpretation wr: wait_queue "ring_rep head" "ring_free head" snd "ring_enter head" "popWait head" ring_leave
proof unfold_locales
  fix w x ps assume "ring_rep head w (x # ps)"
  then show "\<exists>w'. popWait head w = Ret (w', Some (snd x)) \<and> ring_rep head w' ps \<and> ring_free head x w'"
    using ring_rep_wake [of head w "fst x" "snd x" ps] by simp
next
  fix w ps x qs assume "ring_rep head w (ps @ x # qs)"
  then show "ring_rep head (ring_leave x w) (ps @ qs)"
    using ring_rep_leave [of head w ps "fst x" "snd x" qs]
    by (simp add: ring_leave_def timeout_branch_def split_def)
next
  fix w ps x assume "ring_rep head w ps" "ring_free head x w"
  then show "\<exists>w'. ring_enter head x w = Ret w' \<and> ring_rep head w' (ps @ [x])"
    using ring_rep_enter [of head w ps "fst x" "snd x"] by simp
qed (simp add: ring_rep_def ring_pop_Nil)

lemma broadcast_loop_wake_all: "broadcast_loop fuel [] head w = wr.wake_all head fuel w"
  by (induction fuel arbitrary: w) (simp_all add: popWait_split split: go.splits option.splits prod.splits)







section \<open>Properties\<close>


text \<open>The store used by the witnesses: a condition variable with head 0 and two waiters.\<close>

definition two_waiters :: wstore where
  "two_waiters = \<lparr>wlinks = \<lparr>nnext = [0 \<mapsto> 1, 1 \<mapsto> 2, 2 \<mapsto> 0], pprev = [0 \<mapsto> 2, 1 \<mapsto> 0, 2 \<mapsto> 1]\<rparr>,
                  wch = [1 \<mapsto> 11, 2 \<mapsto> 12]\<rparr>"

lemma two_waiters_rep: "ring_rep 0 two_waiters [(1, 11), (2, 12)]"
  by (simp add: ring_rep_def ring_def two_waiters_def)


text \<open>A waiter whose ticker fires while it is parked takes only itself out of the ring:
  a later broadcast closes the channels of all the others, in order.\<close>

theorem timeout_spares_others:
  assumes "ring_rep head w (ps @ (n, ch) # qs)" and "length (ps @ qs) < fuel"
  shows "\<exists>w'. broadcast_loop fuel [] head (timeout_branch n w) = Some (Ret (w', map snd (ps @ qs)))"
  using wr.leave_then_wake_all [OF assms] by (auto simp: broadcast_loop_wake_all ring_leave_def)

theorem timeout_spares_others_witness:
  "\<exists>w'. broadcast_loop 2 [] 0 (timeout_branch 1 two_waiters) = Some (Ret (w', [12]))"
  using timeout_spares_others [of 0 two_waiters "[]" 1 11 "[(2, 12)]" 2] two_waiters_rep by simp

text \<open>A ticker that fires after its waiter was woken unlinks a node the waiter no longer
  owns. When the pool has handed that node to another waiter of the condition variable in the
  meantime, that waiter disappears from the ring without its channel being closed: the next
  \<open>signal\<close> finds nobody. (Waiter with channel \<open>c1\<close> enters with node \<open>n\<close>, is signalled, \<open>n\<close> is handed
  out again for \<open>c2\<close>, and then the first waiter takes the ticker branch.)\<close>

theorem stale_timeout_drops_waiter:
  assumes "ring_rep head w []" and "pooled w n" and "n \<noteq> head"
  shows "\<exists>w1 w2 w3. pushWait n head c1 w = Ret w1 \<and>
           signal \<lparr>waitList = head\<rparr> w1 = Ret (w2, [c1]) \<and>
           pushWait n head c2 w2 = Ret w3 \<and> ring_rep head w3 [(n, c2)] \<and>
           signal \<lparr>waitList = head\<rparr> (timeout_branch n w3) = Ret (timeout_branch n w3, [])"
proof -
  obtain w1 where w1: "pushWait n head c1 w = Ret w1" "ring_rep head w1 [(n, c1)]"
    using wr.enter_last [OF assms(1), of "(n, c1)"] assms(2,3)
    by (auto simp: ring_free_def ring_enter_def)
  obtain w2 where w2: "popWait head w1 = Ret (w2, Some c1)" "ring_rep head w2 []" "ring_free head (n, c1) w2"
    using wr.wake_first [OF w1(2)] by auto
  obtain w3 where w3: "pushWait n head c2 w2 = Ret w3" "ring_rep head w3 [(n, c2)]"
    using wr.enter_last [OF w2(2), of "(n, c2)"] w2(3) by (auto simp: ring_free_def ring_enter_def)
  have "ring_rep head (timeout_branch n w3) []"
    using wr.leave_one [of head w3 "[]" "(n, c2)" "[]"] w3(2) by (simp add: ring_leave_def)
  then have "popWait head (timeout_branch n w3) = Ret (timeout_branch n w3, None)"
    by (rule wr.wake_none)
  then show ?thesis using w1(1) w2(1) w3 by (simp add: signal_def)
qed

theorem stale_timeout_drops_waiter_witness:
  "\<exists>w1 w2 w3. pushWait 7 0 21 (newHead 0 two_waiters) = Ret w1 \<and>
     signal \<lparr>waitList = 0\<rparr> w1 = Ret (w2, [21]) \<and> pushWait 7 0 22 w2 = Ret w3 \<and>
     ring_rep 0 w3 [(7, 22)] \<and>
     signal \<lparr>waitList = 0\<rparr> (timeout_branch 7 w3) = Ret (timeout_branch 7 w3, [])"
proof -
  have "ring_rep 0 (newHead 0 two_waiters) []" by (simp add: ring_rep_def ring_newHead)
  moreover have "pooled (newHead 0 two_waiters) 7" by (simp add: pooled_def newHead_def two_waiters_def)
  ultimately show ?thesis by (intro stale_timeout_drops_waiter) simp_all
qed

end
