(* ===== verification/SendQueue.thy ===== *)
theory SendQueue
  imports WaitList
begin

text \<open>
  The send queue of \<open>src/socket/sendqueue.go\<close>: the record \<open>SendQueue\<close>, every method as the
  critical sections between \<open>Lock\<close>, the waits and \<open>Unlock\<close>, and the system of goroutines that
  interleaves them. A condition variable appears as the list of its parked goroutines, oldest
  first, which is what the theory \<open>WaitList\<close> shows its ring to be. Each \<open>pushWait\<close>, \<open>popWait\<close> and
  \<open>removeWait\<close> is one step, which the lock of the condition variable provides except in the loop of
  \<open>broadcast\<close>. The two races that \<open>WaitList\<close> shows, a ticker branch inside a \<open>popWait\<close> of that loop and a
  ticker branch that removes a node which the pool has handed out again, are steps of the system too:
  they set the ghost \<open>raced\<close>, and from then on rings may lose goroutines and goroutines may be woken at any time.
\<close>

section \<open>Definitions: the queue\<close>

datatype sq_error = ErrQueueClosed | ErrQueueFull | ErrAddTimeout

record 'v sendqueue =
  qlist :: "'v list"
  fullSize :: int
  closed :: bool
  emptyWaited :: int
  fullWaited :: int

definition defaultFullSize :: int where
  "defaultFullSize = 10000"

definition NewSendQueue :: "int list \<Rightarrow> 'v sendqueue option" where
  "NewSendQueue fs =
     (let self = \<lparr>qlist = [], fullSize = 0, closed = False, emptyWaited = 0, fullWaited = 0\<rparr> in
      case fs of
        f # _ \<Rightarrow> (if f \<le> 0 then None else Some (self\<lparr>fullSize := f\<rparr>))
      | [] \<Rightarrow> Some (self\<lparr>fullSize := defaultFullSize\<rparr>))"

text \<open>The ways out of a critical section: a return with the \<open>needSignal\<close> flag, or a wait.\<close>

datatype sq_add_out = AddRet "sq_error option" bool | AddWait

datatype 'v sq_get_out = GetRet bool "'v list" bool | GetWait

definition Add :: "'v \<Rightarrow> 'v sendqueue \<Rightarrow> 'v sendqueue \<times> sq_add_out" where
  "Add item s =
     (if closed s then (s, AddRet (Some ErrQueueClosed) False)
      else if int (length (qlist s)) \<ge> fullSize s then (s, AddRet (Some ErrQueueFull) False)
      else (s\<lparr>qlist := qlist s @ [item]\<rparr>, AddRet None (emptyWaited s > 0)))"

text \<open>The loop of \<open>AddWithTimeout\<close> from its test to the next wait or to the end. Both branches of
  the body count themselves in \<open>fullWaited\<close> and wait.\<close>

definition AddWithTimeout_loop :: "'v \<Rightarrow> 'v sendqueue \<Rightarrow> 'v sendqueue \<times> sq_add_out" where
  "AddWithTimeout_loop item s =
     (if int (length (qlist s)) \<ge> fullSize s then (s\<lparr>fullWaited := fullWaited s + 1\<rparr>, AddWait)
      else (s\<lparr>qlist := qlist s @ [item]\<rparr>, AddRet None (emptyWaited s > 0)))"

definition AddWithTimeout :: "'v \<Rightarrow> 'v sendqueue \<Rightarrow> 'v sendqueue \<times> sq_add_out" where
  "AddWithTimeout item s =
     (if closed s then (s, AddRet (Some ErrQueueClosed) False) else AddWithTimeout_loop item s)"

text \<open>The rest of the loop body after \<open>wait\<close> (\<open>timeout \<le> 0\<close>) or after \<open>waitWithTimeout\<close>, which
  returned \<open>ok\<close>.\<close>

definition AddWithTimeout_resume :: "int \<Rightarrow> bool \<Rightarrow> 'v \<Rightarrow> 'v sendqueue \<Rightarrow> 'v sendqueue \<times> sq_add_out" where
  "AddWithTimeout_resume timeout ok item s =
     (let s' = s\<lparr>fullWaited := fullWaited s - 1\<rparr> in
      if timeout > 0 then
        (if closed s' then (s', AddRet (Some ErrQueueClosed) False)
         else if \<not> ok then (s', AddRet (Some ErrAddTimeout) False)
         else AddWithTimeout_loop item s')
      else
        (if closed s' then (s', AddRet (Some ErrQueueClosed) False)
         else AddWithTimeout_loop item s'))"

text \<open>\<open>Get\<close> gives away the whole list and keeps the emptied \<open>swaped\<close> slice in its place.\<close>

definition Get :: "'v sendqueue \<Rightarrow> 'v sendqueue \<times> 'v sq_get_out" where
  "Get s =
     (if \<not> closed s \<and> length (qlist s) = 0
      then (s\<lparr>emptyWaited := emptyWaited s + 1\<rparr>, GetWait)
      else (s\<lparr>qlist := []\<rparr>, GetRet (closed s) (qlist s) (fullWaited s > 0)))"

definition Get_resume :: "'v sendqueue \<Rightarrow> 'v sendqueue \<times> 'v sq_get_out" where
  "Get_resume s = Get (s\<lparr>emptyWaited := emptyWaited s - 1\<rparr>)"

definition Close :: "'v sendqueue \<Rightarrow> 'v sendqueue \<times> bool \<times> nat" where
  "Close s =
     (let n = length (qlist s) in
      if closed s then (s, False, n) else (s\<lparr>closed := True\<rparr>, True, n))"

definition SetFullSize :: "int \<Rightarrow> 'v sendqueue \<Rightarrow> 'v sendqueue \<times> bool" where
  "SetFullSize newSize s =
     (if newSize > 0
      then (s\<lparr>fullSize := newSize\<rparr>, fullSize s < newSize \<and> fullWaited s > 0)
      else (s, False))"

definition Closed :: "'v sendqueue \<Rightarrow> bool" where
  "Closed s = closed s"

definition Empty :: "'v sendqueue \<Rightarrow> bool" where
  "Empty s \<longleftrightarrow> length (qlist s) = 0"

section \<open>Definitions: goroutines\<close>

text \<open>
  The program points: parked in a wait; woken, that is, with its channel closed; timed out, that is,
  past \<open>removeWait\<close>; about to \<open>signal\<close> or \<open>broadcast\<close>; and inside the loop of a \<open>broadcast\<close> with the
  goroutines still in the detached ring. A closer broadcasts \<open>emptyCond\<close>, then \<open>fullCond\<close>.
\<close>

datatype 'v pc =
    is_Idle: Idle
  | is_AddParked: AddParked int 'v
  | is_AddWoken: AddWoken int 'v
  | is_AddTimedOut: AddTimedOut int 'v
  | is_GetParked: GetParked
  | is_GetWoken: GetWoken
  | is_SigEmpty: SigEmpty
  | is_BcFull: BcFull
  | is_BcFullLoop: BcFullLoop "nat list"
  | is_CloseBcEmpty: CloseBcEmpty
  | is_CloseEmptyLoop: CloseEmptyLoop "nat list"

record 'v sqsys =
  queue :: "'v sendqueue"
  emptyCond :: "nat list"
  fullCond :: "nat list"
  procs :: "'v pc list"
  accepted :: "'v list"
  delivered :: "'v list"
  raced :: bool

fun after_add :: "int \<Rightarrow> 'v \<Rightarrow> sq_add_out \<Rightarrow> 'v pc" where
  "after_add timeout v (AddRet err sig) = (if sig then SigEmpty else Idle)"
| "after_add timeout v AddWait = AddParked timeout v"

fun added :: "'v \<Rightarrow> sq_add_out \<Rightarrow> 'v list" where
  "added v (AddRet None sig) = [v]"
| "added v _ = []"

fun after_get :: "'v sq_get_out \<Rightarrow> 'v pc" where
  "after_get (GetRet cl vs sig) = (if sig then BcFull else Idle)"
| "after_get GetWait = GetParked"

fun got :: "'v sq_get_out \<Rightarrow> 'v list" where
  "got (GetRet cl vs sig) = vs"
| "got GetWait = []"

text \<open>Closing a goroutine's channel, and taking a goroutine out of a detached ring.\<close>

fun wake :: "'v pc \<Rightarrow> 'v pc" where
  "wake (AddParked t v) = AddWoken t v"
| "wake GetParked = GetWoken"
| "wake pc = pc"

fun unring :: "nat \<Rightarrow> 'v pc \<Rightarrow> 'v pc" where
  "unring i (BcFullLoop ws) = BcFullLoop (filter (\<lambda>j. j \<noteq> i) ws)"
| "unring i pc = pc"

text \<open>What a race may do to a goroutine: wake it although nobody meant to, or change the ring that its \<open>broadcast\<close> has
  detached.\<close>

fun raced_pc :: "'v pc \<Rightarrow> 'v pc \<Rightarrow> bool" where
  "raced_pc (BcFullLoop ws) q = is_BcFullLoop q"
| "raced_pc (CloseEmptyLoop ws) q = is_CloseEmptyLoop q"
| "raced_pc p q = (q = p \<or> q = wake p)"

definition at :: "'v sqsys \<Rightarrow> nat \<Rightarrow> 'v pc \<Rightarrow> bool" where
  "at S i pc \<longleftrightarrow> i < length (procs S) \<and> procs S ! i = pc"

text \<open>Goroutine \<open>i\<close> leaves a critical section of an \<open>Add\<close> or a \<open>Get\<close>; when it waits, it enters the ring.\<close>

definition leave_add :: "'v sqsys \<Rightarrow> nat \<Rightarrow> int \<Rightarrow> 'v \<Rightarrow> 'v sendqueue \<times> sq_add_out \<Rightarrow> 'v sqsys" where
  "leave_add S i t v = (\<lambda>(s', r).
     S\<lparr>queue := s', procs := (procs S)[i := after_add t v r],
       fullCond := (if r = AddWait then fullCond S @ [i] else fullCond S),
       accepted := accepted S @ added v r\<rparr>)"

definition leave_get :: "'v sqsys \<Rightarrow> nat \<Rightarrow> 'v sendqueue \<times> 'v sq_get_out \<Rightarrow> 'v sqsys" where
  "leave_get S i = (\<lambda>(s', r).
     S\<lparr>queue := s', procs := (procs S)[i := after_get r],
       emptyCond := (if r = GetWait then emptyCond S @ [i] else emptyCond S),
       delivered := delivered S @ got r\<rparr>)"

definition init_sqsys :: "'v sendqueue \<Rightarrow> nat \<Rightarrow> 'v sqsys" where
  "init_sqsys s n = \<lparr>queue = s, emptyCond = [], fullCond = [], procs = replicate n Idle,
                     accepted = [], delivered = [], raced = False\<rparr>"

text \<open>The last four rules are the races: the ticker branch of a goroutine in a detached ring comes inside a \<open>popWait\<close> of
  the \<open>broadcast\<close>; a woken goroutine takes its ticker branch although its node was handed out again; the same
  happens in another queue, which shares \<open>stWaitPool\<close>; and what follows for the rings.\<close>

inductive sq_step :: "'v sqsys \<Rightarrow> 'v sqsys \<Rightarrow> bool" where
  add: "at S i Idle \<Longrightarrow> sq_step S (leave_add S i 0 v (Add v (queue S)))"
| add_timeout: "at S i Idle \<Longrightarrow> sq_step S (leave_add S i t v (AddWithTimeout v (queue S)))"
| add_resume: "at S i (AddWoken t v) \<Longrightarrow> ok \<or> t > 0 \<Longrightarrow>
     sq_step S (leave_add S i t v (AddWithTimeout_resume t ok v (queue S)))"
| ticker: "at S i (AddParked t v) \<Longrightarrow> t > 0 \<Longrightarrow>
     sq_step S (S\<lparr>fullCond := filter (\<lambda>j. j \<noteq> i) (fullCond S),
                  procs := (map (unring i) (procs S))[i := AddTimedOut t v]\<rparr>)"
| add_timed_out: "at S i (AddTimedOut t v) \<Longrightarrow>
     sq_step S (leave_add S i t v (AddWithTimeout_resume t False v (queue S)))"
| get: "at S i Idle \<Longrightarrow> sq_step S (leave_get S i (Get (queue S)))"
| get_resume: "at S i GetWoken \<Longrightarrow> sq_step S (leave_get S i (Get_resume (queue S)))"
| signal_none: "at S i SigEmpty \<Longrightarrow> emptyCond S = [] \<Longrightarrow>
     sq_step S (S\<lparr>procs := (procs S)[i := Idle]\<rparr>)"
| signal_one: "at S i SigEmpty \<Longrightarrow> emptyCond S = j # ws \<Longrightarrow>
     sq_step S (S\<lparr>emptyCond := ws, procs := (procs S)[i := Idle, j := wake (procs S ! j)]\<rparr>)"
| full_swap: "at S i BcFull \<Longrightarrow>
     sq_step S (S\<lparr>fullCond := [], procs := (procs S)[i := BcFullLoop (fullCond S)]\<rparr>)"
| full_pop: "at S i (BcFullLoop (j # ws)) \<Longrightarrow>
     sq_step S (S\<lparr>procs := (procs S)[i := BcFullLoop ws, j := wake (procs S ! j)]\<rparr>)"
| full_done: "at S i (BcFullLoop []) \<Longrightarrow> sq_step S (S\<lparr>procs := (procs S)[i := Idle]\<rparr>)"
| close: "at S i Idle \<Longrightarrow> Close (queue S) = (s', first, n) \<Longrightarrow>
     sq_step S (S\<lparr>queue := s', procs := (procs S)[i := (if first then CloseBcEmpty else Idle)]\<rparr>)"
| empty_swap: "at S i CloseBcEmpty \<Longrightarrow>
     sq_step S (S\<lparr>emptyCond := [], procs := (procs S)[i := CloseEmptyLoop (emptyCond S)]\<rparr>)"
| empty_pop: "at S i (CloseEmptyLoop (j # ws)) \<Longrightarrow>
     sq_step S (S\<lparr>procs := (procs S)[i := CloseEmptyLoop ws, j := wake (procs S ! j)]\<rparr>)"
| empty_done: "at S i (CloseEmptyLoop []) \<Longrightarrow> sq_step S (S\<lparr>procs := (procs S)[i := BcFull]\<rparr>)"
| set_full_size: "at S i Idle \<Longrightarrow> SetFullSize k (queue S) = (s', sig) \<Longrightarrow>
     sq_step S (S\<lparr>queue := s', procs := (procs S)[i := (if sig then BcFull else Idle)]\<rparr>)"
| ticker_race: "at S i (AddParked t v) \<Longrightarrow> t > 0 \<Longrightarrow> i \<notin> set (fullCond S) \<Longrightarrow>
     sq_step S (S\<lparr>procs := (procs S)[i := AddTimedOut t v], raced := True\<rparr>)"
| stale_ticker: "at S i (AddWoken t v) \<Longrightarrow> t > 0 \<Longrightarrow>
     sq_step S (S\<lparr>procs := (procs S)[i := AddTimedOut t v], raced := True\<rparr>)"
| foreign_ticker: "sq_step S (S\<lparr>raced := True\<rparr>)"
| race_effect: "raced S \<Longrightarrow> list_all2 raced_pc (procs S) ps \<Longrightarrow>
     sq_step S (S\<lparr>emptyCond := es, fullCond := fs, procs := ps\<rparr>)"

inductive sq_reach :: "'v sqsys \<Rightarrow> bool" where
  init: "NewSendQueue fs = Some s \<Longrightarrow> sq_reach (init_sqsys s n)"
| step: "sq_reach S \<Longrightarrow> sq_step S S' \<Longrightarrow> sq_reach S'"

section \<open>Where the parked goroutines are\<close>

text \<open>\<open>idx P xs\<close>: the positions with property \<open>P\<close>. \<open>loc h P ws xs\<close>: these positions are, once each,
  in the list \<open>ws\<close> or in one of the lists that \<open>h\<close> finds at the program points.\<close>

definition idx :: "('a \<Rightarrow> bool) \<Rightarrow> 'a list \<Rightarrow> nat multiset" where
  "idx P xs = mset (filter (\<lambda>i. P (xs ! i)) [0..<length xs])"

definition loc :: "('a \<Rightarrow> nat list) \<Rightarrow> ('a \<Rightarrow> bool) \<Rightarrow> nat list \<Rightarrow> 'a list \<Rightarrow> bool" where
  "loc h P ws xs \<longleftrightarrow> mset ws + mset (concat (map h xs)) = idx P xs"

lemma in_idx: "i \<in># idx P xs \<longleftrightarrow> i < length xs \<and> P (xs ! i)"
  by (auto simp: idx_def)

lemma idx_update:
  assumes "i < length xs"
  shows "idx P (xs[i := x]) + (if P (xs ! i) then {#i#} else {#}) =
         idx P xs + (if P x then {#i#} else {#})"
proof -
  let ?L = "[0..<i]" and ?R = "[Suc i..<length xs]"
  have up: "[0..<length xs] = ?L @ i # ?R"
    using assms by (metis le_add_same_cancel1 less_imp_add_positive upt_add_eq_append upt_conv_Cons zero_le)
  have l: "filter (\<lambda>j. P (xs[i := x] ! j)) ?L = filter (\<lambda>j. P (xs ! j)) ?L"
    by (rule filter_cong) auto
  have r: "filter (\<lambda>j. P (xs[i := x] ! j)) ?R = filter (\<lambda>j. P (xs ! j)) ?R"
    by (rule filter_cong) auto
  show ?thesis using assms by (simp add: idx_def up l r)
qed

lemma idx_le_one: "count (idx P xs) i \<le> 1"
proof -
  have "distinct (filter (\<lambda>i. P (xs ! i)) [0..<length xs])" by simp
  then show ?thesis unfolding idx_def by (simp add: distinct_count_atmost_1)
qed

lemma holds_update:
  assumes "i < length xs"
  shows "mset (concat (map h (xs[i := x]))) + mset (h (xs ! i)) = mset (concat (map h xs)) + mset (h x)"
  using mset_concat_update [of i "map h xs" "h x"] assms by (simp add: map_update)

lemma loc_keep:
  "i < length xs \<Longrightarrow> loc h P ws xs \<Longrightarrow> h x = h (xs ! i) \<Longrightarrow> P x = P (xs ! i) \<Longrightarrow> loc h P ws (xs[i := x])"
  using idx_update [of i xs P x] holds_update [of i xs h x] by (simp add: loc_def split: if_splits)

lemma loc_enter:
  "i < length xs \<Longrightarrow> loc h P ws xs \<Longrightarrow> h x = [] \<Longrightarrow> h (xs ! i) = [] \<Longrightarrow> \<not> P (xs ! i) \<Longrightarrow> P x \<Longrightarrow>
     loc h P (ws @ [i]) (xs[i := x])"
  using idx_update [of i xs P x] holds_update [of i xs h x] by (simp add: loc_def)

lemma loc_swap:
  "i < length xs \<Longrightarrow> loc h P ws xs \<Longrightarrow> h x = ws \<Longrightarrow> h (xs ! i) = [] \<Longrightarrow> P x = P (xs ! i) \<Longrightarrow>
     loc h P [] (xs[i := x])"
  using idx_update [of i xs P x] holds_update [of i xs h x]
  by (simp add: loc_def add.commute split: if_splits)

lemma loc_wake:
  assumes "loc h P (j # ws) xs" and "h x = h (xs ! j)" and "\<not> P x"
  shows "j < length xs \<and> P (xs ! j) \<and> loc h P ws (xs[j := x])"
proof -
  have "j \<in># idx P xs" using assms(1) by (metis loc_def list.set_intros(1) set_mset_mset union_iff)
  then have j: "j < length xs" "P (xs ! j)" by (simp_all add: in_idx)
  then show ?thesis
    using idx_update [OF j(1), of P x] holds_update [OF j(1), of h x] assms
    by (simp add: loc_def) (metis add_mset_add_mset_same_iff)
qed

text \<open>The next goroutine of the list that program point \<open>i\<close> works on.\<close>

lemma loc_pop_at:
  assumes "i < length xs" and "loc h P ws xs" and "h (xs ! i) = j # vs" and "h x = vs" and "P x = P (xs ! i)"
  shows "loc h P (j # ws) (xs[i := x])"
  using idx_update [OF assms(1), of P x] holds_update [OF assms(1), of h x] assms(2-)
  by (simp add: loc_def split: if_splits) (metis add_mset_add_single union_assoc union_commute)

text \<open>A ticker takes its goroutine out of whichever list holds it.\<close>

lemma mset_filter_neq: "mset (filter (\<lambda>j. j \<noteq> i) xs) = filter_mset (\<lambda>j. j \<noteq> i) (mset xs)"
  by simp

lemma concat_map_filter: "concat (map (\<lambda>x. filter Q (h x)) xs) = filter Q (concat (map h xs))"
  by (simp add: filter_concat comp_def)

lemma idx_remove:
  assumes "i < length xs" and "P (xs ! i)" and "\<not> P x"
  shows "idx P (xs[i := x]) = filter_mset (\<lambda>j. j \<noteq> i) (idx P xs)"
proof -
  have add: "add_mset i (idx P (xs[i := x])) = idx P xs"
    using idx_update [OF assms(1), of P x] assms(2,3) by simp
  have "i \<notin># idx P (xs[i := x])" using assms by (simp add: in_idx)
  then have zero: "count (idx P (xs[i := x])) i = 0" by (simp add: not_in_iff)
  show ?thesis
  proof (rule multiset_eqI)
    fix j
    have "count (idx P xs) j = count (add_mset i (idx P (xs[i := x]))) j" by (simp only: add)
    then show "count (idx P (xs[i := x])) j = count (filter_mset (\<lambda>j. j \<noteq> i) (idx P xs)) j"
      using zero by (cases "j = i") simp_all
  qed
qed

lemma loc_leave:
  assumes "i < length xs" and "loc h P ws xs" and "P (xs ! i)" and "\<not> P x" and "h x = []" and "h (xs ! i) = []"
    and "\<And>y. P (f y) = P y" and "\<And>y. h (f y) = filter (\<lambda>j. j \<noteq> i) (h y)"
  shows "loc h P (filter (\<lambda>j. j \<noteq> i) ws) ((map f xs)[i := x])"
proof -
  have idx: "idx P (map f xs) = idx P xs"
    unfolding idx_def by (intro arg_cong [where f = mset] filter_cong) (auto simp: assms(7))
  have "idx P ((map f xs)[i := x]) = filter_mset (\<lambda>j. j \<noteq> i) (idx P xs)"
    using idx_remove [of i "map f xs" P x] assms by (simp add: idx)
  moreover have "mset (concat (map h ((map f xs)[i := x]))) = filter_mset (\<lambda>j. j \<noteq> i) (mset (concat (map h xs)))"
    using holds_update [of i "map f xs" h x] assms(1,5,6)
      concat_map_filter [of "\<lambda>j. j \<noteq> i" h xs]
    by (simp add: assms(8) comp_def mset_filter [symmetric] del: mset_filter)
  ultimately show ?thesis
    using assms(2) by (simp add: loc_def filter_union_mset [symmetric] del: filter_union_mset)
qed

section \<open>The invariant\<close>

fun eholds :: "'v pc \<Rightarrow> nat list" where
  "eholds (CloseEmptyLoop ws) = ws"
| "eholds pc = []"

fun fholds :: "'v pc \<Rightarrow> nat list" where
  "fholds (BcFullLoop ws) = ws"
| "fholds pc = []"

text \<open>The waiter counters count the goroutines between their increment and their decrement.\<close>

definition cnt_inv :: "'v sqsys \<Rightarrow> bool" where
  "cnt_inv S \<longleftrightarrow>
     emptyWaited (queue S) = int (cnt is_GetParked (procs S) + cnt is_GetWoken (procs S)) \<and>
     fullWaited (queue S) = int (cnt is_AddParked (procs S) + cnt is_AddWoken (procs S) +
                                 cnt is_AddTimedOut (procs S))"

definition loc_inv :: "'v sqsys \<Rightarrow> bool" where
  "loc_inv S \<longleftrightarrow> loc eholds is_GetParked (emptyCond S) (procs S) \<and>
                 loc fholds is_AddParked (fullCond S) (procs S)"

text \<open>Whoever is in a ring and could go on has a wake-up under way.\<close>

definition wake_inv :: "'v sqsys \<Rightarrow> bool" where
  "wake_inv S \<longleftrightarrow>
     (emptyCond S \<noteq> [] \<longrightarrow> qlist (queue S) \<noteq> [] \<longrightarrow>
        0 < cnt is_SigEmpty (procs S) + cnt is_GetWoken (procs S)) \<and>
     (emptyCond S \<noteq> [] \<longrightarrow> closed (queue S) \<longrightarrow> 0 < cnt is_CloseBcEmpty (procs S)) \<and>
     (fullCond S \<noteq> [] \<longrightarrow> int (length (qlist (queue S))) < fullSize (queue S) \<longrightarrow>
        0 < cnt is_BcFull (procs S)) \<and>
     (fullCond S \<noteq> [] \<longrightarrow> closed (queue S) \<longrightarrow>
        0 < cnt is_CloseBcEmpty (procs S) + cnt is_CloseEmptyLoop (procs S) + cnt is_BcFull (procs S))"

definition fifo_inv :: "'v sqsys \<Rightarrow> bool" where
  "fifo_inv S \<longleftrightarrow> accepted S = delivered S @ qlist (queue S)"

definition sq_inv :: "'v sqsys \<Rightarrow> bool" where
  "sq_inv S \<longleftrightarrow> cnt_inv S \<and> loc_inv S \<and> wake_inv S \<and> fifo_inv S"

lemma loc_nonempty: "loc h P ws xs \<Longrightarrow> ws \<noteq> [] \<Longrightarrow> 0 < cnt P xs"
  unfolding cnt_gt_0
  by (metis in_idx list.set_sel(1) loc_def nth_mem set_mset_mset union_iff)

lemma emptyCond_waited: "cnt_inv S \<Longrightarrow> loc_inv S \<Longrightarrow> emptyCond S \<noteq> [] \<Longrightarrow> 0 < emptyWaited (queue S)"
  using loc_nonempty [of eholds is_GetParked "emptyCond S" "procs S"] by (simp add: cnt_inv_def loc_inv_def)

lemma fullCond_waited: "cnt_inv S \<Longrightarrow> loc_inv S \<Longrightarrow> fullCond S \<noteq> [] \<Longrightarrow> 0 < fullWaited (queue S)"
  using loc_nonempty [of fholds is_AddParked "fullCond S" "procs S"] by (simp add: cnt_inv_def loc_inv_def)

section \<open>Preservation\<close>

text \<open>A goroutine inside an \<open>Add\<close>, with its decrement of \<open>fullWaited\<close> still to come or not.\<close>

definition adder :: "'v pc \<Rightarrow> bool" where
  "adder pc \<longleftrightarrow> is_Idle pc \<or> is_AddWoken pc \<or> is_AddTimedOut pc"

definition entered :: "'v pc \<Rightarrow> 'v sendqueue \<Rightarrow> 'v sendqueue" where
  "entered pc s = s\<lparr>fullWaited := fullWaited s - (if is_Idle pc then 0 else 1)\<rparr>"

lemma entered_simps [simp]:
  "qlist (entered pc s) = qlist s" "fullSize (entered pc s) = fullSize s" "closed (entered pc s) = closed s"
  "emptyWaited (entered pc s) = emptyWaited s"
  by (simp_all add: entered_def)

lemma adder_flags:
  assumes "adder pc"
  shows "eholds pc = []" "fholds pc = []" "\<not> is_GetParked pc" "\<not> is_GetWoken pc" "\<not> is_AddParked pc"
    "\<not> is_SigEmpty pc" "\<not> is_BcFull pc" "\<not> is_CloseBcEmpty pc" "\<not> is_CloseEmptyLoop pc"
    "is_Idle pc \<or> (is_AddWoken pc \<and> \<not> is_AddTimedOut pc \<and> \<not> is_Idle pc) \<or>
      (is_AddTimedOut pc \<and> \<not> is_AddWoken pc \<and> \<not> is_Idle pc)"
  using assms by (cases pc; simp add: adder_def)+

lemma add_error_inv:
  assumes inv: "sq_inv S" and pc: "at S i pc" "adder pc"
  shows "sq_inv (S\<lparr>queue := entered pc (queue S), procs := (procs S)[i := Idle]\<rparr>)"
proof -
  let ?S = "S\<lparr>queue := entered pc (queue S), procs := (procs S)[i := Idle]\<rparr>"
  note fl = adder_flags [OF pc(2)]
  have i: "i < length (procs S)" "procs S ! i = pc" using pc(1) by (simp_all add: at_def)
  obtain base where c: "\<And>P. cnt P (procs S) = base P + (if P pc then 1 else 0)"
      "\<And>P x. cnt P ((procs S)[i := x]) = base P + (if P x then 1 else 0)"
    using cnt_at [OF i(1)] i(2) by metis
  have "cnt_inv ?S" using inv fl by (auto simp: sq_inv_def cnt_inv_def c entered_def)
  moreover have "loc_inv ?S" using inv fl i by (simp add: sq_inv_def loc_inv_def loc_keep)
  moreover have "wake_inv ?S" using inv fl by (simp add: sq_inv_def wake_inv_def c)
  moreover have "fifo_inv ?S" using inv by (simp add: sq_inv_def fifo_inv_def)
  ultimately show ?thesis by (simp add: sq_inv_def)
qed

lemma add_push_inv:
  assumes inv: "sq_inv S" and pc: "at S i pc" "adder pc" and open_: "\<not> closed (queue S)"
  shows "sq_inv (S\<lparr>queue := (entered pc (queue S))\<lparr>qlist := qlist (queue S) @ [v]\<rparr>,
                   procs := (procs S)[i := (if emptyWaited (queue S) > 0 then SigEmpty else Idle)],
                   accepted := accepted S @ [v]\<rparr>)" (is "sq_inv ?S")
proof -
  note fl = adder_flags [OF pc(2)]
  have i: "i < length (procs S)" "procs S ! i = pc" using pc(1) by (simp_all add: at_def)
  obtain base where c: "\<And>P. cnt P (procs S) = base P + (if P pc then 1 else 0)"
      "\<And>P x. cnt P ((procs S)[i := x]) = base P + (if P x then 1 else 0)"
    using cnt_at [OF i(1)] i(2) by metis
  have ew: "emptyCond S \<noteq> [] \<Longrightarrow> 0 < emptyWaited (queue S)"
    using inv emptyCond_waited [of S] by (simp add: sq_inv_def)
  have "cnt_inv ?S" using inv fl by (auto simp: sq_inv_def cnt_inv_def c entered_def)
  moreover have "loc_inv ?S" using inv fl i by (simp add: sq_inv_def loc_inv_def loc_keep)
  moreover have "wake_inv ?S"
    using inv fl ew open_ unfolding sq_inv_def wake_inv_def by (simp add: c)
  moreover have "fifo_inv ?S" using inv by (simp add: sq_inv_def fifo_inv_def)
  ultimately show ?thesis by (simp add: sq_inv_def)
qed

lemma add_wait_inv:
  assumes inv: "sq_inv S" and pc: "at S i pc" "adder pc"
    and full: "int (length (qlist (queue S))) \<ge> fullSize (queue S)" and open_: "\<not> closed (queue S)"
  shows "sq_inv (S\<lparr>queue := (entered pc (queue S))\<lparr>fullWaited := fullWaited (entered pc (queue S)) + 1\<rparr>,
                   procs := (procs S)[i := AddParked t v], fullCond := fullCond S @ [i]\<rparr>)" (is "sq_inv ?S")
proof -
  note fl = adder_flags [OF pc(2)]
  have i: "i < length (procs S)" "procs S ! i = pc" using pc(1) by (simp_all add: at_def)
  obtain base where c: "\<And>P. cnt P (procs S) = base P + (if P pc then 1 else 0)"
      "\<And>P x. cnt P ((procs S)[i := x]) = base P + (if P x then 1 else 0)"
    using cnt_at [OF i(1)] i(2) by metis
  have "cnt_inv ?S" using inv fl by (auto simp: sq_inv_def cnt_inv_def c entered_def)
  moreover have "loc_inv ?S" using inv fl i by (simp add: sq_inv_def loc_inv_def loc_keep loc_enter)
  moreover have "wake_inv ?S"
    using inv fl full open_ unfolding sq_inv_def wake_inv_def by (simp add: c)
  moreover have "fifo_inv ?S" using inv by (simp add: sq_inv_def fifo_inv_def)
  ultimately show ?thesis by (simp add: sq_inv_def)
qed

text \<open>Every way through an \<open>Add\<close> is one of the three.\<close>

lemma leave_loop_inv:
  assumes "sq_inv S" and "at S i pc" and "adder pc" and "\<not> closed (queue S)"
  shows "sq_inv (leave_add S i t v (AddWithTimeout_loop v (entered pc (queue S))))"
  using add_push_inv [OF assms(1-4), of v] add_wait_inv [OF assms(1-3) _ assms(4), of t v]
  by (cases "int (length (qlist (queue S))) \<ge> fullSize (queue S)")
    (simp_all add: AddWithTimeout_loop_def leave_add_def)

lemma leave_error_inv:
  assumes "sq_inv S" and "at S i pc" and "adder pc"
  shows "sq_inv (leave_add S i t v (entered pc (queue S), AddRet (Some e) False))"
  using add_error_inv [OF assms] by (simp add: leave_add_def)

lemma entered_Idle: "entered Idle s = s"
  by (simp add: entered_def)

lemma leave_add_inv:
  assumes "sq_inv S" and "at S i Idle"
  shows "sq_inv (leave_add S i 0 v (Add v (queue S)))"
    and "sq_inv (leave_add S i t v (AddWithTimeout v (queue S)))"
  using leave_error_inv [OF assms, of _ v] add_push_inv [OF assms, of v] leave_loop_inv [OF assms, of t v]
  by (simp_all add: Add_def AddWithTimeout_def entered_Idle adder_def leave_add_def)

lemma leave_resume_inv:
  assumes "sq_inv S" and "at S i pc" and "is_AddWoken pc \<or> is_AddTimedOut pc"
  shows "sq_inv (leave_add S i t v (AddWithTimeout_resume t ok v (queue S)))"
proof -
  have pc: "adder pc" "\<not> is_Idle pc" using assms(3) by (cases pc; simp add: adder_def)+
  have e: "(queue S)\<lparr>fullWaited := fullWaited (queue S) - 1\<rparr> = entered pc (queue S)"
    using pc(2) by (simp add: entered_def)
  show ?thesis
    using leave_error_inv [OF assms(1,2) pc(1), of t v] leave_loop_inv [OF assms(1,2) pc(1), of t v]
    by (simp add: AddWithTimeout_resume_def e Let_def)
qed

lemma leave_get_inv:
  assumes inv: "sq_inv S" and pc: "at S i pc" and idle: "is_Idle pc \<or> is_GetWoken pc"
    and s: "s = (queue S)\<lparr>emptyWaited := emptyWaited (queue S) - (if is_Idle pc then 0 else 1)\<rparr>"
  shows "sq_inv (leave_get S i (Get s))"
proof -
  have i: "i < length (procs S)" "procs S ! i = pc" using pc by (simp_all add: at_def)
  have fl: "eholds pc = []" "fholds pc = []" "\<not> is_GetParked pc" "\<not> is_AddParked pc" "\<not> is_AddWoken pc"
      "\<not> is_AddTimedOut pc" "\<not> is_SigEmpty pc" "\<not> is_BcFull pc" "\<not> is_CloseBcEmpty pc"
      "\<not> is_CloseEmptyLoop pc" "is_Idle pc \<and> \<not> is_GetWoken pc \<or> is_GetWoken pc \<and> \<not> is_Idle pc"
    using idle by (cases pc; simp)+
  obtain base where c: "\<And>P. cnt P (procs S) = base P + (if P pc then 1 else 0)"
      "\<And>P x. cnt P ((procs S)[i := x]) = base P + (if P x then 1 else 0)"
    using cnt_at [OF i(1)] i(2) by metis
  have fw: "fullCond S \<noteq> [] \<Longrightarrow> 0 < fullWaited (queue S)"
    using inv fullCond_waited [of S] by (simp add: sq_inv_def)
  have parts: "cnt_inv S" "loc_inv S" "wake_inv S" "fifo_inv S" using inv by (simp_all add: sq_inv_def)
  show ?thesis
  proof (cases "\<not> closed (queue S) \<and> qlist (queue S) = []")
    case True
    let ?S = "S\<lparr>queue := s\<lparr>emptyWaited := emptyWaited s + 1\<rparr>, procs := (procs S)[i := GetParked],
        emptyCond := emptyCond S @ [i]\<rparr>"
    have eq: "leave_get S i (Get s) = ?S" using True by (simp add: leave_get_def Get_def s)
    have "cnt_inv ?S" using parts(1) fl by (auto simp: cnt_inv_def c s)
    moreover have "loc_inv ?S" using parts(2) fl i by (simp add: loc_inv_def loc_keep loc_enter)
    moreover have "wake_inv ?S" using parts(3) fl True unfolding wake_inv_def by (simp add: c s)
    moreover have "fifo_inv ?S" using parts(4) by (simp add: fifo_inv_def s)
    ultimately show ?thesis by (simp add: eq sq_inv_def)
  next
    case False
    let ?pc = "if fullWaited (queue S) > 0 then BcFull else Idle :: 'a pc"
    let ?S = "S\<lparr>queue := s\<lparr>qlist := []\<rparr>, procs := (procs S)[i := ?pc],
        delivered := delivered S @ qlist (queue S)\<rparr>"
    have eq: "leave_get S i (Get s) = ?S" using False by (auto simp: leave_get_def Get_def s)
    have "cnt_inv ?S" using parts(1) fl by (auto simp: cnt_inv_def c s)
    moreover have "loc_inv ?S" using parts(2) fl i by (simp add: loc_inv_def loc_keep)
    moreover have "wake_inv ?S" using parts(3) fl fw unfolding wake_inv_def by (simp add: c s)
    moreover have "fifo_inv ?S" using parts(4) by (simp add: fifo_inv_def s)
    ultimately show ?thesis by (simp add: eq sq_inv_def)
  qed
qed

text \<open>Steps that move only the acting goroutine between program points without locks, queues or
  rings: the ends of the broadcast loops and an unneeded signal.\<close>

lemma simple_inv:
  assumes inv: "sq_inv S" and pc: "at S i pc"
    and move: "is_SigEmpty pc \<and> emptyCond S = [] \<and> pc' = Idle \<or> pc = BcFullLoop [] \<and> pc' = Idle \<or>
      pc = CloseEmptyLoop [] \<and> pc' = BcFull"
  shows "sq_inv (S\<lparr>procs := (procs S)[i := pc']\<rparr>)" (is "sq_inv ?S")
proof -
  have i: "i < length (procs S)" "procs S ! i = pc" using pc by (simp_all add: at_def)
  obtain base where c: "\<And>P. cnt P (procs S) = base P + (if P pc then 1 else 0)"
      "\<And>P x. cnt P ((procs S)[i := x]) = base P + (if P x then 1 else 0)"
    using cnt_at [OF i(1)] i(2) by metis
  have parts: "cnt_inv S" "loc_inv S" "wake_inv S" "fifo_inv S" using inv by (simp_all add: sq_inv_def)
  have fl: "eholds pc' = eholds pc" "fholds pc' = fholds pc" "is_GetParked pc' = is_GetParked pc"
      "is_AddParked pc' = is_AddParked pc" "is_GetWoken pc' = is_GetWoken pc"
      "is_AddWoken pc' = is_AddWoken pc" "is_AddTimedOut pc' = is_AddTimedOut pc"
      "is_CloseBcEmpty pc' = is_CloseBcEmpty pc"
    using move by (cases pc; auto)+
  have "cnt_inv ?S" using parts(1) fl by (simp add: cnt_inv_def c)
  moreover have "loc_inv ?S" using parts(2) fl i by (simp add: loc_inv_def loc_keep)
  moreover have "wake_inv ?S"
    using parts(3) fl move unfolding wake_inv_def by (cases pc) (simp_all add: c)
  moreover have "fifo_inv ?S" using parts(4) by (simp add: fifo_inv_def)
  ultimately show ?thesis by (simp add: sq_inv_def)
qed

lemma swap_inv:
  assumes inv: "sq_inv S"
  shows "at S i BcFull \<Longrightarrow> sq_inv (S\<lparr>fullCond := [], procs := (procs S)[i := BcFullLoop (fullCond S)]\<rparr>)"
    and "at S i CloseBcEmpty \<Longrightarrow>
           sq_inv (S\<lparr>emptyCond := [], procs := (procs S)[i := CloseEmptyLoop (emptyCond S)]\<rparr>)"
proof -
  have parts: "cnt_inv S" "loc_inv S" "wake_inv S" "fifo_inv S" using inv by (simp_all add: sq_inv_def)
  {
    assume "at S i BcFull"
    then have i: "i < length (procs S)" "procs S ! i = BcFull" by (simp_all add: at_def)
    obtain base where c: "\<And>P. cnt P (procs S) = base P + (if P BcFull then 1 else 0)"
        "\<And>P x. cnt P ((procs S)[i := x]) = base P + (if P x then 1 else 0)"
      using cnt_at [OF i(1)] i(2) by metis
    let ?S = "S\<lparr>fullCond := [], procs := (procs S)[i := BcFullLoop (fullCond S)]\<rparr>"
    have "cnt_inv ?S" using parts(1) by (simp add: cnt_inv_def c)
    moreover have "loc_inv ?S"
      using parts(2) i loc_keep [of i "procs S" eholds is_GetParked "emptyCond S"]
        loc_swap [of i "procs S" fholds is_AddParked "fullCond S"] by (simp add: loc_inv_def)
    moreover have "wake_inv ?S" using parts(3) unfolding wake_inv_def by (simp add: c)
    moreover have "fifo_inv ?S" using parts(4) by (simp add: fifo_inv_def)
    ultimately show "sq_inv ?S" by (simp add: sq_inv_def)
  next
    assume "at S i CloseBcEmpty"
    then have i: "i < length (procs S)" "procs S ! i = CloseBcEmpty" by (simp_all add: at_def)
    obtain base where c: "\<And>P. cnt P (procs S) = base P + (if P CloseBcEmpty then 1 else 0)"
        "\<And>P x. cnt P ((procs S)[i := x]) = base P + (if P x then 1 else 0)"
      using cnt_at [OF i(1)] i(2) by metis
    let ?S = "S\<lparr>emptyCond := [], procs := (procs S)[i := CloseEmptyLoop (emptyCond S)]\<rparr>"
    have "cnt_inv ?S" using parts(1) by (simp add: cnt_inv_def c)
    moreover have "loc_inv ?S"
      using parts(2) i loc_keep [of i "procs S" fholds is_AddParked "fullCond S"]
        loc_swap [of i "procs S" eholds is_GetParked "emptyCond S"] by (simp add: loc_inv_def)
    moreover have "wake_inv ?S" using parts(3) unfolding wake_inv_def by (simp add: c)
    moreover have "fifo_inv ?S" using parts(4) by (simp add: fifo_inv_def)
    ultimately show "sq_inv ?S" by (simp add: sq_inv_def)
  }
qed

text \<open>Waking the getter \<open>j\<close> or the adder \<open>j\<close> while the acting goroutine moves from \<open>pc\<close> to \<open>pc'\<close>.\<close>

lemma wake_getter_inv:
  assumes inv: "sq_inv S" and i: "i < length (procs S)"
    and locE: "loc eholds is_GetParked (j # ws) ((procs S)[i := pc'])"
    and moved: "fholds pc' = fholds (procs S ! i)" "is_AddParked pc' = is_AddParked (procs S ! i)"
      "is_GetParked pc' = is_GetParked (procs S ! i)"
      "is_GetWoken pc' = is_GetWoken (procs S ! i)" "is_AddWoken pc' = is_AddWoken (procs S ! i)"
      "is_AddTimedOut pc' = is_AddTimedOut (procs S ! i)" "is_BcFull pc' = is_BcFull (procs S ! i)"
      "is_CloseBcEmpty pc' = is_CloseBcEmpty (procs S ! i)"
      "is_CloseEmptyLoop pc' = is_CloseEmptyLoop (procs S ! i)"
      "\<not> is_GetParked pc'"
    and ws: "ws = [] \<or> emptyCond S \<noteq> []"
  shows "sq_inv (S\<lparr>emptyCond := ws, procs := (procs S)[i := pc', j := wake (procs S ! j)]\<rparr>)" (is "sq_inv ?S")
proof -
  let ?xs = "(procs S)[i := pc']"
  have parts: "cnt_inv S" "loc_inv S" "wake_inv S" "fifo_inv S" using inv by (simp_all add: sq_inv_def)
  have j: "j < length ?xs" "is_GetParked (?xs ! j)"
    using loc_wake [OF locE, of "if eholds (?xs ! j) = [] then GetWoken else CloseEmptyLoop (eholds (?xs ! j))"]
    by (simp_all split: if_splits)
  then have gj: "?xs ! j = GetParked" by (simp add: is_GetParked_def)
  have "j \<noteq> i" using gj moved(10) i by (auto simp: nth_list_update)
  then have pj: "procs S ! j = GetParked" "wake (procs S ! j) = GetWoken" using gj by simp_all
  have loc2: "loc eholds is_GetParked ws (?xs[j := GetWoken])"
    using loc_wake [OF locE, of GetWoken] gj by simp
  obtain b1 where c1: "\<And>P. cnt P (procs S) = b1 P + (if P (procs S ! i) then 1 else 0)"
      "\<And>P x. cnt P ((procs S)[i := x]) = b1 P + (if P x then 1 else 0)"
    using cnt_at [OF i] by metis
  obtain b2 where c2: "\<And>P. cnt P ?xs = b2 P + (if P GetParked then 1 else 0)"
      "\<And>P x. cnt P (?xs[j := x]) = b2 P + (if P x then 1 else 0)"
    using cnt_at [OF j(1)] gj by metis
  have eq: "cnt P (?xs[j := GetWoken]) + (if P GetParked then 1 else 0) =
      cnt P (procs S) + (if P GetWoken then 1 else 0)" if "P pc' = P (procs S ! i)" for P
    using c1 [of P] c2 [of P] that by simp
  have "cnt_inv ?S"
    using parts(1) eq [of is_GetParked] eq [of is_GetWoken] eq [of is_AddParked] eq [of is_AddWoken]
      eq [of is_AddTimedOut] moved by (simp add: cnt_inv_def pj)
  moreover have "loc_inv ?S"
    using parts(2) loc2 i j moved loc_keep [of i "procs S" fholds is_AddParked "fullCond S" pc']
      loc_keep [of j ?xs fholds is_AddParked "fullCond S" GetWoken] gj
    by (simp add: loc_inv_def pj)
  moreover have "wake_inv ?S"
    using parts(3) eq [of is_CloseBcEmpty] eq [of is_CloseEmptyLoop] eq [of is_BcFull] eq [of is_GetWoken] moved ws
    unfolding wake_inv_def by (auto simp: pj)
  moreover have "fifo_inv ?S" using parts(4) by (simp add: fifo_inv_def)
  ultimately show ?thesis by (simp add: sq_inv_def)
qed

lemma signal_one_inv:
  assumes "sq_inv S" and "at S i SigEmpty" and "emptyCond S = j # ws"
  shows "sq_inv (S\<lparr>emptyCond := ws, procs := (procs S)[i := Idle, j := wake (procs S ! j)]\<rparr>)"
proof (rule wake_getter_inv [OF assms(1)])
  have i: "i < length (procs S)" "procs S ! i = SigEmpty" using assms(2) by (simp_all add: at_def)
  show "loc eholds is_GetParked (j # ws) ((procs S)[i := Idle])"
    using assms(1,3) i by (intro loc_keep) (auto simp: sq_inv_def loc_inv_def)
qed (use assms in \<open>simp_all add: at_def\<close>)

lemma empty_pop_inv:
  assumes "sq_inv S" and "at S i (CloseEmptyLoop (j # ws))"
  shows "sq_inv (S\<lparr>procs := (procs S)[i := CloseEmptyLoop ws, j := wake (procs S ! j)]\<rparr>)"
proof -
  have i: "i < length (procs S)" "procs S ! i = CloseEmptyLoop (j # ws)"
    using assms(2) by (simp_all add: at_def)
  have "loc eholds is_GetParked (j # emptyCond S) ((procs S)[i := CloseEmptyLoop ws])"
    using assms(1) i by (intro loc_pop_at [where vs = ws]) (auto simp: sq_inv_def loc_inv_def)
  then have "sq_inv (S\<lparr>emptyCond := emptyCond S, procs := (procs S)[i := CloseEmptyLoop ws, j := wake (procs S ! j)]\<rparr>)"
    using i by (intro wake_getter_inv [OF assms(1) i(1)]) simp_all
  then show ?thesis by simp
qed

lemma full_pop_inv:
  assumes inv: "sq_inv S" and pc: "at S i (BcFullLoop (j # ws))"
  shows "sq_inv (S\<lparr>procs := (procs S)[i := BcFullLoop ws, j := wake (procs S ! j)]\<rparr>)" (is "sq_inv ?S")
proof -
  let ?xs = "(procs S)[i := BcFullLoop ws]"
  have i: "i < length (procs S)" "procs S ! i = BcFullLoop (j # ws)" using pc by (simp_all add: at_def)
  have parts: "cnt_inv S" "loc_inv S" "wake_inv S" "fifo_inv S" using inv by (simp_all add: sq_inv_def)
  have locF: "loc fholds is_AddParked (j # fullCond S) ?xs"
    using parts(2) i by (intro loc_pop_at [where vs = ws]) (auto simp: loc_inv_def)
  have j: "j < length ?xs" "is_AddParked (?xs ! j)"
    using loc_wake [OF locF, of "BcFullLoop (fholds (?xs ! j))"] by simp_all
  then obtain t v where gj: "?xs ! j = AddParked t v" by (auto simp: is_AddParked_def)
  have "j \<noteq> i" using gj i by (auto simp: nth_list_update)
  then have pj: "procs S ! j = AddParked t v" "wake (procs S ! j) = AddWoken t v" using gj by simp_all
  have loc2: "loc fholds is_AddParked (fullCond S) (?xs[j := AddWoken t v])"
    using loc_wake [OF locF, of "AddWoken t v"] gj by simp
  obtain b1 where c1: "\<And>P. cnt P (procs S) = b1 P + (if P (BcFullLoop (j # ws)) then 1 else 0)"
      "\<And>P x. cnt P ((procs S)[i := x]) = b1 P + (if P x then 1 else 0)"
    using cnt_at [OF i(1)] i(2) by metis
  obtain b2 where c2: "\<And>P. cnt P ?xs = b2 P + (if P (AddParked t v) then 1 else 0)"
      "\<And>P x. cnt P (?xs[j := x]) = b2 P + (if P x then 1 else 0)"
    using cnt_at [OF j(1)] gj by metis
  have eq: "cnt P (?xs[j := AddWoken t v]) + (if P (AddParked t v) then 1 else 0) =
      cnt P (procs S) + (if P (AddWoken t v) then 1 else 0)"
    if "P (BcFullLoop (j # ws)) = P (BcFullLoop ws)" for P
    using c1 [of P] c2 [of P] that by simp
  have "cnt_inv ?S"
    using parts(1) eq [of is_GetParked] eq [of is_GetWoken] eq [of is_AddParked] eq [of is_AddWoken]
      eq [of is_AddTimedOut] by (simp add: cnt_inv_def pj)
  moreover have "loc_inv ?S"
    using parts(2) loc2 i j loc_keep [of i "procs S" eholds is_GetParked "emptyCond S" "BcFullLoop ws"]
      loc_keep [of j ?xs eholds is_GetParked "emptyCond S" "AddWoken t v"] gj
    by (simp add: loc_inv_def pj)
  moreover have "wake_inv ?S"
    using parts(3) eq [of is_CloseBcEmpty] eq [of is_CloseEmptyLoop] eq [of is_BcFull] eq [of is_GetWoken]
      eq [of is_SigEmpty] unfolding wake_inv_def by (simp add: pj)
  moreover have "fifo_inv ?S" using parts(4) by (simp add: fifo_inv_def)
  ultimately show ?thesis by (simp add: sq_inv_def)
qed

lemma cnt_unring: "(\<And>ws ws'. P (BcFullLoop ws) = P (BcFullLoop ws')) \<Longrightarrow> cnt P (map (unring i) xs) = cnt P xs"
proof -
  assume "\<And>ws ws'. P (BcFullLoop ws) = P (BcFullLoop ws')"
  then have "P (unring i pc) = P pc" for pc by (cases pc) auto
  then show ?thesis by (simp add: cnt_map)
qed

lemma ticker_inv:
  assumes inv: "sq_inv S" and pc: "at S i (AddParked t v)"
  shows "sq_inv (S\<lparr>fullCond := filter (\<lambda>j. j \<noteq> i) (fullCond S),
                   procs := (map (unring i) (procs S))[i := AddTimedOut t v]\<rparr>)" (is "sq_inv ?S")
proof -
  let ?xs = "map (unring i) (procs S)"
  have i: "i < length (procs S)" "procs S ! i = AddParked t v" using pc by (simp_all add: at_def)
  have parts: "cnt_inv S" "loc_inv S" "wake_inv S" "fifo_inv S" using inv by (simp_all add: sq_inv_def)
  obtain base where c: "\<And>P. cnt P ?xs = base P + (if P (AddParked t v) then 1 else 0)"
      "\<And>P x. cnt P (?xs[i := x]) = base P + (if P x then 1 else 0)"
    using cnt_at [of i ?xs thesis] i by simp
  have old: "cnt P (procs S) = base P + (if P (AddParked t v) then 1 else 0)"
    if "\<And>ws ws'. P (BcFullLoop ws) = P (BcFullLoop ws')" for P
    using c(1) [of P] cnt_unring [of P i "procs S"] that by simp
  have flags: "fholds (unring i y) = filter (\<lambda>j. j \<noteq> i) (fholds y)" "is_AddParked (unring i y) = is_AddParked y"
    "eholds (unring i y) = eholds y" "is_GetParked (unring i y) = is_GetParked y" for y :: "'a pc"
    by (cases y; simp)+
  have "loc fholds is_AddParked (filter (\<lambda>j. j \<noteq> i) (fullCond S)) (?xs[i := AddTimedOut t v])"
    using parts(2) i flags loc_leave [of i "procs S" fholds is_AddParked "fullCond S" "AddTimedOut t v" "unring i"]
    by (simp add: loc_inv_def)
  moreover have "loc eholds is_GetParked (emptyCond S) (?xs[i := AddTimedOut t v])"
  proof (rule loc_keep)
    have "map eholds ?xs = map eholds (procs S)" using flags by simp
    moreover have "idx is_GetParked ?xs = idx is_GetParked (procs S)"
      unfolding idx_def by (intro arg_cong [where f = mset] filter_cong) (auto simp: flags)
    ultimately show "loc eholds is_GetParked (emptyCond S) ?xs"
      using parts(2) unfolding loc_inv_def loc_def by metis
  qed (use i in simp_all)
  ultimately have "loc_inv ?S" by (simp add: loc_inv_def)
  moreover have "cnt_inv ?S" using parts(1) by (simp add: cnt_inv_def c old)
  moreover have "wake_inv ?S"
    using parts(3) unfolding wake_inv_def by (cases "fullCond S = []") (simp_all add: c old)
  moreover have "fifo_inv ?S" using parts(4) by (simp add: fifo_inv_def)
  ultimately show ?thesis by (simp add: sq_inv_def)
qed

lemma close_inv:
  assumes inv: "sq_inv S" and pc: "at S i Idle" and cl: "Close (queue S) = (s', first, n)"
  shows "sq_inv (S\<lparr>queue := s', procs := (procs S)[i := (if first then CloseBcEmpty else Idle)]\<rparr>)" (is "sq_inv ?S")
proof -
  have i: "i < length (procs S)" "procs S ! i = Idle" using pc by (simp_all add: at_def)
  obtain base where c: "\<And>P. cnt P (procs S) = base P + (if P Idle then 1 else 0)"
      "\<And>P x. cnt P ((procs S)[i := x]) = base P + (if P x then 1 else 0)"
    using cnt_at [OF i(1)] i(2) by metis
  have parts: "cnt_inv S" "loc_inv S" "wake_inv S" "fifo_inv S" using inv by (simp_all add: sq_inv_def)
  have s': "s' = (queue S)\<lparr>closed := True\<rparr>" "first = (\<not> closed (queue S))"
    using cl by (auto simp: Close_def Let_def split: if_splits)
  have "cnt_inv ?S" using parts(1) by (simp add: cnt_inv_def c s')
  moreover have "loc_inv ?S" using parts(2) i by (simp add: loc_inv_def loc_keep)
  moreover have "wake_inv ?S" using parts(3) unfolding wake_inv_def by (simp add: c s')
  moreover have "fifo_inv ?S" using parts(4) by (simp add: fifo_inv_def s')
  ultimately show ?thesis by (simp add: sq_inv_def)
qed

lemma set_full_size_inv:
  assumes inv: "sq_inv S" and pc: "at S i Idle" and sf: "SetFullSize k (queue S) = (s', sig)"
  shows "sq_inv (S\<lparr>queue := s', procs := (procs S)[i := (if sig then BcFull else Idle)]\<rparr>)" (is "sq_inv ?S")
proof -
  have i: "i < length (procs S)" "procs S ! i = Idle" using pc by (simp_all add: at_def)
  obtain base where c: "\<And>P. cnt P (procs S) = base P + (if P Idle then 1 else 0)"
      "\<And>P x. cnt P ((procs S)[i := x]) = base P + (if P x then 1 else 0)"
    using cnt_at [OF i(1)] i(2) by metis
  have parts: "cnt_inv S" "loc_inv S" "wake_inv S" "fifo_inv S" using inv by (simp_all add: sq_inv_def)
  have fw: "fullCond S \<noteq> [] \<Longrightarrow> 0 < fullWaited (queue S)"
    using inv fullCond_waited [of S] by (simp add: sq_inv_def)
  have s': "qlist s' = qlist (queue S)" "closed s' = closed (queue S)"
      "emptyWaited s' = emptyWaited (queue S)" "fullWaited s' = fullWaited (queue S)"
      "sig \<or> fullWaited (queue S) \<le> 0 \<or> fullSize s' \<le> fullSize (queue S)"
    using sf by (auto simp: SetFullSize_def split: if_splits)
  have "cnt_inv ?S" using parts(1) by (simp add: cnt_inv_def c s')
  moreover have "loc_inv ?S" using parts(2) i by (simp add: loc_inv_def loc_keep)
  moreover have "wake_inv ?S"
  proof (cases sig)
    case True
    then show ?thesis using parts(3) unfolding wake_inv_def by (simp add: c s')
  next
    case False
    then have "int (length (qlist (queue S))) < fullSize (queue S)"
      if "fullCond S \<noteq> []" "int (length (qlist (queue S))) < fullSize s'"
      using s'(5) fw that by linarith
    then show ?thesis using parts(3) False unfolding wake_inv_def by (simp add: c s')
  qed
  moreover have "fifo_inv ?S" using parts(4) by (simp add: fifo_inv_def s')
  ultimately show ?thesis by (simp add: sq_inv_def)
qed

lemma sq_step_inv:
  assumes "sq_step S S'" and "sq_inv S" and "\<not> raced S" and "\<not> raced S'"
  shows "sq_inv S'"
  using assms(1)
proof (cases rule: sq_step.cases)
  case (add_resume i t v ok)
  then show ?thesis using leave_resume_inv [OF assms(2) add_resume(2)] by simp
next
  case (add_timed_out i t v)
  then show ?thesis using leave_resume_inv [OF assms(2) add_timed_out(2)] by simp
next
  case (get i)
  then show ?thesis using leave_get_inv [OF assms(2) get(2), of "queue S"] by simp
next
  case (get_resume i)
  then show ?thesis using leave_get_inv [OF assms(2) get_resume(2)] by (simp add: Get_resume_def)
next
  case (signal_none i)
  then show ?thesis using simple_inv [OF assms(2) signal_none(2)] by simp
next
  case (full_done i)
  then show ?thesis using simple_inv [OF assms(2) full_done(2)] by simp
next
  case (empty_done i)
  then show ?thesis using simple_inv [OF assms(2) empty_done(2)] by simp
qed (use assms in \<open>simp_all add: leave_add_inv ticker_inv signal_one_inv swap_inv full_pop_inv empty_pop_inv close_inv set_full_size_inv\<close>)

lemma sq_step_raced: "sq_step S S' \<Longrightarrow> raced S \<Longrightarrow> raced S'"
  by (induction rule: sq_step.induct) (simp_all add: leave_add_def leave_get_def split: prod.split)

text \<open>The items are moved by the critical sections alone, which no race disturbs.\<close>

lemma sq_step_fifo: "sq_step S S' \<Longrightarrow> fifo_inv S \<Longrightarrow> fifo_inv S'"
proof (induction rule: sq_step.induct)
  case (get_resume S i)
  then show ?case by (simp add: fifo_inv_def leave_get_def Get_resume_def Get_def)
next
  case (close S i s' first n)
  then show ?case by (auto simp: fifo_inv_def Close_def Let_def split: if_splits)
next
  case (set_full_size S i k s' sig)
  then show ?case by (auto simp: fifo_inv_def SetFullSize_def split: if_splits)
qed (simp_all add: fifo_inv_def leave_add_def leave_get_def Add_def AddWithTimeout_def AddWithTimeout_resume_def
    AddWithTimeout_loop_def Get_def Let_def)

lemma sq_reach_fifo: "sq_reach S \<Longrightarrow> fifo_inv S"
proof (induction rule: sq_reach.induct)
  case (init fs s n)
  have "qlist s = []" using init by (auto simp: NewSendQueue_def Let_def split: list.splits if_splits)
  then show ?case by (simp add: fifo_inv_def init_sqsys_def)
next
  case (step S S')
  then show ?case using sq_step_fifo by blast
qed

lemma sq_reach_inv: "sq_reach S \<Longrightarrow> \<not> raced S \<Longrightarrow> sq_inv S"
proof (induction rule: sq_reach.induct)
  case (init fs s n)
  have s: "qlist s = [] \<and> closed s = False \<and> emptyWaited s = 0 \<and> fullWaited s = 0"
    using init by (auto simp: NewSendQueue_def Let_def split: list.splits if_splits)
  have "idx is_GetParked (replicate n Idle :: 'a pc list) = {#}" "idx is_AddParked (replicate n Idle :: 'a pc list) = {#}"
    by (auto simp: idx_def filter_empty_conv)
  then show ?case
    using s by (simp add: sq_inv_def cnt_inv_def loc_inv_def wake_inv_def fifo_inv_def init_sqsys_def loc_def)
next
  case (step S S')
  then show ?case using sq_step_inv sq_step_raced by blast
qed

section \<open>Properties\<close>

text \<open>With nobody inside a broadcast, the parked goroutines are in the ring.\<close>

lemma loc_parked:
  assumes "loc h P ws xs" and "\<And>x. x \<in> set xs \<Longrightarrow> h x = []" and "x \<in> set xs" and "P x"
  shows "ws \<noteq> []"
proof
  assume ws: "ws = []"
  have "concat (map h xs) = []" using assms(2) by simp
  then have "idx P xs = {#}" using assms(1) ws unfolding loc_def by (metis add_0 mset.simps(1))
  moreover obtain i where "i < length xs" "xs ! i = x" using assms(3) by (metis in_set_conv_nth)
  ultimately show False using in_idx [of i P xs] assms(4) by simp
qed

lemma parked_in_ring:
  assumes "sq_reach S" and "\<not> raced S" and "\<forall>pc\<in>set (procs S). is_Idle pc \<or> is_GetParked pc \<or> is_AddParked pc"
  shows "GetParked \<in> set (procs S) \<Longrightarrow> emptyCond S \<noteq> []"
    and "AddParked t v \<in> set (procs S) \<Longrightarrow> fullCond S \<noteq> []"
proof -
  have l: "loc eholds is_GetParked (emptyCond S) (procs S)" "loc fholds is_AddParked (fullCond S) (procs S)"
    using sq_reach_inv [OF assms(1,2)] by (simp_all add: sq_inv_def loc_inv_def)
  have h: "eholds pc = []" "fholds pc = []" if "pc \<in> set (procs S)" for pc
  proof -
    have "is_Idle pc \<or> is_GetParked pc \<or> is_AddParked pc" using assms(3) that by blast
    then show "eholds pc = []" "fholds pc = []" by (cases pc; simp)+
  qed
  show "GetParked \<in> set (procs S) \<Longrightarrow> emptyCond S \<noteq> []"
    by (erule loc_parked [OF l(1) h(1), rotated]) simp_all
  show "AddParked t v \<in> set (procs S) \<Longrightarrow> fullCond S \<noteq> []"
    by (erule loc_parked [OF l(2) h(2), rotated]) simp_all
qed

text \<open>C1. First in, first out, nothing lost and nothing twice: in every reachable state of
  the goroutines that share a send queue, the items whose \<open>Add\<close> or \<open>AddWithTimeout\<close> returned nil are, in
  the order of their critical sections, exactly the items \<open>Get\<close> has returned followed by those
  still queued.\<close>

theorem sendqueue_fifo:
  assumes "sq_reach S"
  shows "accepted S = delivered S @ qlist (queue S)"
  using sq_reach_fifo [OF assms] by (simp add: fifo_inv_def)

text \<open>A reachable state for the witnesses: one item queued in a queue of size one, and a second
  \<open>AddWithTimeout\<close> parked.\<close>

definition full_state :: "string sqsys" where
  "full_state = \<lparr>queue = \<lparr>qlist = [''a''], fullSize = 1, closed = False, emptyWaited = 0, fullWaited = 1\<rparr>,
     emptyCond = [], fullCond = [1], procs = [Idle, AddParked 5 ''b''], accepted = [''a''], delivered = [], raced = False\<rparr>"

lemma full_state_reach: "sq_reach full_state"
proof -
  let ?q = "\<lparr>qlist = [], fullSize = 1, closed = False, emptyWaited = 0, fullWaited = 0\<rparr> :: string sendqueue"
  let ?S1 = "leave_add (init_sqsys ?q 2) 0 0 ''a'' (Add ''a'' ?q)"
  have "NewSendQueue [1] = Some ?q" by (simp add: NewSendQueue_def Let_def)
  then have "sq_reach (init_sqsys ?q 2)" by (rule sq_reach.init)
  moreover have "sq_step (init_sqsys ?q 2) ?S1"
    using sq_step.add [of "init_sqsys ?q 2" 0 "''a''"] by (simp add: at_def init_sqsys_def)
  ultimately have r1: "sq_reach ?S1" by (rule sq_reach.step)
  have "at ?S1 1 Idle"
    by (simp add: at_def leave_add_def init_sqsys_def Add_def numeral_2_eq_2)
  then have "sq_step ?S1 (leave_add ?S1 1 5 ''b'' (AddWithTimeout ''b'' (queue ?S1)))"
    by (rule sq_step.add_timeout)
  moreover have "leave_add ?S1 1 5 ''b'' (AddWithTimeout ''b'' (queue ?S1)) = full_state"
    by (simp add: full_state_def leave_add_def init_sqsys_def Add_def AddWithTimeout_def
        AddWithTimeout_loop_def numeral_2_eq_2)
  ultimately show ?thesis using r1 sq_reach.step by fastforce
qed

theorem sendqueue_fifo_witness: "accepted full_state = delivered full_state @ qlist (queue full_state)"
  using sendqueue_fifo [OF full_state_reach] .

text \<open>C6. Nobody sleeps for no reason, as long as no ticker branch has raced: when every goroutine is outside the send
  queue or parked in it, a parked \<open>Get\<close> means that the queue is open and empty, and a parked
  \<open>AddWithTimeout\<close> that it is open and full, whatever timeouts, signals, broadcasts, changes of the
  bound and closes came before. The side condition \<open>raced\<close> fails only when a ticker branch came inside a \<open>popWait\<close> of a
  running \<open>broadcast\<close>, or removed a node that the pool had handed out again; a queue without timed waits,
  in a process without them, never gets there.\<close>

theorem sendqueue_quiescent:
  assumes "sq_reach S" and "\<not> raced S"
    and "\<forall>pc\<in>set (procs S). is_Idle pc \<or> is_GetParked pc \<or> is_AddParked pc"
  shows "(GetParked \<in> set (procs S) \<longrightarrow> Empty (queue S) \<and> \<not> Closed (queue S)) \<and>
         (AddParked t v \<in> set (procs S) \<longrightarrow>
            fullSize (queue S) \<le> int (length (qlist (queue S))) \<and> \<not> Closed (queue S))"
proof -
  have w: "wake_inv S" using sq_reach_inv [OF assms(1,2)] by (simp add: sq_inv_def)
  have none: "cnt is_SigEmpty (procs S) = 0" "cnt is_GetWoken (procs S) = 0" "cnt is_BcFull (procs S) = 0"
      "cnt is_CloseBcEmpty (procs S) = 0" "cnt is_CloseEmptyLoop (procs S) = 0"
    unfolding cnt_eq_0 using assms(3) by (metis pc.disc pc.exhaust_disc pc.collapse)+
  show ?thesis
    using parked_in_ring [OF assms] w none by (auto simp: wake_inv_def Empty_def Closed_def)
qed

theorem sendqueue_quiescent_witness:
  "AddParked 5 ''b'' \<in> set (procs full_state) \<and>
     fullSize (queue full_state) \<le> int (length (qlist (queue full_state))) \<and> \<not> Closed (queue full_state)"
  using sendqueue_quiescent [OF full_state_reach, of 5 "''b''"] by (simp add: full_state_def)

text \<open>Without the side condition it fails: a broadcast has detached the ring with two timed adders, the ticker of the first comes
  inside a \<open>popWait\<close>, the loop ends early, and the second adder stays parked although the queue is empty.\<close>

definition detached_state :: "string sqsys" where
  "detached_state = \<lparr>queue = \<lparr>qlist = [], fullSize = 1, closed = False, emptyWaited = 0, fullWaited = 2\<rparr>,
     emptyCond = [], fullCond = [], procs = [BcFullLoop [1, 2], AddParked 5 ''b'', AddParked 5 ''c''],
     accepted = [''a''], delivered = [''a''], raced = False\<rparr>"

lemma detached_state_reach: "sq_reach detached_state"
proof -
  let ?q = "\<lambda>xs w. \<lparr>qlist = xs, fullSize = 1, closed = False, emptyWaited = 0, fullWaited = w\<rparr> :: string sendqueue"
  let ?S = "\<lambda>xs w fs ps acc del. \<lparr>queue = ?q xs w, emptyCond = [], fullCond = fs, procs = ps, accepted = acc, delivered = del, raced = False\<rparr>"
  let ?b = "AddParked 5 ''b''" and ?c = "AddParked 5 ''c''"
  note e = at_def leave_add_def leave_get_def Add_def AddWithTimeout_def AddWithTimeout_loop_def Get_def
  have "NewSendQueue [1] = Some (?q [] 0)" by (simp add: NewSendQueue_def Let_def)
  from sq_reach.init [OF this, of 3] have r0: "sq_reach (?S [] 0 [] [Idle, Idle, Idle] [] [])"
    by (simp add: init_sqsys_def numeral_3_eq_3)
  have "sq_step (?S [] 0 [] [Idle, Idle, Idle] [] []) (?S [''a''] 0 [] [Idle, Idle, Idle] [''a''] [])"
    using sq_step.add [of "?S [] 0 [] [Idle, Idle, Idle] [] []" 0 "''a''"] by (simp add: e)
  note r1 = sq_reach.step [OF r0 this]
  have "sq_step (?S [''a''] 0 [] [Idle, Idle, Idle] [''a''] []) (?S [''a''] 1 [1] [Idle, ?b, Idle] [''a''] [])"
    using sq_step.add_timeout [of "?S [''a''] 0 [] [Idle, Idle, Idle] [''a''] []" 1 5 "''b''"] by (simp add: e)
  note r2 = sq_reach.step [OF r1 this]
  have "sq_step (?S [''a''] 1 [1] [Idle, ?b, Idle] [''a''] []) (?S [''a''] 2 [1, 2] [Idle, ?b, ?c] [''a''] [])"
    using sq_step.add_timeout [of "?S [''a''] 1 [1] [Idle, ?b, Idle] [''a''] []" 2 5 "''c''"] by (simp add: e)
  note r3 = sq_reach.step [OF r2 this]
  have "sq_step (?S [''a''] 2 [1, 2] [Idle, ?b, ?c] [''a''] []) (?S [] 2 [1, 2] [BcFull, ?b, ?c] [''a''] [''a''])"
    using sq_step.get [of "?S [''a''] 2 [1, 2] [Idle, ?b, ?c] [''a''] []" 0] by (simp add: e)
  note r4 = sq_reach.step [OF r3 this]
  have "sq_step (?S [] 2 [1, 2] [BcFull, ?b, ?c] [''a''] [''a'']) detached_state"
    using sq_step.full_swap [of "?S [] 2 [1, 2] [BcFull, ?b, ?c] [''a''] [''a'']" 0] by (simp add: e detached_state_def)
  from sq_reach.step [OF r4 this] show ?thesis .
qed

lemma raced_waiter_sleeps:
  "\<exists>S :: string sqsys. sq_reach S \<and> raced S \<and> procs S = [Idle, Idle, AddParked 5 ''c''] \<and> Empty (queue S) \<and> \<not> Closed (queue S)"
proof -
  let ?q = "\<lambda>w. \<lparr>qlist = [], fullSize = 1, closed = False, emptyWaited = 0, fullWaited = w\<rparr> :: string sendqueue"
  let ?S = "\<lambda>w ps. \<lparr>queue = ?q w, emptyCond = [], fullCond = [], procs = ps, accepted = [''a''], delivered = [''a''], raced = True\<rparr>"
  let ?b = "AddTimedOut 5 ''b''" and ?c = "AddParked 5 ''c''"
  have "sq_step detached_state (?S 2 [BcFullLoop [1, 2], ?b, ?c])"
    using sq_step.ticker_race [of detached_state 1 5 "''b''"] by (simp add: at_def detached_state_def)
  note r1 = sq_reach.step [OF detached_state_reach this]
  have "sq_step (?S 2 [BcFullLoop [1, 2], ?b, ?c]) (?S 2 [BcFullLoop [], ?b, ?c])"
    using sq_step.race_effect [of "?S 2 [BcFullLoop [1, 2], ?b, ?c]" "[BcFullLoop [], ?b, ?c]" "[]" "[]"] by simp
  note r2 = sq_reach.step [OF r1 this]
  have "sq_step (?S 2 [BcFullLoop [], ?b, ?c]) (?S 2 [Idle, ?b, ?c])"
    using sq_step.full_done [of "?S 2 [BcFullLoop [], ?b, ?c]" 0] by (simp add: at_def)
  note r3 = sq_reach.step [OF r2 this]
  have "sq_step (?S 2 [Idle, ?b, ?c]) (?S 1 [Idle, Idle, ?c])"
    using sq_step.add_timed_out [of "?S 2 [Idle, ?b, ?c]" 1 5 "''b''"]
    by (simp add: at_def leave_add_def AddWithTimeout_resume_def)
  from sq_reach.step [OF r3 this] show ?thesis
    by (intro exI [of _ "?S 1 [Idle, Idle, ?c]"]) (simp add: Empty_def Closed_def)
qed

end
