(* ===== verification/Util.thy ===== *)
theory Util
  imports KendyPrelude
begin

text \<open>
  Small parts of \<open>src/util\<close>: the atomic bit flags of \<open>flag.go\<close>, the one-slot notifier of
  \<open>notify.go\<close> and \<open>StringHash\<close> of \<open>util.go\<close>.
\<close>

section \<open>Definitions: Flag\<close>

text \<open>The methods of \<open>Flag\<close> load the word and compare-and-swap until it succeeds. \<open>cas_loop op vs\<close> is
  such a loop in an environment that has written \<open>vs\<close> between the loads and the swaps: it returns the
  value it swaps in when the environment stops writing.\<close>

definition or_flag :: "uint32 \<Rightarrow> uint32 \<Rightarrow> uint32" where
  "or_flag fl f = f OR fl"

definition clear_flag :: "uint32 \<Rightarrow> uint32 \<Rightarrow> uint32" where
  "clear_flag fl f = f AND (fl XOR 0xFFFFFFFF)"

fun cas_loop :: "(uint32 \<Rightarrow> uint32) \<Rightarrow> uint32 list \<Rightarrow> uint32 \<Rightarrow> uint32" where
  "cas_loop opn [] f = opn f"
| "cas_loop opn (v # vs) f = (if v = f then opn f else cas_loop opn vs v)"

definition AtomicSet :: "uint32 \<Rightarrow> uint32 list \<Rightarrow> uint32 \<Rightarrow> uint32" where
  "AtomicSet fl vs f = cas_loop (or_flag fl) vs f"

definition AtomicClear :: "uint32 \<Rightarrow> uint32 list \<Rightarrow> uint32 \<Rightarrow> uint32" where
  "AtomicClear fl vs f = cas_loop (clear_flag fl) vs f"

definition AtomicTest :: "uint32 \<Rightarrow> uint32 \<Rightarrow> bool" where
  "AtomicTest fl f \<longleftrightarrow> f AND fl > 0"

lemma AtomicTest_bit: "AtomicTest fl f \<longleftrightarrow> (\<exists>n<32. bit f n \<and> bit fl n)"
proof -
  have "AtomicTest fl f \<longleftrightarrow> f AND fl \<noteq> 0" by (simp add: AtomicTest_def word_gt_0)
  also have "\<dots> \<longleftrightarrow> (\<exists>n. bit (f AND fl) n)" by (metis bit_0_eq bit_eqI bot_apply bot_boolE)
  finally have "AtomicTest fl f \<longleftrightarrow> (\<exists>n. bit f n \<and> bit fl n)" by (simp add: bit_and_iff)
  moreover have "bit f n \<Longrightarrow> n < 32" for n using bit_imp_le_length [of f n] by simp
  ultimately show ?thesis by blast
qed

lemma cas_loop_last: "\<exists>v. v \<in> set (f # vs) \<and> cas_loop opn vs f = opn v"
  by (induction vs arbitrary: f) auto

text \<open>The compare-and-swap loops of \<open>Flag\<close> lose no bit and touch no other: whatever the
  environment wrote in between, \<open>AtomicSet\<close> installs the last value it saw with exactly the bits of
  \<open>fl\<close> added, \<open>AtomicClear\<close> with exactly these bits removed; \<open>AtomicTest\<close> then answers
  accordingly.\<close>

theorem flag_ops:
  "(\<exists>v \<in> set (f # vs). (\<forall>n<32. bit (AtomicSet fl vs f) n = (bit v n \<or> bit fl n)) \<and>
       AtomicTest g (AtomicSet fl vs f) = (AtomicTest g v \<or> AtomicTest g fl)) \<and>
   (\<exists>v \<in> set (f # vs). (\<forall>n<32. bit (AtomicClear fl vs f) n = (bit v n \<and> \<not> bit fl n)) \<and>
       \<not> AtomicTest fl (AtomicClear fl vs f))"
proof
  obtain v where v: "v \<in> set (f # vs)" "AtomicSet fl vs f = or_flag fl v"
    using cas_loop_last unfolding AtomicSet_def by blast
  have "bit (or_flag fl v) n = (bit v n \<or> bit fl n)" for n by (simp add: or_flag_def bit_or_iff)
  then show "\<exists>v \<in> set (f # vs). (\<forall>n<32. bit (AtomicSet fl vs f) n = (bit v n \<or> bit fl n)) \<and>
       AtomicTest g (AtomicSet fl vs f) = (AtomicTest g v \<or> AtomicTest g fl)"
    using v unfolding AtomicTest_bit by auto
next
  obtain v where v: "v \<in> set (f # vs)" "AtomicClear fl vs f = clear_flag fl v"
    using cas_loop_last unfolding AtomicClear_def by blast
  have all: "(0xFFFFFFFF :: uint32) = - 1" by simp
  have "bit (clear_flag fl v) n = (bit v n \<and> \<not> bit fl n)" if "n < 32" for n
    using that unfolding clear_flag_def all by (simp add: bit_and_iff bit_xor_iff bit_minus_1_iff bit_not_iff)
  then show "\<exists>v \<in> set (f # vs). (\<forall>n<32. bit (AtomicClear fl vs f) n = (bit v n \<and> \<not> bit fl n)) \<and>
       \<not> AtomicTest fl (AtomicClear fl vs f)"
    using v unfolding AtomicTest_bit by auto
qed

theorem flag_ops_witness:
  "AtomicTest 2 (AtomicSet 2 [] 8) \<and> AtomicTest 8 (AtomicSet 2 [] 8) \<and> \<not> AtomicTest 2 (AtomicClear 2 [10] 10)"
proof -
  have t: "AtomicTest 2 2" "AtomicTest 8 8" by (simp_all add: AtomicTest_def)
  show ?thesis using flag_ops [of 8 "[]" 2 2] flag_ops [of 8 "[]" 2 8] flag_ops [of 10 "[10]" 2 2] t by simp
qed

section \<open>Definitions: Notifyer\<close>

text \<open>A buffered channel of capacity one: the number of tokens in it and whether it is closed.\<close>

record notifyer =
  tokens :: nat
  nclosed :: bool

definition NewNotifyer :: notifyer where
  "NewNotifyer = \<lparr>tokens = 0, nclosed = False\<rparr>"

text \<open>\<open>Wait\<close>: \<open>None\<close> when it blocks; the flag says whether it returns \<open>ErrNotifyerClosed\<close>.\<close>

definition Wait :: "notifyer \<Rightarrow> (notifyer \<times> bool) option" where
  "Wait n = (if tokens n > 0 then Some (n\<lparr>tokens := tokens n - 1\<rparr>, False)
             else if nclosed n then Some (n, True) else None)"

definition Notify :: "notifyer \<Rightarrow> notifyer" where
  "Notify n = (if tokens n < 1 then n\<lparr>tokens := tokens n + 1\<rparr> else n)"

section \<open>Definitions: StringHash\<close>

text \<open>The loop over the runes of the string, in 16-bit arithmetic.\<close>

fun hash_loop :: "uint16 \<Rightarrow> uint32 list \<Rightarrow> uint16" where
  "hash_loop hash [] = hash"
| "hash_loop hash (c # s) =
     (let ch = ucast c :: uint16 in hash_loop (hash + push_bit 5 hash + ch + push_bit 7 ch) s)"

definition StringHash :: "uint32 list \<Rightarrow> int" where
  "StringHash s = uint (hash_loop 0 s)"

text \<open>The shift-and-add form of the source is multiplication modulo \<open>2 ^ 16\<close>.\<close>

lemma hash_loop_mult: "hash_loop h s = fold (\<lambda>c h. 33 * h + 129 * ucast c) s h"
proof (induction s arbitrary: h)
  case Nil
  then show ?case by simp
next
  case (Cons c s)
  have e: "h + push_bit 5 h + ucast c + push_bit 7 (ucast c) = 33 * h + 129 * (ucast c :: uint16)"
    by (simp add: push_bit_eq_mult algebra_simps)
  show ?case by (simp only: hash_loop.simps Let_def e Cons.IH fold_simps)
qed

lemma StringHash_range: "0 \<le> StringHash s \<and> StringHash s < 65536"
  using uint_bounded [of "hash_loop 0 s"] by (simp add: StringHash_def)

text \<open>A token is never lost and never more than one is kept: after \<open>Notify\<close> the next \<open>Wait\<close>
  returns.\<close>

lemma Notify_Wait: "tokens n \<le> 1 \<Longrightarrow> \<exists>n'. Wait (Notify n) = Some (n', False) \<and> tokens n' = 0"
  by (auto simp: Wait_def Notify_def)

end
