(* ===== verification/SocketBase.thy ===== *)
theory SocketBase
  imports SendQueue Util
begin

text \<open>
  The life cycle shared by the stream and the websocket session, \<open>src/socket/socketBase.go\<close>:
  starting the two I/O goroutines, sending, shutting down, closing, and the close callback that
  runs when the last of them is done. The system interleaves the atomic operations on
  \<open>flag\<close>, \<open>ioCount\<close> and the once-flags. A goroutine that waits in the send queue may come back at any time.
\<close>

section \<open>Definitions: state\<close>

definition fclosed :: uint32 where "fclosed = push_bit 1 1"
definition frclosed :: uint32 where "frclosed = push_bit 2 1"
definition fdoclose :: uint32 where "fdoclose = push_bit 3 1"

datatype session_error =
    ErrSocketClose | ErrSendQueFull | ErrSendTimeout | ErrRecvTimeout | ErrInvaildObject
  | ErrInvaildEncoder | ErrCbNil | NetTimeout | NetError string

datatype 'o object = OBytes "byte list" | OMsg 'o

text \<open>\<open>callbacks\<close> records the calls of \<open>closeCallBack\<close> with their reason, \<open>connClosed\<close> and \<open>sendCloseChan\<close> that
  the connection and the channel were closed.\<close>

record 'o socket_base =
  flag :: uint32
  ioCount :: int
  sendQue :: "'o object sendqueue"
  sendCloseChan :: bool
  closeOnce :: bool
  beginOnce :: bool
  sendOnce :: bool
  doCloseOnce :: bool
  closeReason :: "session_error option"
  has_encoder :: bool
  has_closeCallBack :: bool
  connClosed :: bool
  callbacks :: "session_error option list"

definition NewBase :: "bool \<Rightarrow> bool \<Rightarrow> 'o object sendqueue \<Rightarrow> 'o socket_base" where
  "NewBase enc cb que =
     \<lparr>flag = 0, ioCount = 0, sendQue = que, sendCloseChan = False, closeOnce = False, beginOnce = False,
      sendOnce = False, doCloseOnce = False, closeReason = None, has_encoder = enc, has_closeCallBack = cb,
      connClosed = False, callbacks = []\<rparr>"

section \<open>Definitions: operations\<close>

definition set_flag :: "uint32 \<Rightarrow> 'o socket_base \<Rightarrow> 'o socket_base" where
  "set_flag fl s = s\<lparr>flag := AtomicSet fl [] (flag s)\<rparr>"

definition IsClosed :: "'o socket_base \<Rightarrow> bool" where
  "IsClosed s = AtomicTest fclosed (flag s)"

definition addIO :: "'o socket_base \<Rightarrow> 'o socket_base" where
  "addIO s = s\<lparr>ioCount := ioCount s + 1\<rparr>"

text \<open>The checks at the head of \<open>Send\<close> and \<open>SendWithTimeout\<close>; \<open>None\<close> is the nil object.\<close>

definition Send_check :: "'o object option \<Rightarrow> 'o socket_base \<Rightarrow> session_error option" where
  "Send_check obj s =
     (case obj of
        None \<Rightarrow> Some ErrInvaildObject
      | Some (OBytes b) \<Rightarrow> None
      | Some (OMsg m) \<Rightarrow> (if has_encoder s then None else Some ErrInvaildEncoder))"

definition map_queue_error :: "sq_error \<Rightarrow> session_error" where
  "map_queue_error e =
     (case e of ErrQueueClosed \<Rightarrow> ErrSocketClose | ErrQueueFull \<Rightarrow> ErrSendQueFull | ErrAddTimeout \<Rightarrow> ErrSendTimeout)"

text \<open>What \<open>Send\<close> returns at once, given the outcome of the queue operation; \<open>None\<close> goes on to start
  the send goroutine.\<close>

definition send_result :: "sq_add_out \<Rightarrow> session_error option" where
  "send_result r = (case r of AddRet (Some e) sig \<Rightarrow> Some (map_queue_error e) | _ \<Rightarrow> None)"

definition cas_sendOnce :: "'o socket_base \<Rightarrow> 'o socket_base \<times> bool" where
  "cas_sendOnce s = (if sendOnce s then (s, False) else (s\<lparr>sendOnce := True\<rparr>, True))"

definition cas_beginOnce :: "'o socket_base \<Rightarrow> 'o socket_base \<times> bool" where
  "cas_beginOnce s = (if beginOnce s then (s, False) else (s\<lparr>beginOnce := True\<rparr>, True))"

definition cas_closeOnce :: "'o socket_base \<Rightarrow> 'o socket_base \<times> bool" where
  "cas_closeOnce s = (if closeOnce s then (s, False) else (s\<lparr>closeOnce := True\<rparr>, True))"

text \<open>The end of \<open>ioDone\<close> and of \<open>Close\<close>: the callback runs for the first to get here.\<close>

definition fire_close :: "session_error option \<Rightarrow> 'o socket_base \<Rightarrow> 'o socket_base" where
  "fire_close reason s =
     (if doCloseOnce s then s
      else s\<lparr>doCloseOnce := True,
             callbacks := (if has_closeCallBack s then callbacks s @ [reason] else callbacks s)\<rparr>)"

definition ShutdownRead :: "'o socket_base \<Rightarrow> 'o socket_base" where
  "ShutdownRead s = set_flag frclosed s"

text \<open>\<open>ShutdownWrite\<close> closes the send queue; the flag says whether it shuts down the connection's write
  side itself.\<close>

definition ShutdownWrite :: "'o socket_base \<Rightarrow> 'o socket_base \<times> bool" where
  "ShutdownWrite s =
     (let (q, closeOK, remain) = Close (sendQue s) in (s\<lparr>sendQue := q\<rparr>, closeOK \<and> remain = 0))"

section \<open>Definitions: goroutines\<close>

text \<open>
  The points between two atomic operations. \<open>SendTail\<close>: the object is queued, the
  compare-and-swap on \<open>sendOnce\<close> comes next; \<open>SendStart\<close>: \<open>addIO\<close> and the start of the send goroutine
  come next; \<open>BeginTest\<close>, \<open>BeginStart\<close> likewise for \<open>BeginRecv\<close>. \<open>SendThread\<close>, \<open>RecvThread\<close> are the I/O
  goroutines; \<open>IoDec\<close>, \<open>IoTest\<close>, \<open>IoFire\<close> the three operations of \<open>ioDone\<close>. The \<open>Close\<dots>\<close> points carry the reason and
  the delay; \<open>DelayWait\<close> is the goroutine that closes the connection later.
\<close>

datatype 'o pc =
    is_Idle: Idle
  | is_SendParked: SendParked int "'o object"
  | is_SendTail: SendTail
  | is_SendStart: SendStart
  | is_BeginTest: BeginTest
  | is_BeginStart: BeginStart
  | is_SendThread: SendThread
  | is_RecvThread: RecvThread
  | is_IoDec: IoDec
  | is_IoTest: IoTest
  | is_IoFire: IoFire
  | is_CloseFlag: CloseFlag session_error int
  | is_CloseQueue: CloseQueue session_error int
  | is_CloseReason: CloseReason session_error
  | is_CloseDo: CloseDo session_error
  | is_CloseLoad: CloseLoad session_error
  | is_CloseFire: CloseFire session_error
  | is_DelayWait: DelayWait

fun after_queue :: "int \<Rightarrow> 'o object \<Rightarrow> sq_add_out \<Rightarrow> 'o pc" where
  "after_queue t v (AddRet (Some e) sig) = Idle"
| "after_queue t v (AddRet None sig) = SendTail"
| "after_queue t v AddWait = SendParked t v"

record 'o ssys =
  base :: "'o socket_base"
  procs :: "'o pc list"
  first_reason :: "session_error option"

definition at :: "'o ssys \<Rightarrow> nat \<Rightarrow> 'o pc \<Rightarrow> bool" where
  "at S i pc \<longleftrightarrow> i < length (procs S) \<and> procs S ! i = pc"

definition goto :: "'o ssys \<Rightarrow> nat \<Rightarrow> 'o pc \<Rightarrow> 'o socket_base \<Rightarrow> 'o ssys" where
  "goto S i pc b = S\<lparr>base := b, procs := (procs S)[i := pc]\<rparr>"

definition spawn :: "'o pc \<Rightarrow> 'o ssys \<Rightarrow> 'o ssys" where
  "spawn pc S = S\<lparr>procs := procs S @ [pc]\<rparr>"

inductive sock_step :: "'o ssys \<Rightarrow> 'o ssys \<Rightarrow> bool" where
  send: "at S i Idle \<Longrightarrow> Send_check (Some v) (base S) = None \<Longrightarrow> Add v (sendQue (base S)) = (q, r) \<Longrightarrow>
     sock_step S (goto S i (after_queue 0 v r) ((base S)\<lparr>sendQue := q\<rparr>))"
| send_timeout: "at S i Idle \<Longrightarrow> Send_check (Some v) (base S) = None \<Longrightarrow>
     AddWithTimeout v (sendQue (base S)) = (q, r) \<Longrightarrow>
     sock_step S (goto S i (after_queue t v r) ((base S)\<lparr>sendQue := q\<rparr>))"
| send_resume: "at S i (SendParked t v) \<Longrightarrow> AddWithTimeout_resume t ok v (sendQue (base S)) = (q, r) \<Longrightarrow>
     sock_step S (goto S i (after_queue t v r) ((base S)\<lparr>sendQue := q\<rparr>))"
| send_cas: "at S i SendTail \<Longrightarrow> cas_sendOnce (base S) = (b, ok) \<Longrightarrow>
     sock_step S (goto S i (if ok then SendStart else Idle) b)"
| send_start: "at S i SendStart \<Longrightarrow> sock_step S (spawn SendThread (goto S i Idle (addIO (base S))))"
| begin_cas: "at S i Idle \<Longrightarrow> cas_beginOnce (base S) = (b, ok) \<Longrightarrow>
     sock_step S (goto S i (if ok \<and> cb then BeginTest else Idle) b)"
| begin_test: "at S i BeginTest \<Longrightarrow>
     sock_step S (goto S i (if AtomicTest (fclosed OR frclosed) (flag (base S)) then Idle else BeginStart) (base S))"
| begin_start: "at S i BeginStart \<Longrightarrow> sock_step S (spawn RecvThread (goto S i Idle (addIO (base S))))"
| send_get: "at S i SendThread \<Longrightarrow> Get (sendQue (base S)) = (q, GetRet cl vs sig) \<Longrightarrow> \<not> (cl \<and> vs = []) \<Longrightarrow>
     sock_step S (goto S i SendThread ((base S)\<lparr>sendQue := q\<rparr>))"
| send_exit: "at S i SendThread \<Longrightarrow> Get (sendQue (base S)) = (q, GetRet True [] sig) \<Longrightarrow>
     sock_step S (goto S i IoDec ((base S)\<lparr>sendQue := q, sendCloseChan := True\<rparr>))"
| recv_exit: "at S i RecvThread \<Longrightarrow> AtomicTest (fclosed OR frclosed) (flag (base S)) \<Longrightarrow>
     sock_step S (goto S i IoDec (base S))"
| recv_rclose: "at S i RecvThread \<Longrightarrow> sock_step S (goto S i RecvThread (set_flag frclosed (base S)))"
| io_dec: "at S i IoDec \<Longrightarrow>
     sock_step S (goto S i (if ioCount (base S) - 1 = 0 then IoTest else Idle)
                   ((base S)\<lparr>ioCount := ioCount (base S) - 1\<rparr>))"
| io_test: "at S i IoTest \<Longrightarrow>
     sock_step S (goto S i (if AtomicTest fdoclose (flag (base S)) then IoFire else Idle) (base S))"
| io_fire: "at S i IoFire \<Longrightarrow>
     sock_step S (goto S i Idle (fire_close (closeReason (base S)) (base S)))"
| close_cas: "at S i Idle \<Longrightarrow> cas_closeOnce (base S) = (b, True) \<Longrightarrow>
     sock_step S ((goto S i (CloseFlag r d) b)\<lparr>first_reason := Some r\<rparr>)"
| close_again: "at S i Idle \<Longrightarrow> cas_closeOnce (base S) = (b, False) \<Longrightarrow> sock_step S (goto S i Idle b)"
| close_flag: "at S i (CloseFlag r d) \<Longrightarrow> sock_step S (goto S i (CloseQueue r d) (set_flag fclosed (base S)))"
| close_now: "at S i (CloseQueue r d) \<Longrightarrow> Close (sendQue (base S)) = (q, ok, remain) \<Longrightarrow> \<not> (remain > 0 \<and> d > 0) \<Longrightarrow>
     sock_step S (goto S i (CloseReason r) ((base S)\<lparr>sendQue := q, connClosed := True\<rparr>))"
| close_delay: "at S i (CloseQueue r d) \<Longrightarrow> Close (sendQue (base S)) = (q, ok, remain) \<Longrightarrow> remain > 0 \<Longrightarrow> d > 0 \<Longrightarrow>
     sock_step S (spawn DelayWait (goto S i (CloseReason r) (ShutdownRead ((base S)\<lparr>sendQue := q\<rparr>))))"
| delay_close: "at S i DelayWait \<Longrightarrow> sock_step S (goto S i Idle ((base S)\<lparr>connClosed := True\<rparr>))"
| close_reason: "at S i (CloseReason r) \<Longrightarrow>
     sock_step S (goto S i (CloseDo r) ((base S)\<lparr>closeReason := Some r\<rparr>))"
| close_do: "at S i (CloseDo r) \<Longrightarrow> sock_step S (goto S i (CloseLoad r) (set_flag fdoclose (base S)))"
| close_load: "at S i (CloseLoad r) \<Longrightarrow>
     sock_step S (goto S i (if ioCount (base S) = 0 then CloseFire r else Idle) (base S))"
| close_fire: "at S i (CloseFire r) \<Longrightarrow> sock_step S (goto S i Idle (fire_close (Some r) (base S)))"
| shutdown_read: "at S i Idle \<Longrightarrow> sock_step S (goto S i Idle (ShutdownRead (base S)))"
| shutdown_write: "at S i Idle \<Longrightarrow> sock_step S (goto S i Idle (fst (ShutdownWrite (base S))))"

inductive sock_reach :: "'o ssys \<Rightarrow> bool" where
  init: "sock_reach \<lparr>base = NewBase enc cb que, procs = replicate n Idle, first_reason = None\<rparr>"
| step: "sock_reach S \<Longrightarrow> sock_step S S' \<Longrightarrow> sock_reach S'"

section \<open>Invariant\<close>

text \<open>The I/O goroutines counted by \<open>ioCount\<close>, and the closer at each stage.\<close>

definition io :: "'o pc \<Rightarrow> bool" where
  "io pc \<longleftrightarrow> is_SendThread pc \<or> is_RecvThread pc \<or> is_IoDec pc"

definition early_closer :: "'o pc \<Rightarrow> bool" where
  "early_closer pc \<longleftrightarrow> is_CloseFlag pc \<or> is_CloseQueue pc \<or> is_CloseReason pc"

definition late_closer :: "'o pc \<Rightarrow> bool" where
  "late_closer pc \<longleftrightarrow> is_CloseLoad pc \<or> is_CloseFire pc"

definition waker :: "'o pc \<Rightarrow> bool" where
  "waker pc \<longleftrightarrow> is_IoTest pc \<or> is_IoFire pc"

fun reason_of :: "'o pc \<Rightarrow> session_error option" where
  "reason_of (CloseFlag r d) = Some r"
| "reason_of (CloseQueue r d) = Some r"
| "reason_of (CloseReason r) = Some r"
| "reason_of (CloseDo r) = Some r"
| "reason_of (CloseLoad r) = Some r"
| "reason_of (CloseFire r) = Some r"
| "reason_of pc = None"

text \<open>The protocol of the close callback, over the numbers of goroutines at its stages: closers before
  \<open>fdoclose\<close> is set (\<open>e\<close>, and \<open>d\<close> of them about to set it), closers after it (\<open>l\<close>), goroutines in \<open>ioDone\<close> past the
  decrement (\<open>w\<close>, of which \<open>f\<close> past the flag test).\<close>

definition close_inv :: "nat \<Rightarrow> nat \<Rightarrow> nat \<Rightarrow> nat \<Rightarrow> nat \<Rightarrow> 'o socket_base \<Rightarrow> session_error option \<Rightarrow> bool" where
  "close_inv e d l w f b fr \<longleftrightarrow>
     e + d + l \<le> 1 \<and>
     (\<not> closeOnce b \<longrightarrow> e + d + l = 0 \<and> \<not> bit (flag b) 3) \<and>
     (closeOnce b \<longrightarrow> fr \<noteq> None) \<and>
     (0 < e + d \<longrightarrow> \<not> bit (flag b) 3) \<and>
     (0 < d \<or> bit (flag b) 3 \<longrightarrow> closeReason b = fr) \<and>
     (0 < f + l \<longrightarrow> bit (flag b) 3) \<and>
     (doCloseOnce b \<longrightarrow> bit (flag b) 3) \<and>
     (closeOnce b \<longrightarrow> bit (flag b) 3 \<or> 0 < e + d) \<and>
     (bit (flag b) 3 \<longrightarrow> ioCount b = 0 \<longrightarrow> \<not> doCloseOnce b \<longrightarrow> 0 < w + l) \<and>
     callbacks b = (if doCloseOnce b \<and> has_closeCallBack b then [fr] else [])"

definition reasons_ok :: "'o pc list \<Rightarrow> session_error option \<Rightarrow> bool" where
  "reasons_ok ps fr \<longleftrightarrow> (\<forall>pc\<in>set ps. reason_of pc \<noteq> None \<longrightarrow> reason_of pc = fr)"

definition stages_inv :: "'o pc list \<Rightarrow> 'o socket_base \<Rightarrow> session_error option \<Rightarrow> bool" where
  "stages_inv ps b fr \<longleftrightarrow>
     close_inv (cnt early_closer ps) (cnt is_CloseDo ps) (cnt late_closer ps) (cnt waker ps) (cnt is_IoFire ps) b fr"

definition sock_inv :: "'o ssys \<Rightarrow> bool" where
  "sock_inv S \<longleftrightarrow> ioCount (base S) = int (cnt io (procs S)) \<and> reasons_ok (procs S) (first_reason S) \<and>
                  stages_inv (procs S) (base S) (first_reason S)"

lemma stage_simps [simp]:
  "io Idle = False" "io (SendParked t v) = False" "io SendTail = False" "io SendStart = False"
  "io BeginTest = False" "io BeginStart = False" "io SendThread = True" "io RecvThread = True" "io IoDec = True"
  "io IoTest = False" "io IoFire = False" "io (CloseFlag r d) = False" "io (CloseQueue r d) = False"
  "io (CloseReason r) = False" "io (CloseDo r) = False" "io (CloseLoad r) = False" "io (CloseFire r) = False"
  "io DelayWait = False"
  by (simp_all add: io_def)

lemma closer_simps [simp]:
  "early_closer Idle = False" "early_closer (SendParked t v) = False" "early_closer SendTail = False"
  "early_closer SendStart = False" "early_closer BeginTest = False" "early_closer BeginStart = False"
  "early_closer SendThread = False" "early_closer RecvThread = False" "early_closer IoDec = False"
  "early_closer IoTest = False" "early_closer IoFire = False" "early_closer (CloseFlag r d) = True"
  "early_closer (CloseQueue r d) = True" "early_closer (CloseReason r) = True" "early_closer (CloseDo r) = False"
  "early_closer (CloseLoad r) = False" "early_closer (CloseFire r) = False" "early_closer DelayWait = False"
  "late_closer Idle = False" "late_closer (SendParked t v) = False" "late_closer SendTail = False"
  "late_closer SendStart = False" "late_closer BeginTest = False" "late_closer BeginStart = False"
  "late_closer SendThread = False" "late_closer RecvThread = False" "late_closer IoDec = False"
  "late_closer IoTest = False" "late_closer IoFire = False" "late_closer (CloseFlag r d) = False"
  "late_closer (CloseQueue r d) = False" "late_closer (CloseReason r) = False" "late_closer (CloseDo r) = False"
  "late_closer (CloseLoad r) = True" "late_closer (CloseFire r) = True" "late_closer DelayWait = False"
  "waker Idle = False" "waker (SendParked t v) = False" "waker SendTail = False" "waker SendStart = False"
  "waker BeginTest = False" "waker BeginStart = False" "waker SendThread = False" "waker RecvThread = False"
  "waker IoDec = False" "waker IoTest = True" "waker IoFire = True" "waker (CloseFlag r d) = False"
  "waker (CloseQueue r d) = False" "waker (CloseReason r) = False" "waker (CloseDo r) = False"
  "waker (CloseLoad r) = False" "waker (CloseFire r) = False" "waker DelayWait = False"
  by (simp_all add: early_closer_def late_closer_def waker_def)

section \<open>Preservation\<close>

lemma reasons_goto:
  assumes "reasons_ok ps fr" and "reason_of pc' = None \<or> i < length ps \<and> reason_of pc' = reason_of (ps ! i)"
  shows "reasons_ok (ps[i := pc']) fr"
  unfolding reasons_ok_def
proof (intro ballI impI)
  fix pc assume pc: "pc \<in> set (ps[i := pc'])" "reason_of pc \<noteq> None"
  then have "pc = pc' \<or> pc \<in> set ps" using set_update_subset_insert [of ps i pc'] by blast
  then show "reason_of pc = fr"
    using assms pc(2) nth_mem [of i ps] unfolding reasons_ok_def by metis
qed

lemma reasons_spawn: "reasons_ok ps fr \<Longrightarrow> reason_of pc = None \<Longrightarrow> reasons_ok (ps @ [pc]) fr"
  by (auto simp: reasons_ok_def)

lemma reasons_none: "cnt early_closer ps + cnt is_CloseDo ps + cnt late_closer ps = 0 \<Longrightarrow> reasons_ok ps fr"
proof -
  assume "cnt early_closer ps + cnt is_CloseDo ps + cnt late_closer ps = 0"
  then have "\<forall>pc\<in>set ps. \<not> early_closer pc \<and> \<not> is_CloseDo pc \<and> \<not> late_closer pc"
    by (simp add: cnt_eq_0)
  moreover have "reason_of pc = None" if "\<not> early_closer pc" "\<not> is_CloseDo pc" "\<not> late_closer pc" for pc :: "'a pc"
    using that by (cases pc) simp_all
  ultimately show ?thesis by (simp add: reasons_ok_def)
qed

text \<open>The general step: goroutine \<open>i\<close> moves, possibly spawns a goroutine that is no closer, and the base
  changes.\<close>

lemma goto_inv:
  assumes inv: "sock_inv S" and pc: "at S i pc"
    and io: "ioCount b = ioCount (base S) + (if io pc' then 1 else 0) - (if io pc then 1 else 0) + int (cnt io new)"
    and new: "\<forall>p\<in>set new. reason_of p = None \<and> \<not> waker p"
    and reas: "reason_of pc' = None \<or> reason_of pc' = reason_of pc"
    and stages: "\<And>e d l w f. close_inv (e + (if early_closer pc then 1 else 0)) (d + (if is_CloseDo pc then 1 else 0))
        (l + (if late_closer pc then 1 else 0)) (w + (if waker pc then 1 else 0)) (f + (if is_IoFire pc then 1 else 0))
        (base S) (first_reason S) \<Longrightarrow>
      close_inv (e + (if early_closer pc' then 1 else 0)) (d + (if is_CloseDo pc' then 1 else 0))
        (l + (if late_closer pc' then 1 else 0)) (w + (if waker pc' then 1 else 0)) (f + (if is_IoFire pc' then 1 else 0))
        b (first_reason S)"
  shows "sock_inv (S\<lparr>base := b, procs := (procs S)[i := pc'] @ new\<rparr>)"
proof -
  have i: "i < length (procs S)" "procs S ! i = pc" using pc by (simp_all add: at_def)
  obtain n where c: "\<And>P. cnt P (procs S) = n P + (if P pc then 1 else 0)"
      "\<And>P x. cnt P ((procs S)[i := x]) = n P + (if P x then 1 else 0)"
    using cnt_at [OF i(1)] i(2) by metis
  have parts: "ioCount (base S) = int (cnt io (procs S))" "reasons_ok (procs S) (first_reason S)"
      "stages_inv (procs S) (base S) (first_reason S)" using inv by (simp_all add: sock_inv_def)
  have quiet: "\<not> early_closer p \<and> \<not> is_CloseDo p \<and> \<not> late_closer p \<and> \<not> waker p \<and> \<not> is_IoFire p" if "p \<in> set new" for p
  proof -
    have "reason_of p = None" "\<not> waker p" using new that by simp_all
    then show ?thesis by (cases p) simp_all
  qed
  have zero: "cnt early_closer new = 0" "cnt is_CloseDo new = 0" "cnt late_closer new = 0" "cnt waker new = 0"
      "cnt is_IoFire new = 0"
    using quiet by (simp_all add: cnt_eq_0)
  have "reasons_ok ((procs S)[i := pc'] @ new) (first_reason S)"
    using reasons_goto [OF parts(2), of pc' i] reas i new by (auto simp: reasons_ok_def)
  moreover have "stages_inv ((procs S)[i := pc'] @ new) b (first_reason S)"
    using stages [of "n early_closer" "n is_CloseDo" "n late_closer" "n waker" "n is_IoFire"] parts(3)
    unfolding stages_inv_def cnt_append zero c by simp
  moreover have "ioCount b = int (cnt io ((procs S)[i := pc'] @ new))"
    using io parts(1) c(1) [of io] c(2) [of io pc'] by simp
  ultimately show ?thesis by (simp add: sock_inv_def)
qed

lemmas goto1_inv = goto_inv [where new = "[]", simplified]

lemma flag_bits [simp]:
  "bit (flag (set_flag fclosed b)) 3 = bit (flag b) 3" "bit (flag (set_flag frclosed b)) 3 = bit (flag b) 3"
  "bit (flag (set_flag fdoclose b)) 3" "AtomicTest fdoclose f = bit f 3"
proof -
  have b: "bit fclosed 3 = False" "bit frclosed 3 = False" "bit fdoclose 3 = True"
    by (simp_all add: fclosed_def frclosed_def fdoclose_def bit_push_bit_iff bit_1_iff)
  show "bit (flag (set_flag fclosed b)) 3 = bit (flag b) 3" "bit (flag (set_flag frclosed b)) 3 = bit (flag b) 3"
    "bit (flag (set_flag fdoclose b)) 3"
    by (simp_all add: set_flag_def AtomicSet_def or_flag_def bit_or_iff b)
  have only: "bit fdoclose n \<longleftrightarrow> n = 3" for n
  proof -
    have "fdoclose = 2 ^ 3" by (simp add: fdoclose_def)
    then show ?thesis using bit_exp_iff [where ?'a = uint32, of 3 n] by (auto simp del: semiring_norm)
  qed
  show "AtomicTest fdoclose f = bit f 3" by (auto simp: AtomicTest_bit only)
qed

lemma set_flag_simps [simp]:
  "ioCount (set_flag fl b) = ioCount b" "closeOnce (set_flag fl b) = closeOnce b"
  "doCloseOnce (set_flag fl b) = doCloseOnce b" "closeReason (set_flag fl b) = closeReason b"
  "callbacks (set_flag fl b) = callbacks b" "has_closeCallBack (set_flag fl b) = has_closeCallBack b"
  by (simp_all add: set_flag_def)

text \<open>Steps that change neither the stages nor what the close protocol reads.\<close>

lemma close_inv_same:
  "close_inv e d l w f b fr \<Longrightarrow> bit (flag b') 3 = bit (flag b) 3 \<Longrightarrow> closeOnce b' = closeOnce b \<Longrightarrow>
   doCloseOnce b' = doCloseOnce b \<Longrightarrow> closeReason b' = closeReason b \<Longrightarrow> ioCount b' = ioCount b \<Longrightarrow>
   callbacks b' = callbacks b \<Longrightarrow> has_closeCallBack b' = has_closeCallBack b \<Longrightarrow> close_inv e d l w f b' fr"
  by (simp add: close_inv_def)

lemma close_inv_addIO: "0 \<le> ioCount b \<Longrightarrow> close_inv e d l w f b fr \<Longrightarrow> close_inv e d l w f (addIO b) fr"
  by (simp add: close_inv_def addIO_def)

definition plain :: "'o pc \<Rightarrow> bool" where
  "plain pc \<longleftrightarrow> reason_of pc = None \<and> \<not> waker pc"

lemma plain_flags:
  "plain pc \<Longrightarrow> \<not> early_closer pc \<and> \<not> is_CloseDo pc \<and> \<not> late_closer pc \<and> \<not> waker pc \<and> \<not> is_IoFire pc \<and> reason_of pc = None"
  by (cases pc) (simp_all add: plain_def)

lemma plain_step:
  assumes "sock_inv S" and "at S i pc" and "plain pc" and "plain pc'" and "io pc' = io pc"
    and "bit (flag b) 3 = bit (flag (base S)) 3" "closeOnce b = closeOnce (base S)"
      "doCloseOnce b = doCloseOnce (base S)" "closeReason b = closeReason (base S)" "ioCount b = ioCount (base S)"
      "callbacks b = callbacks (base S)" "has_closeCallBack b = has_closeCallBack (base S)"
  shows "sock_inv (goto S i pc' b)"
  unfolding goto_def
proof (rule goto1_inv [OF assms(1,2)])
  note fl = plain_flags [OF assms(3)] plain_flags [OF assms(4)]
  show "reason_of pc' = None \<or> reason_of pc' = reason_of pc" using fl by simp
  show "ioCount b = ioCount (base S) + (if io pc' then 1 else 0) - (if io pc then 1 else 0)" using assms(5,10) by simp
  show "close_inv (e + (if early_closer pc' then 1 else 0)) (d + (if is_CloseDo pc' then 1 else 0))
        (l + (if late_closer pc' then 1 else 0)) (w + (if waker pc' then 1 else 0)) (f + (if is_IoFire pc' then 1 else 0))
        b (first_reason S)"
    if "close_inv (e + (if early_closer pc then 1 else 0)) (d + (if is_CloseDo pc then 1 else 0))
        (l + (if late_closer pc then 1 else 0)) (w + (if waker pc then 1 else 0)) (f + (if is_IoFire pc then 1 else 0))
        (base S) (first_reason S)" for e d l w f
    using that fl close_inv_same [OF _ assms(6-12)] by simp
qed

lemma spawn_step:
  assumes "sock_inv S" and "at S i pc" and "plain pc" and "\<not> io pc" and "plain p" and "io p"
  shows "sock_inv (spawn p (goto S i Idle (addIO (base S))))"
proof -
  note fl = plain_flags [OF assms(3)] plain_flags [OF assms(5)]
  have nn: "0 \<le> ioCount (base S)" using assms(1) by (simp add: sock_inv_def)
  have "sock_inv (S\<lparr>base := addIO (base S), procs := (procs S)[i := Idle] @ [p]\<rparr>)"
  proof (rule goto_inv [OF assms(1,2)])
    show "ioCount (addIO (base S)) = ioCount (base S) + (if io (Idle :: 'a pc) then 1 else 0) - (if io pc then 1 else 0) + int (cnt io [p])"
      using assms(4,6) by (simp add: addIO_def cnt_Cons)
    show "\<forall>q\<in>set [p]. reason_of q = None \<and> \<not> waker q" using fl(2) by simp
  qed (use fl close_inv_addIO [OF nn] in simp_all)
  then show ?thesis by (simp add: spawn_def goto_def)
qed

lemma after_queue_plain: "plain (after_queue t v r) \<and> \<not> io (after_queue t v r)"
  by (cases "(t, v, r)" rule: after_queue.cases) (simp_all add: plain_def)

lemma Close_fields: "Close q = (q', ok, n) \<Longrightarrow> n = length (qlist q)"
  by (auto simp: Close_def Let_def split: if_splits)

lemma reason_at: "sock_inv S \<Longrightarrow> at S i pc \<Longrightarrow> reason_of pc = Some r \<Longrightarrow> first_reason S = Some r"
  unfolding sock_inv_def at_def reasons_ok_def by (metis nth_mem option.simps(3))

lemma fire_close_simps [simp]:
  "flag (fire_close r b) = flag b" "ioCount (fire_close r b) = ioCount b" "closeOnce (fire_close r b) = closeOnce b"
  "closeReason (fire_close r b) = closeReason b" "has_closeCallBack (fire_close r b) = has_closeCallBack b"
  "doCloseOnce (fire_close r b) = True"
  by (simp_all add: fire_close_def)

lemma close_inv_fire:
  "close_inv e d l w f b fr \<Longrightarrow> r = fr \<Longrightarrow> bit (flag b) 3 \<Longrightarrow> e' = e \<Longrightarrow> d' = d \<Longrightarrow> l' \<le> l \<Longrightarrow> f' \<le> f \<Longrightarrow>
     close_inv e' d' l' w' f' (fire_close r b) fr"
  by (auto simp: close_inv_def fire_close_def)

lemma closer_step:
  assumes inv: "sock_inv S" and pc: "at S i pc" and r: "reason_of pc = Some r" and r': "reason_of pc' = Some r \<or> reason_of pc' = None"
    and io: "\<not> io pc" "\<not> io pc'" "ioCount b = ioCount (base S)" and new: "\<forall>p\<in>set new. plain p \<and> \<not> io p"
    and stages: "\<And>e d l w f. first_reason S = Some r \<Longrightarrow> close_inv (e + (if early_closer pc then 1 else 0)) (d + (if is_CloseDo pc then 1 else 0))
        (l + (if late_closer pc then 1 else 0)) w f (base S) (Some r) \<Longrightarrow>
      close_inv (e + (if early_closer pc' then 1 else 0)) (d + (if is_CloseDo pc' then 1 else 0))
        (l + (if late_closer pc' then 1 else 0)) w f b (Some r)"
    and quiet: "\<not> waker pc" "\<not> waker pc'" "\<not> is_IoFire pc" "\<not> is_IoFire pc'"
  shows "sock_inv (S\<lparr>base := b, procs := (procs S)[i := pc'] @ new\<rparr>)"
proof (rule goto_inv [OF inv pc])
  have fr: "first_reason S = Some r" using reason_at [OF inv pc r] .
  have "cnt io new = 0" using new by (simp add: cnt_eq_0)
  then show "ioCount b = ioCount (base S) + (if io pc' then 1 else 0) - (if io pc then 1 else 0) + int (cnt io new)"
    using io by simp
  show "\<forall>p\<in>set new. reason_of p = None \<and> \<not> waker p" using new by (simp add: plain_def)
  show "reason_of pc' = None \<or> reason_of pc' = reason_of pc" using r r' by auto
  show "close_inv (e + (if early_closer pc' then 1 else 0)) (d + (if is_CloseDo pc' then 1 else 0))
        (l + (if late_closer pc' then 1 else 0)) (w + (if waker pc' then 1 else 0)) (f + (if is_IoFire pc' then 1 else 0))
        b (first_reason S)"
    if "close_inv (e + (if early_closer pc then 1 else 0)) (d + (if is_CloseDo pc then 1 else 0))
        (l + (if late_closer pc then 1 else 0)) (w + (if waker pc then 1 else 0)) (f + (if is_IoFire pc then 1 else 0))
        (base S) (first_reason S)" for e d l w f
    using that stages [OF fr] quiet by (simp add: fr)
qed

lemmas closer1_step = closer_step [where new = "[]", simplified]

lemma close_steps:
  assumes inv: "sock_inv S"
  shows "at S i (CloseFlag r d) \<Longrightarrow> sock_inv (goto S i (CloseQueue r d) (set_flag fclosed (base S)))"
    and "at S i (CloseQueue r d) \<Longrightarrow> sock_inv (goto S i (CloseReason r) ((base S)\<lparr>sendQue := q, connClosed := True\<rparr>))"
    and "at S i (CloseQueue r d) \<Longrightarrow>
           sock_inv (spawn DelayWait (goto S i (CloseReason r) (ShutdownRead ((base S)\<lparr>sendQue := q\<rparr>))))"
    and "at S i (CloseReason r) \<Longrightarrow> sock_inv (goto S i (CloseDo r) ((base S)\<lparr>closeReason := Some r\<rparr>))"
    and "at S i (CloseDo r) \<Longrightarrow> sock_inv (goto S i (CloseLoad r) (set_flag fdoclose (base S)))"
    and "at S i (CloseLoad r) \<Longrightarrow>
           sock_inv (goto S i (if ioCount (base S) = 0 then CloseFire r else Idle) (base S))"
    and "at S i (CloseFire r) \<Longrightarrow> sock_inv (goto S i Idle (fire_close (Some r) (base S)))"
proof -
  show "at S i (CloseFlag r d) \<Longrightarrow> sock_inv (goto S i (CloseQueue r d) (set_flag fclosed (base S)))"
    unfolding goto_def by (erule closer1_step [OF inv, where r = r]) (auto intro: close_inv_same)
  show "at S i (CloseQueue r d) \<Longrightarrow> sock_inv (goto S i (CloseReason r) ((base S)\<lparr>sendQue := q, connClosed := True\<rparr>))"
    unfolding goto_def by (erule closer1_step [OF inv, where r = r]) (auto intro: close_inv_same)
  show "at S i (CloseQueue r d) \<Longrightarrow>
      sock_inv (spawn DelayWait (goto S i (CloseReason r) (ShutdownRead ((base S)\<lparr>sendQue := q\<rparr>))))"
  proof -
    assume "at S i (CloseQueue r d)"
    then have "sock_inv (S\<lparr>base := ShutdownRead ((base S)\<lparr>sendQue := q\<rparr>), procs := (procs S)[i := CloseReason r] @ [DelayWait]\<rparr>)"
      by (rule closer_step [OF inv, where r = r])
        (auto simp: ShutdownRead_def plain_def intro: close_inv_same)
    then show ?thesis by (simp add: spawn_def goto_def)
  qed
  show "at S i (CloseReason r) \<Longrightarrow> sock_inv (goto S i (CloseDo r) ((base S)\<lparr>closeReason := Some r\<rparr>))"
    unfolding goto_def by (erule closer1_step [OF inv, where r = r]) (auto simp: close_inv_def)
  show "at S i (CloseDo r) \<Longrightarrow> sock_inv (goto S i (CloseLoad r) (set_flag fdoclose (base S)))"
    unfolding goto_def by (erule closer1_step [OF inv, where r = r]) (simp_all add: close_inv_def)
  show "at S i (CloseLoad r) \<Longrightarrow> sock_inv (goto S i (if ioCount (base S) = 0 then CloseFire r else Idle) (base S))"
    unfolding goto_def by (erule closer1_step [OF inv, where r = r]) (simp_all add: close_inv_def)
  show "at S i (CloseFire r) \<Longrightarrow> sock_inv (goto S i Idle (fire_close (Some r) (base S)))"
    unfolding goto_def
    by (erule closer1_step [OF inv, where r = r]) (auto simp: close_inv_def fire_close_def split: if_splits)
qed

lemma close_cas_step:
  assumes inv: "sock_inv S" and pc: "at S i Idle" and cas: "cas_closeOnce (base S) = (b, True)"
  shows "sock_inv ((goto S i (CloseFlag r d) b)\<lparr>first_reason := Some r\<rparr>)"
proof -
  have i: "i < length (procs S)" "procs S ! i = Idle" using pc by (simp_all add: at_def)
  obtain n where c: "\<And>P. cnt P (procs S) = n P + (if P Idle then 1 else 0)"
      "\<And>P x. cnt P ((procs S)[i := x]) = n P + (if P x then 1 else 0)"
    using cnt_at [OF i(1)] i(2) by metis
  have b: "\<not> closeOnce (base S)" "b = (base S)\<lparr>closeOnce := True\<rparr>"
    using cas by (auto simp: cas_closeOnce_def split: if_splits)
  have st: "stages_inv (procs S) (base S) (first_reason S)" and io: "ioCount (base S) = int (cnt io (procs S))"
    using inv by (simp_all add: sock_inv_def)
  have none: "cnt early_closer (procs S) + cnt is_CloseDo (procs S) + cnt late_closer (procs S) = 0"
    using st b(1) by (simp add: stages_inv_def close_inv_def)
  then have "reasons_ok ((procs S)[i := CloseFlag r d]) (Some r)"
    using reasons_none [OF none, of "Some r"] set_update_subset_insert [of "procs S" i "CloseFlag r d"]
    by (auto simp: reasons_ok_def)
  moreover have "stages_inv ((procs S)[i := CloseFlag r d]) b (Some r)"
    using st b none unfolding stages_inv_def by (auto simp: close_inv_def c)
  moreover have "ioCount b = int (cnt io ((procs S)[i := CloseFlag r d]))" using io b(2) by (simp add: c)
  ultimately show ?thesis by (simp add: sock_inv_def goto_def)
qed

lemma io_steps:
  assumes inv: "sock_inv S"
  shows "at S i IoDec \<Longrightarrow>
     sock_inv (goto S i (if ioCount (base S) - 1 = 0 then IoTest else Idle) ((base S)\<lparr>ioCount := ioCount (base S) - 1\<rparr>))"
    and "at S i IoTest \<Longrightarrow>
     sock_inv (goto S i (if AtomicTest fdoclose (flag (base S)) then IoFire else Idle) (base S))"
    and "at S i IoFire \<Longrightarrow> sock_inv (goto S i Idle (fire_close (closeReason (base S)) (base S)))"
proof -
  show "at S i IoDec \<Longrightarrow>
     sock_inv (goto S i (if ioCount (base S) - 1 = 0 then IoTest else Idle) ((base S)\<lparr>ioCount := ioCount (base S) - 1\<rparr>))"
    unfolding goto_def by (erule goto1_inv [OF inv]) (auto simp: close_inv_def)
  show "at S i IoTest \<Longrightarrow> sock_inv (goto S i (if AtomicTest fdoclose (flag (base S)) then IoFire else Idle) (base S))"
    unfolding goto_def by (erule goto1_inv [OF inv]) (auto simp: close_inv_def)
  show "at S i IoFire \<Longrightarrow> sock_inv (goto S i Idle (fire_close (closeReason (base S)) (base S)))"
    unfolding goto_def by (erule goto1_inv [OF inv]) (auto simp: close_inv_def fire_close_def split: if_splits)
qed

lemma sock_step_inv:
  assumes "sock_step S S'" and inv: "sock_inv S"
  shows "sock_inv S'"
  using assms(1)
proof (cases rule: sock_step.cases)
  case (send i v q r)
  then show ?thesis using plain_step [OF inv, of i Idle "after_queue 0 v r"] after_queue_plain [of 0 v r]
    by (simp add: plain_def)
next
  case (send_timeout i v q r t)
  then show ?thesis using plain_step [OF inv, of i Idle "after_queue t v r"] after_queue_plain [of t v r]
    by (simp add: plain_def)
next
  case (send_resume i t v ok q r)
  then show ?thesis using plain_step [OF inv, of i "SendParked t v" "after_queue t v r"] after_queue_plain [of t v r]
    by (simp add: plain_def)
next
  case (close_cas i b r d)
  then show ?thesis using close_cas_step [OF inv] by simp
next
  case (close_again i b)
  then show ?thesis using plain_step [OF inv, of i Idle Idle b]
    by (auto simp: plain_def cas_closeOnce_def split: if_splits)
next
  case (io_dec i)
  then show ?thesis using io_steps(1) [OF inv] by blast
next
  case (io_test i)
  then show ?thesis using io_steps(2) [OF inv] by blast
next
  case (close_delay i r d q ok remain)
  then show ?thesis using close_steps(3) [OF inv] by blast
next
  case (close_load i r)
  then show ?thesis using close_steps(6) [OF inv] by blast
qed (auto simp: plain_def cas_sendOnce_def cas_beginOnce_def ShutdownRead_def ShutdownWrite_def Let_def
    intro: plain_step [OF inv] spawn_step [OF inv] close_steps [OF inv] io_steps [OF inv] split: if_splits prod.splits)

lemma sock_reach_inv: "sock_reach S \<Longrightarrow> sock_inv S"
proof (induction rule: sock_reach.induct)
  case (init enc cb que n)
  then show ?case
    by (simp add: sock_inv_def NewBase_def reasons_ok_def stages_inv_def close_inv_def)
next
  case (step S S')
  then show ?case using sock_step_inv by blast
qed

section \<open>Properties\<close>

text \<open>The close callback never runs twice, and when it runs it gets the reason of the first
  \<open>Close\<close>, whichever of \<open>Close\<close>, the send goroutine and the receive goroutine calls it.\<close>

theorem close_callback_once:
  assumes "sock_reach S"
  shows "callbacks (base S) = [] \<or>
         (\<exists>r. first_reason S = Some r \<and> callbacks (base S) = [Some r] \<and> closeOnce (base S))"
proof -
  have inv: "stages_inv (procs S) (base S) (first_reason S)" using sock_reach_inv [OF assms] by (simp add: sock_inv_def)
  have cb: "callbacks (base S) = (if doCloseOnce (base S) \<and> has_closeCallBack (base S) then [first_reason S] else [])"
      "doCloseOnce (base S) \<Longrightarrow> closeOnce (base S) \<and> first_reason S \<noteq> None"
    using inv by (auto simp: stages_inv_def close_inv_def)
  show ?thesis
  proof (cases "doCloseOnce (base S) \<and> has_closeCallBack (base S)")
    case True
    then show ?thesis using cb by auto
  next
    case False
    then show ?thesis using cb(1) by auto
  qed
qed

text \<open>A session with nothing going on that is closed once, for the witnesses.\<close>

definition closed_session :: "nat ssys" where
  "closed_session = \<lparr>base = fire_close (Some ErrSocketClose) (set_flag fdoclose ((set_flag fclosed
       ((NewBase True True (the (NewSendQueue [128])))\<lparr>closeOnce := True\<rparr>))
       \<lparr>sendQue := fst (Close (the (NewSendQueue [128]))), connClosed := True, closeReason := Some ErrSocketClose\<rparr>)),
     procs = [Idle], first_reason = Some ErrSocketClose\<rparr>"

lemma closed_session_reach: "sock_reach closed_session"
proof -
  let ?q = "the (NewSendQueue [128]) :: nat object sendqueue"
  let ?b0 = "NewBase True True ?q" and ?r = ErrSocketClose
  let ?b1 = "?b0\<lparr>closeOnce := True\<rparr>"
  let ?b2 = "set_flag fclosed ?b1"
  let ?b3 = "?b2\<lparr>sendQue := fst (Close ?q), connClosed := True\<rparr>"
  let ?b4 = "?b3\<lparr>closeReason := Some ?r\<rparr>"
  let ?b5 = "set_flag fdoclose ?b4"
  let ?st = "\<lambda>b pc. \<lparr>base = b, procs = [pc], first_reason = Some ?r\<rparr> :: nat ssys"
  have "sock_reach \<lparr>base = ?b0, procs = [Idle], first_reason = None\<rparr>"
    using sock_reach.init [of True True ?q 1] by simp
  moreover have "sock_step \<lparr>base = ?b0, procs = [Idle], first_reason = None\<rparr> (?st ?b1 (CloseFlag ?r 0))"
    using sock_step.close_cas [of "\<lparr>base = ?b0, procs = [Idle], first_reason = None\<rparr>" 0 ?b1 ?r 0]
    by (simp add: at_def goto_def cas_closeOnce_def NewBase_def)
  ultimately have 1: "sock_reach (?st ?b1 (CloseFlag ?r 0))" by (rule sock_reach.step)
  have "sock_step (?st ?b1 (CloseFlag ?r 0)) (?st ?b2 (CloseQueue ?r 0))"
    using sock_step.close_flag [of "?st ?b1 (CloseFlag ?r 0)" 0 ?r 0] by (simp add: at_def goto_def)
  with 1 have 2: "sock_reach (?st ?b2 (CloseQueue ?r 0))" by (rule sock_reach.step)
  have "sock_step (?st ?b2 (CloseQueue ?r 0)) (?st ?b3 (CloseReason ?r))"
    using sock_step.close_now [of "?st ?b2 (CloseQueue ?r 0)" 0 ?r 0 "fst (Close ?q)" True 0]
    by (simp add: at_def goto_def set_flag_def NewBase_def Close_def NewSendQueue_def Let_def)
  with 2 have 3: "sock_reach (?st ?b3 (CloseReason ?r))" by (rule sock_reach.step)
  have "sock_step (?st ?b3 (CloseReason ?r)) (?st ?b4 (CloseDo ?r))"
    using sock_step.close_reason [of "?st ?b3 (CloseReason ?r)" 0 ?r] by (simp add: at_def goto_def)
  with 3 have 4: "sock_reach (?st ?b4 (CloseDo ?r))" by (rule sock_reach.step)
  have "sock_step (?st ?b4 (CloseDo ?r)) (?st ?b5 (CloseLoad ?r))"
    using sock_step.close_do [of "?st ?b4 (CloseDo ?r)" 0 ?r] by (simp add: at_def goto_def)
  with 4 have 5: "sock_reach (?st ?b5 (CloseLoad ?r))" by (rule sock_reach.step)
  have "sock_step (?st ?b5 (CloseLoad ?r)) (?st ?b5 (CloseFire ?r))"
    using sock_step.close_load [of "?st ?b5 (CloseLoad ?r)" 0 ?r] by (simp add: at_def goto_def NewBase_def)
  with 5 have 6: "sock_reach (?st ?b5 (CloseFire ?r))" by (rule sock_reach.step)
  have "sock_step (?st ?b5 (CloseFire ?r)) (?st (fire_close (Some ?r) ?b5) Idle)"
    using sock_step.close_fire [of "?st ?b5 (CloseFire ?r)" 0 ?r] by (simp add: at_def goto_def)
  with 6 have "sock_reach (?st (fire_close (Some ?r) ?b5) Idle)" by (rule sock_reach.step)
  then show ?thesis by (simp add: closed_session_def)
qed

lemma closed_session_fields:
  "closeOnce (base closed_session)" "has_closeCallBack (base closed_session)" "ioCount (base closed_session) = 0"
  "callbacks (base closed_session) = [Some ErrSocketClose]"
  by (simp_all add: closed_session_def fire_close_def NewBase_def set_flag_def)

theorem close_callback_once_witness: "callbacks (base closed_session) = [Some ErrSocketClose]"
  using close_callback_once [OF closed_session_reach] by (auto simp: closed_session_fields)

text \<open>C8. The close callback is not forgotten: once \<open>Close\<close> has been called and every
  goroutine is out of the session's methods, with no I/O goroutine left, the callback has run
  exactly once with the first reason, in whatever order the last \<open>ioDone\<close> and the steps of \<open>Close\<close>
  came.\<close>

theorem close_callback_runs:
  assumes "sock_reach S" and "closeOnce (base S)" and "has_closeCallBack (base S)"
    and "\<forall>pc\<in>set (procs S). is_Idle pc \<or> is_DelayWait pc"
  shows "\<exists>r. first_reason S = Some r \<and> callbacks (base S) = [Some r]"
proof -
  note inv = sock_reach_inv [OF assms(1)]
  have none: "cnt P (procs S) = 0" if "\<not> P Idle" "\<not> P DelayWait" for P
    unfolding cnt_eq_0 using assms(4) that by (metis is_Idle_def is_DelayWait_def)
  have "ioCount (base S) = 0" using inv none [of io] by (simp add: sock_inv_def)
  then show ?thesis
    using inv assms(2,3) none [of early_closer] none [of is_CloseDo] none [of late_closer] none [of waker]
    by (auto simp: sock_inv_def stages_inv_def close_inv_def)
qed

theorem close_callback_runs_witness: "\<exists>r. first_reason closed_session = Some r \<and> callbacks (base closed_session) = [Some r]"
  using close_callback_runs [OF closed_session_reach closed_session_fields(1,2)] by (simp add: closed_session_def)

end
