(* ===== verification/StreamSocket.thy ===== *)
theory StreamSocket
  imports SocketBase Buffers
begin

text \<open>
  The TCP and Unix socket session, \<open>src/socket/streamSocket.go\<close>: the send goroutine, which packs
  queued objects into a buffer and writes it, and the receive goroutine, which reads into the
  inbound processor and hands out what it unpacks. The connection is a script of what its
  \<open>Write\<close> and \<open>Read\<close> calls return, together with what the goroutine finds in the session's flags afterwards.
\<close>

section \<open>Definitions: sendThreadFunc\<close>

text \<open>The application's \<open>EnCoder\<close>: it appends to the buffer and may report an error.\<close>

type_synonym 'o encoder = "'o \<Rightarrow> buffer \<Rightarrow> buffer \<times> session_error option"

text \<open>The loop that packs every object of the batch. \<open>err\<close> is the variable of the enclosing function:
  a byte slice leaves it as it is.\<close>

fun pack :: "growth \<Rightarrow> 'o encoder \<Rightarrow> 'o object list \<Rightarrow> session_error option \<Rightarrow> buffer \<Rightarrow>
    (buffer \<times> session_error option) go" where
  "pack g ec [] err b = Ret (b, err)"
| "pack g ec (x # xs) err b =
     (let l = Len b;
          (b1, err1) = (case x of
              OBytes bytes \<Rightarrow> (Buffer_AppendBytes g b bytes, err)
            | OMsg m \<Rightarrow> ec m b)
      in if err1 \<noteq> None then bind_go (SetLen b1 (int l)) (\<lambda>b2. pack g ec xs err1 b2)
         else pack g ec xs err1 b1)"

text \<open>One return of \<open>conn.Write\<close>: the bytes written, the error, whether \<open>fclosed\<close> is set when the error
  is looked at, and whether it is set after the error callback.\<close>

record write_result =
  wn :: nat
  werr :: "session_error option"
  wclosed :: bool
  wcb :: bool

text \<open>What the goroutine leaves behind: the bytes on the wire, the errors given to \<open>errorCallback\<close>, and
  the reasons with which it closed the session.\<close>

record send_state =
  wire :: "byte list"
  errors :: "session_error list"
  closes :: "session_error list"

text \<open>The loop over one batch, from its test to its exit. \<open>None\<close>: a \<open>Write\<close> of the script does not return.\<close>

fun send_batch :: "growth \<Rightarrow> 'o encoder \<Rightarrow> bool \<Rightarrow> write_result list \<Rightarrow> 'o object list \<Rightarrow> session_error option \<Rightarrow>
    buffer \<Rightarrow> send_state \<Rightarrow> (write_result list \<times> session_error option \<times> send_state) go option" where
  "send_batch g ec has_cb script items err b st =
     (if items = [] then Some (Ret (script, err, st))
      else case (if Len b = 0 then map_ret (\<lambda>(b, e). (b, e, [])) (pack g ec items err b)
                 else Ret (b, err, items)) of
        Panic p \<Rightarrow> Some (Panic p)
      | Ret (b1, err1, items1) \<Rightarrow>
          if Len b1 = 0 then Some (Ret (script, err1, st))
          else (case script of
             [] \<Rightarrow> None
           | w # ws \<Rightarrow>
               (case werr w of
                  None \<Rightarrow> send_batch g ec has_cb ws items1 None (Reset b1) (st\<lparr>wire := wire st @ Bytes b1\<rparr>)
                | Some e \<Rightarrow>
                    (let st1 = st\<lparr>wire := wire st @ take (wn w) (Bytes b1)\<rparr> in
                     if \<not> wclosed w then
                       (let err2 = (if e = NetTimeout then ErrSendTimeout else e);
                            st2 = (if e = NetTimeout then st1 else st1\<lparr>closes := closes st1 @ [e]\<rparr>);
                            st3 = (if has_cb then st2\<lparr>errors := errors st2 @ [err2]\<rparr> else st2)
                        in if e \<noteq> NetTimeout \<or> wcb w then Some (Ret (ws, Some err2, st3))
                           else send_batch g ec has_cb ws items1 (Some err2) (DropFirstNBytes b1 (int (wn w))) st3)
                     else Some (Ret (ws, Some e, st1))))))"

text \<open>The goroutine over the batches that \<open>Get\<close> returns, each with its \<open>closed\<close> result. Every batch starts with an
  empty buffer from the pool; \<open>err\<close> is kept from batch to batch. The flag says whether the write side of the
  connection was shut down at the end.\<close>

fun send_thread :: "growth \<Rightarrow> 'o encoder \<Rightarrow> bool \<Rightarrow> buffer \<Rightarrow> write_result list \<Rightarrow> (bool \<times> 'o object list) list \<Rightarrow>
    session_error option \<Rightarrow> send_state \<Rightarrow> (send_state \<times> bool) go option" where
  "send_thread g ec has_cb pb script [] err st = Some (Ret (st, False))"
| "send_thread g ec has_cb pb script ((cl, items) # batches) err st =
     (if cl \<and> items = [] then Some (Ret (st, True))
      else case send_batch g ec has_cb script items err (Reset pb) st of
        None \<Rightarrow> None
      | Some (Panic p) \<Rightarrow> Some (Panic p)
      | Some (Ret (script', err', st')) \<Rightarrow> send_thread g ec has_cb pb script' batches err' st')"

declare send_batch.simps [simp del]

section \<open>Definitions: receiving\<close>

text \<open>An inbound processor: \<open>Unpack\<close>, and what the goroutine does with received data, that is,
  \<open>Read\<close> into \<open>GetRecvBuff()\<close> and \<open>OnData\<close>.\<close>

record ('p, 'm) processor =
  unpack :: "'p \<Rightarrow> 'p \<times> 'm option \<times> session_error option"
  on_data :: "'p \<Rightarrow> byte list \<Rightarrow> 'p"

datatype read_result = RData "byte list" bool | RErr session_error bool

record 'm recv_state =
  stopped :: bool
  received :: "'m list"
  recv_errors :: "session_error list"
  recv_closes :: "session_error list"

text \<open>What follows an error: \<open>isUnpackError\<close> and the presence of an error callback decide whether the
  session is closed or only its read side.\<close>

definition recv_error :: "bool \<Rightarrow> bool \<Rightarrow> session_error \<Rightarrow> 'm recv_state \<Rightarrow> 'm recv_state" where
  "recv_error has_cb isUnpackError e st =
     (let err = (if e = NetTimeout then ErrRecvTimeout else e) in
      if has_cb then
        (let st1 = (if isUnpackError then st\<lparr>stopped := True, recv_closes := recv_closes st @ [err]\<rparr>
                    else if err \<noteq> ErrRecvTimeout then st\<lparr>stopped := True\<rparr> else st)
         in st1\<lparr>recv_errors := recv_errors st1 @ [err]\<rparr>)
      else st\<lparr>stopped := True, recv_closes := recv_closes st @ [err]\<rparr>)"

text \<open>The two loops of \<open>recvThreadFunc\<close>: \<open>outer\<close> marks the test of the outer one. The flag in a read result
  says whether the session was closed meanwhile. \<open>None\<close>: out of fuel.\<close>

fun recv_loop :: "nat \<Rightarrow> ('p, 'm) processor \<Rightarrow> bool \<Rightarrow> bool \<Rightarrow> read_result list \<Rightarrow> 'p \<Rightarrow> 'm recv_state \<Rightarrow>
    ('p \<times> 'm recv_state) option" where
  "recv_loop 0 P has_cb outer script p st = None"
| "recv_loop (Suc fuel) P has_cb outer script p st =
     (if outer \<and> stopped st then Some (p, st)
      else case unpack P p of
        (p', Some m, e) \<Rightarrow>
          (if stopped st then Some (p', st)
           else case e of
             Some err \<Rightarrow> recv_loop fuel P has_cb True script p' (recv_error has_cb False err st)
           | None \<Rightarrow> recv_loop fuel P has_cb True script p' (st\<lparr>received := received st @ [m]\<rparr>))
      | (p', None, Some err) \<Rightarrow>
          (if stopped st then Some (p', st)
           else recv_loop fuel P has_cb True script p' (recv_error has_cb True err st))
      | (p', None, None) \<Rightarrow>
          (case script of
             [] \<Rightarrow> Some (p', st)
           | RData d stop # ws \<Rightarrow>
               recv_loop fuel P has_cb False ws (on_data P p' d) (st\<lparr>stopped := stopped st \<or> stop\<rparr>)
           | RErr err stop # ws \<Rightarrow>
               (let st1 = st\<lparr>stopped := stopped st \<or> stop\<rparr> in
                if stopped st1 then Some (p', st1)
                else recv_loop fuel P has_cb True ws p' (recv_error has_cb False err st1))))"

text \<open>The default inbound processor: the read fills the tail of the buffer, \<open>OnData\<close> advances \<open>w\<close>.\<close>

record default_processor =
  pbuf :: "byte list"
  w :: nat

definition GetRecvBuff :: "default_processor \<Rightarrow> byte list" where
  "GetRecvBuff p = drop (w p) (pbuf p)"

definition OnData :: "default_processor \<Rightarrow> byte list \<Rightarrow> default_processor" where
  "OnData p d = p\<lparr>w := w p + length d\<rparr>"

definition read_into :: "default_processor \<Rightarrow> byte list \<Rightarrow> default_processor" where
  "read_into p d = p\<lparr>pbuf := take (w p) (pbuf p) @ d @ drop (w p + length d) (pbuf p)\<rparr>"

definition Unpack :: "default_processor \<Rightarrow> default_processor \<times> byte list option \<times> session_error option" where
  "Unpack p = (if w p = 0 then (p, None, None) else (p\<lparr>w := 0\<rparr>, Some (take (w p) (pbuf p)), None))"

definition defaultInBoundProcessor :: default_processor where
  "defaultInBoundProcessor = \<lparr>pbuf = replicate 4096 0, w = 0\<rparr>"

definition default_inbound :: "(default_processor, byte list) processor" where
  "default_inbound = \<lparr>unpack = Unpack, on_data = (\<lambda>p d. OnData (read_into p d) d)\<rparr>"

text \<open>\<open>DirectSend\<close>: \<open>cl\<close> is the flag test, \<open>r\<close> the result of the write.\<close>

definition DirectSend :: "bool \<Rightarrow> nat \<times> session_error option \<Rightarrow> nat \<times> session_error option" where
  "DirectSend cl r =
     (if cl then (0, Some ErrSocketClose)
      else (let (n, err) = r in (n, if err = Some NetTimeout then Some ErrSendTimeout else err)))"

section \<open>What the send loop writes\<close>

text \<open>The encoder appends the bytes \<open>ebytes m\<close>, or fails with an error after appending something.\<close>

definition encodes :: "'o encoder \<Rightarrow> ('o \<Rightarrow> byte list) \<Rightarrow> ('o \<Rightarrow> session_error option) \<Rightarrow> bool" where
  "encodes ec ebytes eerr \<longleftrightarrow>
     (\<forall>m b. wf_buffer b \<longrightarrow> wf_buffer (fst (ec m b)) \<and> Bytes (fst (ec m b)) = Bytes b @ ebytes m \<and>
            snd (ec m b) = eerr m)"

text \<open>The bytes of the objects that survive packing, given the value of \<open>err\<close> at the start.\<close>

fun survivors :: "('o \<Rightarrow> byte list) \<Rightarrow> ('o \<Rightarrow> session_error option) \<Rightarrow> 'o object list \<Rightarrow> session_error option \<Rightarrow>
    byte list \<times> session_error option" where
  "survivors ebytes eerr [] err = ([], err)"
| "survivors ebytes eerr (OBytes bytes # xs) err =
     (let (out, e) = survivors ebytes eerr xs err in ((if err = None then bytes else []) @ out, e))"
| "survivors ebytes eerr (OMsg m # xs) err =
     (let (out, e) = survivors ebytes eerr xs (eerr m) in ((if eerr m = None then ebytes m else []) @ out, e))"

lemma pack_survivors:
  assumes "encodes ec ebytes eerr" and "wf_buffer b"
  shows "\<exists>b'. pack g ec xs err b = Ret (b', snd (survivors ebytes eerr xs err)) \<and> wf_buffer b' \<and>
           Bytes b' = Bytes b @ fst (survivors ebytes eerr xs err)"
  using assms(2)
proof (induction xs arbitrary: err b)
  case Nil
  then show ?case by simp
next
  case (Cons x xs)
  define b1 where "b1 = (case x of OBytes bytes \<Rightarrow> Buffer_AppendBytes g b bytes | OMsg m \<Rightarrow> fst (ec m b))"
  define e1 where "e1 = (case x of OBytes bytes \<Rightarrow> err | OMsg m \<Rightarrow> eerr m)"
  define xb where "xb = (case x of OBytes bytes \<Rightarrow> bytes | OMsg m \<Rightarrow> ebytes m)"
  have wf: "wf_buffer b" using Cons.prems .
  have coded: "ec m b = (fst (ec m b), eerr m)" "wf_buffer (fst (ec m b))"
      "Bytes (fst (ec m b)) = Bytes b @ ebytes m" for m
    using assms(1) wf by (auto simp: encodes_def prod_eq_iff)
  have b1: "wf_buffer b1" "Bytes b1 = Bytes b @ xb"
    using wf coded by (cases x; simp add: b1_def xb_def)+
  have snd: "snd (ec m b) = eerr m" for m using coded(1) [of m] by (metis snd_conv)
  have step: "pack g ec (x # xs) err b =
      (if e1 \<noteq> None then bind_go (SetLen b1 (int (Len b))) (\<lambda>b2. pack g ec xs e1 b2) else pack g ec xs e1 b1)"
    by (cases x) (simp_all add: Let_def b1_def e1_def split_def snd)
  have surv: "survivors ebytes eerr (x # xs) err =
      ((if e1 = None then xb else []) @ fst (survivors ebytes eerr xs e1), snd (survivors ebytes eerr xs e1))"
    by (cases x) (simp_all add: e1_def xb_def split_def Let_def)
  show ?case
  proof (cases "e1 = None")
    case True
    then show ?thesis using Cons.IH [OF b1(1), of e1] b1 unfolding step surv by auto
  next
    case False
    have "SetLen b1 (int (Len b)) = Ret (set_len b1 (Len b))" using SetLen_set_len [OF b1(1)] .
    moreover have "Bytes (set_len b1 (Len b)) = Bytes b" using b1 wf by (simp add: Len_Bytes)
    ultimately show ?thesis
      using False Cons.IH [of "set_len b1 (Len b)" e1] b1(1) unfolding step surv by auto
  qed
qed

lemma pack_from_empty:
  assumes "encodes ec ebytes eerr" and "wf_buffer b" and "Bytes b = []" and "survivors ebytes eerr xs err = (out, e)"
  obtains b' where "pack g ec xs err b = Ret (b', e)" and "Bytes b' = out" and "Len b' = length out"
proof -
  obtain b' where b': "pack g ec xs err b = Ret (b', snd (survivors ebytes eerr xs err)) \<and> wf_buffer b' \<and>
           Bytes b' = Bytes b @ fst (survivors ebytes eerr xs err)"
    using pack_survivors [OF assms(1,2)] by (rule exE)
  then have "pack g ec xs err b = Ret (b', e)" "Bytes b' = out" "Len b' = length out"
    using assms(3,4) Len_Bytes [of b'] by simp_all
  then show thesis by (rule that)
qed

text \<open>A write that succeeds, and one that times out after \<open>n\<close> bytes.\<close>

definition ok_write :: "write_result \<Rightarrow> bool" where
  "ok_write r \<longleftrightarrow> werr r = None"

definition timed_out :: "nat \<Rightarrow> write_result" where
  "timed_out n = \<lparr>wn = n, werr = Some NetTimeout, wclosed = False, wcb = False\<rparr>"

lemma send_batch_nil: "send_batch g ec has_cb script [] err b st = Some (Ret (script, err, st))"
  by (simp add: send_batch.simps)

text \<open>A batch starts with an empty buffer, so that all of it is packed at once.\<close>

lemma send_batch_packed:
  assumes "items \<noteq> []" and "Len b = 0" and "pack g ec items err b = Ret (b', e)"
  shows "Len b' = 0 \<Longrightarrow> send_batch g ec has_cb script items err b st = Some (Ret (script, e, st))"
    and "Len b' \<noteq> 0 \<Longrightarrow> ok_write r \<Longrightarrow>
       send_batch g ec has_cb (r # ws) items err b st = Some (Ret (ws, None, st\<lparr>wire := wire st @ Bytes b'\<rparr>))"
    and "Len b' \<noteq> 0 \<Longrightarrow> send_batch g ec has_cb (timed_out n # ws) items err b st =
       Some (Ret (ws, Some ErrSendTimeout, st\<lparr>wire := wire st @ take n (Bytes b'),
         errors := (if has_cb then errors st @ [ErrSendTimeout] else errors st)\<rparr>))"
proof -
  have p: "(if Len b = 0 then map_ret (\<lambda>(b, e). (b, e, [])) (pack g ec items err b) else Ret (b, err, items)) = Ret (b', e, [])"
    using assms(2,3) by simp
  show "send_batch g ec has_cb script items err b st = Some (Ret (script, e, st))" if "Len b' = 0"
    using assms(1) that by (subst send_batch.simps) (simp add: p)
  show "send_batch g ec has_cb (r # ws) items err b st = Some (Ret (ws, None, st\<lparr>wire := wire st @ Bytes b'\<rparr>))"
    if "Len b' \<noteq> 0" "ok_write r"
    using assms(1) that by (subst send_batch.simps) (simp add: p ok_write_def send_batch_nil)
  show "send_batch g ec has_cb (timed_out n # ws) items err b st =
       Some (Ret (ws, Some ErrSendTimeout, st\<lparr>wire := wire st @ take n (Bytes b'),
         errors := (if has_cb then errors st @ [ErrSendTimeout] else errors st)\<rparr>))" if "Len b' \<noteq> 0"
    using assms(1) that by (subst send_batch.simps) (simp add: p timed_out_def Let_def send_batch_nil)
qed

lemma send_batch_ok:
  assumes "encodes ec ebytes eerr" and "wf_buffer b" and "Bytes b = []"
    and "survivors ebytes eerr items err = (out, e)" and "ok_write r"
  shows "send_batch g ec has_cb (r # ws) items err b st =
           Some (Ret (if out = [] then r # ws else ws, if out = [] then e else None, st\<lparr>wire := wire st @ out\<rparr>))"
proof (cases "items = []")
  case True
  then show ?thesis using assms(4) by (auto simp: send_batch_nil)
next
  case False
  obtain b' where b': "pack g ec items err b = Ret (b', e)" "Bytes b' = out" "Len b' = length out"
    by (rule pack_from_empty [OF assms(1-4)])
  have lb: "Len b = 0" using assms(2,3) Len_Bytes [of b] by simp
  show ?thesis
  proof (cases "out = []")
    case True
    then show ?thesis using send_batch_packed(1) [OF False lb b'(1), of has_cb "r # ws" st] b'(3) by simp
  next
    case out: False
    then show ?thesis using send_batch_packed(2) [OF False lb b'(1) _ assms(5), of has_cb ws st] b'(2,3) by simp
  qed
qed

lemma send_batch_timeout:
  assumes "encodes ec ebytes eerr" and "wf_buffer b" and "Bytes b = []"
    and "survivors ebytes eerr items err = (out, e)" and "out \<noteq> []"
  shows "send_batch g ec has_cb (timed_out n # ws) items err b st =
           Some (Ret (ws, Some ErrSendTimeout, st\<lparr>wire := wire st @ take n out,
             errors := (if has_cb then errors st @ [ErrSendTimeout] else errors st)\<rparr>))"
proof -
  obtain b' where b': "pack g ec items err b = Ret (b', e)" "Bytes b' = out" "Len b' = length out"
    by (rule pack_from_empty [OF assms(1-4)])
  have lb: "Len b = 0" using assms(2,3) Len_Bytes [of b] by simp
  have ne: "items \<noteq> []" using assms(4,5) by auto
  show ?thesis using send_batch_packed(3) [OF ne lb b'(1), of has_cb n ws st] b'(2,3) assms(5) by simp
qed

text \<open>Without encoding errors everything survives.\<close>

fun payload :: "('o \<Rightarrow> byte list) \<Rightarrow> 'o object \<Rightarrow> byte list" where
  "payload ebytes (OBytes bytes) = bytes"
| "payload ebytes (OMsg m) = ebytes m"

fun encodable :: "('o \<Rightarrow> session_error option) \<Rightarrow> 'o object \<Rightarrow> bool" where
  "encodable eerr (OBytes bytes) = True"
| "encodable eerr (OMsg m) = (eerr m = None)"

lemma survivors_all:
  "\<forall>x\<in>set xs. encodable eerr x \<Longrightarrow> survivors ebytes eerr xs None = (concat (map (payload ebytes) xs), None)"
proof (induction xs)
  case Nil
  then show ?case by simp
next
  case (Cons x xs)
  then show ?case by (cases x) simp_all
qed

lemma survivors_msgs:
  assumes "\<forall>x\<in>set xs. \<not> (\<exists>bytes. x = OBytes bytes)"
  shows "fst (survivors ebytes eerr xs err) = concat (map (payload ebytes) (filter (encodable eerr) xs))"
  using assms
proof (induction xs arbitrary: err)
  case Nil
  then show ?case by simp
next
  case (Cons x xs)
  then obtain m where m: "x = OMsg m" by (cases x) auto
  then show ?case using Cons by (simp add: split_def Let_def)
qed

lemma send_thread_ok:
  assumes "encodes ec ebytes eerr" and "list_all ok_write script" and "length batches \<le> length script"
    and "\<forall>(cl, items)\<in>set batches. \<forall>x\<in>set items. encodable eerr x"
    and "\<forall>(cl, items)\<in>set batches. items \<noteq> []"
  shows "send_thread g ec has_cb pb script batches None st =
           Some (Ret (st\<lparr>wire := wire st @ concat (map (\<lambda>(cl, items). concat (map (payload ebytes) items)) batches)\<rparr>, False))"
  using assms(2-5)
proof (induction batches arbitrary: script st)
  case Nil
  then show ?case by simp
next
  case (Cons batch batches)
  obtain cl items where b: "batch = (cl, items)" by fastforce
  obtain r ws where script: "script = r # ws" "ok_write r" "list_all ok_write ws" "length batches \<le> length ws"
    using Cons.prems(1,2) by (cases script) auto
  let ?out = "concat (map (payload ebytes) items)"
  have enc: "\<forall>x\<in>set items. encodable eerr x" and ne: "items \<noteq> []" using Cons.prems(3,4) b by auto
  have e: "Bytes (Reset pb) = []" by simp
  have run: "send_batch g ec has_cb script items None (Reset pb) st =
      Some (Ret (if ?out = [] then script else ws, None, st\<lparr>wire := wire st @ ?out\<rparr>))"
    using send_batch_ok [OF assms(1) wf_Reset e survivors_all [OF enc] script(2)] script(1) by simp
  have "send_thread g ec has_cb pb script (batch # batches) None st =
      send_thread g ec has_cb pb (if ?out = [] then script else ws) batches None (st\<lparr>wire := wire st @ ?out\<rparr>)"
    using ne by (simp add: b run)
  also have "\<dots> = Some (Ret ((st\<lparr>wire := wire st @ ?out\<rparr>)\<lparr>wire := wire (st\<lparr>wire := wire st @ ?out\<rparr>) @
      concat (map (\<lambda>(cl, items). concat (map (payload ebytes) items)) batches)\<rparr>, False))"
    by (rule Cons.IH) (use Cons.prems script in auto)
  finally show ?case by (simp add: b)
qed

section \<open>The inbound processor interface\<close>

fun data_of :: "read_result \<Rightarrow> byte list" where
  "data_of (RData d stop) = d"
| "data_of (RErr e stop) = []"

text \<open>
  What \<open>recvThreadFunc\<close> relies on of an inbound processor that loses nothing: \<open>pend p\<close> are the bytes it
  holds, \<open>mbytes m\<close> those a message stands for; a message takes its bytes from the front, received data is
  added at the back, and after an \<open>Unpack\<close> without a result there is room for \<open>chunk\<close> bytes.
\<close>

locale inbound =
  fixes P :: "('p, 'm) processor"
    and ok :: "'p \<Rightarrow> bool"
    and pend :: "'p \<Rightarrow> byte list"
    and mbytes :: "'m \<Rightarrow> byte list"
    and chunk :: nat
  assumes unpack_ok: "ok p \<Longrightarrow> unpack P p = (p', r, e) \<Longrightarrow> ok p'"
    and unpack_msg: "ok p \<Longrightarrow> unpack P p = (p', Some m, e) \<Longrightarrow> e = None \<and> mbytes m \<noteq> [] \<and> pend p = mbytes m @ pend p'"
    and unpack_none: "ok p \<Longrightarrow> unpack P p = (p', None, e) \<Longrightarrow> pend p' = pend p"
    and data_ok: "ok p \<Longrightarrow> unpack P p = (p', None, None) \<Longrightarrow> length d \<le> chunk \<Longrightarrow> ok (on_data P p' d)"
    and data_pend: "ok p \<Longrightarrow> unpack P p = (p', None, None) \<Longrightarrow> length d \<le> chunk \<Longrightarrow> pend (on_data P p' d) = pend p' @ d"
begin

lemma stopped_mono: "recv_loop fuel P has_cb outer script p st = Some (p', st') \<Longrightarrow> stopped st \<Longrightarrow> stopped st'"
proof (induction fuel arbitrary: outer script p st)
  case 0
  then show ?case by simp
next
  case (Suc fuel)
  then show ?case
    by (auto simp: Let_def recv_error_def split: if_splits prod.splits option.splits list.splits read_result.splits)
qed

lemma recv_error_stops: "\<not> stopped (recv_error has_cb u e st) \<Longrightarrow> received (recv_error has_cb u e st) = received st"
  by (simp add: recv_error_def Let_def)

text \<open>As long as the session is not stopped, the bytes of the delivered messages and of what the
  processor still holds are, in order, the bytes received, whatever timeouts came in between.\<close>

lemma recv_conserves:
  assumes "recv_loop fuel P has_cb outer script p st = Some (p', st')" and "ok p" and "\<not> stopped st'"
    and "\<forall>r\<in>set script. length (data_of r) \<le> chunk"
  shows "concat (map mbytes (received st')) @ pend p' =
         concat (map mbytes (received st)) @ pend p @ concat (map data_of script)"
  using assms
proof (induction fuel arbitrary: outer script p st)
  case 0
  then show ?case by simp
next
  case (Suc fuel)
  obtain p1 r e where u: "unpack P p = (p1, r, e)" by (metis prod_cases3)
  have ok1: "ok p1" using unpack_ok [OF Suc.prems(2) u] .
  have run: "\<not> (outer \<and> stopped st)" "\<not> stopped st"
    using Suc.prems(1,3) stopped_mono [OF Suc.prems(1)] by blast+
  show ?case
  proof (cases r)
    case (Some m)
    then have m: "e = None" "pend p = mbytes m @ pend p1" using unpack_msg [OF Suc.prems(2)] u by auto
    then have "recv_loop fuel P has_cb True script p1 (st\<lparr>received := received st @ [m]\<rparr>) = Some (p', st')"
      using Suc.prems(1) u Some run by simp
    from Suc.IH [OF this ok1 Suc.prems(3,4)] show ?thesis using m by simp
  next
    case none: None
    have pend1: "pend p1 = pend p" using unpack_none [OF Suc.prems(2)] u none by simp
    show ?thesis
    proof (cases e)
      case (Some err)
      then have l: "recv_loop fuel P has_cb True script p1 (recv_error has_cb True err st) = Some (p', st')"
        using Suc.prems(1) u none run by simp
      have "stopped (recv_error has_cb True err st)" by (simp add: recv_error_def Let_def)
      then show ?thesis using stopped_mono [OF l] Suc.prems(3) by blast
    next
      case None
      then have u': "unpack P p = (p1, None, None)" using u none by simp
      show ?thesis
      proof (cases script)
        case Nil
        then show ?thesis using Suc.prems(1) u' run pend1 by simp
      next
        case (Cons rr ws)
        show ?thesis
        proof (cases rr)
          case (RData d stop)
          then have d: "length d \<le> chunk" using Suc.prems(4) Cons by simp
          have l: "recv_loop fuel P has_cb False ws (on_data P p1 d) (st\<lparr>stopped := stopped st \<or> stop\<rparr>) = Some (p', st')"
            using Suc.prems(1) u' run Cons RData by simp
          from Suc.IH [OF l data_ok [OF Suc.prems(2) u' d] Suc.prems(3)] Suc.prems(4) Cons
          show ?thesis using data_pend [OF Suc.prems(2) u' d] pend1 RData by simp
        next
          case (RErr err stop)
          let ?st = "recv_error has_cb False err (st\<lparr>stopped := stopped st \<or> stop\<rparr>)"
          have ns: "\<not> stop" using Suc.prems(1,3) u' run Cons RErr by (auto split: if_splits)
          then have l: "recv_loop fuel P has_cb True ws p1 ?st = Some (p', st')"
            using Suc.prems(1) u' run Cons RErr by simp
          have "received ?st = received st" by (simp add: recv_error_def Let_def)
          then show ?thesis using Suc.IH [OF l ok1 Suc.prems(3)] Suc.prems(4) Cons RErr pend1 by simp
        qed
      qed
    qed
  qed
qed

text \<open>The goroutine gets through every finite script: the fuel bound counts the messages that can be
  unpacked and the reads.\<close>

lemma recv_terminates:
  assumes "ok p" and "\<forall>r\<in>set script. length (data_of r) \<le> chunk"
    and "length (pend p) + length (concat (map data_of script)) + length script < fuel"
    and "\<And>p p' e. ok p \<Longrightarrow> unpack P p \<noteq> (p', None, Some e)"
  shows "\<exists>p' st'. recv_loop fuel P has_cb outer script p st = Some (p', st')"
  using assms(1-3)
proof (induction fuel arbitrary: outer script p st)
  case 0
  then show ?case by simp
next
  case (Suc fuel)
  obtain p1 r e where u: "unpack P p = (p1, r, e)" by (metis prod_cases3)
  have ok1: "ok p1" using unpack_ok [OF Suc.prems(1) u] .
  show ?case
  proof (cases r)
    case (Some m)
    then have m: "e = None" "mbytes m \<noteq> []" "pend p = mbytes m @ pend p1" using unpack_msg [OF Suc.prems(1)] u by auto
    then have "length (pend p1) < length (pend p)" by simp
    then have "length (pend p1) + length (concat (map data_of script)) + length script < fuel"
      using Suc.prems(3) by linarith
    then show ?thesis using Suc.IH [OF ok1 Suc.prems(2), of True "st\<lparr>received := received st @ [m]\<rparr>"] u Some m by simp
  next
    case none: None
    then have u': "unpack P p = (p1, None, None)" using u assms(4) [OF Suc.prems(1)] by (cases e) auto
    have pend1: "pend p1 = pend p" using unpack_none [OF Suc.prems(1) u'] .
    show ?thesis
    proof (cases script)
      case Nil
      then show ?thesis using u' by simp
    next
      case (Cons rr ws)
      show ?thesis
      proof (cases rr)
        case (RData d stop)
        then have d: "length d \<le> chunk" using Suc.prems(2) Cons by simp
        have "length (pend (on_data P p1 d)) + length (concat (map data_of ws)) + length ws < fuel"
          using Suc.prems(3) Cons RData data_pend [OF Suc.prems(1) u' d] pend1 by simp
        from Suc.IH [OF data_ok [OF Suc.prems(1) u' d] _ this] Suc.prems(2) Cons
        show ?thesis using u' Cons RData by simp
      next
        case (RErr err stop)
        have "length (pend p1) + length (concat (map data_of ws)) + length ws < fuel"
          using Suc.prems(3) Cons RErr pend1 by simp
        from Suc.IH [OF ok1 _ this] Suc.prems(2) Cons show ?thesis using u' RErr by (simp add: Let_def)
      qed
    qed
  qed
qed

end

text \<open>The default processor: at most one read is pending, so the whole buffer is free when it is read
  into.\<close>

definition default_ok :: "default_processor \<Rightarrow> bool" where
  "default_ok p \<longleftrightarrow> length (pbuf p) = 4096 \<and> w p \<le> 4096"

definition default_pend :: "default_processor \<Rightarrow> byte list" where
  "default_pend p = take (w p) (pbuf p)"

lemma default_ok_new: "default_ok defaultInBoundProcessor" "default_pend defaultInBoundProcessor = []"
  by (simp_all add: default_ok_def default_pend_def defaultInBoundProcessor_def)

lemma Unpack_cases:
  "Unpack p = (p', r, e) \<longleftrightarrow>
     w p = 0 \<and> p' = p \<and> r = None \<and> e = None \<or>
     w p \<noteq> 0 \<and> p' = p\<lparr>w := 0\<rparr> \<and> r = Some (take (w p) (pbuf p)) \<and> e = None"
  by (auto simp: Unpack_def)

interpretation dip: inbound default_inbound default_ok default_pend "\<lambda>m. m" 4096
proof unfold_locales
  fix p p' r e assume "default_ok p" "unpack default_inbound p = (p', r, e)"
  then show "default_ok p'" by (auto simp: default_inbound_def Unpack_cases default_ok_def)
next
  fix p p' m e assume "default_ok p" "unpack default_inbound p = (p', Some m, e)"
  then show "e = None \<and> m \<noteq> [] \<and> default_pend p = m @ default_pend p'"
    by (auto simp: default_inbound_def Unpack_cases default_ok_def default_pend_def)
next
  fix p p' e assume "default_ok p" "unpack default_inbound p = (p', None, e)"
  then show "default_pend p' = default_pend p" by (auto simp: default_inbound_def Unpack_cases)
next
  fix p p' and d :: "byte list"
  assume a: "default_ok p" "unpack default_inbound p = (p', None, None)" "length d \<le> 4096"
  then have p': "p' = p" "w p = 0" "length (pbuf p) = 4096"
    by (auto simp: default_inbound_def Unpack_cases default_ok_def)
  then show "default_ok (on_data default_inbound p' d)"
    using a(3) by (simp add: default_inbound_def default_ok_def OnData_def read_into_def)
  show "default_pend (on_data default_inbound p' d) = default_pend p' @ d"
    using a(3) p' by (simp add: default_inbound_def default_pend_def OnData_def read_into_def)
qed

section \<open>Properties\<close>

text \<open>The send goroutine transmits in order: when every \<open>Write\<close> succeeds and no object fails
  to encode, the bytes on the wire are the payloads of all objects of all batches, in the
  order in which the queue delivered them, and nothing else.\<close>

theorem send_thread_delivers:
  assumes "encodes ec ebytes eerr" and "list_all ok_write script" and "length batches \<le> length script"
    and "\<forall>(cl, items)\<in>set batches. \<forall>x\<in>set items. encodable eerr x"
    and "\<forall>(cl, items)\<in>set batches. items \<noteq> []"
  shows "\<exists>st. send_thread g ec has_cb pb script batches None \<lparr>wire = [], errors = [], closes = []\<rparr> = Some (Ret (st, False)) \<and>
           wire st = concat (map (\<lambda>(cl, items). concat (map (payload ebytes) items)) batches) \<and>
           errors st = [] \<and> closes st = []"
  by (rule exI, rule conjI, rule send_thread_ok [OF assms]) simp

text \<open>An encoder for the witnesses: a number is encoded as one byte; numbers above 9 are refused after the
  byte has been written.\<close>

definition double :: growth where
  "double c n = n"

definition digit_enc :: "growth \<Rightarrow> nat encoder" where
  "digit_enc g m b = (Buffer_AppendBytes g b [of_nat m], if m > 9 then Some (NetError ''big'') else None)"

lemma digit_encodes: "encodes (digit_enc g) (\<lambda>m. [of_nat m]) (\<lambda>m. if m > 9 then Some (NetError ''big'') else None)"
  by (simp add: encodes_def digit_enc_def)

definition all_written :: write_result where
  "all_written = \<lparr>wn = 0, werr = None, wclosed = False, wcb = False\<rparr>"

theorem send_thread_delivers_witness:
  "\<exists>st. send_thread double (digit_enc double) True (New []) [all_written, all_written]
       [(False, [OMsg 3, OBytes [7, 8]]), (True, [OMsg 4])] None \<lparr>wire = [], errors = [], closes = []\<rparr> = Some (Ret (st, False)) \<and>
     wire st = [3, 7, 8, 4] \<and> errors st = [] \<and> closes st = []"
  using send_thread_delivers [OF digit_encodes [of double], of "[all_written, all_written]"
      "[(False, [OMsg 3, OBytes [7, 8]]), (True, [OMsg 4])]" double True "New []"]
  by (simp add: ok_write_def all_written_def)

text \<open>What packing keeps: of a batch that is all messages, exactly the payloads of those that
  encode are written; what a failing encoder had already put into the buffer is removed.\<close>

theorem pack_discards_failures:
  assumes "encodes ec ebytes eerr" and "wf_buffer b" and "\<forall>x\<in>set items. \<not> (\<exists>bytes. x = OBytes bytes)"
  shows "\<exists>b' e. pack g ec items err b = Ret (b', e) \<and> wf_buffer b' \<and>
           Bytes b' = Bytes b @ concat (map (payload ebytes) (filter (encodable eerr) items))"
  using pack_survivors [OF assms(1,2), of g items err] survivors_msgs [OF assms(3), of ebytes eerr err] by auto

theorem pack_discards_failures_witness:
  "\<exists>b' e. pack double (digit_enc double) [OMsg 3, OMsg 12, OMsg 4] None (New []) = Ret (b', e) \<and> wf_buffer b' \<and> Bytes b' = [3, 4]"
  using pack_discards_failures [OF digit_encodes [of double] wf_New [of "[]"], of "[OMsg 3, OMsg 12, OMsg 4]" double None] by simp

text \<open>An encoding error outlives the object that caused it: byte slices queued behind a
  message that failed to encode are discarded too, up to the next message that encodes, because
  nothing resets \<open>err\<close>.\<close>

theorem encode_error_drops_bytes:
  assumes "encodes ec ebytes eerr" and "wf_buffer b" and "eerr m = Some e"
    and "\<forall>x\<in>set items. \<exists>bytes. x = OBytes bytes"
  shows "\<exists>b'. pack g ec (OMsg m # items) None b = Ret (b', Some e) \<and> Bytes b' = Bytes b"
proof -
  have "survivors ebytes eerr items (Some e) = ([], Some e)" using assms(4)
  proof (induction items)
    case (Cons x xs)
    then show ?case by (cases x) auto
  qed simp
  then show ?thesis using pack_survivors [OF assms(1,2), of g "OMsg m # items" None] assms(3) by auto
qed

theorem encode_error_drops_bytes_witness:
  "\<exists>b'. pack double (digit_enc double) [OMsg 12, OBytes [1, 2, 3]] None (New []) = Ret (b', Some (NetError ''big'')) \<and> Bytes b' = []"
  using encode_error_drops_bytes [OF digit_encodes [of double] wf_New [of "[]"], of 12 "NetError ''big''" "[OBytes [1, 2, 3]]" double] by simp

text \<open>After a send timeout the stream is torn: of a batch whose write timed out after \<open>n\<close> bytes
  only these \<open>n\<close> bytes reach the wire, the rest is not sent later, and a following batch of byte slices is
  dropped without an attempt to write it.\<close>

theorem send_timeout_tears_stream:
  assumes "encodes ec ebytes eerr" and "survivors ebytes eerr items None = (out, e)" and "out \<noteq> []"
    and "\<forall>x\<in>set later. \<exists>bytes. x = OBytes bytes" and "later \<noteq> []"
  shows "\<exists>st. send_thread g ec has_cb pb (timed_out n # ws) [(False, items), (False, later)] None
             \<lparr>wire = [], errors = [], closes = []\<rparr> = Some (Ret (st, False)) \<and>
           wire st = take n out"
proof -
  have ne: "items \<noteq> []" using assms(2,3) by auto
  have e: "Bytes (Reset pb) = []" by simp
  let ?st = "\<lparr>wire = [], errors = [], closes = []\<rparr>"
  define st1 where "st1 = ?st\<lparr>wire := wire ?st @ take n out, errors := (if has_cb then errors ?st @ [ErrSendTimeout] else errors ?st)\<rparr>"
  have b1: "send_batch g ec has_cb (timed_out n # ws) items None (Reset pb) ?st = Some (Ret (ws, Some ErrSendTimeout, st1))"
    unfolding st1_def by (rule send_batch_timeout [OF assms(1) wf_Reset e assms(2,3)])
  have surv: "survivors ebytes eerr later (Some ErrSendTimeout) = ([], Some ErrSendTimeout)" using assms(4)
  proof (induction later)
    case (Cons x xs)
    then show ?case by (cases x) auto
  qed simp
  obtain b' where b': "pack g ec later (Some ErrSendTimeout) (Reset pb) = Ret (b', Some ErrSendTimeout)" "Len b' = length ([] :: byte list)"
    by (rule pack_from_empty [OF assms(1) wf_Reset e surv])
  have l0: "Len (Reset pb) = 0" using Len_Bytes [of "Reset pb"] by simp
  have b2: "send_batch g ec has_cb ws later (Some ErrSendTimeout) (Reset pb) st1 = Some (Ret (ws, Some ErrSendTimeout, st1))"
    using send_batch_packed(1) [OF assms(5) l0 b'(1)] b'(2) by simp
  have "send_thread g ec has_cb pb (timed_out n # ws) [(False, items), (False, later)] None ?st = Some (Ret (st1, False))"
    using ne assms(5) by (simp add: b1 b2)
  moreover have "wire st1 = take n out" by (simp add: st1_def)
  ultimately show ?thesis by blast
qed

theorem send_timeout_tears_stream_witness:
  "\<exists>st. send_thread double (digit_enc double) True (New []) [timed_out 2] [(False, [OBytes [1, 2, 3, 4]]), (False, [OBytes [5, 6]])] None
       \<lparr>wire = [], errors = [], closes = []\<rparr> = Some (Ret (st, False)) \<and> wire st = [1, 2]"
  using send_timeout_tears_stream [OF digit_encodes [of double], of "[OBytes [1, 2, 3, 4]]" "[1, 2, 3, 4]" None "[OBytes [5, 6]]" double True "New []" 2 "[]"]
  by simp

text \<open>With the default inbound processor the receive goroutine delivers the byte stream
  unchanged: through every script of reads of at most 4096 bytes, receive timeouts included, it
  comes to the end of the script, and unless the session was stopped the messages it delivered and
  what is still buffered are the received bytes in order.\<close>

theorem recv_default_delivers:
  assumes "\<forall>r\<in>set script. length (data_of r) \<le> 4096"
  shows "\<exists>p st. recv_loop (Suc (length (concat (map data_of script)) + length script)) default_inbound has_cb True script
             defaultInBoundProcessor \<lparr>stopped = False, received = [], recv_errors = [], recv_closes = []\<rparr> = Some (p, st) \<and>
           (\<not> stopped st \<longrightarrow> concat (received st) @ default_pend p = concat (map data_of script))"
proof -
  let ?st = "\<lparr>stopped = False, received = [], recv_errors = [], recv_closes = []\<rparr> :: byte list recv_state"
  let ?n = "Suc (length (concat (map data_of script)) + length script)"
  have noerr: "unpack default_inbound p \<noteq> (p', None, Some e)" for p p' e
    by (simp add: default_inbound_def Unpack_cases)
  obtain p st where r: "recv_loop ?n default_inbound has_cb True script defaultInBoundProcessor ?st = Some (p, st)"
    using dip.recv_terminates [OF default_ok_new(1) assms, of ?n has_cb True ?st] noerr default_ok_new(2) by auto
  then show ?thesis
    using dip.recv_conserves [OF r default_ok_new(1) _ assms] default_ok_new(2) by auto
qed

theorem recv_default_delivers_witness:
  "\<exists>p st. recv_loop 7 default_inbound True True [RData [1, 2] False, RErr NetTimeout False, RData [3] False]
      defaultInBoundProcessor \<lparr>stopped = False, received = [], recv_errors = [], recv_closes = []\<rparr> = Some (p, st) \<and>
    (\<not> stopped st \<longrightarrow> concat (received st) @ default_pend p = [1, 2, 3])"
  using recv_default_delivers [of "[RData [1, 2] False, RErr NetTimeout False, RData [3] False]" True] by (simp add: eval_nat_numeral)

end
