(* ===== verification/PbCodec.thy ===== *)
theory PbCodec
  imports StreamSocket
begin

text \<open>
  The protobuf codec, \<open>src/example/pb/pb.go\<close> and \<open>src/example/codec/pb.go\<close>: the registry of message types, \<open>Encode\<close> and
  \<open>Decode\<close> of a frame (a payload length, a type number, the marshalled message), \<open>PbEncoder\<close>, and \<open>PBReceiver\<close>, the
  inbound processor that cuts a byte stream into messages. The protobuf library and reflection are parameters, the
  record \<open>proto\<close>.
\<close>

section \<open>Definitions: registry and frames\<close>

record 'm proto =
  marshal :: "'m \<Rightarrow> byte list option"
  unmarshal :: "string \<Rightarrow> byte list \<Rightarrow> 'm option"
  type_of :: "'m \<Rightarrow> string"

record registry =
  nameToTypeID :: "string \<rightharpoonup> uint32"
  idToMeta :: "uint32 \<rightharpoonup> string"

definition empty_registry :: registry where
  "empty_registry = \<lparr>nameToTypeID = Map.empty, idToMeta = Map.empty\<rparr>"

datatype pb_error =
    DuplicateId uint32 | AlreadyRegister string | UnregisterType string | MarshalError | SizeLimit int int
  | HeaderZero | UnregisterId uint32 | UnmarshalError

definition Register :: "string \<Rightarrow> uint32 \<Rightarrow> registry \<Rightarrow> registry \<times> pb_error option" where
  "Register nm i reg =
     (if idToMeta reg i \<noteq> None then (reg, Some (DuplicateId i))
      else if nameToTypeID reg nm \<noteq> None then (reg, Some (AlreadyRegister nm))
      else (\<lparr>nameToTypeID = (nameToTypeID reg)(nm \<mapsto> i), idToMeta = (idToMeta reg)(i \<mapsto> nm)\<rparr>, None))"

definition newMessage :: "registry \<Rightarrow> uint32 \<Rightarrow> string option" where
  "newMessage reg i = idToMeta reg i"

definition PBHeaderSize :: nat where "PBHeaderSize = 4"
definition pbIdSize :: nat where "pbIdSize = 4"

definition Encode :: "growth \<Rightarrow> 'm proto \<Rightarrow> registry \<Rightarrow> 'm \<Rightarrow> buffer option \<Rightarrow> int \<Rightarrow> buffer option \<times> pb_error option" where
  "Encode g P reg obj b maxMsgSize =
     (let typeID = nameToTypeID reg (type_of P obj);
          e = (case typeID of None \<Rightarrow> Some (UnregisterType (type_of P obj)) | Some i \<Rightarrow> None)
      in case marshal P obj of
           None \<Rightarrow> (b, Some MarshalError)
         | Some data \<Rightarrow>
             (let dataLen = length data in
              if int dataLen > maxMsgSize then (b, Some (SizeLimit maxMsgSize (int dataLen)))
              else
                (let totalLen = PBHeaderSize + pbIdSize + dataLen;
                     b0 = (case b of None \<Rightarrow> New [\<lparr>sarr = replicate totalLen 0, slen = 0\<rparr>] | Some b0 \<Rightarrow> b0);
                     b1 = Buffer_AppendUint32 g b0 (word_of_nat (totalLen - PBHeaderSize));
                     b2 = Buffer_AppendUint32 g b1 (case typeID of None \<Rightarrow> 0 | Some i \<Rightarrow> i)
                 in (Some (Buffer_AppendBytes g b2 data), e))))"

text \<open>\<open>Decode\<close> of \<open>buff[start:end]\<close>: the message, the size of the packet, the error.\<close>

definition Decode :: "'m proto \<Rightarrow> registry \<Rightarrow> byte list \<Rightarrow> nat \<Rightarrow> nat \<Rightarrow> int \<Rightarrow> ('m option \<times> int \<times> pb_error option) go" where
  "Decode P reg buff start fin maxMsgSize =
     (let dataLen = int fin - int start in
      if dataLen < int PBHeaderSize then Ret (None, 0, None)
      else if fin > length buff then Panic SliceBounds
      else
        (let (plen, r1) = GetUint32 (NewReader (ArgBytes (take (fin - start) (drop start buff)))) in
         if uint plen > maxMsgSize then Ret (None, 0, Some (SizeLimit maxMsgSize (uint plen)))
         else if plen = 0 then Ret (None, 0, Some HeaderZero)
         else
           (let totalPacketSize = uint plen + int PBHeaderSize in
            if totalPacketSize > dataLen then Ret (None, totalPacketSize, None)
            else
              (let (typeID, r2) = GetUint32 r1 in
               case newMessage reg typeID of
                 None \<Rightarrow> Ret (None, totalPacketSize, Some (UnregisterId typeID))
               | Some meta \<Rightarrow>
                   map_ret (\<lambda>(pbData, r3). case unmarshal P meta pbData of
                       None \<Rightarrow> (None, totalPacketSize, Some UnmarshalError)
                     | Some m \<Rightarrow> (Some m, totalPacketSize, None))
                     (GetBytes r2 (totalPacketSize - int PBHeaderSize - int pbIdSize))))))"

section \<open>Definitions: codec\<close>

definition isPow2 :: "int \<Rightarrow> bool" where
  "isPow2 sz \<longleftrightarrow> sz AND (sz - 1) = 0"

definition sizeofPow2 :: "int \<Rightarrow> int" where
  "sizeofPow2 sz =
     (if isPow2 sz then sz
      else
        (let s = sz - 1; s = s OR drop_bit 1 s; s = s OR drop_bit 2 s; s = s OR drop_bit 4 s; s = s OR drop_bit 8 s;
             s = s OR drop_bit 16 s
         in s + 1))"

text \<open>\<open>EnCode\<close> with a buffer; the texts of the errors do not matter here.\<close>

definition PbEncoder :: "growth \<Rightarrow> 'm proto \<Rightarrow> registry \<Rightarrow> int \<Rightarrow> 'm encoder" where
  "PbEncoder g P reg maxMsgSize obj b =
     (let (r, e) = Encode g P reg obj (Some b) maxMsgSize in (the r, map_option (\<lambda>x. NetError ''encode'') e))"

record receiver =
  pbuffer :: "byte list"
  pw :: nat
  pr :: nat
  maxpacket :: int

definition NewPBReceiver :: "int \<Rightarrow> receiver" where
  "NewPBReceiver maxMsgSize = \<lparr>pbuffer = replicate 4096 0, pw = 0, pr = 0, maxpacket = maxMsgSize\<rparr>"

definition pb_GetRecvBuff :: "receiver \<Rightarrow> byte list" where
  "pb_GetRecvBuff R = drop (pw R) (pbuffer R)"

definition pb_OnData :: "receiver \<Rightarrow> byte list \<Rightarrow> receiver" where
  "pb_OnData R d = R\<lparr>pw := pw R + length d\<rparr>"

text \<open>\<open>copy\<close> to the front of a slice.\<close>

definition copy_front :: "byte list \<Rightarrow> byte list \<Rightarrow> byte list" where
  "copy_front dst src = take (length dst) src @ drop (length src) dst"

definition pb_Unpack :: "'m proto \<Rightarrow> registry \<Rightarrow> receiver \<Rightarrow> (receiver \<times> 'm option \<times> pb_error option) go" where
  "pb_Unpack P reg R =
     (if pr R = pw R then Ret (R, None, None)
      else map_ret (\<lambda>(msg, packetSize, err).
        let R1 =
          (if msg \<noteq> None then
             (let r = pr R + nat packetSize in if r = pw R then R\<lparr>pr := 0, pw := 0\<rparr> else R\<lparr>pr := r\<rparr>)
           else if err = None then
             (let held = take (pw R - pr R) (drop (pr R) (pbuffer R));
                  buf = (if packetSize > int (length (pbuffer R)) then copy_front (replicate (nat (sizeofPow2 packetSize)) 0) held
                         else copy_front (pbuffer R) held)
              in R\<lparr>pbuffer := buf, pw := pw R - pr R, pr := 0\<rparr>)
           else R)
        in (R1, msg, err))
        (Decode P reg (pbuffer R) (pr R) (pw R) (maxpacket R)))"

text \<open>A receiver on a connection: messages are unpacked until there is none, then a \<open>Read\<close> into \<open>GetRecvBuff()\<close> takes what the
  next element of \<open>sizes\<close> allows, at most the room and what the peer has sent. The result is the receiver, what is left of
  the stream, the messages and an error of \<open>Unpack\<close>. \<open>None\<close>: out of fuel.\<close>

definition pb_read :: "nat \<Rightarrow> byte list \<Rightarrow> receiver \<Rightarrow> byte list \<times> receiver" where
  "pb_read n input R =
     (let d = take (min n (length (pb_GetRecvBuff R))) input
      in (drop (length d) input, pb_OnData (R\<lparr>pbuffer := take (pw R) (pbuffer R) @ d @ drop (pw R + length d) (pbuffer R)\<rparr>) d))"

fun pb_session :: "nat \<Rightarrow> 'm proto \<Rightarrow> registry \<Rightarrow> nat list \<Rightarrow> byte list \<Rightarrow> receiver \<Rightarrow> 'm list \<Rightarrow>
    (receiver \<times> byte list \<times> 'm list \<times> pb_error option) go option" where
  "pb_session 0 P reg sizes input R ms = None"
| "pb_session (Suc fuel) P reg sizes input R ms =
     (case pb_Unpack P reg R of
        Panic e \<Rightarrow> Some (Panic e)
      | Ret (R', msg, err) \<Rightarrow>
          (case msg of
             Some m \<Rightarrow> pb_session fuel P reg sizes input R' (ms @ [m])
           | None \<Rightarrow>
               (case err of
                  Some e \<Rightarrow> Some (Ret (R', input, ms, Some e))
                | None \<Rightarrow>
                    (case sizes of
                       [] \<Rightarrow> Some (Ret (R', input, ms, None))
                     | n # sizes' \<Rightarrow>
                         (let (input', R'') = pb_read n input R' in pb_session fuel P reg sizes' input' R'' ms)))))"

section \<open>Frames\<close>

text \<open>The registry is a bijection between names and numbers.\<close>

definition registry_ok :: "registry \<Rightarrow> bool" where
  "registry_ok reg \<longleftrightarrow> (\<forall>nm i. nameToTypeID reg nm = Some i \<longleftrightarrow> idToMeta reg i = Some nm)"

lemma registry_ok_empty [simp]: "registry_ok empty_registry"
  by (simp add: registry_ok_def empty_registry_def)

lemma registry_ok_Register: "registry_ok reg \<Longrightarrow> registry_ok (fst (Register nm i reg))"
  by (auto simp: registry_ok_def Register_def)

text \<open>The registry both ends build with \<open>Register\<close>.\<close>

definition register_all :: "(string \<times> uint32) list \<Rightarrow> registry" where
  "register_all ts = fold (\<lambda>(nm, i) reg. fst (Register nm i reg)) ts empty_registry"

lemma registry_ok_all: "registry_ok (register_all ts)"
proof -
  have "registry_ok reg \<Longrightarrow> registry_ok (fold (\<lambda>(nm, i) reg. fst (Register nm i reg)) ts reg)" for reg
    by (induction ts arbitrary: reg) (auto simp: registry_ok_Register)
  then show ?thesis by (simp add: register_all_def)
qed

definition frame :: "uint32 \<Rightarrow> byte list \<Rightarrow> byte list" where
  "frame i d = be_put 4 (word_of_nat (4 + length d) :: uint32) @ be_put 4 i @ d"

text \<open>A message that fits: its type is registered, its encoding is within the limits of both ends, and the protobuf library
  reads it back.\<close>

definition fits :: "'m proto \<Rightarrow> registry \<Rightarrow> int \<Rightarrow> 'm \<Rightarrow> bool" where
  "fits P reg maxMsgSize m \<longleftrightarrow>
     (\<exists>d. marshal P m = Some d \<and> nameToTypeID reg (type_of P m) \<noteq> None \<and> unmarshal P (type_of P m) d = Some m \<and>
          int (length d) + 4 \<le> maxMsgSize \<and> length d + 4 < 2 ^ 32)"

definition wire_form :: "'m proto \<Rightarrow> registry \<Rightarrow> 'm \<Rightarrow> byte list" where
  "wire_form P reg m = frame (the (nameToTypeID reg (type_of P m))) (the (marshal P m))"

lemma or_shift: "0 \<le> x \<Longrightarrow> c \<le> x \<Longrightarrow> 0 \<le> x OR drop_bit k x \<and> c \<le> x OR drop_bit k x" for x :: int
  using or_greater_eq [of "drop_bit k x" x] by auto

lemma sizeofPow2_ge:
  assumes "0 < n"
  shows "n \<le> sizeofPow2 n"
proof -
  define s0 s1 s2 s3 s4 where s: "s0 = n - 1" "s1 = s0 OR drop_bit 1 s0" "s2 = s1 OR drop_bit 2 s1" "s3 = s2 OR drop_bit 4 s2"
    "s4 = s3 OR drop_bit 8 s3"
  have "0 \<le> s4 \<and> n - 1 \<le> s4"
    using or_shift [of s0 "n - 1" 1] or_shift [of s1 "n - 1" 2] or_shift [of s2 "n - 1" 4] or_shift [of s3 "n - 1" 8] assms
    unfolding s [symmetric] by (simp add: s(1))
  then have "n - 1 \<le> s4 OR drop_bit 16 s4" using or_shift by blast
  then show ?thesis unfolding sizeofPow2_def Let_def s [symmetric] by (simp add: s(1))
qed

lemma read_header:
  assumes "be_put 4 (h :: uint32) @ ys = xs"
  shows "GetUint32 (NewReader (ArgBytes xs)) = (h, \<lparr>rbs = xs, offset = 4\<rparr>)"
    and "length ys \<ge> 4 \<Longrightarrow> GetUint32 \<lparr>rbs = xs, offset = 4\<rparr> = (be_get (take 4 ys), \<lparr>rbs = xs, offset = 8\<rparr>)"
  using assms by (auto simp: GetUint32_def NewReader_def window_def be_get_put)

text \<open>What the receiver holds.\<close>

definition held :: "receiver \<Rightarrow> byte list" where
  "held R = take (pw R - pr R) (drop (pr R) (pbuffer R))"

definition wf_receiver :: "receiver \<Rightarrow> bool" where
  "wf_receiver R \<longleftrightarrow> pr R \<le> pw R \<and> pw R \<le> length (pbuffer R) \<and> 8 \<le> length (pbuffer R) \<and> (pr R = pw R \<longrightarrow> pw R = 0)"

lemma length_held: "wf_receiver R \<Longrightarrow> length (held R) = pw R - pr R"
  by (auto simp: held_def wf_receiver_def)

lemma copy_front_held: "length src \<le> length dst \<Longrightarrow> take (length src) (copy_front dst src) = src \<and> length (copy_front dst src) = length dst"
  by (simp add: copy_front_def)

text \<open>\<open>Unpack\<close> by what \<open>Decode\<close> returns.\<close>

lemma Decode_held:
  assumes "wf_receiver R" and "pr R \<noteq> pw R"
  shows "Decode P reg (pbuffer R) (pr R) (pw R) mx = Decode P reg (held R) 0 (length (held R)) mx"
  using assms length_held [OF assms(1)] by (simp add: Decode_def held_def wf_receiver_def of_nat_diff Let_def)

lemma frame_length [simp]: "length (frame i d) = 8 + length d"
  by (simp add: frame_def)

lemma header_value: "n < 2 ^ 32 \<Longrightarrow> uint (word_of_nat n :: uint32) = int n"
  by (simp add: uint_nat unat_of_nat)

lemma Decode_payload:
  assumes "\<not> length hs < 4" and "GetUint32 (NewReader (ArgBytes hs)) = (h, r1)" and "uint h \<le> mx" and "h \<noteq> 0"
  shows "Decode P reg hs 0 (length hs) mx =
    (if uint h + 4 > int (length hs) then Ret (None, uint h + 4, None)
     else (let (typeID, r2) = GetUint32 r1 in
           case newMessage reg typeID of
             None \<Rightarrow> Ret (None, uint h + 4, Some (UnregisterId typeID))
           | Some meta \<Rightarrow>
               map_ret (\<lambda>(pbData, r3). case unmarshal P meta pbData of
                   None \<Rightarrow> (None, uint h + 4, Some UnmarshalError)
                 | Some m \<Rightarrow> (Some m, uint h + 4, None)) (GetBytes r2 (uint h + 4 - 4 - 4))))"
proof -
  have from0: "int (length hs) - int 0 = int (length hs)" by simp
  have sizes: "int PBHeaderSize = 4" "int pbIdSize = 4" by (simp_all add: PBHeaderSize_def pbIdSize_def)
  have "Decode P reg hs 0 (length hs) mx = (case GetUint32 (NewReader (ArgBytes hs)) of (plen, r1) \<Rightarrow>
      if uint plen > mx then Ret (None, 0, Some (SizeLimit mx (uint plen)))
      else if plen = 0 then Ret (None, 0, Some HeaderZero)
      else if uint plen + 4 > int (length hs) then Ret (None, uint plen + 4, None)
      else (case GetUint32 r1 of (typeID, r2) \<Rightarrow>
           case newMessage reg typeID of
             None \<Rightarrow> Ret (None, uint plen + 4, Some (UnregisterId typeID))
           | Some meta \<Rightarrow>
               map_ret (\<lambda>(pbData, r3). case unmarshal P meta pbData of
                   None \<Rightarrow> (None, uint plen + 4, Some UnmarshalError)
                 | Some m \<Rightarrow> (Some m, uint plen + 4, None)) (GetBytes r2 (uint plen + 4 - 4 - 4))))"
    using assms(1) unfolding Decode_def Let_def sizes from0 by simp
  then show ?thesis using assms(2-4) by (simp add: sizes)
qed

lemma Decode_bytes:
  assumes hs: "be_put 4 (h :: uint32) @ be_put 4 i @ d @ tl0 = hs" and h: "uint h = int (length d) + 4" "uint h \<le> mx"
    and meta: "newMessage reg i = Some nm" and un: "unmarshal P nm d = Some m"
  shows "Decode P reg hs 0 (length hs) mx = Ret (Some m, int (length d) + 8, None)"
proof -
  have len: "length hs = 8 + length d + length tl0" using hs by auto
  have h0: "h \<noteq> 0" using h(1) by auto
  have r1: "GetUint32 (NewReader (ArgBytes hs)) = (h, \<lparr>rbs = hs, offset = 4\<rparr>)" using read_header(1) [OF hs] .
  have r2: "GetUint32 \<lparr>rbs = hs, offset = 4\<rparr> = (i, \<lparr>rbs = hs, offset = 8\<rparr>)"
    using read_header(2) [OF hs] by (simp add: be_get_put)
  have "drop 8 hs = d @ tl0" using hs append_eq_conv_conj [of "be_put 4 h @ be_put 4 i" "d @ tl0" hs] by simp
  then have r3: "GetBytes \<lparr>rbs = hs, offset = 8\<rparr> (int (length d)) = Ret (d, \<lparr>rbs = hs, offset = 8 + length d\<rparr>)"
    using len by (simp add: GetBytes_def slice_advance_def window_def Let_def)
  have n: "\<not> length hs < 4" using len by simp
  show ?thesis unfolding Decode_payload [OF n r1 h(2) h0] r2 using r3 meta un len h(1) by simp
qed

lemma Decode_frame:
  assumes m: "fits P reg mx m" and reg: "registry_ok reg" and pre: "hs @ rs = wire_form P reg m @ tl0"
  shows "Decode P reg hs 0 (length hs) mx =
    Ret (if length hs < 4 then (None, 0, None)
         else if length hs < length (wire_form P reg m) then (None, int (length (wire_form P reg m)), None)
         else (Some m, int (length (wire_form P reg m)), None))"
proof -
  obtain d i where d: "marshal P m = Some d" "unmarshal P (type_of P m) d = Some m" "int (length d) + 4 \<le> mx" "length d + 4 < 2 ^ 32"
      and i: "nameToTypeID reg (type_of P m) = Some i" using m by (auto simp: fits_def)
  have meta: "newMessage reg i = Some (type_of P m)" using reg i by (simp add: registry_ok_def newMessage_def)
  have wf: "wire_form P reg m = frame i d" using d i by (simp add: wire_form_def)
  define h where "h = (word_of_nat (4 + length d) :: uint32)"
  have h: "uint h = int (length d) + 4" unfolding h_def using header_value [of "4 + length d"] d(4) by simp
  have fr: "frame i d = be_put 4 h @ be_put 4 i @ d" by (simp add: frame_def h_def)
  have t: "take (length hs) (be_put 4 h @ be_put 4 i @ d @ tl0) = hs" using pre wf fr by (metis append.assoc append_eq_conv_conj)
  show ?thesis
  proof (cases "length hs < 4")
    case True
    then show ?thesis by (simp add: Decode_def PBHeaderSize_def)
  next
    case False
    show ?thesis
    proof (cases "length hs < 8 + length d")
      case True
      have "be_put 4 h @ take (length hs - 4) (be_put 4 i @ d @ tl0) = hs" using t False by simp
      from Decode_payload [OF False read_header(1) [OF this]] show ?thesis using h d(3) True False wf by fastforce
    next
      case full: False
      have "be_put 4 h @ be_put 4 i @ d @ take (length hs - 8 - length d) tl0 = hs" using t full by simp
      from Decode_bytes [OF this h _ meta d(2)] show ?thesis using h d(3) full False wf by simp
    qed
  qed
qed


section \<open>The receiver\<close>

abbreviation room :: "receiver \<Rightarrow> nat" where
  "room R \<equiv> length (pb_GetRecvBuff R)"

lemma Unpack_message:
  assumes wf: "wf_receiver R" and dec: "Decode P reg (held R) 0 (length (held R)) (maxpacket R) = Ret (Some m, int n, None)"
    and n: "0 < n" "n \<le> length (held R)"
  shows "\<exists>R'. pb_Unpack P reg R = Ret (R', Some m, None) \<and> wf_receiver R' \<and> held R' = drop n (held R) \<and> maxpacket R' = maxpacket R"
proof -
  have ne: "pr R \<noteq> pw R" using n length_held [OF wf] by auto
  have le: "pr R + n \<le> pw R" using n length_held [OF wf] by auto
  show ?thesis
    using wf ne le dec Decode_held [OF wf ne, of P reg "maxpacket R"]
    by (cases "pr R + n = pw R") (auto simp: pb_Unpack_def Let_def wf_receiver_def held_def drop_take add.commute)
qed

lemma Unpack_nothing:
  assumes wf: "wf_receiver R" and dec: "Decode P reg (held R) 0 (length (held R)) (maxpacket R) = Ret (None, int n, None)"
    and n: "length (held R) < 4 \<or> length (held R) < n"
  shows "\<exists>R'. pb_Unpack P reg R = Ret (R', None, None) \<and> wf_receiver R' \<and> held R' = held R \<and> maxpacket R' = maxpacket R \<and> 0 < room R'"
proof (cases "pr R = pw R")
  case True
  then show ?thesis using wf by (auto simp: pb_Unpack_def wf_receiver_def pb_GetRecvBuff_def)
next
  case False
  define buf where "buf = (if int n > int (length (pbuffer R)) then copy_front (replicate (nat (sizeofPow2 (int n))) 0) (held R)
                         else copy_front (pbuffer R) (held R))"
  have lh: "length (held R) = pw R - pr R" "length (held R) \<le> length (pbuffer R)" "0 < length (held R)"
    using length_held [OF wf] wf False by (auto simp: wf_receiver_def)
  have buf: "take (length (held R)) buf = held R \<and> length (held R) < length buf \<and> 8 \<le> length buf"
  proof (cases "int n > int (length (pbuffer R))")
    case True
    then have "int n \<le> sizeofPow2 (int n)" by (intro sizeofPow2_ge) simp
    then have "n \<le> nat (sizeofPow2 (int n))" by simp
    then show ?thesis using True lh wf copy_front_held [of "held R" "replicate (nat (sizeofPow2 (int n))) 0"]
      by (simp add: buf_def wf_receiver_def)
  next
    case False
    then show ?thesis using n lh wf copy_front_held [of "held R" "pbuffer R"] by (auto simp: buf_def wf_receiver_def)
  qed
  let ?R = "R\<lparr>pbuffer := buf, pw := pw R - pr R, pr := 0\<rparr>"
  have "pb_Unpack P reg R = Ret (?R, None, None)"
    using False dec Decode_held [OF wf False, of P reg "maxpacket R"] by (simp add: pb_Unpack_def buf_def held_def Let_def)
  moreover have "wf_receiver ?R" "held ?R = held R" "0 < room ?R"
    using buf lh False wf by (auto simp: wf_receiver_def held_def [of ?R] pb_GetRecvBuff_def)
  ultimately show ?thesis by auto
qed

lemma held_read:
  assumes "r \<le> v" and "v + length d \<le> length buf"
  shows "take (v + length d - r) (drop r (take v buf @ d @ drop (v + length d) buf)) = take (v - r) (drop r buf) @ d"
proof -
  have "drop r (take v buf @ d @ drop (v + length d) buf) = (take (v - r) (drop r buf) @ d) @ drop (v + length d) buf"
    using assms by (simp add: drop_take)
  moreover have "length (take (v - r) (drop r buf) @ d) = v + length d - r" using assms by simp
  ultimately show ?thesis by (metis append_eq_conv_conj)
qed

lemma read_receiver:
  assumes wf: "wf_receiver R" and rd: "pb_read n input R = (input', R')"
  shows "wf_receiver R' \<and> held R' @ input' = held R @ input \<and> maxpacket R' = maxpacket R \<and>
    length input' = length input - min n (room R)"
proof -
  define d where "d = take (min n (room R)) input"
  have ld: "pw R + length d \<le> length (pbuffer R)" using wf by (auto simp: d_def wf_receiver_def pb_GetRecvBuff_def)
  have R': "R' = R\<lparr>pbuffer := take (pw R) (pbuffer R) @ d @ drop (pw R + length d) (pbuffer R), pw := pw R + length d\<rparr>"
      and i: "input' = drop (length d) input"
    using rd by (simp_all add: pb_read_def Let_def d_def pb_OnData_def)
  have f: "pw R' = pw R + length d" "pr R' = pr R" "maxpacket R' = maxpacket R"
      "pbuffer R' = take (pw R) (pbuffer R) @ d @ drop (pw R + length d) (pbuffer R)" unfolding R' by simp_all
  have "d @ input' = input" "length input' = length input - min n (room R)"
    unfolding i d_def by (simp_all add: min_def)
  moreover have "pr R \<le> pw R" using wf by (simp add: wf_receiver_def)
  then have "held R' = held R @ d" unfolding held_def f by (rule held_read [OF _ ld])
  moreover have "wf_receiver R'" using wf ld unfolding wf_receiver_def f by auto
  ultimately show ?thesis using f(3) by simp
qed


abbreviation wires :: "'m proto \<Rightarrow> registry \<Rightarrow> 'm list \<Rightarrow> byte list" where
  "wires P reg ms \<equiv> concat (map (wire_form P reg) ms)"

text \<open>The next \<open>Unpack\<close> on the beginning of a stream of frames: the first message if it is complete, otherwise nothing, with
  room for more.\<close>

lemma Unpack_stream:
  assumes reg: "registry_ok reg" and fit: "\<forall>m \<in> set ms. fits P reg (maxpacket R) m" and wf: "wf_receiver R"
    and str: "held R @ input = wires P reg ms"
  shows "(\<exists>R' m ms'. ms = m # ms' \<and> pb_Unpack P reg R = Ret (R', Some m, None) \<and> wf_receiver R' \<and> maxpacket R' = maxpacket R \<and>
            held R' @ input = wires P reg ms') \<or>
         (\<exists>R'. pb_Unpack P reg R = Ret (R', None, None) \<and> wf_receiver R' \<and> maxpacket R' = maxpacket R \<and> held R' = held R \<and>
            0 < room R' \<and> (input = [] \<longrightarrow> ms = []))"
proof (cases ms)
  case Nil
  then have "held R = []" "pr R = pw R" using str length_held [OF wf] wf by (auto simp: wf_receiver_def)
  then show ?thesis using wf Nil by (auto simp: pb_Unpack_def wf_receiver_def pb_GetRecvBuff_def)
next
  case (Cons m ms')
  let ?n = "length (wire_form P reg m)"
  have str': "held R @ input = wire_form P reg m @ wires P reg ms'" using str Cons by simp
  have f: "fits P reg (maxpacket R) m" using fit Cons by simp
  have n: "8 \<le> ?n" by (simp add: wire_form_def)
  note dec = Decode_frame [OF f reg str']
  show ?thesis
  proof (cases "?n \<le> length (held R)")
    case True
    have d: "Decode P reg (held R) 0 (length (held R)) (maxpacket R) = Ret (Some m, int ?n, None)" using dec True n by simp
    obtain R' where u: "pb_Unpack P reg R = Ret (R', Some m, None)" "wf_receiver R'" "maxpacket R' = maxpacket R"
        and h: "held R' = drop ?n (held R)"
      using Unpack_message [OF wf d _ True] n by (metis less_le_trans zero_less_numeral)
    have "drop ?n (held R @ input) = wires P reg ms'" using str' by simp
    then have "held R' @ input = wires P reg ms'" using h True by simp
    then show ?thesis using u Cons by blast
  next
    case False
    let ?k = "if length (held R) < 4 then 0 else ?n"
    have d: "Decode P reg (held R) 0 (length (held R)) (maxpacket R) = Ret (None, int ?k, None)" using dec False by simp
    have "length (held R) < 4 \<or> length (held R) < ?k" using False by simp
    from Unpack_nothing [OF wf d this] obtain R' where u: "pb_Unpack P reg R = Ret (R', None, None)" "wf_receiver R'" "held R' = held R"
        "maxpacket R' = maxpacket R" "0 < room R'" by blast
    have "input \<noteq> []"
    proof
      assume "input = []"
      then have "length (held R) = ?n + length (wires P reg ms')" using arg_cong [OF str', of length] by simp
      then show False using False by simp
    qed
    then show ?thesis using u by blast
  qed
qed

text \<open>The input may end anywhere in the stream: \<open>tail\<close> is what never arrives.\<close>

lemma pb_session_frames:
  assumes reg: "registry_ok reg" and "\<forall>m \<in> set ms. fits P reg (maxpacket R) m" and "wf_receiver R"
    and "held R @ input @ tail = wires P reg ms" and "length ms + length sizes < fuel"
  shows "\<exists>R' input' k. pb_session fuel P reg sizes input R done = Some (Ret (R', input', done @ take k ms, None)) \<and>
    (tail = [] \<longrightarrow> length input \<le> length (filter (\<lambda>n. 0 < n) sizes) \<longrightarrow> k = length ms)"
  using assms(2-)
proof (induction fuel arbitrary: ms R input sizes "done")
  case (Suc fuel)
  from Unpack_stream [OF reg Suc.prems(1-3)] show ?case
  proof (elim disjE exE conjE)
    fix R' m ms'
    assume ms: "ms = m # ms'" and u: "pb_Unpack P reg R = Ret (R', Some m, None)" "wf_receiver R'" "maxpacket R' = maxpacket R"
        "held R' @ input @ tail = wires P reg ms'"
    have "\<forall>m \<in> set ms'. fits P reg (maxpacket R') m" "length ms' + length sizes < fuel" using Suc.prems(1,4) ms u(3) by simp_all
    from Suc.IH [OF this(1) u(2,4) this(2), of "done @ [m]"] obtain R'' input' k where
        r: "pb_session fuel P reg sizes input R' (done @ [m]) = Some (Ret (R'', input', (done @ [m]) @ take k ms', None))"
        and k: "tail = [] \<longrightarrow> length input \<le> length (filter (\<lambda>n. 0 < n) sizes) \<longrightarrow> k = length ms'"
      by blast
    have "pb_session (Suc fuel) P reg sizes input R done = Some (Ret (R'', input', done @ take (Suc k) ms, None))"
      using u(1) r ms by simp
    then show ?thesis using k ms by (metis length_Cons)
  next
    fix R'
    assume u: "pb_Unpack P reg R = Ret (R', None, None)" "wf_receiver R'" "maxpacket R' = maxpacket R" "held R' = held R" "0 < room R'"
        "input @ tail = [] \<longrightarrow> ms = []"
    show ?thesis
    proof (cases sizes)
      case Nil
      then have "pb_session (Suc fuel) P reg sizes input R done = Some (Ret (R', input, done @ take 0 ms, None))" using u(1) by simp
      moreover have "tail = [] \<longrightarrow> length input \<le> length (filter (\<lambda>n. 0 < n) sizes) \<longrightarrow> 0 = length ms" using u(6) Nil by simp
      ultimately show ?thesis by blast
    next
      case (Cons n sizes')
      obtain input' R'' where rd: "pb_read n input R' = (input', R'')" by fastforce
      have rr: "wf_receiver R''" "held R'' @ input' @ tail = wires P reg ms" "maxpacket R'' = maxpacket R"
          "length input' = length input - min n (room R')"
        using read_receiver [OF u(2) rd] u(3,4) Suc.prems(3) by (simp_all flip: append_assoc)
      have "\<forall>m \<in> set ms. fits P reg (maxpacket R'') m" "length ms + length sizes' < fuel" using Suc.prems(1,4) Cons rr(3) by simp_all
      from Suc.IH [OF this(1) rr(1,2) this(2), of "done"] obtain R3 input3 k where
          r: "pb_session fuel P reg sizes' input' R'' done = Some (Ret (R3, input3, done @ take k ms, None))"
          and k: "tail = [] \<longrightarrow> length input' \<le> length (filter (\<lambda>n. 0 < n) sizes') \<longrightarrow> k = length ms"
        by blast
      have e: "pb_session (Suc fuel) P reg sizes input R done = Some (Ret (R3, input3, done @ take k ms, None))"
        using u(1) r rd Cons by simp
      have "length input \<le> length (filter (\<lambda>n. 0 < n) sizes) \<longrightarrow> length input' \<le> length (filter (\<lambda>n. 0 < n) sizes')"
      proof (cases "n = 0")
        case False
        then have "1 \<le> min n (room R')" using u(5) by linarith
        then show ?thesis using rr(4) Cons False by auto
      qed (use rr(4) Cons in simp)
      then have "tail = [] \<longrightarrow> length input \<le> length (filter (\<lambda>n. 0 < n) sizes) \<longrightarrow> k = length ms" using k by blast
      then show ?thesis using e by blast
    qed
  qed
qed simp


section \<open>The encoder\<close>

text \<open>What \<open>EnCode\<close> writes and reports. A message of an unregistered type is written all the same, with number 0.\<close>

definition pb_bytes :: "'m proto \<Rightarrow> registry \<Rightarrow> int \<Rightarrow> 'm \<Rightarrow> byte list" where
  "pb_bytes P reg mx m =
     (case marshal P m of
        None \<Rightarrow> []
      | Some d \<Rightarrow> if int (length d) > mx then [] else frame (case nameToTypeID reg (type_of P m) of None \<Rightarrow> 0 | Some i \<Rightarrow> i) d)"

definition pb_fails :: "'m proto \<Rightarrow> registry \<Rightarrow> int \<Rightarrow> 'm \<Rightarrow> session_error option" where
  "pb_fails P reg mx m =
     (case marshal P m of
        None \<Rightarrow> Some (NetError ''encode'')
      | Some d \<Rightarrow>
          if int (length d) > mx \<or> nameToTypeID reg (type_of P m) = None then Some (NetError ''encode'') else None)"

lemma Bytes_AppendUint32: "wf_buffer b \<Longrightarrow> wf_buffer (Buffer_AppendUint32 g b u) \<and> Bytes (Buffer_AppendUint32 g b u) = Bytes b @ be_put 4 u"
  by (simp add: Buffer_AppendUint32_def Let_def)

lemma pb_encodes: "encodes (PbEncoder g P reg mx) (pb_bytes P reg mx) (pb_fails P reg mx)"
proof -
  have sz: "4 + 4 + n - PBHeaderSize = 4 + n" for n by (simp add: PBHeaderSize_def)
  have "wf_buffer (fst (PbEncoder g P reg mx m b)) \<and> Bytes (fst (PbEncoder g P reg mx m b)) = Bytes b @ pb_bytes P reg mx m \<and>
      snd (PbEncoder g P reg mx m b) = pb_fails P reg mx m" if wf: "wf_buffer b" for m b
  proof (cases "marshal P m")
    case None
    then show ?thesis using wf by (simp add: PbEncoder_def Encode_def pb_bytes_def pb_fails_def Let_def)
  next
    case (Some d)
    show ?thesis
    proof (cases "int (length d) > mx")
      case True
      then show ?thesis using wf Some by (simp add: PbEncoder_def Encode_def pb_bytes_def pb_fails_def Let_def)
    next
      case False
      let ?i = "case nameToTypeID reg (type_of P m) of None \<Rightarrow> 0 | Some i \<Rightarrow> i"
      let ?b1 = "Buffer_AppendUint32 g b (word_of_nat (4 + length d))"
      have e: "PbEncoder g P reg mx m b = (Buffer_AppendBytes g (Buffer_AppendUint32 g ?b1 ?i) d, pb_fails P reg mx m)"
        using False Some sz [of "length d"]
        by (auto simp: PbEncoder_def Encode_def pb_fails_def Let_def PBHeaderSize_def pbIdSize_def split: option.split)
      have "wf_buffer (Buffer_AppendUint32 g ?b1 ?i)"
          "Bytes (Buffer_AppendUint32 g ?b1 ?i) = Bytes b @ be_put 4 (word_of_nat (4 + length d) :: uint32) @ be_put 4 ?i"
        using Bytes_AppendUint32 [OF wf, of g "word_of_nat (4 + length d)"] Bytes_AppendUint32 [of ?b1 g ?i] by auto
      then show ?thesis unfolding e pb_bytes_def using Some False by (simp add: frame_def)
    qed
  qed
  then show ?thesis by (simp add: encodes_def)
qed

lemma fits_encodes: "fits P reg mx m \<Longrightarrow> pb_fails P reg mx m = None \<and> pb_bytes P reg mx m = wire_form P reg m"
  by (auto simp: fits_def pb_fails_def pb_bytes_def wire_form_def)

lemma wf_NewPBReceiver: "wf_receiver (NewPBReceiver mx)" "held (NewPBReceiver mx) = []" "maxpacket (NewPBReceiver mx) = mx"
  by (simp_all add: wf_receiver_def held_def NewPBReceiver_def)

text \<open>A new receiver on the beginning of a stream of messages that fit.\<close>

lemma receiver_cuts:
  assumes fit: "\<forall>m \<in> set ms. fits P (register_all ts) mx m" and str: "input @ tail = wires P (register_all ts) ms"
  obtains R input' k where "pb_session (Suc (length ms + length sizes)) P (register_all ts) sizes input (NewPBReceiver mx) [] =
      Some (Ret (R, input', take k ms, None))"
    and "tail = [] \<Longrightarrow> length input \<le> length (filter (\<lambda>n. 0 < n) sizes) \<Longrightarrow> k = length ms"
proof -
  have str': "held (NewPBReceiver mx) @ input @ tail = wires P (register_all ts) ms" using str by (simp add: wf_NewPBReceiver)
  have fit': "\<forall>m \<in> set ms. fits P (register_all ts) (maxpacket (NewPBReceiver mx)) m" using fit by (simp add: wf_NewPBReceiver)
  from pb_session_frames [OF registry_ok_all fit' wf_NewPBReceiver(1) str' lessI, of sizes "[]"] show thesis
    unfolding append_Nil using that by blast
qed

section \<open>Where the two ends disagree\<close>

text \<open>\<open>Encode\<close> compares the marshalled message with the limit, \<open>Decode\<close> the payload, which is four bytes longer: messages of the
  last four sizes are sent and refused.\<close>

lemma limit_mismatch:
  assumes "marshal P m = Some d" and "nameToTypeID reg (type_of P m) = Some i" and "mx - 4 < int (length d)" and "int (length d) \<le> mx"
    and "length d + 4 < 2 ^ 32"
  shows "pb_fails P reg mx m = None" and "\<exists>e. Decode P reg (pb_bytes P reg mx m) 0 (length (pb_bytes P reg mx m)) mx = Ret (None, 0, Some e)"
proof -
  show "pb_fails P reg mx m = None" using assms by (simp add: pb_fails_def)
  define h where "h = (word_of_nat (4 + length d) :: uint32)"
  have h: "uint h = int (length d) + 4" unfolding h_def using header_value [of "4 + length d"] assms(5) by simp
  have f: "pb_bytes P reg mx m = be_put 4 h @ be_put 4 i @ d" using assms by (simp add: pb_bytes_def frame_def h_def)
  have "GetUint32 (NewReader (ArgBytes (pb_bytes P reg mx m))) = (h, \<lparr>rbs = pb_bytes P reg mx m, offset = 4\<rparr>)"
    using read_header(1) [OF f [symmetric]] .
  then have "Decode P reg (pb_bytes P reg mx m) 0 (length (pb_bytes P reg mx m)) mx = Ret (None, 0, Some (SizeLimit mx (uint h)))"
    using h assms(3) f by (simp add: Decode_def PBHeaderSize_def)
  then show "\<exists>e. Decode P reg (pb_bytes P reg mx m) 0 (length (pb_bytes P reg mx m)) mx = Ret (None, 0, Some e)" by blast
qed

text \<open>A frame from the network that announces a payload of one to three bytes makes \<open>GetBytes\<close> slice with a negative size.\<close>

lemma short_payload_panics:
  assumes hs: "be_put 4 (h :: uint32) @ be_put 4 i @ d = hs" and h: "uint h \<in> {1, 2, 3}" "uint h \<le> mx" and i: "idToMeta reg i = Some nm"
  shows "Decode P reg hs 0 (length hs) mx = Panic SliceBounds"
proof -
  have len: "length hs = 8 + length d" using hs by auto
  have n: "\<not> length hs < 4" using len by simp
  have h0: "h \<noteq> 0" using h(1) by auto
  have r2: "GetUint32 \<lparr>rbs = hs, offset = 4\<rparr> = (i, \<lparr>rbs = hs, offset = 8\<rparr>)"
    using read_header(2) [OF hs] by (simp add: be_get_put)
  have "GetBytes \<lparr>rbs = hs, offset = 8\<rparr> (uint h + 4 - 4 - 4) = Panic SliceBounds"
    using h(1) len by (auto simp: GetBytes_def slice_advance_def Let_def)
  then show ?thesis unfolding Decode_payload [OF n read_header(1) [OF hs] h(2) h0] r2
    using h(1) len i by (auto simp: newMessage_def)
qed

text \<open>A toy protobuf for the witnesses: a message is a list of bytes, marshalled as itself.\<close>

definition raw_proto :: "byte list proto" where
  "raw_proto = \<lparr>marshal = Some, unmarshal = (\<lambda>nm d. Some d), type_of = (\<lambda>m. ''raw'')\<rparr>"

section \<open>Batches over a connection\<close>

text \<open>The messages of a batch as the session's objects.\<close>

definition as_batches :: "'m list list \<Rightarrow> (bool \<times> 'm object list) list" where
  "as_batches mss = map (\<lambda>ms. (False, map OMsg ms)) mss"

lemma payload_batches:
  assumes "\<forall>ms \<in> set mss. \<forall>m \<in> set ms. fits P reg mx m"
  shows "concat (map (\<lambda>(cl, items). concat (map (payload (pb_bytes P reg mx)) items)) (as_batches mss)) = wires P reg (concat mss)"
  using assms
proof (induction mss)
  case (Cons ms mss)
  have "concat (map (pb_bytes P reg mx) ms) = wires P reg ms"
    using Cons.prems fits_encodes by (intro arg_cong [of _ _ concat]) fastforce
  then show ?case using Cons by (simp add: as_batches_def comp_def)
qed (simp add: as_batches_def)

text \<open>Batches of messages that fit, packed and written by the send goroutine, come out of the receiver at the other end.\<close>

lemma pb_link:
  assumes "\<forall>ms \<in> set mss. ms \<noteq> [] \<and> (\<forall>m \<in> set ms. fits P (register_all ts) mx m)"
    and "list_all ok_write script" and "length mss \<le> length script"
    and "length (wires P (register_all ts) (concat mss)) \<le> length (filter (\<lambda>n. 0 < n) sizes)"
  shows "\<exists>st R input. send_thread g (PbEncoder g P (register_all ts) mx) has_cb pb script (as_batches mss) None
      \<lparr>wire = [], errors = [], closes = []\<rparr> = Some (Ret (st, False)) \<and>
    pb_session (Suc (length (concat mss) + length sizes)) P (register_all ts) sizes (wire st) (NewPBReceiver mx) [] =
      Some (Ret (R, input, concat mss, None))"
proof -
  let ?reg = "register_all ts"
  let ?st = "\<lparr>wire = wires P ?reg (concat mss), errors = [], closes = []\<rparr>"
  have fit: "\<forall>ms \<in> set mss. \<forall>m \<in> set ms. fits P ?reg mx m" using assms(1) by blast
  have "\<forall>(cl, items) \<in> set (as_batches mss). \<forall>x \<in> set items. encodable (pb_fails P ?reg mx) x"
    using fit fits_encodes by (fastforce simp: as_batches_def)
  moreover have "\<forall>(cl, items) \<in> set (as_batches mss). items \<noteq> []" using assms(1) by (auto simp: as_batches_def)
  moreover have "length (as_batches mss) \<le> length script" using assms(3) by (simp add: as_batches_def)
  ultimately have send: "send_thread g (PbEncoder g P ?reg mx) has_cb pb script (as_batches mss) None
      \<lparr>wire = [], errors = [], closes = []\<rparr> = Some (Ret (?st, False))"
    using send_thread_ok [OF pb_encodes assms(2), of "as_batches mss" P ?reg mx] payload_batches [OF fit] by simp
  have all: "\<forall>m \<in> set (concat mss). fits P ?reg mx m" using fit by auto
  from receiver_cuts [OF all, of "wires P ?reg (concat mss)" "[]" sizes] obtain R input k where
      k: "pb_session (Suc (length (concat mss) + length sizes)) P ?reg sizes (wires P ?reg (concat mss)) (NewPBReceiver mx) [] =
        Some (Ret (R, input, take k (concat mss), None))" "k = length (concat mss)"
    using assms(4) by auto
  then have "pb_session (Suc (length (concat mss) + length sizes)) P ?reg sizes (wire ?st) (NewPBReceiver mx) [] =
      Some (Ret (R, input, concat mss, None))" by simp
  then show ?thesis using send by blast
qed

end
