(* ===== verification/RpcServer.thy ===== *)
theory RpcServer
  imports RpcClient
begin

text \<open>
  The server of the RPC package, \<open>src/rpc/server.go\<close>: replyers, the method table and the
  request path. The encoder is the parameter \<open>enc\<close> (\<open>None\<close> is an encoding error), the decoded message
  is an argument of the operations, and a handler is described by what it does with its replyer
  before it returns or panics; what it does later is a further step. \<open>sent\<close> records the calls of
  \<open>SendResponse\<close> on a channel.
\<close>

section \<open>Definitions\<close>

type_synonym chan_id = nat
type_synonym ('m, 'w) encoder = "'m rpc_message \<Rightarrow> 'w option"

text \<open>A replyer: its channel, its request and the \<open>fired\<close> flag. Replyers are numbered in the order of
  their creation.\<close>

record 'm replyer =
  channel :: chan_id
  req :: "'m rpc_request"
  fired_flag :: bool

record ('h, 'm, 'w) rpc_server =
  methods :: "string \<rightharpoonup> 'h"
  pendingCount :: "32 word"
  errOnMissingMethod :: "rpc_error option"
  replyers :: "'m replyer list"
  sent :: "(chan_id \<times> 'w) list"

definition NewRPCServer :: "('h, 'm, 'w) rpc_server" where
  "NewRPCServer = \<lparr>methods = Map.empty, pendingCount = 0, errOnMissingMethod = None, replyers = [], sent = []\<rparr>"

definition PendingCount :: "('h, 'm, 'w) rpc_server \<Rightarrow> 32 word" where
  "PendingCount s = pendingCount s"

definition SetErrorCodeOnMissingMethod :: "rpc_error option \<Rightarrow> ('h, 'm, 'w) rpc_server \<Rightarrow> ('h, 'm, 'w) rpc_server" where
  "SetErrorCodeOnMissingMethod e s = (if e \<noteq> None then s\<lparr>errOnMissingMethod := e\<rparr> else s)"

text \<open>\<open>reply\<close>: an encoding error is logged and nothing is sent.\<close>

definition reply :: "('m, 'w) encoder \<Rightarrow> chan_id \<Rightarrow> 'm rpc_response \<Rightarrow> ('h, 'm, 'w) rpc_server \<Rightarrow> ('h, 'm, 'w) rpc_server" where
  "reply enc ch response s =
     (case enc (Response response) of None \<Rightarrow> s | Some msg \<Rightarrow> s\<lparr>sent := sent s @ [(ch, msg)]\<rparr>)"

text \<open>The compare-and-swap on \<open>fired\<close>.\<close>

definition cas_fired :: "nat \<Rightarrow> ('h, 'm, 'w) rpc_server \<Rightarrow> ('h, 'm, 'w) rpc_server \<times> bool" where
  "cas_fired i s =
     (if i < length (replyers s) \<and> \<not> fired_flag (replyers s ! i)
      then (s\<lparr>replyers := (replyers s)[i := (replyers s ! i)\<lparr>fired_flag := True\<rparr>]\<rparr>, True)
      else (s, False))"

definition Reply :: "('m, 'w) encoder \<Rightarrow> nat \<Rightarrow> 'm \<Rightarrow> rpc_error option \<Rightarrow> ('h, 'm, 'w) rpc_server \<Rightarrow> ('h, 'm, 'w) rpc_server" where
  "Reply enc i ret err s =
     (let (s1, ok) = cas_fired i s in
      if ok then
        (let r = replyers s ! i;
             s2 = (if needResp (req r)
                   then reply enc (channel r) \<lparr>resp_seq = req_seq (req r), resp_err = err, resp_ret = ret\<rparr> s1
                   else s1)
         in s2\<lparr>pendingCount := pendingCount s2 - 1\<rparr>)
      else s1)"

definition DropResponse :: "nat \<Rightarrow> ('h, 'm, 'w) rpc_server \<Rightarrow> ('h, 'm, 'w) rpc_server" where
  "DropResponse i s =
     (let (s1, ok) = cas_fired i s in
      if ok then s1\<lparr>pendingCount := pendingCount s1 - 1\<rparr> else s1)"

definition OnServiceStop :: "('m, 'w) encoder \<Rightarrow> 'm \<Rightarrow> chan_id \<Rightarrow> 'm rpc_message option \<Rightarrow> rpc_error option \<Rightarrow>
    ('h, 'm, 'w) rpc_server \<Rightarrow> ('h, 'm, 'w) rpc_server" where
  "OnServiceStop enc nil ch msg errorCode s =
     (case msg of
        Some (Request r) \<Rightarrow> reply enc ch \<lparr>resp_seq = req_seq r, resp_err = errorCode, resp_ret = nil\<rparr> s
      | _ \<Rightarrow> s)"

datatype reg_error = NameIsNil | MethodIsNil | DuplicateMethod string

definition RegisterMethod :: "string \<Rightarrow> 'h option \<Rightarrow> ('h, 'm, 'w) rpc_server \<Rightarrow> ('h, 'm, 'w) rpc_server \<times> reg_error option" where
  "RegisterMethod name method s =
     (if name = '''' then (s, Some NameIsNil)
      else case method of
        None \<Rightarrow> (s, Some MethodIsNil)
      | Some m \<Rightarrow>
          (if methods s name \<noteq> None then (s, Some (DuplicateMethod name))
           else (s\<lparr>methods := (methods s)(name \<mapsto> m)\<rparr>, None)))"

definition UnRegisterMethod :: "string \<Rightarrow> ('h, 'm, 'w) rpc_server \<Rightarrow> ('h, 'm, 'w) rpc_server" where
  "UnRegisterMethod name s = s\<lparr>methods := (methods s)(name := None)\<rparr>"

text \<open>What a handler does with its replyer while it runs, and whether it then panics.\<close>

datatype 'm action = DoReply 'm "rpc_error option" | DoDrop

fun act :: "('m, 'w) encoder \<Rightarrow> nat \<Rightarrow> 'm action \<Rightarrow> ('h, 'm, 'w) rpc_server \<Rightarrow> ('h, 'm, 'w) rpc_server" where
  "act enc i (DoReply ret err) s = Reply enc i ret err s"
| "act enc i DoDrop s = DropResponse i s"

type_synonym ('h, 'm) handler_run = "'h \<Rightarrow> 'm \<Rightarrow> 'm action list \<times> string option"

definition callMethod :: "('m, 'w) encoder \<Rightarrow> 'm \<Rightarrow> ('h, 'm) handler_run \<Rightarrow> 'h \<Rightarrow> nat \<Rightarrow> 'm \<Rightarrow>
    ('h, 'm, 'w) rpc_server \<Rightarrow> ('h, 'm, 'w) rpc_server" where
  "callMethod enc nil run method i arg s =
     (let (acts, panicked) = run method arg; s1 = fold (act enc i) acts s in
      case panicked of None \<Rightarrow> s1 | Some r \<Rightarrow> Reply enc i nil (Some (ErrOther r)) s1)"

definition OnRPCMessage :: "('m, 'w) encoder \<Rightarrow> 'm \<Rightarrow> ('h, 'm) handler_run \<Rightarrow> chan_id \<Rightarrow> 'm rpc_message option \<Rightarrow>
    ('h, 'm, 'w) rpc_server \<Rightarrow> ('h, 'm, 'w) rpc_server" where
  "OnRPCMessage enc nil run ch msg s =
     (case msg of
        Some (Request r) \<Rightarrow>
          (let i = length (replyers s);
               s1 = s\<lparr>replyers := replyers s @ [\<lparr>channel = ch, req = r, fired_flag = False\<rparr>],
                      pendingCount := pendingCount s + 1\<rparr>
           in case methods s (req_method r) of
                None \<Rightarrow>
                  (case errOnMissingMethod s1 of
                     Some e \<Rightarrow> Reply enc i nil (Some e) s1
                   | None \<Rightarrow> Reply enc i nil (Some (ErrOther (''invaild method:'' @ req_method r))) s1)
              | Some m \<Rightarrow> callMethod enc nil run m i (req_arg r) s1)
      | _ \<Rightarrow> s)"

section \<open>Steps\<close>

text \<open>The operations of a running server, in any order: requests, replies and drops that a handler
  issues later on any replyer it was given, and changes of the method table.\<close>

inductive server_step :: "('m, 'w) encoder \<Rightarrow> ('h, 'm, 'w) rpc_server \<Rightarrow> ('h, 'm, 'w) rpc_server \<Rightarrow> bool"
  for enc :: "('m, 'w) encoder" where
  request: "server_step enc s (OnRPCMessage enc nil run ch msg s)"
| later: "server_step enc s (act enc i a s)"
| register: "server_step enc s (fst (RegisterMethod name method s))"
| unregister: "server_step enc s (UnRegisterMethod name s)"
| set_error: "server_step enc s (SetErrorCodeOnMissingMethod e s)"

inductive server_reach :: "('m, 'w) encoder \<Rightarrow> ('h, 'm, 'w) rpc_server \<Rightarrow> bool" for enc :: "('m, 'w) encoder" where
  init: "server_reach enc NewRPCServer"
| step: "server_reach enc s \<Longrightarrow> server_step enc s s' \<Longrightarrow> server_reach enc s'"

text \<open>What replyer \<open>r\<close> may have put on the wire so far: nothing before it has fired; afterwards nothing, or one
  response that carries the sequence number of its request.\<close>

definition may_send :: "('m, 'w) encoder \<Rightarrow> 'm replyer \<Rightarrow> (chan_id \<times> 'w) list \<Rightarrow> bool" where
  "may_send enc r out \<longleftrightarrow>
     out = [] \<or>
     fired_flag r \<and> needResp (req r) \<and>
     (\<exists>ret err w. enc (Response \<lparr>resp_seq = req_seq (req r), resp_err = err, resp_ret = ret\<rparr>) = Some w \<and>
                  out = [(channel r, w)])"

definition server_inv :: "('m, 'w) encoder \<Rightarrow> ('h, 'm, 'w) rpc_server \<Rightarrow> bool" where
  "server_inv enc s \<longleftrightarrow>
     pendingCount s = of_nat (cnt (\<lambda>r. \<not> fired_flag r) (replyers s)) \<and>
     (\<exists>outs. length outs = length (replyers s) \<and> mset (sent s) = mset (concat outs) \<and>
        (\<forall>i<length outs. may_send enc (replyers s ! i) (outs ! i)))"

lemma server_invI:
  assumes "pendingCount s = of_nat (cnt (\<lambda>r. \<not> fired_flag r) (replyers s))"
    and "length outs = length (replyers s)" and "mset (sent s) = mset (concat outs)"
    and "\<And>i. i < length outs \<Longrightarrow> may_send enc (replyers s ! i) (outs ! i)"
  shows "server_inv enc s"
  using assms unfolding server_inv_def by blast

lemma fire_inv:
  assumes inv: "server_inv enc s" and i: "i < length (replyers s)" "\<not> fired_flag (replyers s ! i)"
    and out: "may_send enc ((replyers s ! i)\<lparr>fired_flag := True\<rparr>) out"
  shows "server_inv enc (s\<lparr>replyers := (replyers s)[i := (replyers s ! i)\<lparr>fired_flag := True\<rparr>],
                           sent := sent s @ out, pendingCount := pendingCount s - 1\<rparr>)" (is "server_inv enc ?s")
proof -
  obtain outs where o: "length outs = length (replyers s)" "mset (sent s) = mset (concat outs)"
      "\<And>j. j < length outs \<Longrightarrow> may_send enc (replyers s ! j) (outs ! j)"
      and p: "pendingCount s = of_nat (cnt (\<lambda>r. \<not> fired_flag r) (replyers s))"
    using inv unfolding server_inv_def by blast
  have "may_send enc (replyers s ! i) (outs ! i)" using o(1,3) i(1) by simp
  then have empty: "outs ! i = []" using i(2) by (simp add: may_send_def)
  obtain base where c: "\<And>P. cnt P (replyers s) = base P + (if P (replyers s ! i) then 1 else 0)"
      "\<And>P x. cnt P ((replyers s)[i := x]) = base P + (if P x then 1 else 0)"
    using cnt_at [OF i(1)] by metis
  show ?thesis
  proof (rule server_invI [where outs = "outs[i := out]"])
    show "pendingCount ?s = of_nat (cnt (\<lambda>r. \<not> fired_flag r) (replyers ?s))"
      using p i(2) by (simp add: c)
    show "mset (sent ?s) = mset (concat (outs[i := out]))"
      using mset_concat_update [of i outs out] o(1,2) i(1) empty by simp
    show "may_send enc (replyers ?s ! j) (outs[i := out] ! j)" if "j < length (outs[i := out])" for j
      using that o out i(1) by (cases "j = i") simp_all
  qed (use o(1) in simp)
qed

lemma Reply_inv:
  assumes inv: "server_inv enc s"
  shows "server_inv enc (Reply enc i ret err s)"
proof (cases "i < length (replyers s) \<and> \<not> fired_flag (replyers s ! i)")
  case True
  let ?r = "replyers s ! i"
  let ?resp = "Response \<lparr>resp_seq = req_seq (req ?r), resp_err = err, resp_ret = ret\<rparr>"
  let ?out = "if needResp (req ?r) then (case enc ?resp of None \<Rightarrow> [] | Some w \<Rightarrow> [(channel ?r, w)]) else []"
  have "may_send enc (?r\<lparr>fired_flag := True\<rparr>) ?out"
    by (auto simp: may_send_def split: option.splits)
  then have "server_inv enc (s\<lparr>replyers := (replyers s)[i := ?r\<lparr>fired_flag := True\<rparr>],
      sent := sent s @ ?out, pendingCount := pendingCount s - 1\<rparr>)"
    using fire_inv [OF inv] True by blast
  moreover have "Reply enc i ret err s = s\<lparr>replyers := (replyers s)[i := ?r\<lparr>fired_flag := True\<rparr>],
      sent := sent s @ ?out, pendingCount := pendingCount s - 1\<rparr>"
    using True by (simp add: Reply_def cas_fired_def reply_def Let_def split: option.splits)
  ultimately show ?thesis by simp
next
  case False
  then show ?thesis using inv by (auto simp: Reply_def cas_fired_def Let_def)
qed

lemma DropResponse_inv:
  assumes inv: "server_inv enc s"
  shows "server_inv enc (DropResponse i s)"
proof (cases "i < length (replyers s) \<and> \<not> fired_flag (replyers s ! i)")
  case True
  then show ?thesis
    using fire_inv [OF inv, of i "[]"] by (simp add: DropResponse_def cas_fired_def may_send_def)
next
  case False
  then show ?thesis using inv by (auto simp: DropResponse_def cas_fired_def Let_def)
qed

lemma act_inv: "server_inv enc s \<Longrightarrow> server_inv enc (act enc i a s)"
  by (cases a) (simp_all add: Reply_inv DropResponse_inv)

lemma acts_inv: "server_inv enc s \<Longrightarrow> server_inv enc (fold (act enc i) acts s)"
  by (induction acts arbitrary: s) (simp_all add: act_inv)

lemma new_replyer_inv:
  assumes "server_inv enc s"
  shows "server_inv enc (s\<lparr>replyers := replyers s @ [\<lparr>channel = ch, req = r, fired_flag = False\<rparr>],
                           pendingCount := pendingCount s + 1\<rparr>)" (is "server_inv enc ?s")
proof -
  obtain outs where o: "length outs = length (replyers s)" "mset (sent s) = mset (concat outs)"
      "\<And>j. j < length outs \<Longrightarrow> may_send enc (replyers s ! j) (outs ! j)"
      and p: "pendingCount s = of_nat (cnt (\<lambda>r. \<not> fired_flag r) (replyers s))"
    using assms unfolding server_inv_def by blast
  show ?thesis
    by (rule server_invI [where outs = "outs @ [[]]"])
      (use o p in \<open>auto simp: cnt_Cons nth_append may_send_def\<close>)
qed

lemma callMethod_inv: "server_inv enc s \<Longrightarrow> server_inv enc (callMethod enc nil run m i arg s)"
  by (simp add: callMethod_def acts_inv Reply_inv Let_def split: prod.splits option.splits)

lemma OnRPCMessage_inv: "server_inv enc s \<Longrightarrow> server_inv enc (OnRPCMessage enc nil run ch msg s)"
  using new_replyer_inv [of enc s ch]
  by (auto simp: OnRPCMessage_def Let_def intro!: Reply_inv callMethod_inv split: option.splits rpc_message.splits)

lemma table_inv:
  "server_inv enc s \<Longrightarrow> server_inv enc (fst (RegisterMethod name method s))"
  "server_inv enc s \<Longrightarrow> server_inv enc (UnRegisterMethod name s)"
  "server_inv enc s \<Longrightarrow> server_inv enc (SetErrorCodeOnMissingMethod e s)"
  by (simp_all add: server_inv_def RegisterMethod_def UnRegisterMethod_def SetErrorCodeOnMissingMethod_def
      split: option.splits)

lemma server_reach_inv: "server_reach enc s \<Longrightarrow> server_inv enc s"
proof (induction rule: server_reach.induct)
  case init
  then show ?case by (simp add: server_inv_def NewRPCServer_def)
next
  case (step s s')
  from step.hyps(2) step.IH show ?case
    by cases (auto simp: OnRPCMessage_inv act_inv table_inv)
qed

section \<open>Properties\<close>

text \<open>C12. In every reachable state \<open>PendingCount\<close> is the number of requests that were neither
  answered nor dropped (modulo the width of the counter), and the responses on the wire come
  from the replyers: none from a replyer that has not fired, and from one that has at most one,
  to its own channel and with the sequence number of its request, however often handlers call
  \<open>Reply\<close> and \<open>DropResponse\<close>.\<close>

theorem rpc_server_replies:
  assumes "server_reach enc s"
  shows "PendingCount s = of_nat (cnt (\<lambda>r. \<not> fired_flag r) (replyers s)) \<and>
         (\<exists>outs. length outs = length (replyers s) \<and> mset (sent s) = mset (concat outs) \<and>
            (\<forall>i<length outs. may_send enc (replyers s ! i) (outs ! i)))"
  using server_reach_inv [OF assms] by (simp add: server_inv_def PendingCount_def)

text \<open>A request and an encoder for the witnesses: a response is encoded as its error text.\<close>

definition ping :: "string rpc_request" where
  "ping = \<lparr>req_seq = 5, req_method = ''ping'', req_arg = ''x'', needResp = True\<rparr>"

fun err_enc :: "(string, string) encoder" where
  "err_enc (Response r) = Some (case resp_err r of Some e \<Rightarrow> Error e | None \<Rightarrow> resp_ret r)"
| "err_enc (Request r) = None"

theorem rpc_server_replies_witness:
  "PendingCount (OnRPCMessage err_enc '''' (\<lambda>h a. ([], None)) 3 (Some (Request ping))
     (fst (RegisterMethod ''ping'' (Some ()) NewRPCServer))) = 1"
proof -
  let ?s = "fst (RegisterMethod ''ping'' (Some ()) NewRPCServer) :: (unit, string, string) rpc_server"
  let ?t = "OnRPCMessage err_enc '''' (\<lambda>h a. ([], None)) 3 (Some (Request ping)) ?s"
  have "server_reach err_enc ?s" by (intro server_reach.step [OF server_reach.init] server_step.register)
  then have "server_reach err_enc ?t" by (rule server_reach.step) (rule server_step.request)
  from rpc_server_replies [OF this] show ?thesis
    by (simp add: OnRPCMessage_def RegisterMethod_def NewRPCServer_def ping_def callMethod_def cnt_Cons)
qed

text \<open>C16. A request that no handler answers is answered by the server: when the method is
  not registered, or its handler panics before replying, exactly one response goes to the
  channel, with the request's sequence number and an error, and the request is not pending any more.\<close>

theorem rpc_server_error_reply:
  assumes "needResp r" and "e = (case errOnMissingMethod s of Some e \<Rightarrow> e | None \<Rightarrow> ErrOther (''invaild method:'' @ req_method r))"
    and "methods s (req_method r) = None \<and> err = e \<or>
         (\<exists>m p. methods s (req_method r) = Some m \<and> run m (req_arg r) = ([], Some p) \<and> err = ErrOther p)"
    and "enc (Response \<lparr>resp_seq = req_seq r, resp_err = Some err, resp_ret = nil\<rparr>) = Some w"
  shows "sent (OnRPCMessage enc nil run ch (Some (Request r)) s) = sent s @ [(ch, w)] \<and>
         PendingCount (OnRPCMessage enc nil run ch (Some (Request r)) s) = PendingCount s"
  using assms(3)
proof
  assume "methods s (req_method r) = None \<and> err = e"
  then show ?thesis
    using assms(1,2,4)
    by (cases "errOnMissingMethod s") (simp_all add: OnRPCMessage_def Reply_def cas_fired_def reply_def PendingCount_def Let_def)
next
  assume "\<exists>m p. methods s (req_method r) = Some m \<and> run m (req_arg r) = ([], Some p) \<and> err = ErrOther p"
  then show ?thesis
    using assms(1,4)
    by (auto simp: OnRPCMessage_def callMethod_def Reply_def cas_fired_def reply_def PendingCount_def Let_def)
qed

theorem rpc_server_error_reply_witness:
  "sent (OnRPCMessage err_enc '''' (\<lambda>(h :: unit) a. ([], None)) 3 (Some (Request ping)) NewRPCServer) =
     [(3, ''invaild method:ping'')]"
  using rpc_server_error_reply [of ping "ErrOther ''invaild method:ping''" NewRPCServer "ErrOther ''invaild method:ping''"
      "\<lambda>(h :: unit) a. ([], None)" err_enc "''''" "''invaild method:ping''" 3]
  by (simp add: ping_def NewRPCServer_def)

end
