(* ===== verification/RpcCodec.thy ===== *)
theory RpcCodec
  imports PbCodec RpcServer
begin

text \<open>
  The codec of the RPC programs, \<open>TestEncoder\<close> and \<open>TestDecoder\<close> of \<open>src/example/test_rpc/test_rpc.go\<close> (the same code is in
  \<open>src/example/aio/test_rpc/test_rpc.go\<close>): RPC messages as the protobuf structs of \<open>src/example/testproto/testrpc.pb.go\<close>, with arguments
  and results as frames of PbCodec inside. An \<open>interface{}\<close> that holds a message or nil is an option. What \<open>fmt.Errorf\<close>
  makes of a format without arguments is the parameter \<open>errorf\<close>.
\<close>

section \<open>Definitions\<close>

text \<open>The generated structs: pointers are options, an absent byte slice is the empty list.\<close>

record pb_request =
  pq_Seq :: "uint64 option"
  pq_Method :: "string option"
  pq_Arg :: "byte list"
  pq_NeedResp :: "bool option"

record pb_response =
  ps_Seq :: "uint64 option"
  ps_Err :: "string option"
  ps_Ret :: "byte list"

definition pq_GetSeq :: "pb_request \<Rightarrow> uint64" where
  "pq_GetSeq m = (case pq_Seq m of Some v \<Rightarrow> v | None \<Rightarrow> 0)"

definition pq_GetMethod :: "pb_request \<Rightarrow> string" where
  "pq_GetMethod m = (case pq_Method m of Some v \<Rightarrow> v | None \<Rightarrow> '''')"

definition pq_GetNeedResp :: "pb_request \<Rightarrow> bool" where
  "pq_GetNeedResp m = (case pq_NeedResp m of Some v \<Rightarrow> v | None \<Rightarrow> False)"

definition ps_GetSeq :: "pb_response \<Rightarrow> uint64" where
  "ps_GetSeq m = (case ps_Seq m of Some v \<Rightarrow> v | None \<Rightarrow> 0)"

definition ps_GetErr :: "pb_response \<Rightarrow> string" where
  "ps_GetErr m = (case ps_Err m of Some v \<Rightarrow> v | None \<Rightarrow> '''')"

text \<open>The objects a channel carries; any other object by the name of its type.\<close>

datatype pb_object = PbRequest pb_request | PbResponse pb_response | PbOther string

datatype codec_error = PbError pb_error | InvalidObj string

definition maxArgSize :: int where "maxArgSize = 1000"

text \<open>\<open>pb.Encode(v, nil, 1000)\<close> where the value is not nil, and \<open>pb.Decode\<close> of all the bytes where there are any.\<close>

definition encode_value :: "growth \<Rightarrow> 'v proto \<Rightarrow> registry \<Rightarrow> 'v option \<Rightarrow> pb_error + byte list" where
  "encode_value g P reg v =
     (case v of
        None \<Rightarrow> Inr []
      | Some x \<Rightarrow>
          (case Encode g P reg x None maxArgSize of
             (b, Some e) \<Rightarrow> Inl e
           | (b, None) \<Rightarrow> Inr (case b of None \<Rightarrow> [] | Some b \<Rightarrow> Bytes b)))"

definition decode_value :: "'v proto \<Rightarrow> registry \<Rightarrow> byte list \<Rightarrow> (pb_error + 'v option) go" where
  "decode_value P reg d =
     (if 0 < length d
      then map_ret (\<lambda>(v, n, err). case err of Some e \<Rightarrow> Inl e | None \<Rightarrow> Inr v) (Decode P reg d 0 (length d) maxArgSize)
      else Ret (Inr None))"

definition TestEncoder :: "growth \<Rightarrow> 'v proto \<Rightarrow> registry \<Rightarrow> 'v option rpc_message \<Rightarrow> pb_error + pb_object" where
  "TestEncoder g P reg message =
     (case message of
        Request rq \<Rightarrow>
          (let request = \<lparr>pq_Seq = Some (req_seq rq), pq_Method = Some (req_method rq), pq_Arg = [],
                          pq_NeedResp = Some (needResp rq)\<rparr>
           in case encode_value g P reg (req_arg rq) of
                Inl e \<Rightarrow> Inl e
              | Inr b \<Rightarrow> Inr (PbRequest (request\<lparr>pq_Arg := b\<rparr>)))
      | Response rs \<Rightarrow>
          (let response = \<lparr>ps_Seq = Some (resp_seq rs), ps_Err = map_option Error (resp_err rs), ps_Ret = []\<rparr>
           in case encode_value g P reg (resp_ret rs) of
                Inl e \<Rightarrow> Inl e
              | Inr b \<Rightarrow> Inr (PbResponse (response\<lparr>ps_Ret := b\<rparr>))))"

definition TestDecoder :: "(string \<Rightarrow> string) \<Rightarrow> 'v proto \<Rightarrow> registry \<Rightarrow> pb_object \<Rightarrow> (codec_error + 'v option rpc_message) go" where
  "TestDecoder errorf P reg obj =
     (case obj of
        PbRequest rq \<Rightarrow>
          (let request = \<lparr>req_seq = pq_GetSeq rq, req_method = pq_GetMethod rq, req_arg = None, needResp = pq_GetNeedResp rq\<rparr>
           in map_ret (\<lambda>a. case a of Inl e \<Rightarrow> Inl (PbError e) | Inr v \<Rightarrow> Inr (Request (request\<lparr>req_arg := v\<rparr>)))
                (decode_value P reg (pq_Arg rq)))
      | PbResponse rs \<Rightarrow>
          (let response = \<lparr>resp_seq = ps_GetSeq rs,
                           resp_err = (if ps_Err rs \<noteq> None then Some (ErrOther (errorf (ps_GetErr rs))) else None),
                           resp_ret = None\<rparr>
           in map_ret (\<lambda>a. case a of Inl e \<Rightarrow> Inl (PbError e) | Inr v \<Rightarrow> Inr (Response (response\<lparr>resp_ret := v\<rparr>)))
                (decode_value P reg (ps_Ret rs)))
      | PbOther t \<Rightarrow> Ret (Inl (InvalidObj t)))"

section \<open>Round trips\<close>

text \<open>What the other end makes of a value: what the protobuf library reads from what it wrote.\<close>

definition trip :: "'v proto \<Rightarrow> 'v option \<Rightarrow> 'v option" where
  "trip P v = Option.bind v (\<lambda>x. Option.bind (marshal P x) (unmarshal P (type_of P x)))"

definition trip_err :: "(string \<Rightarrow> string) \<Rightarrow> rpc_error \<Rightarrow> rpc_error" where
  "trip_err errorf e = ErrOther (errorf (Error e))"

text \<open>A value that arrives as it was: nil, or a message that fits.\<close>

definition carries :: "'v proto \<Rightarrow> registry \<Rightarrow> 'v option \<Rightarrow> bool" where
  "carries P reg v \<longleftrightarrow> (case v of None \<Rightarrow> True | Some x \<Rightarrow> fits P reg maxArgSize x)"

lemma trip_None [simp]: "trip P None = None"
  by (simp add: trip_def)

lemma trip_carries: "carries P reg v \<Longrightarrow> trip P v = v"
  by (auto simp: carries_def trip_def fits_def split: option.splits)

text \<open>The frame of an encoded value.\<close>

lemma Encode_fresh:
  "Encode g P reg x None mx =
     (case marshal P x of
        None \<Rightarrow> (None, Some MarshalError)
      | Some d \<Rightarrow>
          if int (length d) > mx then (None, Some (SizeLimit mx (int (length d))))
          else (fst (Encode g P reg x (Some (New [\<lparr>sarr = replicate (8 + length d) 0, slen = 0\<rparr>])) mx),
                case nameToTypeID reg (type_of P x) of None \<Rightarrow> Some (UnregisterType (type_of P x)) | Some i \<Rightarrow> None))"
  by (simp add: Encode_def Let_def PBHeaderSize_def pbIdSize_def split: option.split)

lemma encode_value_frame:
  assumes "encode_value g P reg (Some x) = Inr b"
  obtains d i where "marshal P x = Some d" and "nameToTypeID reg (type_of P x) = Some i" and "b = frame i d" and "int (length d) \<le> maxArgSize"
proof -
  obtain d where d: "marshal P x = Some d"
    using assms by (cases "marshal P x") (auto simp: encode_value_def Encode_fresh)
  have small: "int (length d) \<le> maxArgSize"
    using assms d by (auto simp: encode_value_def Encode_fresh split: if_splits)
  obtain i where i: "nameToTypeID reg (type_of P x) = Some i"
    using assms d small by (cases "nameToTypeID reg (type_of P x)") (auto simp: encode_value_def Encode_fresh)
  let ?b0 = "New [\<lparr>sarr = replicate (8 + length d) 0, slen = 0\<rparr>]"
  have wf: "wf_buffer ?b0" "Bytes ?b0 = []" by (simp_all add: wf_slice_def)
  have "Bytes (fst (PbEncoder g P reg maxArgSize x ?b0)) = pb_bytes P reg maxArgSize x"
    using pb_encodes [of g P reg maxArgSize] wf unfolding encodes_def by simp
  moreover have "fst (Encode g P reg x (Some ?b0) maxArgSize) = Some (fst (PbEncoder g P reg maxArgSize x ?b0))"
    using d small i by (simp add: PbEncoder_def Encode_def Let_def)
  ultimately have "b = pb_bytes P reg maxArgSize x"
    using assms d small i by (simp add: encode_value_def Encode_fresh)
  then show thesis using that d i small by (simp add: pb_bytes_def)
qed

text \<open>A frame cut from an encoded value is read back or refused; it never makes the decoder panic.\<close>

lemma decode_frame_value:
  assumes reg: "registry_ok reg" and i: "nameToTypeID reg (type_of P x) = Some i" and d: "marshal P x = Some d" "int (length d) \<le> maxArgSize"
  shows "(\<exists>e. decode_value P reg (frame i d) = Ret (Inl e)) \<or>
         trip P (Some x) \<noteq> None \<and> decode_value P reg (frame i d) = Ret (Inr (trip P (Some x)))"
proof -
  define h where "h = (word_of_nat (4 + length d) :: uint32)"
  have h: "uint h = int (length d) + 4" unfolding h_def using header_value [of "4 + length d"] d(2) by (simp add: maxArgSize_def)
  have fr: "be_put 4 h @ be_put 4 i @ d @ [] = frame i d" by (simp add: frame_def h_def)
  have n: "\<not> length (frame i d) < 4" by simp
  have r1: "GetUint32 (NewReader (ArgBytes (frame i d))) = (h, \<lparr>rbs = frame i d, offset = 4\<rparr>)"
    using read_header(1) [OF fr] .
  have meta: "newMessage reg i = Some (type_of P x)" using reg i by (simp add: registry_ok_def newMessage_def)
  show ?thesis
  proof (cases "uint h \<le> maxArgSize")
    case False
    then have "Decode P reg (frame i d) 0 (length (frame i d)) maxArgSize = Ret (None, 0, Some (SizeLimit maxArgSize (uint h)))"
      using r1 by (simp add: Decode_def PBHeaderSize_def)
    then show ?thesis by (simp add: decode_value_def)
  next
    case True
    show ?thesis
    proof (cases "unmarshal P (type_of P x) d")
      case None
      have h0: "h \<noteq> 0" using h by auto
      have r2: "GetUint32 \<lparr>rbs = frame i d, offset = 4\<rparr> = (i, \<lparr>rbs = frame i d, offset = 8\<rparr>)"
        using read_header(2) [OF fr] by (simp add: be_get_put)
      have "drop 8 (frame i d) = d" by (simp add: frame_def)
      then have r3: "GetBytes \<lparr>rbs = frame i d, offset = 8\<rparr> (int (length d)) = Ret (d, \<lparr>rbs = frame i d, offset = 8 + length d\<rparr>)"
        by (simp add: GetBytes_def slice_advance_def window_def Let_def)
      have "Decode P reg (frame i d) 0 (length (frame i d)) maxArgSize = Ret (None, uint h + 4, Some UnmarshalError)"
        unfolding Decode_payload [OF n r1 True h0] r2 using r3 meta None h by simp
      then show ?thesis by (simp add: decode_value_def)
    next
      case (Some m)
      then show ?thesis using Decode_bytes [OF fr h True meta Some] d by (simp add: decode_value_def trip_def)
    qed
  qed
qed

lemma decode_encoded:
  assumes "registry_ok reg" and "encode_value g P reg v = Inr b"
  shows "(\<exists>e. decode_value P reg b = Ret (Inl e)) \<or> decode_value P reg b = Ret (Inr (trip P v))"
proof (cases v)
  case None
  then show ?thesis using assms(2) by (simp add: encode_value_def decode_value_def trip_def)
next
  case (Some x)
  then obtain d i where "marshal P x = Some d" "nameToTypeID reg (type_of P x) = Some i" "b = frame i d" "int (length d) \<le> maxArgSize"
    using encode_value_frame assms(2) by metis
  then show ?thesis using decode_frame_value [OF assms(1), of P x i d] Some by auto
qed

lemma decode_carried:
  assumes "registry_ok reg" and "carries P reg v"
  shows "\<exists>b. encode_value g P reg v = Inr b \<and> decode_value P reg b = Ret (Inr v)"
proof (cases v)
  case None
  then show ?thesis by (simp add: encode_value_def decode_value_def)
next
  case (Some x)
  then have f: "fits P reg maxArgSize x" using assms(2) by (simp add: carries_def)
  obtain b where b: "encode_value g P reg v = Inr b"
    using f Some by (auto simp: encode_value_def Encode_fresh fits_def)
  then obtain d i where d: "marshal P x = Some d" "nameToTypeID reg (type_of P x) = Some i" "b = frame i d"
    using encode_value_frame Some by metis
  then have w: "b = wire_form P reg x" "8 \<le> length (wire_form P reg x)" by (simp_all add: wire_form_def)
  then have "Decode P reg b 0 (length b) maxArgSize = Ret (Some x, int (length b), None)"
    using Decode_frame [OF f assms(1), of b "[]" "[]"] by simp
  moreover have "b \<noteq> []" using w by auto
  ultimately show ?thesis using b Some by (simp add: decode_value_def)
qed

text \<open>The two laws of the codec, for requests and responses: what one end has encoded the other refuses with an error, or
  decodes to the same message with its value and its error after the trip; no panic.\<close>

lemma request_trip:
  assumes "registry_ok reg" and "TestEncoder g P reg (Request r) = Inr obj"
  shows "(\<exists>e. TestDecoder errorf P reg obj = Ret (Inl e)) \<or>
         TestDecoder errorf P reg obj = Ret (Inr (Request (r\<lparr>req_arg := trip P (req_arg r)\<rparr>)))"
proof -
  obtain b where b: "encode_value g P reg (req_arg r) = Inr b"
    using assms(2) by (cases "encode_value g P reg (req_arg r)") (auto simp: TestEncoder_def)
  then have "obj = PbRequest \<lparr>pq_Seq = Some (req_seq r), pq_Method = Some (req_method r), pq_Arg = b, pq_NeedResp = Some (needResp r)\<rparr>"
    using assms(2) by (simp add: TestEncoder_def)
  then show ?thesis using decode_encoded [OF assms(1) b]
    by (auto simp: TestDecoder_def pq_GetSeq_def pq_GetMethod_def pq_GetNeedResp_def)
qed

lemma response_trip:
  assumes "registry_ok reg" and "TestEncoder g P reg (Response r) = Inr obj"
  shows "(\<exists>e. TestDecoder errorf P reg obj = Ret (Inl e)) \<or>
         TestDecoder errorf P reg obj =
           Ret (Inr (Response (r\<lparr>resp_ret := trip P (resp_ret r), resp_err := map_option (trip_err errorf) (resp_err r)\<rparr>)))"
proof -
  obtain b where b: "encode_value g P reg (resp_ret r) = Inr b"
    using assms(2) by (cases "encode_value g P reg (resp_ret r)") (auto simp: TestEncoder_def)
  then have "obj = PbResponse \<lparr>ps_Seq = Some (resp_seq r), ps_Err = map_option Error (resp_err r), ps_Ret = b\<rparr>"
    using assms(2) by (simp add: TestEncoder_def)
  then show ?thesis using decode_encoded [OF assms(1) b]
    by (cases "resp_err r") (auto simp: TestDecoder_def ps_GetSeq_def ps_GetErr_def trip_err_def)
qed

lemma request_carried:
  assumes "registry_ok reg" and "carries P reg (req_arg r)"
  shows "\<exists>obj. TestEncoder g P reg (Request r) = Inr obj \<and> TestDecoder errorf P reg obj = Ret (Inr (Request r))"
proof -
  from decode_carried [OF assms, of g] obtain b where "encode_value g P reg (req_arg r) = Inr b"
      "decode_value P reg b = Ret (Inr (req_arg r))" by blast
  then show ?thesis by (simp add: TestEncoder_def TestDecoder_def pq_GetSeq_def pq_GetMethod_def pq_GetNeedResp_def)
qed

lemma response_carried:
  assumes "registry_ok reg" and "carries P reg (resp_ret r)"
  shows "\<exists>obj. TestEncoder g P reg (Response r) = Inr obj \<and>
    TestDecoder errorf P reg obj = Ret (Inr (Response (r\<lparr>resp_err := map_option (trip_err errorf) (resp_err r)\<rparr>)))"
proof -
  from decode_carried [OF assms, of g] obtain b where "encode_value g P reg (resp_ret r) = Inr b"
      "decode_value P reg b = Ret (Inr (resp_ret r))" by blast
  then show ?thesis
    by (cases "resp_err r") (simp_all add: TestEncoder_def TestDecoder_def ps_GetSeq_def ps_GetErr_def trip_err_def)
qed

end
