(* ===== verification/RpcSystem.thy ===== *)
theory RpcSystem
  imports RpcCodec
begin

text \<open>
  Client and server of the RPC package together (\<open>src/rpc/client.go\<close>, \<open>src/rpc/server.go\<close>): one client, one server that other
  processes use too, and channels between them that may delay, reorder, duplicate and lose what they carry. The locale
  \<open>rpc_codec\<close> is the contract of \<open>RPCMessageEncoder\<close> and \<open>RPCMessageDecoder\<close>; it is interpreted on the codec of RpcCodec. The
  blocking wrapper \<open>Call\<close> is here too.
\<close>

section \<open>Definitions\<close>

text \<open>The state of both ends. \<open>asked\<close> is the history of the requests made: sequence number, method, argument; \<open>wired\<close> are
  the encoded requests handed to a channel. The responses are \<open>sent (srv N)\<close>.\<close>

record ('cb, 'h, 'm, 'w) net =
  cli :: "('cb, 'm) rpc_sys"
  srv :: "('h, 'm, 'w) rpc_server"
  asked :: "(uint64 \<times> string \<times> 'm) list"
  wired :: "'w list"

text \<open>The requests a server was given, each with its channel.\<close>

definition requests :: "('h, 'm, 'w) rpc_server \<Rightarrow> (chan_id \<times> 'm rpc_request) list" where
  "requests s = map (\<lambda>r. (channel r, req r)) (replyers s)"

text \<open>\<open>ok m a v e\<close> is the specification of the methods: \<open>m\<close> may answer argument \<open>a\<close> with result \<open>v\<close> and error \<open>e\<close>. The
  server itself answers with a nil result and an error, for a missing method and a handler that panics.\<close>

type_synonym 'm spec = "string \<Rightarrow> 'm \<Rightarrow> 'm \<Rightarrow> rpc_error option \<Rightarrow> bool"

definition answerable :: "'m spec \<Rightarrow> 'm \<Rightarrow> 'm spec" where
  "answerable ok nil m a v e \<longleftrightarrow> ok m a v e \<or> v = nil \<and> e \<noteq> None"

text \<open>Handlers that keep to the specification while they run, and a later reply that does.\<close>

definition conforms :: "'m spec \<Rightarrow> ('h, 'm) handler_run \<Rightarrow> ('h, 'm, 'w) rpc_server \<Rightarrow> bool" where
  "conforms ok run s \<longleftrightarrow>
     (\<forall>m h a v e. methods s m = Some h \<longrightarrow> DoReply v e \<in> set (fst (run h a)) \<longrightarrow> ok m a v e)"

fun permitted :: "'m spec \<Rightarrow> 'm \<Rightarrow> chan_id set \<Rightarrow> nat \<Rightarrow> 'm action \<Rightarrow> (chan_id \<times> 'm rpc_request) list \<Rightarrow> bool" where
  "permitted ok nil own i (DoReply v e) rs \<longleftrightarrow>
     (i < length rs \<longrightarrow> fst (rs ! i) \<in> own \<longrightarrow> answerable ok nil (req_method (snd (rs ! i))) (req_arg (snd (rs ! i))) v e)"
| "permitted ok nil own i DoDrop rs \<longleftrightarrow> True"

text \<open>The request that \<open>Post\<close> and \<open>AsynCall\<close> build, and what is handed to the channel if it can be encoded.\<close>

definition request_of :: "uint64 \<Rightarrow> string \<Rightarrow> 'm \<Rightarrow> bool \<Rightarrow> 'm rpc_message" where
  "request_of sq m a need = Request \<lparr>req_seq = sq, req_method = m, req_arg = a, needResp = need\<rparr>"

definition ask :: "('m, 'w) RpcServer.encoder \<Rightarrow> string \<Rightarrow> 'm \<Rightarrow> bool \<Rightarrow> ('cb, 'h, 'm, 'w) net \<Rightarrow> ('cb, 'h, 'm, 'w) net" where
  "ask encm m a need N =
     (let sq = sequence (client (cli N)) + 1 in
      N\<lparr>asked := asked N @ [(sq, m, a)],
        wired := wired N @ (case encm (request_of sq m a need) of None \<Rightarrow> [] | Some pk \<Rightarrow> [pk])\<rparr>)"

definition enc_err :: "('m, 'w) RpcServer.encoder \<Rightarrow> string \<Rightarrow> 'm \<Rightarrow> bool \<Rightarrow> ('cb, 'h, 'm, 'w) net \<Rightarrow> rpc_error option" where
  "enc_err encm m a need N =
     (case encm (request_of (sequence (client (cli N)) + 1) m a need) of None \<Rightarrow> Some (ErrOther ''encode error'') | Some pk \<Rightarrow> None)"

text \<open>The steps. A channel in \<open>own\<close> belongs to this client: what the server receives on it is some request the client handed to
  a channel, and what the client receives is some response the server sent on it, in any order and any number of times. On
  other channels the server receives anything.\<close>

inductive net_step :: "('m, 'w) RpcServer.encoder \<Rightarrow> ('w \<Rightarrow> 'm rpc_message option go) \<Rightarrow> 'm \<Rightarrow> chan_id set \<Rightarrow> 'm spec \<Rightarrow>
    ('cb, 'h, 'm, 'w) net \<Rightarrow> ('cb, 'h, 'm, 'w) net \<Rightarrow> bool"
  for encm decm nil own ok where
  n_post: "sequence (client (cli N)) \<noteq> - 1 \<Longrightarrow> Post (enc_err encm m a False N) sendErr (client (cli N)) = (c', r) \<Longrightarrow>
     net_step encm decm nil own ok N ((ask encm m a False N)\<lparr>cli := (cli N)\<lparr>client := c'\<rparr>\<rparr>)"
| n_call: "free_addr (client (cli N)) x \<Longrightarrow> free_addr (client (cli N)) h \<Longrightarrow> x \<noteq> h \<Longrightarrow> sequence (client (cli N)) \<noteq> - 1 \<Longrightarrow>
     AsynCall x h uid (Some f) (enc_err encm m a True N) sendErr (client (cli N)) = Ret (c', r) \<Longrightarrow>
     net_step encm decm nil own ok N ((ask encm m a True N)
       \<lparr>cli := (cli N)\<lparr>client := c', issued := issued (cli N) @ issue (sequence (client (cli N)) + 1) (Some f) r\<rparr>\<rparr>)"
| n_response: "(ch, pk) \<in> set (sent (srv N)) \<Longrightarrow> ch \<in> own \<Longrightarrow> decm pk = Ret msg \<Longrightarrow>
     RpcClient.OnRPCMessage msg (client (cli N)) = Ret (c', out) \<Longrightarrow>
     net_step encm decm nil own ok N (N\<lparr>cli := (cli N)\<lparr>client := c', log := log (cli N) @ out\<rparr>\<rparr>)"
| n_timeout: "ctx (client (cli N)) x = Some cl \<Longrightarrow> armed cl \<Longrightarrow> onTimeout x (client (cli N)) = Ret (c', out) \<Longrightarrow>
     net_step encm decm nil own ok N (N\<lparr>cli := (cli N)\<lparr>client := c', log := log (cli N) @ out\<rparr>\<rparr>)"
| n_disconnect: "OnChannelDisconnect fuel uid (client (cli N)) = Some (Ret (c', out)) \<Longrightarrow>
     net_step encm decm nil own ok N (N\<lparr>cli := (cli N)\<lparr>client := c', log := log (cli N) @ out\<rparr>\<rparr>)"
| n_request: "pk \<in> set (wired N) \<Longrightarrow> ch \<in> own \<Longrightarrow> decm pk = Ret msg \<Longrightarrow> conforms ok run (srv N) \<Longrightarrow>
     net_step encm decm nil own ok N (N\<lparr>srv := RpcServer.OnRPCMessage encm nil run ch msg (srv N)\<rparr>)"
| n_stopped: "pk \<in> set (wired N) \<Longrightarrow> ch \<in> own \<Longrightarrow> decm pk = Ret msg \<Longrightarrow>
     net_step encm decm nil own ok N (N\<lparr>srv := OnServiceStop encm nil ch msg (Some e) (srv N)\<rparr>)"
| n_foreign: "ch \<notin> own \<Longrightarrow> net_step encm decm nil own ok N (N\<lparr>srv := RpcServer.OnRPCMessage encm nil run ch msg (srv N)\<rparr>)"
| n_later: "permitted ok nil own i act0 (requests (srv N)) \<Longrightarrow>
     net_step encm decm nil own ok N (N\<lparr>srv := act encm i act0 (srv N)\<rparr>)"
| n_register: "net_step encm decm nil own ok N (N\<lparr>srv := fst (RegisterMethod name method (srv N))\<rparr>)"
| n_unregister: "net_step encm decm nil own ok N (N\<lparr>srv := UnRegisterMethod name (srv N)\<rparr>)"
| n_set_error: "net_step encm decm nil own ok N (N\<lparr>srv := SetErrorCodeOnMissingMethod err (srv N)\<rparr>)"

definition net_init :: "uint64 \<Rightarrow> ('cb, 'h, 'm, 'w) net" where
  "net_init sq = \<lparr>cli = \<lparr>client = NewClient sq, issued = [], log = []\<rparr>, srv = NewRPCServer, asked = [], wired = []\<rparr>"

inductive net_reach :: "('m, 'w) RpcServer.encoder \<Rightarrow> ('w \<Rightarrow> 'm rpc_message option go) \<Rightarrow> 'm \<Rightarrow> chan_id set \<Rightarrow> 'm spec \<Rightarrow>
    ('cb, 'h, 'm, 'w) net \<Rightarrow> bool"
  for encm decm nil own ok where
  net_start: "net_reach encm decm nil own ok (net_init sq)"
| net_next: "net_reach encm decm nil own ok N \<Longrightarrow> net_step encm decm nil own ok N N' \<Longrightarrow> net_reach encm decm nil own ok N'"

text \<open>\<open>Call\<close>: \<open>AsynCall\<close> with a callback that stores its arguments and closes \<open>waitC\<close>; unless \<open>AsynCall\<close> fails with \<open>r\<close>, the
  caller waits for \<open>waitC\<close>. The callbacks run so far decide: \<open>None\<close> is a caller that waits, a second run of the callback would
  close a closed channel.\<close>

definition Call_result :: "rpc_error option \<Rightarrow> uint64 \<Rightarrow> ('cb, 'm) fired list \<Rightarrow> ('m option \<times> rpc_error option) go option" where
  "Call_result r sq fs =
     (case r of
        Some e \<Rightarrow> Some (Ret (None, Some e))
      | None \<Rightarrow>
          (case filter (\<lambda>x. fst x = sq) fs of
             [] \<Rightarrow> None
           | [(s, f, ret, err)] \<Rightarrow> Some (Ret (ret, err))
           | _ \<Rightarrow> Some (Panic CloseOfClosed)))"

section \<open>What the client delivers\<close>

lemma message_out:
  fixes S :: "('cb, 'm) rpc_sys" and msg :: "'m rpc_message option"
  assumes "rpc_inv S" and "RpcClient.OnRPCMessage msg (client S) = Ret (c', out)" and "y \<in> set out"
  obtains r f where "msg = Some (Response r)" and "y = (resp_seq r, f, Some (resp_ret r), resp_err r)"
proof -
  obtain r where msg: "msg = Some (Response r)"
    using assms(2,3) by (auto simp: RpcClient.OnRPCMessage_def split: option.splits rpc_message.splits)
  show thesis
  proof (cases "callContexts (client S) (resp_seq r)")
    case None
    then show thesis using assms(2,3) by (simp add: RpcClient.OnRPCMessage_def msg removeCall_none)
  next
    case (Some a)
    from remove_answer_inv [OF assms(1) Some, of "Some (resp_ret r)" "resp_err r"] obtain f where
      "out = [(resp_seq r, f, Some (resp_ret r), resp_err r)]"
      using assms(2) by (auto simp: RpcClient.OnRPCMessage_def msg)
    then show thesis using that msg assms(3) by simp
  qed
qed

lemma fire_out: "y \<in> set (fire a ret err c) \<Longrightarrow> fst (snd (snd y)) = ret \<and> snd (snd (snd y)) = err"
  by (auto simp: fire_def split: option.splits)

lemma timeout_out:
  assumes "onTimeout a c = Ret (c', out)" and "y \<in> set out"
  shows "fst (snd (snd y)) = None \<and> snd (snd (snd y)) = Some ErrCallTimeout"
proof (cases "ctx c a")
  case (Some call)
  then show ?thesis using assms
    by (cases "removeCallBySeqno (seqno call) (stopTimer a c)") (auto simp: onTimeout_def Let_def dest!: fire_out split: if_splits)
qed (use assms in \<open>simp add: onTimeout_def\<close>)

lemma disconnect_loop_out:
  assumes "disconnect_loop fuel cur h c = Some (Ret (c', out))" and "y \<in> set out"
  shows "fst (snd (snd y)) = None \<and> snd (snd (snd y)) = Some ErrChannelDisconnected"
  using assms
proof (induction fuel arbitrary: cur c out)
  case (Suc fuel)
  then show ?case
    by (auto simp: Let_def map_ret_eq_Ret dest: fire_out split: option.splits if_splits)
qed simp

lemma disconnect_out:
  assumes "OnChannelDisconnect fuel uid c = Some (Ret (c', out))" and "y \<in> set out"
  shows "fst (snd (snd y)) = None \<and> snd (snd (snd y)) = Some ErrChannelDisconnected"
  using assms by (auto simp: OnChannelDisconnect_def dest: disconnect_loop_out split: prod.splits option.splits)

section \<open>The codec's contract and the invariant\<close>

text \<open>\<open>carry\<close> and \<open>carry_err\<close> are what the other end makes of a value and of an error.\<close>

locale rpc_codec =
  fixes encm :: "'m rpc_message \<Rightarrow> 'w option" and decm :: "'w \<Rightarrow> 'm rpc_message option go"
    and carry :: "'m \<Rightarrow> 'm" and carry_err :: "rpc_error \<Rightarrow> rpc_error"
  assumes request_back: "encm (Request r) = Some pk \<Longrightarrow>
      decm pk = Ret None \<or> decm pk = Ret (Some (Request (r\<lparr>req_arg := carry (req_arg r)\<rparr>)))"
    and response_back: "encm (Response s) = Some pk \<Longrightarrow>
      decm pk = Ret None \<or> decm pk = Ret (Some (Response (s\<lparr>resp_ret := carry (resp_ret s), resp_err := map_option carry_err (resp_err s)\<rparr>)))"

text \<open>A request at the server that this client made, a response that answers one, and a callback run with such an
  answer, with a timeout or with a disconnect.\<close>

definition genuine :: "('m \<Rightarrow> 'm) \<Rightarrow> (uint64 \<times> string \<times> 'm) list \<Rightarrow> 'm rpc_request \<Rightarrow> bool" where
  "genuine carry qs q \<longleftrightarrow> (\<exists>a. (req_seq q, req_method q, a) \<in> set qs \<and> req_arg q = carry a)"

definition answer_of :: "('m \<Rightarrow> 'm) \<Rightarrow> 'm spec \<Rightarrow> 'm \<Rightarrow> (uint64 \<times> string \<times> 'm) list \<Rightarrow> 'm rpc_response \<Rightarrow> bool" where
  "answer_of carry ok nil qs s \<longleftrightarrow>
     (\<exists>m a. (resp_seq s, m, a) \<in> set qs \<and> answerable ok nil m (carry a) (resp_ret s) (resp_err s))"

definition delivered :: "('m \<Rightarrow> 'm) \<Rightarrow> (rpc_error \<Rightarrow> rpc_error) \<Rightarrow> 'm spec \<Rightarrow> 'm \<Rightarrow> string \<Rightarrow> 'm \<Rightarrow> 'm option \<Rightarrow> rpc_error option \<Rightarrow> bool" where
  "delivered carry carry_err ok nil m a ret err \<longleftrightarrow>
     ret = None \<and> err \<in> {Some ErrCallTimeout, Some ErrChannelDisconnected} \<or>
     (\<exists>v e. ret = Some (carry v) \<and> err = map_option carry_err e \<and> answerable ok nil m (carry a) v e)"

definition server_ok :: "('m, 'w) RpcServer.encoder \<Rightarrow> ('m \<Rightarrow> 'm) \<Rightarrow> 'm spec \<Rightarrow> 'm \<Rightarrow> chan_id set \<Rightarrow> (uint64 \<times> string \<times> 'm) list \<Rightarrow>
    ('h, 'm, 'w) rpc_server \<Rightarrow> bool" where
  "server_ok encm carry ok nil own qs s \<longleftrightarrow>
     (\<forall>(ch, q) \<in> set (requests s). ch \<in> own \<longrightarrow> genuine carry qs q) \<and>
     (\<forall>(ch, pk) \<in> set (sent s). ch \<in> own \<longrightarrow> (\<exists>r. encm (Response r) = Some pk \<and> answer_of carry ok nil qs r))"

definition logged :: "('m \<Rightarrow> 'm) \<Rightarrow> (rpc_error \<Rightarrow> rpc_error) \<Rightarrow> 'm spec \<Rightarrow> 'm \<Rightarrow> (uint64 \<times> string \<times> 'm) list \<Rightarrow> ('cb, 'm) fired \<Rightarrow> bool" where
  "logged carry carry_err ok nil qs y \<longleftrightarrow>
     (case y of (sq, f, ret, err) \<Rightarrow>
        ret = None \<and> err \<in> {Some ErrCallTimeout, Some ErrChannelDisconnected} \<or>
        (\<exists>m a. (sq, m, a) \<in> set qs \<and> delivered carry carry_err ok nil m a ret err))"

lemma logged_mono: "logged carry carry_err ok nil qs y \<Longrightarrow> logged carry carry_err ok nil (qs @ qs') y"
  by (auto simp: logged_def split: prod.splits)

lemma server_ok_mono: "server_ok encm carry ok nil own qs s \<Longrightarrow> server_ok encm carry ok nil own (qs @ qs') s"
  unfolding server_ok_def genuine_def answer_of_def by fastforce

text \<open>What a server operation does to the two lists.\<close>

lemma requests_act [simp]: "requests (act encm i a s) = requests s"
proof -
  have "map (\<lambda>r. (channel r, req r)) ((replyers s)[i := (replyers s ! i)\<lparr>fired_flag := True\<rparr>]) = requests s"
    unfolding requests_def map_update by (cases "i < length (replyers s)") (auto simp: list_update_beyond list_update_same_conv)
  then show ?thesis
    by (cases a) (simp_all add: Reply_def DropResponse_def cas_fired_def reply_def requests_def Let_def split: option.split)
qed

lemma sent_Reply:
  "sent (Reply encm i v e s) = sent s \<or>
   (\<exists>pk. i < length (requests s) \<and>
      encm (Response \<lparr>resp_seq = req_seq (snd (requests s ! i)), resp_err = e, resp_ret = v\<rparr>) = Some pk \<and>
      sent (Reply encm i v e s) = sent s @ [(fst (requests s ! i), pk)])"
  by (auto simp: Reply_def cas_fired_def reply_def requests_def Let_def split: option.split)

lemma server_ok_act:
  assumes inv: "server_ok encm carry ok nil own qs s" and "permitted ok nil own i a (requests s)"
  shows "server_ok encm carry ok nil own qs (act encm i a s)"
proof (cases a)
  case (DoReply v e)
  have ra: "requests (Reply encm i v e s) = requests s" using requests_act [of encm i "DoReply v e" s] by simp
  from sent_Reply [of encm i v e s] show ?thesis
  proof (elim disjE exE conjE)
    assume "sent (Reply encm i v e s) = sent s"
    then show ?thesis using inv DoReply ra by (simp add: server_ok_def)
  next
    fix pk
    let ?q = "requests s ! i"
    let ?r = "\<lparr>resp_seq = req_seq (snd ?q), resp_err = e, resp_ret = v\<rparr>"
    assume i: "i < length (requests s)" and pk: "encm (Response ?r) = Some pk"
      and st: "sent (Reply encm i v e s) = sent s @ [(fst ?q, pk)]"
    have "answer_of carry ok nil qs ?r" if own: "fst ?q \<in> own"
    proof -
      have "genuine carry qs (snd ?q)" using inv nth_mem [OF i] own unfolding server_ok_def by fastforce
      then show ?thesis using assms(2) i own DoReply by (fastforce simp: genuine_def answer_of_def)
    qed
    then show ?thesis using inv DoReply ra st pk by (auto simp: server_ok_def)
  qed
next
  case DoDrop
  then show ?thesis using inv requests_act [of encm i DoDrop s]
    by (simp add: server_ok_def DropResponse_def cas_fired_def Let_def split: if_splits)
qed

lemma server_ok_acts:
  assumes "server_ok encm carry ok nil own qs s" and "\<forall>a \<in> set as. permitted ok nil own i a (requests s)"
  shows "server_ok encm carry ok nil own qs (fold (act encm i) as s) \<and> requests (fold (act encm i) as s) = requests s"
  using assms by (induction as arbitrary: s) (simp_all add: server_ok_act)

lemma server_ok_Reply:
  assumes "server_ok encm carry ok nil own qs s" and "permitted ok nil own i (DoReply v e) (requests s)"
  shows "server_ok encm carry ok nil own qs (Reply encm i v e s)"
  using server_ok_act [OF assms] by simp

lemma server_ok_request:
  assumes inv: "server_ok encm carry ok nil own qs s" and q: "ch \<in> own \<longrightarrow> genuine carry qs q \<and> conforms ok run s"
  shows "server_ok encm carry ok nil own qs (RpcServer.OnRPCMessage encm nil run ch (Some (Request q)) s)"
proof -
  let ?i = "length (replyers s)"
  let ?s1 = "s\<lparr>replyers := replyers s @ [\<lparr>channel = ch, req = q, fired_flag = False\<rparr>], pendingCount := pendingCount s + 1\<rparr>"
  have rq: "requests ?s1 = requests s @ [(ch, q)]" "length (requests s) = ?i" "(requests s @ [(ch, q)]) ! ?i = (ch, q)"
    by (simp_all add: requests_def nth_append)
  have inv1: "server_ok encm carry ok nil own qs ?s1" using inv q rq(1) by (auto simp: server_ok_def)
  have err: "permitted ok nil own ?i (DoReply nil (Some e)) (requests t)" if "requests t = requests ?s1" for e and t :: "('d, 'a, 'b) rpc_server"
    using that rq by (simp add: answerable_def)
  show ?thesis
  proof (cases "methods s (req_method q)")
    case None
    then show ?thesis using server_ok_Reply [OF inv1 err [OF refl]]
      by (simp add: RpcServer.OnRPCMessage_def Let_def split: option.split)
  next
    case (Some h)
    let ?t = "fold (act encm ?i) (fst (run h (req_arg q))) ?s1"
    have "permitted ok nil own ?i a (requests ?s1)" if "a \<in> set (fst (run h (req_arg q)))" for a
      by (rule action.exhaust [of a]) (use that rq q Some in \<open>auto simp: answerable_def conforms_def\<close>)
    then have t: "server_ok encm carry ok nil own qs ?t" "requests ?t = requests ?s1"
      using server_ok_acts [OF inv1, of "fst (run h (req_arg q))" ?i] by simp_all
    have "RpcServer.OnRPCMessage encm nil run ch (Some (Request q)) s =
        (case snd (run h (req_arg q)) of None \<Rightarrow> ?t | Some r \<Rightarrow> Reply encm ?i nil (Some (ErrOther r)) ?t)"
      using Some by (cases "run h (req_arg q)") (simp add: RpcServer.OnRPCMessage_def callMethod_def Let_def split: option.split)
    then show ?thesis using t(1) server_ok_Reply [OF t(1) err [OF t(2)]] by (simp split: option.split)
  qed
qed

lemma server_ok_stop:
  assumes "server_ok encm carry ok nil own qs s" and "ch \<in> own \<longrightarrow> genuine carry qs q"
  shows "server_ok encm carry ok nil own qs (OnServiceStop encm nil ch (Some (Request q)) (Some e) s)"
proof -
  let ?r = "\<lparr>resp_seq = req_seq q, resp_err = Some e, resp_ret = nil\<rparr>"
  have "answer_of carry ok nil qs ?r" if "ch \<in> own"
    using assms(2) that by (auto simp: genuine_def answer_of_def answerable_def)
  then show ?thesis using assms(1)
    by (auto simp: OnServiceStop_def reply_def server_ok_def requests_def split: option.split)
qed

lemma server_ignores:
  assumes "\<And>q. msg \<noteq> Some (Request q)"
  shows "RpcServer.OnRPCMessage encm nil run ch msg s = s" and "OnServiceStop encm nil ch msg e s = s"
  using assms by (auto simp: RpcServer.OnRPCMessage_def OnServiceStop_def split: option.split rpc_message.split)

lemma server_ok_table:
  assumes "server_ok encm carry ok nil own qs s"
  shows "server_ok encm carry ok nil own qs (fst (RegisterMethod name method s))"
    and "server_ok encm carry ok nil own qs (UnRegisterMethod name s)"
    and "server_ok encm carry ok nil own qs (SetErrorCodeOnMissingMethod err s)"
  using assms by (auto simp: server_ok_def requests_def RegisterMethod_def UnRegisterMethod_def SetErrorCodeOnMissingMethod_def split: option.split)

text \<open>The invariant of both ends. Sequence numbers of requests are distinct and not ahead of the counter.\<close>

definition net_inv :: "('m, 'w) RpcServer.encoder \<Rightarrow> ('m \<Rightarrow> 'm) \<Rightarrow> (rpc_error \<Rightarrow> rpc_error) \<Rightarrow> 'm spec \<Rightarrow> 'm \<Rightarrow> chan_id set \<Rightarrow>
    ('cb, 'h, 'm, 'w) net \<Rightarrow> bool" where
  "net_inv encm carry carry_err ok nil own N \<longleftrightarrow>
     rpc_reach (cli N) \<and>
     distinct (map fst (asked N)) \<and> (\<forall>sq \<in> fst ` set (asked N). sq \<le> sequence (client (cli N))) \<and>
     (\<forall>pk \<in> set (wired N). \<exists>q. encm (Request q) = Some pk \<and> (req_seq q, req_method q, req_arg q) \<in> set (asked N)) \<and>
     server_ok encm carry ok nil own (asked N) (srv N) \<and>
     (\<forall>y \<in> set (log (cli N)). logged carry carry_err ok nil (asked N) y)"

lemma net_invD:
  assumes "net_inv encm carry carry_err ok nil own N"
  shows "rpc_reach (cli N)" and "rpc_inv (cli N)" and "distinct (map fst (asked N))"
    and "sq \<in> fst ` set (asked N) \<Longrightarrow> sq \<le> sequence (client (cli N))"
    and "pk \<in> set (wired N) \<Longrightarrow> \<exists>q. encm (Request q) = Some pk \<and> (req_seq q, req_method q, req_arg q) \<in> set (asked N)"
    and "server_ok encm carry ok nil own (asked N) (srv N)"
    and "y \<in> set (log (cli N)) \<Longrightarrow> logged carry carry_err ok nil (asked N) y"
proof -
  show r: "rpc_reach (cli N)" "distinct (map fst (asked N))" "server_ok encm carry ok nil own (asked N) (srv N)"
    using assms by (simp_all add: net_inv_def)
  show "rpc_inv (cli N)" using rpc_reach_inv [OF r(1)] .
  show "sq \<in> fst ` set (asked N) \<Longrightarrow> sq \<le> sequence (client (cli N))"
    using assms unfolding net_inv_def by blast
  show "pk \<in> set (wired N) \<Longrightarrow> \<exists>q. encm (Request q) = Some pk \<and> (req_seq q, req_method q, req_arg q) \<in> set (asked N)"
    using assms unfolding net_inv_def by blast
  show "y \<in> set (log (cli N)) \<Longrightarrow> logged carry carry_err ok nil (asked N) y"
    using assms unfolding net_inv_def by blast
qed

text \<open>A step of the client that makes a request, one that runs callbacks, and a step of the server.\<close>

lemma net_inv_ask:
  assumes inv: "net_inv encm carry carry_err ok nil own N" and nowrap: "sequence (client (cli N)) \<noteq> - 1"
    and S: "rpc_step (cli N) S" "log S = log (cli N)" "sequence (client S) = sequence (client (cli N)) + 1"
  shows "net_inv encm carry carry_err ok nil own ((ask encm m a need N)\<lparr>cli := S\<rparr>)" (is "net_inv _ _ _ _ _ _ ?N")
proof -
  let ?sq = "sequence (client (cli N)) + 1"
  have less: "sequence (client (cli N)) < ?sq" using word_less_succ [OF nowrap] .
  have new: "?sq \<notin> fst ` set (asked N)" using net_invD(4) [OF inv, of ?sq] less leD by blast
  have f: "asked ?N = asked N @ [(?sq, m, a)]" "cli ?N = S" "srv ?N = srv N"
      "wired ?N = wired N @ (case encm (request_of ?sq m a need) of None \<Rightarrow> [] | Some pk \<Rightarrow> [pk])"
    by (simp_all add: ask_def Let_def)
  show ?thesis unfolding net_inv_def f
  proof (intro conjI)
    show "rpc_reach S" using rpc_reach.step [OF net_invD(1) [OF inv] S(1)] .
    show "distinct (map fst (asked N @ [(?sq, m, a)]))" using net_invD(3) [OF inv] new by simp
    show "\<forall>sq \<in> fst ` set (asked N @ [(?sq, m, a)]). sq \<le> sequence (client S)"
    proof
      fix sq assume "sq \<in> fst ` set (asked N @ [(?sq, m, a)])"
      then consider "sq \<in> fst ` set (asked N)" | "sq = ?sq" by auto
      then show "sq \<le> sequence (client S)"
        by cases (use net_invD(4) [OF inv, of sq] less S(3) in auto)
    qed
    show "\<forall>pk \<in> set (wired N @ (case encm (request_of ?sq m a need) of None \<Rightarrow> [] | Some pk \<Rightarrow> [pk])).
        \<exists>q. encm (Request q) = Some pk \<and> (req_seq q, req_method q, req_arg q) \<in> set (asked N @ [(?sq, m, a)])"
    proof
      fix pk assume "pk \<in> set (wired N @ (case encm (request_of ?sq m a need) of None \<Rightarrow> [] | Some pk \<Rightarrow> [pk]))"
      then consider "pk \<in> set (wired N)" | "encm (request_of ?sq m a need) = Some pk" by (auto split: option.splits)
      then show "\<exists>q. encm (Request q) = Some pk \<and> (req_seq q, req_method q, req_arg q) \<in> set (asked N @ [(?sq, m, a)])"
        by cases (use net_invD(5) [OF inv, of pk] in \<open>auto simp: request_of_def intro: exI [of _ "\<lparr>req_seq = ?sq, req_method = m, req_arg = a, needResp = need\<rparr>"]\<close>)
    qed
    show "server_ok encm carry ok nil own (asked N @ [(?sq, m, a)]) (srv N)"
      using server_ok_mono [OF net_invD(6) [OF inv]] .
    show "\<forall>y \<in> set (log S). logged carry carry_err ok nil (asked N @ [(?sq, m, a)]) y"
      using logged_mono [OF net_invD(7) [OF inv]] S(2) by simp
  qed
qed

lemma net_inv_fire:
  assumes inv: "net_inv encm carry carry_err ok nil own N"
    and S: "rpc_step (cli N) ((cli N)\<lparr>client := c', log := log (cli N) @ out\<rparr>)" "sequence c' = sequence (client (cli N))"
    and out: "\<And>y. y \<in> set out \<Longrightarrow> logged carry carry_err ok nil (asked N) y"
  shows "net_inv encm carry carry_err ok nil own (N\<lparr>cli := (cli N)\<lparr>client := c', log := log (cli N) @ out\<rparr>\<rparr>)"
proof -
  have "rpc_reach ((cli N)\<lparr>client := c', log := log (cli N) @ out\<rparr>)" using rpc_reach.step [OF net_invD(1) [OF inv] S(1)] .
  moreover have "\<forall>y \<in> set (log (cli N) @ out). logged carry carry_err ok nil (asked N) y"
    using net_invD(7) [OF inv] out by auto
  ultimately show ?thesis using inv S(2) unfolding net_inv_def by simp
qed

lemma net_inv_server:
  "net_inv encm carry carry_err ok nil own N \<Longrightarrow> server_ok encm carry ok nil own (asked N) s \<Longrightarrow>
     net_inv encm carry carry_err ok nil own (N\<lparr>srv := s\<rparr>)"
  by (simp add: net_inv_def)

text \<open>No operation of the client but a call moves the counter.\<close>

lemma sequence_stopTimer [simp]: "sequence (stopTimer a c) = sequence c"
  by (simp add: stopTimer_def)

lemma sequence_remove: "removeCallBySeqno sq c = Ret (c', r) \<Longrightarrow> sequence c' = sequence c"
  by (auto simp: removeCallBySeqno_def Let_def bind_go_eq_Ret split: option.splits)

lemma sequence_message: "RpcClient.OnRPCMessage msg c = Ret (c', out) \<Longrightarrow> sequence c' = sequence c"
  by (auto simp: RpcClient.OnRPCMessage_def bind_go_eq_Ret sequence_remove split: option.splits rpc_message.splits)

lemma sequence_timeout: "onTimeout a c = Ret (c', out) \<Longrightarrow> sequence c' = sequence c"
  by (auto simp: onTimeout_def bind_go_eq_Ret Let_def dest: sequence_remove split: option.splits)

lemma sequence_loop: "disconnect_loop fuel cur h c = Some (Ret (c', out)) \<Longrightarrow> sequence c' = sequence c"
proof (induction fuel arbitrary: cur c out)
  case (Suc fuel)
  then show ?case by (auto simp: Let_def map_ret_eq_Ret dest!: Suc.IH split: option.splits if_splits)
qed simp

lemma sequence_disconnect: "OnChannelDisconnect fuel uid c = Some (Ret (c', out)) \<Longrightarrow> sequence c' = sequence c"
  by (auto simp: OnChannelDisconnect_def disconnect_take_def dest!: sequence_loop split: option.splits prod.splits)

lemma sequence_addCall: "addCall a h call c = Ret c' \<Longrightarrow> sequence c' = sequence c"
  by (auto simp: addCall_def Let_def bind_go_eq_Ret split: option.splits prod.splits)

lemma sequence_AsynCall: "AsynCall a h uid (Some f) encErr sendErr c = Ret (c', r) \<Longrightarrow> sequence c' = sequence c + 1"
  by (auto simp: AsynCall_def Let_def bind_go_eq_Ret dest!: sequence_addCall sequence_remove split: option.splits)

lemmas sequence_kept = sequence_message sequence_timeout sequence_disconnect

context rpc_codec
begin

lemma response_logged:
  assumes "server_ok encm carry ok nil own qs s" and "(ch, pk) \<in> set (sent s)" "ch \<in> own" and "decm pk = Ret (Some (Response r))"
  shows "logged carry carry_err ok nil qs (resp_seq r, f, Some (resp_ret r), resp_err r)"
proof -
  obtain r0 where "encm (Response r0) = Some pk" "answer_of carry ok nil qs r0"
    using assms(1-3) unfolding server_ok_def by fastforce
  then show ?thesis
    using response_back [of r0 pk] assms(4) unfolding logged_def answer_of_def delivered_def by auto
qed

lemma request_genuine:
  assumes "encm (Request q0) = Some pk" "(req_seq q0, req_method q0, req_arg q0) \<in> set qs" and "decm pk = Ret (Some (Request q))"
  shows "genuine carry qs q"
  using request_back [OF assms(1)] assms(2,3) unfolding genuine_def by auto

lemma net_step_inv:
  assumes "net_step encm decm nil own ok N N'" and inv: "net_inv encm carry carry_err ok nil own N"
  shows "net_inv encm carry carry_err ok nil own N'"
  using assms(1)
proof cases
  case (n_post m a sendErr c' r)
  have "c' = (client (cli N))\<lparr>sequence := sequence (client (cli N)) + 1\<rparr>"
    using n_post(3) by (auto simp: Post_def Let_def split: option.splits)
  then show ?thesis unfolding n_post(1)
    using net_inv_ask [OF inv n_post(2) rpc_step.post [OF n_post(2,3)]] by simp
next
  case (n_call x h uid f m a sendErr c' r)
  then show ?thesis unfolding n_call(1)
    using net_inv_ask [OF inv n_call(5) rpc_step.call [OF n_call(2-6)]] sequence_AsynCall [OF n_call(6)] by simp
next
  case (n_response ch pk msg c' out)
  have "logged carry carry_err ok nil (asked N) y" if "y \<in> set out" for y
    using message_out [OF net_invD(2) [OF inv] n_response(5) that] response_logged [OF net_invD(6) [OF inv] n_response(2,3)] n_response(4)
    by metis
  then show ?thesis unfolding n_response(1)
    by (rule net_inv_fire [OF inv rpc_step.message [OF n_response(5)] sequence_message [OF n_response(5)]])
next
  case (n_timeout x cl c' out)
  have "logged carry carry_err ok nil (asked N) y" if "y \<in> set out" for y
    using timeout_out [OF n_timeout(4) that] by (auto simp: logged_def split: prod.splits)
  then show ?thesis unfolding n_timeout(1)
    by (rule net_inv_fire [OF inv rpc_step.timeout [OF n_timeout(2-4)] sequence_timeout [OF n_timeout(4)]])
next
  case (n_disconnect fuel uid c' out)
  have "logged carry carry_err ok nil (asked N) y" if "y \<in> set out" for y
    using disconnect_out [OF n_disconnect(2) that] by (auto simp: logged_def split: prod.splits)
  then show ?thesis unfolding n_disconnect(1)
    by (rule net_inv_fire [OF inv rpc_step.disconnect [OF n_disconnect(2)] sequence_disconnect [OF n_disconnect(2)]])
next
  case (n_request pk ch msg run)
  have "server_ok encm carry ok nil own (asked N) (RpcServer.OnRPCMessage encm nil run ch msg (srv N))"
  proof (cases "\<exists>q. msg = Some (Request q)")
    case True
    then obtain q where q: "msg = Some (Request q)" by blast
    have "genuine carry (asked N) q" using net_invD(5) [OF inv n_request(2)] request_genuine n_request(4) q by blast
    then show ?thesis unfolding q using server_ok_request [OF net_invD(6) [OF inv]] n_request(5) by blast
  qed (use net_invD(6) [OF inv] server_ignores in metis)
  then show ?thesis unfolding n_request(1) by (rule net_inv_server [OF inv])
next
  case (n_stopped pk ch msg e)
  have "server_ok encm carry ok nil own (asked N) (OnServiceStop encm nil ch msg (Some e) (srv N))"
  proof (cases "\<exists>q. msg = Some (Request q)")
    case True
    then obtain q where q: "msg = Some (Request q)" by blast
    have "genuine carry (asked N) q" using net_invD(5) [OF inv n_stopped(2)] request_genuine n_stopped(4) q by blast
    then show ?thesis unfolding q using server_ok_stop [OF net_invD(6) [OF inv]] by blast
  qed (use net_invD(6) [OF inv] server_ignores in metis)
  then show ?thesis unfolding n_stopped(1) by (rule net_inv_server [OF inv])
next
  case (n_foreign ch run msg)
  have "server_ok encm carry ok nil own (asked N) (RpcServer.OnRPCMessage encm nil run ch msg (srv N))"
  proof (cases "\<exists>q. msg = Some (Request q)")
    case True
    then show ?thesis using server_ok_request [OF net_invD(6) [OF inv], of ch] n_foreign(2) by blast
  qed (use net_invD(6) [OF inv] server_ignores in metis)
  then show ?thesis unfolding n_foreign(1) by (rule net_inv_server [OF inv])
next
  case (n_later i act0)
  then show ?thesis using net_inv_server [OF inv] server_ok_act [OF net_invD(6) [OF inv]] by blast
qed (use net_inv_server [OF inv] server_ok_table [OF net_invD(6) [OF inv]] in blast)+

end

lemma AsynCall_sent:
  assumes "rpc_inv S" and "free_addr (client S) x" "free_addr (client S) h" "x \<noteq> h" "sequence (client S) \<noteq> - 1"
  shows "\<exists>c1. AsynCall x h uid (Some f) None None (client S) = Ret (c1, None)"
proof -
  obtain c1 r where c1: "AsynCall x h uid (Some f) None None (client S) = Ret (c1, r)"
    using call_ok [OF assms, of uid "Some f" None None] by blast
  then have "r = None" by (auto simp: AsynCall_def Let_def bind_go_eq_Ret)
  then show ?thesis using c1 by blast
qed

lemma call_registered:
  assumes "AsynCall x h uid (Some f) None None c = Ret (c1, None)"
  shows "callContexts c1 (sequence c + 1) = Some x"
    and "ctx c1 x = Some \<lparr>seqno = sequence c + 1, channelID = uid, onResponse = f, armed = True\<rparr>"
  using assms by (auto simp: AsynCall_def addCall_def Let_def bind_go_eq_Ret split: option.splits)

lemma answer_pending:
  assumes "rpc_inv S" and "callContexts (client S) (resp_seq r) = Some x" and "ctx (client S) x = Some call"
  shows "\<exists>c'. RpcClient.OnRPCMessage (Some (Response r)) (client S) =
    Ret (c', [(resp_seq r, onResponse call, Some (resp_ret r), resp_err r)])"
proof -
  obtain rs where rs: "client_inv (client S) rs" using rpc_invD(1) [OF assms(1)] by blast
  have "seqno call = resp_seq r" using client_invD(4) [OF rs assms(2)] assms(3) by auto
  then show ?thesis using removeCall_some [OF rs assms(2)] assms(3)
    by (auto simp: RpcClient.OnRPCMessage_def fire_def ctx_stopTimer)
qed

context rpc_codec
begin

lemma net_reach_inv: "net_reach encm decm nil own ok N \<Longrightarrow> net_inv encm carry carry_err ok nil own N"
proof (induction rule: net_reach.induct)
  case (net_start sq)
  have "rpc_reach \<lparr>client = NewClient sq, issued = [], log = []\<rparr>" by (rule rpc_reach.init)
  then show ?case by (simp add: net_inv_def net_init_def server_ok_def requests_def NewRPCServer_def)
next
  case (net_next N N')
  then show ?case using net_step_inv by blast
qed

text \<open>Nothing on a channel of the client makes either end's decoder panic.\<close>

lemma no_decoder_panic:
  assumes "net_reach encm decm nil own ok N"
    and "pk \<in> set (wired N) \<or> (\<exists>ch \<in> own. (ch, pk) \<in> set (sent (srv N)))"
  shows "\<exists>msg. decm pk = Ret msg"
  using assms(2)
proof
  assume "pk \<in> set (wired N)"
  then show ?thesis using net_invD(5) [OF net_reach_inv [OF assms(1)]] request_back by blast
next
  assume "\<exists>ch \<in> own. (ch, pk) \<in> set (sent (srv N))"
  then obtain r where "encm (Response r) = Some pk"
    using net_invD(6) [OF net_reach_inv [OF assms(1)]] unfolding server_ok_def by fastforce
  then show ?thesis using response_back by blast
qed

lemma exactly_one_answer:
  assumes reach: "net_reach encm decm nil own ok N" and "(sq, f) \<in> set (issued (cli N))" and asked: "(sq, m, a) \<in> set (asked N)"
  shows "callContexts (client (cli N)) sq \<noteq> None \<and> filter (\<lambda>y. fst y = sq) (log (cli N)) = [] \<or>
         callContexts (client (cli N)) sq = None \<and>
           (\<exists>ret err. filter (\<lambda>y. fst y = sq) (log (cli N)) = [(sq, f, ret, err)] \<and> delivered carry carry_err ok nil m a ret err)"
proof -
  note inv = net_reach_inv [OF reach]
  from answered_once [OF net_invD(2) [OF inv] assms(2)] show ?thesis
  proof (elim disjE exE conjE)
    fix ret err
    assume none: "callContexts (client (cli N)) sq = None" and one: "filter (\<lambda>y. fst y = sq) (log (cli N)) = [(sq, f, ret, err)]"
    have "(sq, f, ret, err) \<in> set (filter (\<lambda>y. fst y = sq) (log (cli N)))" unfolding one by simp
    then have "logged carry carry_err ok nil (asked N) (sq, f, ret, err)" using net_invD(7) [OF inv] by simp
    then have "delivered carry carry_err ok nil m a ret err"
      using asked eq_key_imp_eq_value [OF net_invD(3) [OF inv]] by (fastforce simp: logged_def delivered_def)
    then show ?thesis using none one by blast
  qed blast
qed

text \<open>A call that the server answers at once and whose response arrives: the callback runs with the answer.\<close>

lemma call_answered:
  assumes inv: "rpc_inv S" and call: "(AsynCall x h uid (Some f) None None (client S)) = Ret (c1, None)"
    and free: "free_addr (client S) x" "free_addr (client S) h" "x \<noteq> h" "sequence (client S) \<noteq> - 1"
    and req: "encm (request_of (sequence (client S) + 1) m a True) = Some pk" "decm pk \<noteq> Ret None"
    and run: "methods s m = Some hd0" "run hd0 (carry a) = ([DoReply v e], None)"
    and resp: "encm (Response \<lparr>resp_seq = sequence (client S) + 1, resp_err = e, resp_ret = v\<rparr>) = Some pk'" "decm pk' \<noteq> Ret None"
  shows "\<exists>msg msg' c2. decm pk = Ret msg \<and> sent (RpcServer.OnRPCMessage encm nil run ch msg s) = sent s @ [(ch, pk')] \<and>
    decm pk' = Ret msg' \<and> RpcClient.OnRPCMessage msg' c1 = Ret (c2, [(sequence (client S) + 1, f, Some (carry v), map_option carry_err e)])"
proof -
  let ?sq = "sequence (client S) + 1"
  let ?q = "\<lparr>req_seq = ?sq, req_method = m, req_arg = carry a, needResp = True\<rparr>"
  let ?r = "\<lparr>resp_seq = ?sq, resp_err = map_option carry_err e, resp_ret = carry v\<rparr>"
  have d: "decm pk = Ret (Some (Request ?q))" using request_back [OF req(1) [unfolded request_of_def]] req(2) by simp
  have d': "decm pk' = Ret (Some (Response ?r))" using response_back [OF resp(1)] resp(2) by simp
  have st: "sent (RpcServer.OnRPCMessage encm nil run ch (Some (Request ?q)) s) = sent s @ [(ch, pk')]"
    using run resp(1) by (simp add: RpcServer.OnRPCMessage_def callMethod_def Reply_def cas_fired_def reply_def Let_def)
  let ?S = "S\<lparr>client := c1, issued := issued S @ issue ?sq (Some f) None\<rparr>"
  have inv1: "rpc_inv ?S" using rpc_step_inv [OF rpc_step.call [OF free call] inv] .
  have "\<exists>c2. RpcClient.OnRPCMessage (Some (Response ?r)) c1 = Ret (c2, [(?sq, f, Some (carry v), map_option carry_err e)])"
    using answer_pending [OF inv1, of ?r x] call_registered [OF call] by simp
  then show ?thesis using d d' st by blast
qed

end

section \<open>The codec of the RPC programs keeps the contract\<close>

definition test_enc :: "growth \<Rightarrow> 'v proto \<Rightarrow> registry \<Rightarrow> 'v option rpc_message \<Rightarrow> pb_object option" where
  "test_enc g P reg msg = (case TestEncoder g P reg msg of Inl e \<Rightarrow> None | Inr obj \<Rightarrow> Some obj)"

definition test_dec :: "(string \<Rightarrow> string) \<Rightarrow> 'v proto \<Rightarrow> registry \<Rightarrow> pb_object \<Rightarrow> 'v option rpc_message option go" where
  "test_dec errorf P reg obj = map_ret (\<lambda>r. case r of Inl e \<Rightarrow> None | Inr msg \<Rightarrow> Some msg) (TestDecoder errorf P reg obj)"

lemma test_enc_Some: "test_enc g P reg msg = Some obj \<longleftrightarrow> TestEncoder g P reg msg = Inr obj"
  by (simp add: test_enc_def split: sum.split)

interpretation tc: rpc_codec "test_enc g P (register_all ts)" "test_dec errorf P (register_all ts)" "trip P" "trip_err errorf"
  for g P ts errorf
proof unfold_locales
  let ?reg = "register_all ts"
  show "test_dec errorf P ?reg pk = Ret None \<or> test_dec errorf P ?reg pk = Ret (Some (Request (r\<lparr>req_arg := trip P (req_arg r)\<rparr>)))"
    if "test_enc g P ?reg (Request r) = Some pk" for r pk
    using request_trip [OF registry_ok_all that [unfolded test_enc_Some], of errorf] by (auto simp: test_dec_def)
  show "test_dec errorf P ?reg pk = Ret None \<or>
      test_dec errorf P ?reg pk =
        Ret (Some (Response (s\<lparr>resp_ret := trip P (resp_ret s), resp_err := map_option (trip_err errorf) (resp_err s)\<rparr>)))"
    if "test_enc g P ?reg (Response s) = Some pk" for s pk
    using response_trip [OF registry_ok_all that [unfolded test_enc_Some], of errorf] by (auto simp: test_dec_def)
qed

lemma carried_request:
  assumes "carries P (register_all ts) (req_arg r)"
  shows "\<exists>pk. test_enc g P (register_all ts) (Request r) = Some pk \<and> test_dec errorf P (register_all ts) pk = Ret (Some (Request r))"
  using request_carried [OF registry_ok_all assms, of g errorf] by (auto simp: test_enc_Some test_dec_def)

lemma carried_response:
  assumes "carries P (register_all ts) (resp_ret s)"
  shows "\<exists>pk. test_enc g P (register_all ts) (Response s) = Some pk \<and>
    test_dec errorf P (register_all ts) pk = Ret (Some (Response (s\<lparr>resp_err := map_option (trip_err errorf) (resp_err s)\<rparr>)))"
  using response_carried [OF registry_ok_all assms, of g errorf] by (auto simp: test_enc_Some test_dec_def)

section \<open>Properties\<close>

text \<open>C4. RPC from end to end, with the codec of the RPC programs: whatever the channels between the ends delay, reorder, duplicate or
  lose, whatever other processes ask of the server, and however calls, responses, late replies, timeouts and disconnects
  interleave, a call that was issued is either pending with its callback not run, or its own callback has run exactly once,
  and then with a timeout or a disconnect, or with an answer to this very call: a result and an error that the specification of the
  method allows for the argument as the server decoded it, or a nil result with an error from the server.\<close>

theorem rpc_end_to_end:
  assumes "net_reach (test_enc g P (register_all ts)) (test_dec errorf P (register_all ts)) None own ok N"
    and "(sq, f) \<in> set (issued (cli N))" and "(sq, m, a) \<in> set (asked N)"
  shows "callContexts (client (cli N)) sq \<noteq> None \<and> filter (\<lambda>y. fst y = sq) (log (cli N)) = [] \<or>
         callContexts (client (cli N)) sq = None \<and>
           (\<exists>ret err. filter (\<lambda>y. fst y = sq) (log (cli N)) = [(sq, f, ret, err)] \<and>
              (ret = None \<and> err \<in> {Some ErrCallTimeout, Some ErrChannelDisconnected} \<or>
               (\<exists>v e. ret = Some (trip P v) \<and> err = map_option (trip_err errorf) e \<and>
                  (ok m (trip P a) v e \<or> v = None \<and> e \<noteq> None))))"
  using tc.exactly_one_answer [OF assms] unfolding delivered_def answerable_def .

text \<open>A run for the witness: a call of a method that the server does not have, its request, the error response.\<close>

definition ping_call :: "(string, unit, byte list option, pb_object) net" where
  "ping_call = (ask (test_enc double raw_proto (register_all [])) ''ping'' None True (net_init 0))\<lparr>cli := \<lparr>client = client one_call, issued = [(1, ''cb'')], log = []\<rparr>\<rparr>"

abbreviation ping_reach :: "(string, unit, byte list option, pb_object) net \<Rightarrow> bool" where
  "ping_reach \<equiv> net_reach (test_enc double raw_proto (register_all [])) (test_dec id raw_proto (register_all [])) None {3} (\<lambda>m a v e. False)"

lemma ping_called: "ping_reach ping_call"
proof -
  let ?enc = "test_enc double raw_proto (register_all [])"
  let ?N = "net_init 0 :: (string, unit, byte list option, pb_object) net"
  have enc: "enc_err ?enc ''ping'' None True ?N = None"
    by (simp add: enc_err_def request_of_def test_enc_def TestEncoder_def encode_value_def)
  have "AsynCall 10 20 7 (Some ''cb'') (enc_err ?enc ''ping'' None True ?N) None (client (cli ?N)) = Ret (client one_call, None)"
    unfolding enc by (simp add: AsynCall_def addCall_def NewClient_def cc_add_def cc_new_def set_next_def set_prev_def
        one_call_def net_init_def Let_def fun_upd_twist)
  from net_step.n_call [OF _ _ _ _ this, of "test_dec id raw_proto (register_all [])" None "{3}" "\<lambda>m a v e. False"]
  show ?thesis using net_reach.net_next [OF net_reach.net_start]
    by (fastforce simp: ping_call_def net_init_def NewClient_def free_addr_def)
qed

lemmas codec_eval = test_enc_def test_dec_def TestEncoder_def TestDecoder_def encode_value_def decode_value_def pq_GetSeq_def
  pq_GetMethod_def pq_GetNeedResp_def ps_GetSeq_def ps_GetErr_def

lemma ping_answered:
  "\<exists>N. ping_reach N \<and> issued (cli N) = [(1, ''cb'')] \<and> asked N = [(1, ''ping'', None)] \<and> callContexts (client (cli N)) 1 = None \<and>
     log (cli N) = [(1, ''cb'', Some None, Some (ErrOther ''invaild method:ping''))]"
proof -
  let ?enc = "test_enc double raw_proto (register_all [])" and ?dec = "test_dec id raw_proto (register_all [])"
  let ?q = "\<lparr>req_seq = 1, req_method = ''ping'', req_arg = None, needResp = True\<rparr>"
  let ?pk = "PbRequest \<lparr>pq_Seq = Some 1, pq_Method = Some ''ping'', pq_Arg = [], pq_NeedResp = Some True\<rparr>"
  let ?rk = "PbResponse \<lparr>ps_Seq = Some 1, ps_Err = Some ''invaild method:ping'', ps_Ret = []\<rparr>"
  let ?N1 = "ping_call\<lparr>srv := RpcServer.OnRPCMessage ?enc None (\<lambda>h a. ([], None)) 3 (Some (Request ?q)) (srv ping_call)\<rparr>"
  have w: "wired ping_call = [?pk]" "srv ping_call = NewRPCServer" "asked ping_call = [(1, ''ping'', None)]"
    by (simp_all add: ping_call_def ask_def net_init_def NewClient_def request_of_def codec_eval)
  have "?dec ?pk = Ret (Some (Request ?q))" by (simp add: codec_eval)
  then have N1: "ping_reach ?N1"
    using net_reach.net_next [OF ping_called net_step.n_request [of ?pk ping_call 3 "{3}" ?dec "Some (Request ?q)"]] w
    by (simp add: conforms_def)
  have sent: "sent (srv ?N1) = [(3, ?rk)]"
    unfolding w(2) by (simp add: RpcServer.OnRPCMessage_def NewRPCServer_def Reply_def cas_fired_def reply_def codec_eval)
  let ?r = "\<lparr>resp_seq = 1, resp_err = Some (ErrOther ''invaild method:ping''), resp_ret = (None :: byte list option)\<rparr>"
  have dec: "?dec ?rk = Ret (Some (Response ?r))" by (simp add: codec_eval)
  have cl: "client (cli ?N1) = client one_call" by (simp add: ping_call_def)
  obtain c' where c': "RpcClient.OnRPCMessage (Some (Response ?r)) (client (cli ?N1)) =
      Ret (c', [(1, ''cb'', Some None, Some (ErrOther ''invaild method:ping''))])" "callContexts c' 1 = None"
    unfolding cl by (simp add: RpcClient.OnRPCMessage_def removeCallBySeqno_def one_call_def cc_remove_def cc_empty_def unlink_def
        set_next_def set_prev_def stopTimer_def fire_def)
  have "ping_reach (?N1\<lparr>cli := (cli ?N1)\<lparr>client := c', log := log (cli ?N1) @ [(1, ''cb'', Some None, Some (ErrOther ''invaild method:ping''))]\<rparr>\<rparr>)"
    by (rule net_reach.net_next [OF N1 net_step.n_response [where decm = ?dec, OF _ _ dec c'(1)]]) (use sent in simp_all)
  then show ?thesis using c'(2) w(3) by (fastforce simp: ping_call_def)
qed

theorem rpc_end_to_end_witness:
  "\<exists>N. ping_reach N \<and> callContexts (client (cli N)) 1 = None \<and>
     (\<exists>ret err. filter (\<lambda>y. fst y = 1) (log (cli N)) = [(1, ''cb'', ret, err)] \<and>
        (ret = None \<and> err \<in> {Some ErrCallTimeout, Some ErrChannelDisconnected} \<or>
         (\<exists>v e. ret = Some (trip raw_proto v) \<and> err = map_option (trip_err id) e \<and> v = None \<and> e \<noteq> None)))"
proof -
  obtain N where N: "ping_reach N" "(1, ''cb'') \<in> set (issued (cli N))" "(1, ''ping'', None) \<in> set (asked N)"
      "callContexts (client (cli N)) 1 = None"
    using ping_answered by (metis list.set_intros(1))
  from rpc_end_to_end [OF N(1-3)] N(1,4) show ?thesis by (intro exI [of _ N]) blast
qed

text \<open>A call that is answered at once: with an argument and a result that fit the codec, an admissible \<open>AsynCall\<close> whose request
  reaches the server, whose handler replies with the result, and whose response comes back runs its callback with exactly that
  result, and no step on the way fails or panics.\<close>

theorem rpc_call_answered:
  assumes "rpc_reach S" and "free_addr (client S) x" "free_addr (client S) h" "x \<noteq> h" "sequence (client S) \<noteq> - 1"
    and "carries P (register_all ts) a" and "carries P (register_all ts) v"
    and "methods s m = Some hd0" and "run hd0 a = ([DoReply v e], None)"
  shows "\<exists>pk req c1 pk' msg' c2. test_enc g P (register_all ts) (request_of (sequence (client S) + 1) m a True) = Some pk \<and>
    AsynCall x h uid (Some f) None None (client S) = Ret (c1, None) \<and>
    test_dec errorf P (register_all ts) pk = Ret req \<and>
    sent (RpcServer.OnRPCMessage (test_enc g P (register_all ts)) None run ch req s) = sent s @ [(ch, pk')] \<and>
    test_dec errorf P (register_all ts) pk' = Ret msg' \<and>
    RpcClient.OnRPCMessage msg' c1 = Ret (c2, [(sequence (client S) + 1, f, Some v, map_option (trip_err errorf) e)])"
proof -
  let ?reg = "register_all ts" and ?sq = "sequence (client S) + 1"
  have inv: "rpc_inv S" using rpc_reach_inv [OF assms(1)] .
  obtain c1 where call: "AsynCall x h uid (Some f) None None (client S) = Ret (c1, None)"
    using AsynCall_sent [OF inv assms(2-5)] by blast
  obtain pk where pk: "test_enc g P ?reg (request_of ?sq m a True) = Some pk" "test_dec errorf P ?reg pk \<noteq> Ret None"
    using carried_request [of P ts "\<lparr>req_seq = ?sq, req_method = m, req_arg = a, needResp = True\<rparr>" g errorf] assms(6)
    by (auto simp: request_of_def)
  obtain pk' where pk': "test_enc g P ?reg (Response \<lparr>resp_seq = ?sq, resp_err = e, resp_ret = v\<rparr>) = Some pk'"
      "test_dec errorf P ?reg pk' \<noteq> Ret None"
    using carried_response [of P ts "\<lparr>resp_seq = ?sq, resp_err = e, resp_ret = v\<rparr>" g errorf] assms(7) by auto
  have t: "trip P a = a" "trip P v = v" using trip_carries assms(6,7) by blast+
  have "run hd0 (trip P a) = ([DoReply v e], None)" using assms(9) t by simp
  from tc.call_answered [where run = run and nil = None and ch = ch, OF inv call assms(2-5) pk assms(8) this pk'] obtain req msg' c2 where
    "test_dec errorf P ?reg pk = Ret req" "sent (RpcServer.OnRPCMessage (test_enc g P ?reg) None run ch req s) = sent s @ [(ch, pk')]"
    "test_dec errorf P ?reg pk' = Ret msg'" "RpcClient.OnRPCMessage msg' c1 = Ret (c2, [(?sq, f, Some v, map_option (trip_err errorf) e)])"
    unfolding t by blast
  then show ?thesis using pk(1) call by blast
qed

theorem rpc_call_answered_witness:
  "\<exists>pk req c1 pk' msg' c2. test_enc double raw_proto (register_all [(''raw'', 7)]) (request_of 1 ''ping'' (Some [1]) True) = Some pk \<and>
    AsynCall 10 20 7 (Some ''cb'') None None (NewClient 0) = Ret (c1, None) \<and>
    test_dec id raw_proto (register_all [(''raw'', 7)]) pk = Ret req \<and>
    sent (RpcServer.OnRPCMessage (test_enc double raw_proto (register_all [(''raw'', 7)])) None (\<lambda>(u :: unit) a. ([DoReply (Some [2]) None], None)) 3 req
      (fst (RegisterMethod ''ping'' (Some ()) NewRPCServer))) = [(3, pk')] \<and>
    test_dec id raw_proto (register_all [(''raw'', 7)]) pk' = Ret msg' \<and>
    RpcClient.OnRPCMessage msg' c1 = Ret (c2, [(1, ''cb'', Some (Some [2]), None)])"
proof -
  let ?ts = "[(''raw'', 7)]"
  let ?S = "\<lparr>client = NewClient 0, issued = [], log = []\<rparr> :: (string, byte list option) rpc_sys"
  let ?s = "fst (RegisterMethod ''ping'' (Some ()) NewRPCServer) :: (unit, byte list option, pb_object) rpc_server"
  have c: "carries raw_proto (register_all ?ts) (Some [b])" for b
    by (simp add: carries_def fits_def raw_proto_def register_all_def Register_def empty_registry_def maxArgSize_def)
  have fr: "free_addr (client ?S) 10" "free_addr (client ?S) 20" "(10 :: addr) \<noteq> 20" "sequence (client ?S) \<noteq> - 1"
    by (simp_all add: free_addr_def NewClient_def)
  have s: "methods ?s ''ping'' = Some ()" "sent ?s = []" by (simp_all add: RegisterMethod_def NewRPCServer_def)
  show ?thesis
    using rpc_call_answered [OF rpc_reach.init fr c [of 1] c [of 2] s(1), of "\<lambda>u a. ([DoReply (Some [2]) None], None)" None double 7 "''cb''" id 3]
    by (simp add: s(2) NewClient_def)
qed

text \<open>\<open>Call\<close> waits exactly as long as its call is pending, then returns what its callback was given; \<open>waitC\<close> is never closed
  twice.\<close>

lemma Call_returns:
  assumes "rpc_reach S" and "(sq, f) \<in> set (issued S)"
  shows "if callContexts (client S) sq \<noteq> None then Call_result None sq (log S) = None
         else \<exists>ret err. Call_result None sq (log S) = Some (Ret (ret, err)) \<and> (sq, f, ret, err) \<in> set (log S)"
  using answered_once [OF rpc_reach_inv [OF assms(1)] assms(2)]
proof (elim disjE exE conjE)
  fix ret err
  assume none: "callContexts (client S) sq = None" and one: "filter (\<lambda>e. fst e = sq) (log S) = [(sq, f, ret, err)]"
  have "(sq, f, ret, err) \<in> set (filter (\<lambda>e. fst e = sq) (log S))" unfolding one by simp
  then have "(sq, f, ret, err) \<in> set (log S)" by simp
  then show ?thesis using none one by (simp add: Call_result_def)
qed (simp add: Call_result_def)

end
