(* ===== verification/AioSocket.thy ===== *)
theory AioSocket
  imports StreamSocket
begin

text \<open>
  The session over asynchronous I/O, \<open>src/socket/aio/aiosocket.go\<close>: sending by whichever goroutine holds \<open>sendLock\<close>, the
  completion callbacks, receiving, and the life cycle. \<open>goaio\<close> appears as the results its calls and completions give;
  a completion without error has written the whole buffer. Every atomic operation is a step. The blocking \<open>Get\<close> of the
  send queue is a step that is enabled when it would return, which SendQueue justifies as long as no ticker branch has raced. A \<open>Close\<close> called
  inside a completion runs as a goroutine of its own, which only adds interleavings.

  The goroutines share their buffers by address. \<open>doSend(nil)\<close> stores the new buffer in \<open>sendContext.b\<close>, and a completion gets the
  buffer that is stored there, not the one of its request. The two differ when a goroutine behind \<open>onSendComplete:1\<close> takes the lock again
  after another goroutine has sent with a buffer of its own. From this moment, the ghost \<open>mixed\<close>, a freed buffer is in use, whose
  contents other sessions may change at any time.
\<close>

section \<open>Definitions: state\<close>

record 'o aio =
  aqueue :: "'o object sendqueue"
  aflag :: uint32
  aioCount :: int
  sendLock :: bool
  abeginOnce :: bool
  acloseOnce :: bool
  adoCloseOnce :: bool
  overClosed :: bool
  has_errcb :: bool
  has_closecb :: bool
  areason :: "session_error option"
  closecbs :: "session_error option list"
  errcbs :: "session_error list"
  wshut :: bool
  awire :: "byte list"
  heap :: "nat \<Rightarrow> buffer"
  live :: "nat list"
  send_b :: "nat option"
  mixed :: bool

text \<open>\<open>heap\<close> has the buffers, \<open>live\<close> the addresses that \<open>buffer.Get\<close> has given to this session and that were not freed, \<open>send_b\<close> is
  \<open>sendContext.b\<close>. A buffer from the pool is empty.\<close>

definition fresh_buffer :: buffer where
  "fresh_buffer = \<lparr>bs = nil_slice, bpool = Some 0\<rparr>"

definition NewSocket :: "bool \<Rightarrow> bool \<Rightarrow> 'o aio" where
  "NewSocket ecb ccb =
     \<lparr>aqueue = the (NewSendQueue [128]), aflag = 0, aioCount = 0, sendLock = False, abeginOnce = False, acloseOnce = False,
      adoCloseOnce = False, overClosed = False, has_errcb = ecb, has_closecb = ccb, areason = None, closecbs = [], errcbs = [],
      wshut = False, awire = [], heap = (\<lambda>_. fresh_buffer), live = [], send_b = None, mixed = False\<rparr>"

text \<open>Assignment to the buffer at an address.\<close>

definition put_buf :: "nat \<Rightarrow> buffer \<Rightarrow> 'o aio \<Rightarrow> 'o aio" where
  "put_buf i b s = s\<lparr>heap := (heap s)(i := b)\<rparr>"

definition aio_addIO :: "'o aio \<Rightarrow> 'o aio" where
  "aio_addIO s = s\<lparr>aioCount := aioCount s + 1\<rparr>"

text \<open>\<open>close(s.sendOverChan)\<close>.\<close>

definition close_over :: "'o aio \<Rightarrow> 'o aio go" where
  "close_over s = (if overClosed s then Panic CloseOfClosed else Ret (s\<lparr>overClosed := True\<rparr>))"

text \<open>The end of \<open>ioDone\<close> and of \<open>Close\<close>.\<close>

definition aio_fire :: "session_error option \<Rightarrow> 'o aio \<Rightarrow> 'o aio" where
  "aio_fire reason s =
     (if adoCloseOnce s then s
      else s\<lparr>adoCloseOnce := True, closecbs := (if has_closecb s then closecbs s @ [reason] else closecbs s)\<rparr>)"

definition aio_set_flag :: "uint32 \<Rightarrow> 'o aio \<Rightarrow> 'o aio" where
  "aio_set_flag fl s = s\<lparr>aflag := AtomicSet fl [] (aflag s)\<rparr>"

section \<open>Definitions: sending\<close>

text \<open>The loop of \<open>doSend\<close> over the items it took.\<close>

fun aio_pack :: "growth \<Rightarrow> 'o encoder \<Rightarrow> 'o object list \<Rightarrow> buffer \<Rightarrow> buffer go" where
  "aio_pack g ec [] b = Ret b"
| "aio_pack g ec (x # xs) b =
     (let l = Len b in
      (case x of
         OBytes bytes \<Rightarrow> aio_pack g ec xs (Buffer_AppendBytes g b bytes)
       | OMsg m \<Rightarrow>
           (let (b1, err) = ec m b in
            if err \<noteq> None then bind_go (SetLen b1 (int l)) (aio_pack g ec xs) else aio_pack g ec xs b1)))"

text \<open>The points of the goroutines, with the address of the buffer they work on: \<open>SCas\<close> and \<open>SStart\<close> in \<open>Send\<close> before the compare-and-swap and before \<open>addIO\<close>; \<open>DoSend\<close>,
  \<open>Issue\<close>, \<open>Flight\<close> at the start of \<open>doSend\<close>, before \<open>Send1\<close> and with the request under way; \<open>Compl\<close> at the start of
  \<open>onSendComplete\<close> with the error and the bytes transferred, \<open>Store0\<close>, \<open>Recheck\<close>, \<open>Cas2\<close>, \<open>Over\<close> before its marked atomic
  operations, \<open>Retry\<close> behind the error callback of a timeout, \<open>Finish\<close> before \<open>Free\<close>; \<open>SWrite\<close> in \<open>ShutdownWrite\<close> before
  the load of \<open>sendLock\<close>; \<open>BCas\<close>, \<open>BTest\<close>, \<open>BAdd\<close> in \<open>BeginRecv\<close>; \<open>RReq\<close> before a \<open>Recv\<close>, \<open>RFlight\<close> with the request
  under way, \<open>RCompl\<close> to \<open>RAgain\<close> in \<open>onRecvComplete\<close>; \<open>IoDec\<close> to \<open>IoFire\<close> in \<open>ioDone\<close>; \<open>KCas\<close> to \<open>KFire\<close> in \<open>Close\<close>,
  with the reason and the delay, and \<open>Linger\<close>, the goroutine of a delayed close.\<close>

datatype apc =
    SCas | SStart | DoSend nat | Issue nat | Flight nat | Compl nat "session_error option" nat
  | Store0 nat | Recheck nat | Cas2 nat | Over nat | Retry nat nat | Finish nat
  | SWrite | BCas bool | BTest | BAdd
  | RReq | RFlight | RCompl "session_error option" | RErrd session_error | RLoop | RUnpack | RAgain bool
  | IoDec | IoTest | IoFire
  | KCas session_error int | KFlag session_error int | KRead session_error int | KQueue session_error int
  | KWrite session_error | KReason session_error | KDo session_error | KTest session_error | KFire session_error | Linger

text \<open>What \<open>goaio\<close> answers where it is asked: success, or an error with the bytes already written. \<open>Unpack\<close> answers with a
  message, with \<open>IoNone\<close> when there is none, or with an error; \<open>buffer.Get\<close> with the address of a buffer.\<close>

datatype io_res = IoOk | IoNone | IoErr session_error nat | IoBuf nat

text \<open>One atomic operation of a goroutine: the state and the points it goes on at, its own and those of goroutines it
  starts; no result when it is blocked. First the longer ones.\<close>

text \<open>\<open>addIO\<close> and the first lines of \<open>doSend(nil)\<close>. The pool gives out a buffer that nobody has, unless one was freed twice.\<close>

definition doSend_nil :: "io_res \<Rightarrow> 'o aio \<Rightarrow> ('o aio \<times> apc list) go option" where [simp]:
  "doSend_nil r s =
     (case r of
        IoBuf i \<Rightarrow>
          (if i \<notin> set (live s) \<or> mixed s
           then Some (Ret ((put_buf i fresh_buffer (aio_addIO s))\<lparr>live := i # live s, send_b := Some i\<rparr>, [DoSend i])) else None)
      | _ \<Rightarrow> None)"

text \<open>\<open>doSend\<close>: an empty buffer is filled from the queue.\<close>

definition doSend_take :: "growth \<Rightarrow> 'o encoder \<Rightarrow> nat \<Rightarrow> 'o aio \<Rightarrow> ('o aio \<times> apc list) go option" where [simp]:
  "doSend_take g ec i s =
     (if Len (heap s i) = 0 then
        (case Get (aqueue s) of
           (q, GetRet cl vs sig) \<Rightarrow>
             Some (map_ret (\<lambda>b1. (put_buf i b1 (s\<lparr>aqueue := q\<rparr>), [Issue i])) (aio_pack g ec vs (heap s i)))
         | (q, GetWait) \<Rightarrow> None)
      else Some (Ret (s, [Issue i])))"

text \<open>\<open>doSend\<close>: the request. Without one \<open>onSendComplete\<close> is called with the buffer itself.\<close>

definition doSend_issue :: "io_res \<Rightarrow> nat \<Rightarrow> 'o aio \<Rightarrow> ('o aio \<times> apc list) go option" where [simp]:
  "doSend_issue r i s =
     (if Len (heap s i) = 0 then Some (Ret (s, [Compl i None 0]))
      else (case r of
              IoOk \<Rightarrow> Some (Ret (s, [Flight i]))
            | IoErr e n \<Rightarrow> Some (Ret (s, [Compl i (Some ErrSocketClose) 0]))
            | _ \<Rightarrow> None))"

text \<open>The completion of a request for the buffer at \<open>i\<close>: its bytes are on the wire, and \<open>onSendComplete\<close> is called with the
  buffer in \<open>sendContext.b\<close>.\<close>

definition send_completes :: "io_res \<Rightarrow> nat \<Rightarrow> 'o aio \<Rightarrow> ('o aio \<times> apc list) go option" where [simp]:
  "send_completes r i s =
     (case send_b s of
        None \<Rightarrow> Some (Panic NilDeref)
      | Some c \<Rightarrow>
          (let b = heap s i; s1 = s\<lparr>mixed := (mixed s \<or> c \<noteq> i)\<rparr> in
           case r of
             IoOk \<Rightarrow> Some (Ret (s1\<lparr>awire := awire s @ Bytes b\<rparr>, [Compl c None (Len b)]))
           | IoErr e n \<Rightarrow>
               (if n \<le> Len b then Some (Ret (s1\<lparr>awire := awire s @ take n (Bytes b)\<rparr>, [Compl c (Some e) n])) else None)
           | _ \<Rightarrow> None))"

text \<open>\<open>onSendComplete\<close> up to the store, the second call of \<open>doSend\<close> or the error callback of a timeout.\<close>

definition onSendComplete :: "nat \<Rightarrow> session_error option \<Rightarrow> nat \<Rightarrow> 'o aio \<Rightarrow> ('o aio \<times> apc list) go option" where [simp]:
  "onSendComplete i err n s =
     (case err of
        None \<Rightarrow>
          if Empty (aqueue s) then Some (Ret (s, [Store0 i])) else Some (Ret (put_buf i (Reset (heap s i)) s, [DoSend i]))
      | Some e \<Rightarrow>
          if AtomicTest fclosed (aflag s) then Some (Ret (s, [Finish i]))
          else
            (let e1 = (if e = NetTimeout then ErrSendTimeout else e) in
             if has_errcb s then
               (if e1 \<noteq> ErrSendTimeout
                then Some (map_ret (\<lambda>s1. (s1\<lparr>errcbs := errcbs s1 @ [e1]\<rparr>, [Finish i, KCas e1 0])) (close_over s))
                else Some (Ret (s\<lparr>errcbs := errcbs s @ [e1]\<rparr>, [Retry i n])))
             else Some (map_ret (\<lambda>s1. (s1, [Finish i, KCas e1 0])) (close_over s))))"

text \<open>\<open>onSendComplete\<close> behind the error callback of a timeout.\<close>

definition onSend_retry :: "nat \<Rightarrow> nat \<Rightarrow> 'o aio \<Rightarrow> ('o aio \<times> apc list) go option" where [simp]:
  "onSend_retry i n s =
     (if \<not> AtomicTest fclosed (aflag s) then Some (Ret (put_buf i (DropFirstNBytes (heap s i) (int n)) s, [DoSend i]))
      else Some (map_ret (\<lambda>s1. (s1, [Finish i])) (close_over s)))"

text \<open>\<open>onSendComplete:2\<close>.\<close>

definition onSend_relock :: "nat \<Rightarrow> 'o aio \<Rightarrow> ('o aio \<times> apc list) go option" where [simp]:
  "onSend_relock i s =
     Some (Ret (if sendLock s then (s, [Over i]) else (put_buf i (Reset (heap s i)) (s\<lparr>sendLock := True\<rparr>), [DoSend i])))"

text \<open>\<open>onSendComplete:3\<close>.\<close>

definition onSend_over :: "nat \<Rightarrow> 'o aio \<Rightarrow> ('o aio \<times> apc list) go option" where [simp]:
  "onSend_over i s =
     (if Closed (aqueue s) then Some (map_ret (\<lambda>s1. (s1, [Finish i])) (close_over (s\<lparr>wshut := True\<rparr>))) else Some (Ret (s, [Finish i])))"

text \<open>\<open>b.Free()\<close>: the pool empties the buffer and may give it out again.\<close>

definition free_buf :: "nat \<Rightarrow> 'o aio \<Rightarrow> 'o aio" where
  "free_buf i s = (put_buf i (Reset (heap s i)) s)\<lparr>live := removeAll i (live s)\<rparr>"

text \<open>\<open>onRecvComplete\<close> with an error.\<close>

definition onRecv_error :: "session_error \<Rightarrow> 'o aio \<Rightarrow> ('o aio \<times> apc list) go option" where [simp]:
  "onRecv_error e s =
     (let recvAgain = (e = NetTimeout);
          e1 = (if recvAgain then ErrRecvTimeout else e);
          s1 = (if recvAgain then s else aio_set_flag frclosed s)
      in Some (Ret (if has_errcb s then (s1\<lparr>errcbs := errcbs s1 @ [e1]\<rparr>, [RAgain recvAgain])
                    else (s1, [RAgain recvAgain, KCas e1 0]))))"

text \<open>\<open>onRecvComplete\<close>: the result of \<open>Unpack\<close>.\<close>

definition onRecv_unpack :: "io_res \<Rightarrow> 'o aio \<Rightarrow> ('o aio \<times> apc list) go option" where [simp]:
  "onRecv_unpack r s =
     (case r of
        IoErr e n \<Rightarrow>
          Some (Ret (if has_errcb s then s\<lparr>errcbs := errcbs s @ [e]\<rparr> else s, [RAgain False, KCas e 0]))
      | IoOk \<Rightarrow> Some (Ret (s, [RLoop]))
      | IoNone \<Rightarrow> Some (Ret (s, [RAgain True]))
      | IoBuf i \<Rightarrow> None)"

text \<open>The end of \<open>onRecvComplete\<close>.\<close>

definition onRecv_again :: "bool \<Rightarrow> 'o aio \<Rightarrow> ('o aio \<times> apc list) go option" where [simp]:
  "onRecv_again recvAgain s =
     Some (Ret (s, if \<not> recvAgain \<or> AtomicTest (fclosed OR frclosed) (aflag s) then [IoDec] else [RReq]))"

text \<open>\<open>Close\<close>: the send queue is closed, and a goroutine waits when there is something left to send and time for it.\<close>

definition close_queue :: "session_error \<Rightarrow> int \<Rightarrow> 'o aio \<Rightarrow> ('o aio \<times> apc list) go option" where [simp]:
  "close_queue e d s =
     (let (q, ok, remain) = Close (aqueue s)
      in Some (Ret (s\<lparr>aqueue := q\<rparr>, if remain > 0 \<and> d > 0 then [Linger, KReason e] else [KWrite e])))"

text \<open>All operations.\<close>

fun athread :: "growth \<Rightarrow> 'o encoder \<Rightarrow> io_res \<Rightarrow> apc \<Rightarrow> 'o aio \<Rightarrow> ('o aio \<times> apc list) go option" where
  "athread g ec r SCas s = Some (Ret (if sendLock s then (s, []) else (s\<lparr>sendLock := True\<rparr>, [SStart])))"
| "athread g ec r SStart s = doSend_nil r s"
| "athread g ec r (DoSend b) s = doSend_take g ec b s"
| "athread g ec r (Issue b) s = doSend_issue r b s"
| "athread g ec r (Flight b) s = send_completes r b s"
| "athread g ec r (Compl b err n) s = onSendComplete b err n s"
| "athread g ec r (Retry b n) s = onSend_retry b n s"
| "athread g ec r (Store0 b) s = Some (Ret (s\<lparr>sendLock := False\<rparr>, [Recheck b]))"
| "athread g ec r (Recheck b) s = Some (Ret (s, if Empty (aqueue s) then [Over b] else [Cas2 b]))"
| "athread g ec r (Cas2 b) s = onSend_relock b s"
| "athread g ec r (Over b) s = onSend_over b s"
| "athread g ec r (Finish b) s = Some (Ret (free_buf b s, [IoDec]))"
| "athread g ec r IoDec s =
     (let s1 = s\<lparr>aioCount := aioCount s - 1\<rparr> in Some (Ret (s1, if aioCount s1 = 0 then [IoTest] else [])))"
| "athread g ec r IoTest s = Some (Ret (s, if AtomicTest fdoclose (aflag s) then [IoFire] else []))"
| "athread g ec r IoFire s = Some (Ret (aio_fire (areason s) s, []))"
| "athread g ec r SWrite s = Some (Ret (if sendLock s then s else s\<lparr>wshut := True\<rparr>, []))"
| "athread g ec r (BCas nocb) s =
     Some (Ret (if abeginOnce s then (s, []) else (s\<lparr>abeginOnce := True\<rparr>, if nocb then [] else [BTest])))"
| "athread g ec r BTest s = Some (Ret (s, if AtomicTest (fclosed OR frclosed) (aflag s) then [] else [BAdd]))"
| "athread g ec r BAdd s = Some (Ret (aio_addIO s, [RReq]))"
| "athread g ec r RReq s = (case r of IoOk \<Rightarrow> Some (Ret (s, [RFlight])) | IoErr e n \<Rightarrow> Some (Ret (s, [IoDec])) | _ \<Rightarrow> None)"
| "athread g ec r RFlight s =
     (case r of IoOk \<Rightarrow> Some (Ret (s, [RCompl None])) | IoErr e n \<Rightarrow> Some (Ret (s, [RCompl (Some e)])) | _ \<Rightarrow> None)"
| "athread g ec r (RCompl err) s =
     Some (Ret (s, if AtomicTest (fclosed OR frclosed) (aflag s) then [IoDec]
                   else (case err of None \<Rightarrow> [RLoop] | Some e \<Rightarrow> [RErrd e])))"
| "athread g ec r (RErrd e) s = onRecv_error e s"
| "athread g ec r RLoop s = Some (Ret (s, if AtomicTest (fclosed OR frclosed) (aflag s) then [RAgain False] else [RUnpack]))"
| "athread g ec r RUnpack s = onRecv_unpack r s"
| "athread g ec r (RAgain recvAgain) s = onRecv_again recvAgain s"
| "athread g ec r (KCas e d) s = Some (Ret (if acloseOnce s then (s, []) else (s\<lparr>acloseOnce := True\<rparr>, [KFlag e d])))"
| "athread g ec r (KFlag e d) s = Some (Ret (aio_set_flag fclosed s, [KRead e d]))"
| "athread g ec r (KRead e d) s = Some (Ret (aio_set_flag frclosed s, [KQueue e d]))"
| "athread g ec r (KQueue e d) s = close_queue e d s"
| "athread g ec r (KWrite e) s = Some (Ret (s\<lparr>wshut := True\<rparr>, [KReason e]))"
| "athread g ec r (KReason e) s = Some (Ret (s\<lparr>areason := Some e\<rparr>, [KDo e]))"
| "athread g ec r (KDo e) s = Some (Ret (aio_set_flag fdoclose s, [KTest e]))"
| "athread g ec r (KTest e) s = Some (Ret (s, if aioCount s = 0 then [KFire e] else []))"
| "athread g ec r (KFire e) s = Some (Ret (aio_fire (Some e) s, []))"
| "athread g ec r Linger s = Some (Ret (s\<lparr>wshut := True\<rparr>, []))"

text \<open>The session with its goroutines, and the objects that \<open>Send\<close> took. The last rule: once a freed buffer is in use, its new users may
  change it.\<close>

record 'o asys =
  sess :: "'o aio"
  athreads :: "apc list"
  taken :: "'o object list"

inductive aio_step :: "growth \<Rightarrow> 'o encoder \<Rightarrow> 'o asys \<Rightarrow> 'o asys \<Rightarrow> bool" for g ec where
  a_send: "Add v (aqueue (sess S)) = (q, AddRet None sig) \<Longrightarrow>
     aio_step g ec S (S\<lparr>sess := (sess S)\<lparr>aqueue := q\<rparr>, athreads := athreads S @ [SCas], taken := taken S @ [v]\<rparr>)"
| a_sendT: "AddWithTimeout v (aqueue (sess S)) = (q, AddRet None sig) \<Longrightarrow>
     aio_step g ec S (S\<lparr>sess := (sess S)\<lparr>aqueue := q\<rparr>, athreads := athreads S @ [SCas], taken := taken S @ [v]\<rparr>)"
| a_thread: "athreads S = xs @ p # ys \<Longrightarrow> athread g ec r p (sess S) = Some (Ret (s, ps)) \<Longrightarrow>
     aio_step g ec S (S\<lparr>sess := s, athreads := xs @ ps @ ys\<rparr>)"
| a_close: "aio_step g ec S (S\<lparr>athreads := athreads S @ [KCas e d]\<rparr>)"
| a_shutdown: "Close (aqueue (sess S)) = (q, closeOK, remain) \<Longrightarrow>
     aio_step g ec S (S\<lparr>sess := (sess S)\<lparr>aqueue := q\<rparr>, athreads := athreads S @ (if closeOK \<and> remain = 0 then [SWrite] else [])\<rparr>)"
| a_shutdown_read: "aio_step g ec S (S\<lparr>sess := aio_set_flag frclosed (sess S)\<rparr>)"
| a_begin: "aio_step g ec S (S\<lparr>athreads := athreads S @ [BCas nocb]\<rparr>)"
| a_mixed: "mixed (sess S) \<Longrightarrow> aio_step g ec S (S\<lparr>sess := (sess S)\<lparr>heap := h\<rparr>\<rparr>)"

definition aio_init :: "bool \<Rightarrow> bool \<Rightarrow> 'o asys" where
  "aio_init ecb ccb = \<lparr>sess = NewSocket ecb ccb, athreads = [], taken = []\<rparr>"

section \<open>Packing\<close>

text \<open>The bytes an object contributes: none when its encoding fails.\<close>

fun aio_payload :: "('o \<Rightarrow> byte list) \<Rightarrow> ('o \<Rightarrow> session_error option) \<Rightarrow> 'o object \<Rightarrow> byte list" where
  "aio_payload ebytes eerr (OBytes bytes) = bytes"
| "aio_payload ebytes eerr (OMsg m) = (if eerr m = None then ebytes m else [])"

abbreviation payloads :: "('o \<Rightarrow> byte list) \<Rightarrow> ('o \<Rightarrow> session_error option) \<Rightarrow> 'o object list \<Rightarrow> byte list" where
  "payloads ebytes eerr xs \<equiv> concat (map (aio_payload ebytes eerr) xs)"

lemma aio_pack_payloads:
  assumes "encodes ec ebytes eerr" and "wf_buffer b"
  shows "\<exists>b'. aio_pack g ec xs b = Ret b' \<and> wf_buffer b' \<and> Bytes b' = Bytes b @ payloads ebytes eerr xs"
  using assms(2)
proof (induction xs arbitrary: b)
  case (Cons x xs)
  show ?case
  proof (cases x)
    case (OBytes bytes)
    then show ?thesis using Cons.IH [of "Buffer_AppendBytes g b bytes"] Cons.prems by simp
  next
    case (OMsg m)
    obtain b1 where b1: "ec m b = (b1, eerr m)" "wf_buffer b1" "Bytes b1 = Bytes b @ ebytes m"
      using assms(1) Cons.prems by (metis encodes_def prod.collapse)
    show ?thesis
    proof (cases "eerr m = None")
      case True
      then show ?thesis using Cons.IH [OF b1(2)] b1 OMsg by simp
    next
      case False
      have "SetLen b1 (int (Len b)) = Ret (set_len b1 (Len b))" using SetLen_set_len [OF b1(2)] .
      moreover have "Bytes (set_len b1 (Len b)) = Bytes b" using b1 Cons.prems by (simp add: Len_Bytes)
      ultimately show ?thesis using Cons.IH [of "set_len b1 (Len b)"] False b1 OMsg by auto
    qed
  qed
qed simp

section \<open>Invariant of the send lock\<close>

text \<open>The goroutine that holds \<open>sendLock\<close>, the bytes it has taken from the queue and not yet written, the goroutines
  that will look at the queue again, well-formed buffers, and the address of the buffer that a goroutine works on.\<close>

fun owner :: "apc \<Rightarrow> bool" where
  "owner SStart = True" | "owner (DoSend b) = True" | "owner (Issue b) = True" | "owner (Flight b) = True"
| "owner (Compl b e n) = True" | "owner (Store0 b) = True" | "owner (Retry b n) = True" | "owner _ = False"

fun hold :: "(nat \<Rightarrow> buffer) \<Rightarrow> apc \<Rightarrow> byte list" where
  "hold h (DoSend b) = Bytes (h b)" | "hold h (Issue b) = Bytes (h b)" | "hold h (Flight b) = Bytes (h b)"
| "hold h (Compl b (Some e) n) = drop n (Bytes (h b))" | "hold h (Retry b n) = drop n (Bytes (h b))" | "hold h _ = []"

fun watcher :: "apc \<Rightarrow> bool" where
  "watcher SCas = True" | "watcher (Recheck b) = True" | "watcher (Cas2 b) = True" | "watcher p = owner p"

fun wf_pc :: "(nat \<Rightarrow> buffer) \<Rightarrow> apc \<Rightarrow> bool" where
  "wf_pc h (Compl b e n) = (wf_buffer (h b) \<and> n \<le> Len (h b))" | "wf_pc h (Retry b n) = (wf_buffer (h b) \<and> n \<le> Len (h b))"
| "wf_pc h (DoSend b) = wf_buffer (h b)" | "wf_pc h (Issue b) = wf_buffer (h b)" | "wf_pc h (Flight b) = wf_buffer (h b)"
| "wf_pc h (Store0 b) = wf_buffer (h b)" | "wf_pc h (Recheck b) = wf_buffer (h b)" | "wf_pc h (Cas2 b) = wf_buffer (h b)"
| "wf_pc h _ = True"

fun ptr :: "apc \<Rightarrow> nat list" where
  "ptr (DoSend b) = [b]" | "ptr (Issue b) = [b]" | "ptr (Flight b) = [b]" | "ptr (Compl b e n) = [b]" | "ptr (Retry b n) = [b]"
| "ptr (Store0 b) = [b]" | "ptr (Recheck b) = [b]" | "ptr (Cas2 b) = [b]" | "ptr (Over b) = [b]" | "ptr (Finish b) = [b]" | "ptr _ = []"

abbreviation holds :: "(nat \<Rightarrow> buffer) \<Rightarrow> apc list \<Rightarrow> byte list" where
  "holds h ps \<equiv> concat (map (hold h) ps)"

abbreviation ptrs :: "apc list \<Rightarrow> nat list" where
  "ptrs ps \<equiv> concat (map ptr ps)"

lemma hold_owner: "\<not> owner p \<Longrightarrow> hold h p = []"
  by (cases p) auto

lemma holds_none: "cnt owner ps = 0 \<Longrightarrow> holds h ps = []"
  by (auto simp: cnt_eq_0 hold_owner)

text \<open>Only the buffer that a goroutine works on matters for what it holds.\<close>

lemma hold_cong: "(\<And>i. i \<in> set (ptr p) \<Longrightarrow> h' i = h i) \<Longrightarrow> hold h' p = hold h p \<and> wf_pc h' p = wf_pc h p"
proof (cases p)
  case (Compl b e n)
  then show "(\<And>i. i \<in> set (ptr p) \<Longrightarrow> h' i = h i) \<Longrightarrow> ?thesis" by (cases e) simp_all
qed simp_all

lemma holds_cong: "(\<And>i. i \<in> set (ptrs ps) \<Longrightarrow> h' i = h i) \<Longrightarrow> holds h' ps = holds h ps \<and> (\<forall>p \<in> set ps. wf_pc h' p = wf_pc h p)"
proof (induction ps)
  case (Cons p ps)
  then show ?case using hold_cong [of p h' h] by simp
qed simp

text \<open>\<open>core\<close>: at most one owner, none without the lock; what is on the wire is a prefix of what was taken, and
  what is missing is with the owner and in the queue unless a failed send has left the lock behind.\<close>

definition core :: "bool \<Rightarrow> nat \<Rightarrow> byte list \<Rightarrow> byte list \<Rightarrow> byte list \<Rightarrow> byte list \<Rightarrow> bool" where
  "core lock n out h q t \<longleftrightarrow>
     n \<le> 1 \<and> (\<not> lock \<longrightarrow> n = 0) \<and> (\<exists>more. t = out @ more \<and> ((lock \<longrightarrow> n = 1) \<longrightarrow> more = h @ q))"

text \<open>What the invariants read of the session.\<close>

definition send_view :: "'o aio \<Rightarrow> bool \<times> byte list \<times> 'o object list \<times> (nat \<Rightarrow> buffer) \<times> nat list \<times> bool" where
  "send_view s = (sendLock s, awire s, qlist (aqueue s), heap s, live s, mixed s)"

lemma close_over_fields: "close_over s = Ret s' \<Longrightarrow> send_view s' = send_view s"
  by (auto simp: close_over_def send_view_def split: if_splits)

lemma fields_same [simp]:
  "send_view (aio_addIO s) = send_view s" "send_view (aio_fire e s) = send_view s" "send_view (aio_set_flag fl s) = send_view s"
  "heap (put_buf i b s) = (heap s)(i := b)" "sendLock (put_buf i b s) = sendLock s" "awire (put_buf i b s) = awire s"
  "aqueue (put_buf i b s) = aqueue s" "live (put_buf i b s) = live s" "mixed (put_buf i b s) = mixed s"
  by (simp_all add: aio_addIO_def aio_fire_def aio_set_flag_def put_buf_def send_view_def)

lemma send_view_upd [simp]:
  "send_view (s\<lparr>errcbs := es\<rparr>) = send_view s" "send_view (s\<lparr>wshut := bb\<rparr>) = send_view s" "send_view (s\<lparr>abeginOnce := bb\<rparr>) = send_view s"
  "send_view (s\<lparr>aioCount := k\<rparr>) = send_view s" "send_view (s\<lparr>acloseOnce := bb\<rparr>) = send_view s" "send_view (s\<lparr>areason := e\<rparr>) = send_view s"
  "qlist q = qlist (aqueue s) \<Longrightarrow> send_view (s\<lparr>aqueue := q\<rparr>) = send_view s"
  by (simp_all add: send_view_def)

lemma addIO_same [simp]:
  "sendLock (aio_addIO s) = sendLock s" "awire (aio_addIO s) = awire s" "aqueue (aio_addIO s) = aqueue s"
  "heap (aio_addIO s) = heap s" "live (aio_addIO s) = live s" "mixed (aio_addIO s) = mixed s"
  by (simp_all add: aio_addIO_def)

lemma free_same [simp]:
  "sendLock (free_buf i s) = sendLock s" "awire (free_buf i s) = awire s" "aqueue (free_buf i s) = aqueue s"
  "heap (free_buf i s) = (heap s)(i := Reset (heap s i))" "live (free_buf i s) = removeAll i (live s)" "mixed (free_buf i s) = mixed s"
  by (simp_all add: free_buf_def)

lemma send_viewD:
  assumes "send_view s' = send_view s"
  shows "sendLock s' = sendLock s" and "awire s' = awire s" and "qlist (aqueue s') = qlist (aqueue s)" and "heap s' = heap s"
    and "live s' = live s" and "mixed s' = mixed s"
  using assms by (simp_all add: send_view_def)

lemma qlist_Close: "Close q = (q', ok, n) \<Longrightarrow> qlist q' = qlist q"
  by (auto simp: Close_def Let_def split: if_splits)

text \<open>A goroutine that holds nothing and goes on holding nothing.\<close>

definition quiet :: "apc \<Rightarrow> bool" where
  "quiet p \<longleftrightarrow> \<not> owner p \<and> \<not> watcher p"

lemma quiet_step:
  assumes "quiet p" and "athread g ec r p s = Some (Ret (s', ps))"
  shows "(send_view s' = send_view s \<or> (\<exists>i. p = Finish i \<and> s' = free_buf i s)) \<and> (\<forall>p' \<in> set ps. quiet p')"
  using assms
  by (cases p) (auto simp: quiet_def Let_def map_ret_eq_Ret split: if_splits io_res.splits option.splits prod.splits
      dest!: close_over_fields qlist_Close)

lemma quiet_same:
  assumes "quiet p" and "athread g ec r p s = Some (Ret (s', ps))"
  shows "sendLock s' = sendLock s" and "awire s' = awire s" and "qlist (aqueue s') = qlist (aqueue s)"
  using quiet_step [OF assms] by (auto dest: send_viewD)

lemma quiet_cnt: "\<forall>p \<in> set ps. quiet p \<Longrightarrow> cnt owner ps = 0 \<and> (\<forall>p \<in> set ps. wf_pc h p)"
proof -
  have "quiet p \<Longrightarrow> wf_pc h p" for p by (cases p) (simp_all add: quiet_def)
  then show "\<forall>p \<in> set ps. quiet p \<Longrightarrow> ?thesis" by (simp add: cnt_eq_0 quiet_def)
qed

section \<open>Buffers and their addresses\<close>

text \<open>While no completion has met a foreign buffer, a step changes only the buffer that its goroutine works on, and a goroutine
  gets a buffer that no other has.\<close>

lemma heap_frame:
  assumes "athread g ec r p s = Some (Ret (s', ps))" and "\<not> mixed s" and "i \<in> set (live s)" and "i \<notin> set (ptr p)"
  shows "heap s' i = heap s i"
  using assms
  by (cases p) (auto simp: Let_def map_ret_eq_Ret aio_fire_def aio_set_flag_def split: if_splits io_res.splits option.splits prod.splits
      sq_get_out.splits dest!: close_over_fields send_viewD(4))

lemma ptr_step:
  assumes "athread g ec r p s = Some (Ret (s', ps))" and "\<not> mixed s'"
  shows "ptrs ps = ptr p \<and> live s' = live s \<or> ptrs ps = [] \<and> (\<exists>i. ptr p = [i] \<and> live s' = removeAll i (live s)) \<or>
    (\<exists>i. ptr p = [] \<and> i \<notin> set (live s) \<and> ptrs ps = [i] \<and> live s' = i # live s)"
  using assms
  by (cases p) (auto simp: Let_def map_ret_eq_Ret aio_fire_def aio_set_flag_def split: if_splits io_res.splits option.splits prod.splits
      sq_get_out.splits dest!: close_over_fields send_viewD(5))

lemma mixed_step: "athread g ec r p s = Some (Ret (s', ps)) \<Longrightarrow> mixed s \<Longrightarrow> mixed s'"
  by (cases p) (auto simp: Let_def map_ret_eq_Ret aio_fire_def aio_set_flag_def split: if_splits io_res.splits option.splits prod.splits
      sq_get_out.splits dest!: close_over_fields send_viewD(6))

definition ptr_inv :: "apc list \<Rightarrow> nat list \<Rightarrow> bool" where
  "ptr_inv ps lv \<longleftrightarrow> distinct (ptrs ps) \<and> set (ptrs ps) \<subseteq> set lv"

lemma ptr_inv_step:
  assumes st: "athread g ec r p s = Some (Ret (s', ps))" and nm: "\<not> mixed s'" and inv: "ptr_inv (xs @ p # ys) (live s)"
  shows "ptr_inv (xs @ ps @ ys) (live s')"
proof -
  define A B C where "A = ptrs xs" and "B = ptrs ys" and "C = ptrs ps"
  have i: "distinct (A @ ptr p @ B)" "set (A @ ptr p @ B) \<subseteq> set (live s)"
    using inv by (simp_all add: ptr_inv_def A_def B_def)
  consider (keep) "C = ptr p" "live s' = live s" | (free) i where "C = []" "ptr p = [i]" "live s' = removeAll i (live s)"
    | (new) i where "ptr p = []" "i \<notin> set (live s)" "C = [i]" "live s' = i # live s"
    using ptr_step [OF st nm] unfolding C_def by blast
  then have "distinct (A @ C @ B) \<and> set (A @ C @ B) \<subseteq> set (live s')"
  proof cases
    case keep
    then show ?thesis using i by (simp only:)
  next
    case free
    then have "i \<notin> set (A) \<and> i \<notin> set (B)" using i(1) by simp
    then show ?thesis using i free by auto
  next
    case new
    then have "i \<notin> set (A) \<and> i \<notin> set (B)" using i(2) by auto
    then show ?thesis using i new by auto
  qed
  then show ?thesis by (simp add: ptr_inv_def A_def B_def C_def)
qed

text \<open>The other goroutines keep what they hold.\<close>

lemma others_hold:
  assumes st: "athread g ec r p s = Some (Ret (s', ps))" and nm: "\<not> mixed s" and inv: "ptr_inv (xs @ p # ys) (live s)"
  shows "holds (heap s') xs = holds (heap s) xs" and "holds (heap s') ys = holds (heap s) ys"
    and "q \<in> set xs \<union> set ys \<Longrightarrow> wf_pc (heap s') q = wf_pc (heap s) q"
proof -
  have "heap s' i = heap s i" if "i \<in> set (ptrs xs) \<union> set (ptrs ys)" for i
  proof (rule heap_frame [OF st nm])
    show "i \<in> set (live s)" "i \<notin> set (ptr p)" using inv that by (auto simp: ptr_inv_def)
  qed
  then show "holds (heap s') xs = holds (heap s) xs" "holds (heap s') ys = holds (heap s) ys"
      "q \<in> set xs \<union> set ys \<Longrightarrow> wf_pc (heap s') q = wf_pc (heap s) q"
    using holds_cong [of xs "heap s'" "heap s"] holds_cong [of ys "heap s'" "heap s"] by auto
qed

section \<open>Steps of the owner\<close>

text \<open>Who holds the lock does not depend on the buffers.\<close>

lemma lock_owner:
  assumes "athread g ec r p s = Some (Ret (s', ps))" and "owner p" and "sendLock s"
  shows "cnt owner ps \<le> 1 \<and> (\<not> sendLock s' \<longrightarrow> cnt owner ps = 0)"
proof -
  have co: "close_over s = Ret s1 \<Longrightarrow> sendLock s1" for s1 using close_over_fields [of s s1] send_viewD(1) assms(3) by metis
  show ?thesis using assms co
    by (cases p) (auto simp: cnt_Cons Let_def map_ret_eq_Ret split: if_splits io_res.splits option.splits prod.splits sq_get_out.splits)
qed

lemma lock_watcher:
  assumes "athread g ec r p s = Some (Ret (s', ps))" and "\<not> owner p" and "\<not> quiet p"
  shows "cnt owner ps = 0 \<and> sendLock s' = sendLock s \<or> \<not> sendLock s \<and> sendLock s' \<and> cnt owner ps = 1"
  using assms by (cases p) (auto simp: quiet_def cnt_Cons split: if_splits)

lemma lock_step:
  assumes st: "athread g ec r p s = Some (Ret (s', ps))" and n: "n + (if owner p then 1 else 0) \<le> 1"
    and l: "\<not> sendLock s \<longrightarrow> n + (if owner p then 1 else 0) = 0"
  shows "n + cnt owner ps \<le> 1 \<and> (\<not> sendLock s' \<longrightarrow> n + cnt owner ps = 0)"
proof -
  consider (quiet) "quiet p" | (owner) "owner p" | (watcher) "\<not> owner p" "\<not> quiet p" by blast
  then show ?thesis
  proof cases
    case quiet
    then have "cnt owner ps = 0" using quiet_step [OF quiet st] quiet_cnt [of ps] by blast
    then show ?thesis using quiet_same(1) [OF quiet st] n l quiet by (simp add: quiet_def)
  next
    case owner
    then have "sendLock s" "n = 0" using n l by (auto split: if_splits)
    then show ?thesis using lock_owner [OF st owner] by simp
  next
    case watcher
    then show ?thesis using lock_watcher [OF st watcher] n l by auto
  qed
qed

text \<open>One step of an owner or of a goroutine that watches the queue. \<open>n\<close> counts the other owners.\<close>

lemma core_step:
  assumes enc: "encodes ec ebytes eerr" and p: "\<not> quiet p" "wf_pc (heap s) p" and nm: "\<not> mixed s'"
    and st: "athread g ec r p s = Some (Ret (s', ps))"
    and c: "core (sendLock s) (n + (if owner p then 1 else 0)) (awire s) (h1 @ hold (heap s) p @ h2) (payloads ebytes eerr (qlist (aqueue s))) t"
    and h: "n = 0 \<longrightarrow> h1 = [] \<and> h2 = []"
  shows "core (sendLock s') (n + cnt owner ps) (awire s') (h1 @ holds (heap s') ps @ h2) (payloads ebytes eerr (qlist (aqueue s'))) t \<and>
         (\<forall>p' \<in> set ps. wf_pc (heap s') p')"
proof (cases p)
  case (DoSend i)
  have n: "n = 0" "h1 = []" "h2 = []" and l: "sendLock s" using c h DoSend by (auto simp: core_def)
  have wf: "wf_buffer (heap s i)" using p(2) DoSend by simp
  show ?thesis
  proof (cases "Len (heap s i) = 0")
    case True
    then have e: "Bytes (heap s i) = []" using Len_Bytes [OF wf] by simp
    obtain q cl vs sig where get: "Get (aqueue s) = (q, GetRet cl vs sig)"
      using st DoSend True by (auto split: prod.splits sq_get_out.splits)
    then have q: "vs = qlist (aqueue s)" "qlist q = []" by (auto simp: Get_def split: if_splits)
    obtain b' where b': "aio_pack g ec vs (heap s i) = Ret b'" "wf_buffer b'" "Bytes b' = Bytes (heap s i) @ payloads ebytes eerr vs"
      using aio_pack_payloads [OF enc wf] by blast
    then have "s' = put_buf i b' (s\<lparr>aqueue := q\<rparr>)" "ps = [Issue i]" using st DoSend True get by auto
    then show ?thesis using c n l q b' e DoSend by (simp add: core_def cnt_Cons)
  next
    case False
    then show ?thesis using st c n l wf DoSend by (auto simp: core_def cnt_Cons)
  qed
next
  case (Issue i)
  have n: "n = 0" "h1 = []" "h2 = []" and l: "sendLock s" using c h Issue by (auto simp: core_def)
  have wf: "wf_buffer (heap s i)" using p(2) Issue by simp
  show ?thesis
  proof (cases "Len (heap s i) = 0")
    case True
    then have "s' = s" "ps = [Compl i None 0]" using st Issue by simp_all
    then show ?thesis using c n l wf True Issue Len_Bytes [OF wf] by (simp add: core_def cnt_Cons)
  next
    case False
    then have "s' = s" "ps = [Flight i] \<or> ps = [Compl i (Some ErrSocketClose) 0]" using st Issue by (auto split: io_res.splits)
    then show ?thesis using c n l wf Issue by (auto simp: core_def cnt_Cons)
  qed
next
  case (Flight i)
  have n: "n = 0" "h1 = []" "h2 = []" and l: "sendLock s" using c h Flight by (auto simp: core_def)
  have wf: "wf_buffer (heap s i)" using p(2) Flight by simp
  have "sendLock s' = sendLock s \<and> aqueue s' = aqueue s \<and> heap s' = heap s \<and>
      (awire s' = awire s @ Bytes (heap s i) \<and> ps = [Compl i None (Len (heap s i))] \<or>
       (\<exists>e m. m \<le> Len (heap s i) \<and> awire s' = awire s @ take m (Bytes (heap s i)) \<and> ps = [Compl i (Some e) m]))"
    using st nm Flight by (auto simp: Let_def split: if_splits io_res.splits option.splits)
  then show ?thesis using c n l wf Flight by (auto simp: core_def cnt_Cons)
next
  case (Compl i e k)
  have n: "n = 0" "h1 = []" "h2 = []" and l: "sendLock s" using c h Compl by (auto simp: core_def)
  show ?thesis
  proof (cases e)
    case None
    then show ?thesis using st c n l p(2) Compl by (auto simp: core_def cnt_Cons split: if_splits)
  next
    case (Some x)
    have co: "sendLock s1 = sendLock s \<and> awire s1 = awire s \<and> qlist (aqueue s1) = qlist (aqueue s) \<and> heap s1 = heap s" if "close_over s = Ret s1" for s1
      using send_viewD(1-4) [OF close_over_fields [OF that]] by simp
    have "sendLock s' = sendLock s \<and> awire s' = awire s \<and> qlist (aqueue s') = qlist (aqueue s) \<and> heap s' = heap s \<and>
        (ps = [Finish i] \<or> ps = [Retry i k] \<or> (\<exists>d. ps = [Finish i, KCas d 0]))"
      using st Compl Some co by (auto simp: map_ret_eq_Ret Let_def split: if_splits)
    then show ?thesis using c n l p(2) Compl Some by (auto simp: core_def cnt_Cons)
  qed
next
  case (Retry i k)
  have n: "n = 0" "h1 = []" "h2 = []" and l: "sendLock s" using c h Retry by (auto simp: core_def)
  let ?b = "DropFirstNBytes (heap s i) (int k)"
  have b: "Bytes ?b = drop k (Bytes (heap s i))" "wf_buffer ?b"
    using p(2) Retry Bytes_Drop [of "heap s i" "int k"] Len_Bytes [of "heap s i"] by simp_all
  have co: "sendLock s1 = sendLock s \<and> awire s1 = awire s \<and> qlist (aqueue s1) = qlist (aqueue s) \<and> heap s1 = heap s" if "close_over s = Ret s1" for s1
    using send_viewD(1-4) [OF close_over_fields [OF that]] by simp
  have "s' = put_buf i ?b s \<and> ps = [DoSend i] \<or>
      sendLock s' = sendLock s \<and> awire s' = awire s \<and> qlist (aqueue s') = qlist (aqueue s) \<and> ps = [Finish i]"
    using st Retry co by (auto simp: map_ret_eq_Ret split: if_splits)
  then show ?thesis using c n l b Retry by (auto simp: core_def cnt_Cons)
next
  case (Cas2 i)
  then show ?thesis using st c h p(2) by (auto simp: core_def cnt_Cons split: if_splits)
next
  case SStart
  have n: "n = 0" "h1 = []" "h2 = []" and l: "sendLock s" using c h SStart by (auto simp: core_def)
  obtain i where "s' = (put_buf i fresh_buffer (aio_addIO s))\<lparr>live := i # live s, send_b := Some i\<rparr>" "ps = [DoSend i]"
    using st SStart by (auto split: io_res.splits if_splits)
  moreover have "wf_buffer fresh_buffer" "Bytes fresh_buffer = []"
    by (simp_all add: fresh_buffer_def wf_buffer_def wf_slice_def nil_slice_def Bytes_def sbytes_def)
  ultimately show ?thesis using c n l SStart by (simp add: core_def cnt_Cons)
next
  case SCas
  then show ?thesis using st c h by (auto simp: core_def cnt_Cons split: if_splits)
next
  case (Store0 i)
  then show ?thesis using st c h p(2) by (auto simp: core_def cnt_Cons)
next
  case (Recheck i)
  then show ?thesis using st c h p(2) by (auto simp: core_def cnt_Cons split: if_splits)
qed (use p(1) in \<open>simp_all add: quiet_def\<close>)

lemma owner_watcher: "owner p \<Longrightarrow> watcher p"
  by (cases p) simp_all

lemma watcher_leaves:
  assumes "\<not> quiet p" and "athread g ec r p s = Some (Ret (s', ps))" and "\<not> (\<exists>p' \<in> set ps. watcher p')"
    and "owner p \<longrightarrow> sendLock s"
  shows "sendLock s' \<or> qlist (aqueue s') = []"
  using assms
  by (cases p) (auto simp: quiet_def Empty_def Let_def map_ret_eq_Ret split: if_splits option.splits io_res.splits prod.splits
      sq_get_out.splits dest!: close_over_fields send_viewD(1))

text \<open>The close callback.\<close>

definition cb_ok :: "'o aio \<Rightarrow> bool" where
  "cb_ok s \<longleftrightarrow> length (closecbs s) \<le> 1 \<and> (\<not> adoCloseOnce s \<longrightarrow> closecbs s = [])"

lemma close_over_cb: "close_over s = Ret s' \<Longrightarrow> closecbs s' = closecbs s \<and> adoCloseOnce s' = adoCloseOnce s"
  by (auto simp: close_over_def split: if_splits)

lemma cb_fields [simp]:
  "closecbs (aio_addIO s) = closecbs s" "adoCloseOnce (aio_addIO s) = adoCloseOnce s"
  "closecbs (aio_set_flag fl s) = closecbs s" "adoCloseOnce (aio_set_flag fl s) = adoCloseOnce s"
  "closecbs (put_buf i b s) = closecbs s" "adoCloseOnce (put_buf i b s) = adoCloseOnce s"
  "closecbs (free_buf i s) = closecbs s" "adoCloseOnce (free_buf i s) = adoCloseOnce s"
  by (simp_all add: aio_addIO_def aio_set_flag_def put_buf_def free_buf_def)

lemma cb_fire: "cb_ok s \<Longrightarrow> cb_ok (aio_fire e s)"
  by (simp add: cb_ok_def aio_fire_def)

lemma cb_step: "athread g ec r p s = Some (Ret (s', ps)) \<Longrightarrow> cb_ok s \<Longrightarrow> cb_ok s'"
  using cb_fire
  by (cases p) (auto simp: cb_ok_def Let_def map_ret_eq_Ret split: if_splits option.splits io_res.splits prod.splits
      sq_get_out.splits dest!: close_over_cb)

section \<open>Invariant of the session\<close>

text \<open>Always: at most one goroutine owns the lock, nobody owns it when it is free, and the callback has run at most once. As long
  as no completion has met a foreign buffer: nothing is lost, and nobody leaves a filled queue behind.\<close>

definition lock_inv :: "'o asys \<Rightarrow> bool" where
  "lock_inv S \<longleftrightarrow> cnt owner (athreads S) \<le> 1 \<and> (\<not> sendLock (sess S) \<longrightarrow> cnt owner (athreads S) = 0) \<and> cb_ok (sess S)"

definition data_inv :: "('o \<Rightarrow> byte list) \<Rightarrow> ('o \<Rightarrow> session_error option) \<Rightarrow> 'o asys \<Rightarrow> bool" where
  "data_inv ebytes eerr S \<longleftrightarrow>
     core (sendLock (sess S)) (cnt owner (athreads S)) (awire (sess S)) (holds (heap (sess S)) (athreads S))
       (payloads ebytes eerr (qlist (aqueue (sess S)))) (payloads ebytes eerr (taken S)) \<and>
     (\<forall>p \<in> set (athreads S). wf_pc (heap (sess S)) p) \<and> ptr_inv (athreads S) (live (sess S)) \<and>
     ((sendLock (sess S) \<longrightarrow> cnt owner (athreads S) = 1) \<and> qlist (aqueue (sess S)) \<noteq> [] \<longrightarrow> (\<exists>p \<in> set (athreads S). watcher p))"

lemma lock_thread_inv:
  assumes inv: "lock_inv S" and th: "athreads S = xs @ p # ys" and st: "athread g ec r p (sess S) = Some (Ret (s, ps))"
  shows "lock_inv (S\<lparr>sess := s, athreads := xs @ ps @ ys\<rparr>)"
proof -
  have "cnt owner xs + cnt owner ys + cnt owner ps \<le> 1 \<and> (\<not> sendLock s \<longrightarrow> cnt owner xs + cnt owner ys + cnt owner ps = 0)"
    using inv th by (intro lock_step [OF st]) (auto simp: lock_inv_def cnt_Cons)
  then show ?thesis using cb_step [OF st] inv by (auto simp: lock_inv_def)
qed

lemma data_thread_inv:
  assumes enc: "encodes ec ebytes eerr" and inv: "data_inv ebytes eerr S" and th: "athreads S = xs @ p # ys"
    and st: "athread g ec r p (sess S) = Some (Ret (s, ps))" and nm: "\<not> mixed s"
  shows "data_inv ebytes eerr (S\<lparr>sess := s, athreads := xs @ ps @ ys\<rparr>)"
proof -
  let ?s = "sess S" and ?n = "cnt owner xs + cnt owner ys" and ?q = "payloads ebytes eerr"
  let ?hx = "holds (heap ?s) xs" and ?hy = "holds (heap ?s) ys"
  have nm0: "\<not> mixed ?s" using mixed_step [OF st] nm by blast
  have c: "core (sendLock ?s) (?n + (if owner p then 1 else 0)) (awire ?s) (?hx @ hold (heap ?s) p @ ?hy) (?q (qlist (aqueue ?s))) (?q (taken S))"
    using inv th by (auto simp: data_inv_def cnt_Cons algebra_simps)
  have ptr: "ptr_inv (xs @ p # ys) (live ?s)" using inv th by (simp add: data_inv_def)
  note other = others_hold [OF st nm0 ptr]
  have ptr': "ptr_inv (xs @ ps @ ys) (live s)" by (rule ptr_inv_step [OF st nm ptr])
  have wf: "wf_pc (heap ?s) p" "\<forall>p \<in> set xs \<union> set ys. wf_pc (heap s) p" using inv th other(3) by (auto simp: data_inv_def)
  have h: "?n = 0 \<longrightarrow> ?hx = [] \<and> ?hy = []" using holds_none by auto
  have watch: "(sendLock ?s \<longrightarrow> ?n + (if owner p then 1 else 0) = 1) \<and> qlist (aqueue ?s) \<noteq> [] \<longrightarrow> (\<exists>p' \<in> insert p (set xs \<union> set ys). watcher p')"
    using inv th by (auto simp: data_inv_def cnt_Cons)
  show ?thesis
  proof (cases "quiet p")
    case True
    note same = quiet_same [OF True st]
    have ps: "\<forall>p' \<in> set ps. quiet p'" using quiet_step [OF True st] by simp
    have z: "cnt owner ps = 0" "\<forall>p' \<in> set ps. wf_pc (heap s) p'" using quiet_cnt [OF ps] by simp_all
    have p0: "\<not> owner p" "hold (heap ?s) p = []" "\<not> watcher p" using True hold_owner by (simp_all add: quiet_def)
    have "holds (heap s) (xs @ ps @ ys) = ?hx @ hold (heap ?s) p @ ?hy"
      by (simp only: map_append concat_append holds_none [OF z(1)] p0 append_Nil other(1,2))
    then have "core (sendLock s) (cnt owner (xs @ ps @ ys)) (awire s) (holds (heap s) (xs @ ps @ ys)) (?q (qlist (aqueue s))) (?q (taken S))"
      using c same p0 z by (simp only: cnt_append) simp
    moreover have "(sendLock s \<longrightarrow> cnt owner (xs @ ps @ ys) = 1) \<and> qlist (aqueue s) \<noteq> [] \<longrightarrow> (\<exists>p' \<in> set (xs @ ps @ ys). watcher p')"
      using watch same p0 z by auto
    ultimately show ?thesis using wf z ptr' by (auto simp: data_inv_def)
  next
    case False
    have cs: "core (sendLock s) (?n + cnt owner ps) (awire s) (?hx @ holds (heap s) ps @ ?hy) (?q (qlist (aqueue s))) (?q (taken S))"
        "\<forall>p' \<in> set ps. wf_pc (heap s) p'"
      using core_step [OF enc False wf(1) nm st c h] by simp_all
    have lock: "owner p \<longrightarrow> sendLock ?s" using c by (auto simp: core_def)
    have "(sendLock s \<longrightarrow> cnt owner (xs @ ps @ ys) = 1) \<and> qlist (aqueue s) \<noteq> [] \<longrightarrow> (\<exists>p' \<in> set (xs @ ps @ ys). watcher p')"
    proof (intro impI)
      assume live: "(sendLock s \<longrightarrow> cnt owner (xs @ ps @ ys) = 1) \<and> qlist (aqueue s) \<noteq> []"
      show "\<exists>p' \<in> set (xs @ ps @ ys). watcher p'"
      proof (cases "\<exists>p' \<in> set ps. watcher p'")
        case False
        then have "sendLock s" using watcher_leaves [OF \<open>\<not> quiet p\<close> st _ lock] live by auto
        then have "0 < cnt owner (xs @ ps @ ys)" using live by simp
        then show ?thesis unfolding cnt_gt_0 using owner_watcher by blast
      qed auto
    qed
    moreover have "core (sendLock s) (cnt owner (xs @ ps @ ys)) (awire s) (holds (heap s) (xs @ ps @ ys)) (?q (qlist (aqueue s))) (?q (taken S))"
      using cs(1) other(1,2) by (simp add: algebra_simps)
    ultimately show ?thesis using wf cs(2) ptr' by (auto simp: data_inv_def)
  qed
qed

lemma data_add_inv:
  assumes inv: "data_inv ebytes eerr S" and q: "qlist q = qlist (aqueue (sess S)) @ [v]"
  shows "data_inv ebytes eerr (S\<lparr>sess := (sess S)\<lparr>aqueue := q\<rparr>, athreads := athreads S @ [SCas], taken := taken S @ [v]\<rparr>)"
  using inv q by (auto simp: data_inv_def core_def cnt_Cons ptr_inv_def)

lemma lock_step_inv: "aio_step g ec S S' \<Longrightarrow> lock_inv S \<Longrightarrow> lock_inv S'"
proof (induction rule: aio_step.induct)
  case (a_thread S xs p ys r s ps)
  then show ?case using lock_thread_inv by blast
next
  case (a_shutdown S q closeOK remain)
  then show ?case by (auto simp: lock_inv_def cnt_Cons cb_ok_def)
next
  case (a_shutdown_read S)
  then show ?case by (simp add: lock_inv_def cb_ok_def aio_set_flag_def)
qed (simp_all add: lock_inv_def cnt_Cons cb_ok_def)

lemma data_step_inv:
  assumes enc: "encodes ec ebytes eerr"
  shows "aio_step g ec S S' \<Longrightarrow> \<not> mixed (sess S') \<Longrightarrow> data_inv ebytes eerr S \<Longrightarrow> data_inv ebytes eerr S'"
proof (induction rule: aio_step.induct)
  case (a_send v S q sig)
  then have "qlist q = qlist (aqueue (sess S)) @ [v]" by (auto simp: Add_def split: if_splits)
  then show ?case using data_add_inv a_send.prems by blast
next
  case (a_sendT v S q sig)
  then have "qlist q = qlist (aqueue (sess S)) @ [v]" by (auto simp: AddWithTimeout_def AddWithTimeout_loop_def split: if_splits)
  then show ?case using data_add_inv a_sendT.prems by blast
next
  case (a_thread S xs p ys r s ps)
  have "\<not> mixed s" using a_thread.prems(1) by simp
  then show ?case using data_thread_inv [OF enc a_thread.prems(2) a_thread.hyps] by blast
next
  case (a_close S e d)
  then show ?case by (auto simp: data_inv_def cnt_Cons ptr_inv_def)
next
  case (a_shutdown S q closeOK remain)
  then have "qlist q = qlist (aqueue (sess S))" by (auto simp: Close_def Let_def split: if_splits)
  then show ?case using a_shutdown.prems by (auto simp: data_inv_def cnt_Cons ptr_inv_def)
next
  case (a_shutdown_read S)
  then show ?case by (simp add: data_inv_def aio_set_flag_def)
next
  case (a_begin S nocb)
  then show ?case by (auto simp: data_inv_def cnt_Cons ptr_inv_def)
next
  case (a_mixed S h)
  then show ?case by simp
qed

lemma mixed_aio_step: "aio_step g ec S S' \<Longrightarrow> mixed (sess S) \<Longrightarrow> mixed (sess S')"
  by (induction rule: aio_step.induct) (auto simp: aio_set_flag_def dest: mixed_step)

lemma aio_reach_lock:
  "(aio_step g ec)\<^sup>*\<^sup>* (aio_init ecb ccb) S \<Longrightarrow> lock_inv S"
proof (induction rule: rtranclp_induct)
  case base
  show ?case by (simp add: aio_init_def NewSocket_def lock_inv_def cb_ok_def)
next
  case (step S S')
  then show ?case using lock_step_inv by blast
qed

lemma aio_reach_inv:
  assumes enc: "encodes ec ebytes eerr" and "(aio_step g ec)\<^sup>*\<^sup>* (aio_init ecb ccb) S" and "\<not> mixed (sess S)"
  shows "data_inv ebytes eerr S"
  using assms(2,3)
proof (induction rule: rtranclp_induct)
  case base
  show ?case by (simp add: aio_init_def NewSocket_def NewSendQueue_def data_inv_def core_def ptr_inv_def)
next
  case (step S S')
  then have "\<not> mixed (sess S)" using mixed_aio_step by blast
  then show ?case using data_step_inv [OF enc step(2) step.prems] step.IH by blast
qed

lemma aio_wire_prefix:
  assumes "encodes ec ebytes eerr" and "(aio_step g ec)\<^sup>*\<^sup>* (aio_init ecb ccb) S" and "\<not> mixed (sess S)"
  obtains left where "concat (map (aio_payload ebytes eerr) (taken S)) = awire (sess S) @ left"
  using aio_reach_inv [OF assms] that by (auto simp: data_inv_def core_def)

text \<open>C27. However sends, completions, timeouts, errors, shutdown and close interleave, at most one goroutine holds the send
  lock and the close callback runs at most once. As long as no completion was given the buffer of another goroutine (the
  goroutine's own buffer is not the one in \<open>sendContext.b\<close>), the bytes written by the sends are a prefix of the encodings of
  the accepted objects in the order in which they were queued, with nothing repeated after a timeout that wrote a part.\<close>

theorem aio_stream_intact:
  assumes "encodes ec ebytes eerr" and "(aio_step g ec)\<^sup>*\<^sup>* (aio_init ecb ccb) S"
  shows "cnt owner (athreads S) \<le> 1 \<and> length (closecbs (sess S)) \<le> 1 \<and>
    (\<not> mixed (sess S) \<longrightarrow> (\<exists>more. concat (map (aio_payload ebytes eerr) (taken S)) = awire (sess S) @ more))"
  using aio_reach_lock [OF assms(2)] aio_reach_inv [OF assms] by (auto simp: lock_inv_def cb_ok_def data_inv_def core_def)

lemma aio_at_rest:
  assumes enc: "encodes ec ebytes eerr" and reach: "(aio_step g ec)\<^sup>*\<^sup>* (aio_init ecb ccb) S" and nm: "\<not> mixed (sess S)"
    and idle: "\<forall>p \<in> set (athreads S). (\<exists>i. p = DoSend i \<and> Len (heap (sess S) i) = 0) \<and> athread g ec IoOk p (sess S) = None"
    and lock: "sendLock (sess S) \<longrightarrow> athreads S \<noteq> []"
  shows "qlist (aqueue (sess S)) = [] \<and> awire (sess S) = concat (map (aio_payload ebytes eerr) (taken S))"
proof -
  have inv: "data_inv ebytes eerr S" using aio_reach_inv [OF enc reach nm] .
  have own: "owner p" "hold (heap (sess S)) p = []" if "p \<in> set (athreads S)" for p
    using that idle inv Len_Bytes by (fastforce simp: data_inv_def)+
  have q: "qlist (aqueue (sess S)) = []"
  proof (cases "athreads S")
    case Nil
    then show ?thesis using inv lock by (auto simp: data_inv_def)
  next
    case (Cons p ps)
    then have "athread g ec IoOk p (sess S) = None" "\<exists>i. p = DoSend i \<and> Len (heap (sess S) i) = 0" using idle by auto
    then show ?thesis by (auto simp: Get_def split: if_splits)
  qed
  have live: "sendLock (sess S) \<longrightarrow> cnt owner (athreads S) = 1"
  proof
    assume "sendLock (sess S)"
    then have "0 < cnt owner (athreads S)" unfolding cnt_gt_0 using lock own(1) by (cases "athreads S") auto
    then show "cnt owner (athreads S) = 1" using inv by (simp add: data_inv_def core_def)
  qed
  have "holds (heap (sess S)) (athreads S) = []" using own(2) by simp
  then show ?thesis using inv live q by (auto simp: data_inv_def core_def)
qed

text \<open>C28. No object is left behind: when no goroutine of the session is left but perhaps one that waits in \<open>Get\<close> on an empty
  queue, no failed send has left the lock taken and no completion was given the buffer of another goroutine, the queue is empty
  and every accepted object is on the wire.\<close>

theorem aio_sends_everything:
  assumes enc: "encodes ec ebytes eerr" and reach: "(aio_step g ec)\<^sup>*\<^sup>* (aio_init ecb ccb) S" and nm: "\<not> mixed (sess S)"
    and idle: "\<forall>p \<in> set (athreads S). (\<exists>i. p = DoSend i \<and> Len (heap (sess S) i) = 0) \<and> athread g ec IoOk p (sess S) = None"
    and lock: "sendLock (sess S) \<longrightarrow> athreads S \<noteq> []"
  shows "qlist (aqueue (sess S)) = [] \<and> awire (sess S) = concat (map (aio_payload ebytes eerr) (taken S))"
  using assms by (rule aio_at_rest)

section \<open>Schedules\<close>

text \<open>Runs given by a schedule: which goroutine steps next and what \<open>goaio\<close> answers it, a \<open>Send\<close>, a
  \<open>ShutdownWrite\<close>, a \<open>Close\<close>, a \<open>BeginRecv\<close>.\<close>

datatype 'o asched = TThread nat io_res | TSend "'o object" | TShut | TClose session_error int | TBegin

fun exec1 :: "growth \<Rightarrow> 'o encoder \<Rightarrow> 'o asched \<Rightarrow> 'o asys \<Rightarrow> 'o asys option" where
  "exec1 g ec (TThread i r) S =
     (if i < length (athreads S) then
        (case athread g ec r (athreads S ! i) (sess S) of
           Some (Ret (s, ps)) \<Rightarrow> Some (S\<lparr>sess := s, athreads := take i (athreads S) @ ps @ drop (Suc i) (athreads S)\<rparr>)
         | _ \<Rightarrow> None)
      else None)"
| "exec1 g ec (TSend v) S =
     (case Add v (aqueue (sess S)) of
        (q, AddRet None sig) \<Rightarrow> Some (S\<lparr>sess := (sess S)\<lparr>aqueue := q\<rparr>, athreads := athreads S @ [SCas], taken := taken S @ [v]\<rparr>)
      | _ \<Rightarrow> None)"
| "exec1 g ec TShut S =
     (case Close (aqueue (sess S)) of
        (q, closeOK, remain) \<Rightarrow>
          Some (S\<lparr>sess := (sess S)\<lparr>aqueue := q\<rparr>, athreads := athreads S @ (if closeOK \<and> remain = 0 then [SWrite] else [])\<rparr>))"
| "exec1 g ec (TClose e d) S = Some (S\<lparr>athreads := athreads S @ [KCas e d]\<rparr>)"
| "exec1 g ec TBegin S = Some (S\<lparr>athreads := athreads S @ [BCas False]\<rparr>)"

primrec exec :: "growth \<Rightarrow> 'o encoder \<Rightarrow> 'o asched list \<Rightarrow> 'o asys \<Rightarrow> 'o asys option" where
  "exec g ec [] S = Some S"
| "exec g ec (t # ts) S = Option.bind (exec1 g ec t S) (exec g ec ts)"

lemma exec1_step: "exec1 g ec t S = Some S' \<Longrightarrow> aio_step g ec S S'"
proof (cases t)
  case (TThread i r)
  assume e: "exec1 g ec t S = Some S'"
  then obtain s ps where i: "i < length (athreads S)" and a: "athread g ec r (athreads S ! i) (sess S) = Some (Ret (s, ps))"
      and S': "S' = S\<lparr>sess := s, athreads := take i (athreads S) @ ps @ drop (Suc i) (athreads S)\<rparr>"
    using TThread by (auto split: if_splits option.splits go.splits)
  show ?thesis unfolding S' by (rule a_thread [OF id_take_nth_drop [OF i] a])
next
  case (TSend v)
  assume "exec1 g ec t S = Some S'"
  then show ?thesis using TSend a_send by (fastforce split: prod.splits sq_add_out.splits option.splits)
next
  case TShut
  assume "exec1 g ec t S = Some S'"
  then show ?thesis using TShut a_shutdown by (fastforce split: prod.splits)
next
  case (TClose e d)
  assume "exec1 g ec t S = Some S'"
  then show ?thesis using TClose a_close by fastforce
next
  case TBegin
  assume "exec1 g ec t S = Some S'"
  then show ?thesis using TBegin a_begin by fastforce
qed

lemma exec_Some: "\<not> Option.is_none (exec g ec ts S) \<Longrightarrow> exec g ec ts S = Some (the (exec g ec ts S))"
  by (cases "exec g ec ts S") simp_all

lemma exec_reach: "exec g ec ts S = Some S' \<Longrightarrow> (aio_step g ec)\<^sup>*\<^sup>* S S'"
proof (induction ts arbitrary: S)
  case (Cons t ts)
  then obtain S1 where "exec1 g ec t S = Some S1" "exec g ec ts S1 = Some S'" by (auto simp: bind_eq_Some_conv)
  then show ?case using Cons.IH exec1_step by (meson converse_rtranclp_into_rtranclp)
qed simp

text \<open>One object sent, from \<open>Send\<close> by goroutine \<open>i\<close> with the buffer at \<open>i\<close> to \<open>onSendComplete:2\<close>.\<close>

definition send_run :: "nat \<Rightarrow> 'o object \<Rightarrow> 'o asched list" where
  "send_run i v = [TSend v, TThread i IoOk, TThread i (IoBuf i)] @ replicate 5 (TThread i IoOk)"

definition aio_sent :: "nat asys" where
  "aio_sent = the (exec double (digit_enc double) (send_run 0 (OBytes [1, 2]) @ replicate 5 (TThread 0 IoOk)) (aio_init True True))"

lemma aio_sent_exec:
  "exec double (digit_enc double) (send_run 0 (OBytes [1, 2]) @ replicate 5 (TThread 0 IoOk)) (aio_init True True) = Some aio_sent"
  unfolding aio_sent_def by (rule exec_Some) code_simp

lemma aio_sent_state: "athreads aio_sent = []" "sendLock (sess aio_sent) = False" "taken aio_sent = [OBytes [1, 2]]" "mixed (sess aio_sent) = False"
  by code_simp+

theorem aio_stream_intact_witness:
  "\<exists>more. concat (map (aio_payload (\<lambda>m. [of_nat m]) (\<lambda>m. if m > 9 then Some (NetError ''big'') else None)) (taken aio_sent))
     = awire (sess aio_sent) @ more"
  using aio_stream_intact [OF digit_encodes exec_reach [OF aio_sent_exec]] aio_sent_state(4) by simp

theorem aio_sends_everything_witness: "awire (sess aio_sent) = [1, 2] \<and> qlist (aqueue (sess aio_sent)) = []"
  using aio_sends_everything [OF digit_encodes exec_reach [OF aio_sent_exec]] aio_sent_state by simp

text \<open>Two goroutines behind \<open>onSendComplete:1\<close> when the queue is closed: both find it empty and closed, and the second one
  closes \<open>sendOverChan\<close> again, which panics.\<close>

lemma send_over_closed_twice:
  "\<exists>S p. (aio_step double (digit_enc double))\<^sup>*\<^sup>* (aio_init True True) S \<and> p \<in> set (athreads S) \<and>
     athread double (digit_enc double) IoOk p (sess S) = Some (Panic CloseOfClosed)"
proof -
  let ?run = "send_run 0 (OBytes [1]) @ send_run 1 (OBytes [2]) @ [TThread 0 IoOk, TThread 1 IoOk, TShut, TThread 0 IoOk]"
  define S where "S = the (exec double (digit_enc double) ?run (aio_init True True))"
  have e: "exec double (digit_enc double) ?run (aio_init True True) = Some S" unfolding S_def by (rule exec_Some) code_simp
  have p: "athreads S ! 1 = Over 1" "1 < length (athreads S)" and q: "Closed (aqueue (sess S))" "overClosed (sess S)"
    unfolding S_def by code_simp+
  have "athread double (digit_enc double) IoOk (athreads S ! 1) (sess S) = Some (Panic CloseOfClosed)"
    using p(1) q by (simp add: close_over_def)
  then show ?thesis using exec_reach [OF e] p nth_mem by blast
qed

text \<open>The buffer in \<open>sendContext.b\<close>: a goroutine is at \<open>onSendComplete:2\<close> with the buffer at 0 when another one sends with the buffer at 1,
  finishes and frees it; the first one takes the lock again, and its request writes one byte and times out. Its completion gets
  the buffer at 1: the other two bytes are lost. The session comes to rest with them missing, and the object sent next follows the cut one on
  the wire.\<close>

definition mixed_run :: "nat asched list" where
  "mixed_run = send_run 0 (OBytes [1]) @
     [TSend (OBytes [2]), TThread 0 IoOk, TThread 1 IoOk, TThread 1 (IoBuf 1)] @ replicate 9 (TThread 1 IoOk) @
     [TSend (OBytes [5, 6, 7])] @ replicate 3 (TThread 0 IoOk) @ [TThread 0 (IoErr NetTimeout 1)] @ replicate 2 (TThread 0 IoOk) @ [TThread 1 IoOk]"

lemma aio_context_mixed:
  "\<exists>S. (aio_step double (digit_enc double))\<^sup>*\<^sup>* (aio_init True True) S \<and> athreads S = [DoSend 1] \<and> Len (heap (sess S) 1) = 0 \<and>
     athread double (digit_enc double) IoOk (DoSend 1) (sess S) = None \<and> taken S = [OBytes [1], OBytes [2], OBytes [5, 6, 7]] \<and>
     awire (sess S) = [1, 2, 5]"
proof -
  define S where "S = the (exec double (digit_enc double) mixed_run (aio_init True True))"
  have e: "exec double (digit_enc double) mixed_run (aio_init True True) = Some S" unfolding S_def by (rule exec_Some) code_simp
  have "athreads S = [DoSend 1]" "Len (heap (sess S) 1) = 0" "taken S = [OBytes [1], OBytes [2], OBytes [5, 6, 7]]" "awire (sess S) = [1, 2, 5]"
    unfolding S_def by code_simp+
  moreover have "Option.is_none (athread double (digit_enc double) IoOk (DoSend 1) (sess S))" unfolding S_def by code_simp
  then have "athread double (digit_enc double) IoOk (DoSend 1) (sess S) = None" by (simp only: Option.is_none_def)
  ultimately show ?thesis using exec_reach [OF e] by blast
qed

lemma aio_stream_mixed:
  "\<exists>S. (aio_step double (digit_enc double))\<^sup>*\<^sup>* (aio_init True True) S \<and> taken S = [OBytes [1], OBytes [2], OBytes [5, 6, 7], OBytes [8]] \<and>
     awire (sess S) = [1, 2, 5, 8]"
proof -
  let ?run = "mixed_run @ TSend (OBytes [8]) # replicate 3 (TThread 0 IoOk)"
  define S where "S = the (exec double (digit_enc double) ?run (aio_init True True))"
  have e: "exec double (digit_enc double) ?run (aio_init True True) = Some S" unfolding S_def by (rule exec_Some) code_simp
  have "taken S = [OBytes [1], OBytes [2], OBytes [5, 6, 7], OBytes [8]]" "awire (sess S) = [1, 2, 5, 8]"
    unfolding S_def by code_simp+
  then show ?thesis using exec_reach [OF e] by blast
qed

end
