(* ===== verification/Sessions.thy ===== *)
theory Sessions
  imports AioSocket
begin

text \<open>
  What a program calls on a session, beyond the goroutines of AioSocket and SocketBase: \<open>Send\<close>, \<open>SendWithTimeout\<close> and \<open>DirectSend\<close>
  of \<open>src/socket/aio/aiosocket.go\<close> with their checks and errors, the setters and getters of both session types, and
  \<open>SocketService\<close>, which spreads the connections over its pollers and runs their completions. \<open>goaio\<close> and the user's values
  are parameters.
\<close>

section \<open>Definitions: sending\<close>

text \<open>\<open>None\<close> is the nil object; the second result is the error that is returned. An object that is queued leaves a goroutine at the
  compare-and-swap of \<open>send:2\<close>.\<close>

definition aio_queued :: "'o object \<Rightarrow> 'o object sendqueue \<Rightarrow> 'o asys \<Rightarrow> 'o asys" where
  "aio_queued v q S = S\<lparr>sess := (sess S)\<lparr>aqueue := q\<rparr>, athreads := athreads S @ [SCas], taken := taken S @ [v]\<rparr>"

definition needs_encoder :: "'o object \<Rightarrow> bool" where
  "needs_encoder v = (case v of OBytes b \<Rightarrow> False | OMsg m \<Rightarrow> True)"

definition aio_Send :: "bool \<Rightarrow> 'o object option \<Rightarrow> 'o asys \<Rightarrow> 'o asys \<times> session_error option" where
  "aio_Send has_enc obj S =
     (case obj of
        None \<Rightarrow> (S, Some ErrInvaildObject)
      | Some v \<Rightarrow>
          (if needs_encoder v \<and> \<not> has_enc then (S, Some ErrInvaildEncoder)
           else (case Add v (aqueue (sess S)) of
                   (q, AddRet (Some e) sig) \<Rightarrow>
                     (S, Some (if e = ErrQueueFull then ErrSendQueFull
                               else if e = ErrAddTimeout then SocketBase.ErrSendTimeout else ErrSocketClose))
                 | (q, out) \<Rightarrow> (aio_queued v q S, None))))"

text \<open>\<open>SendWithTimeout\<close> up to its first wait; \<open>None\<close> is a caller that waits for room, and \<open>aio_Send_resume\<close> what it does when the wait
  is over, \<open>ok\<close> unless it timed out.\<close>

definition queue_result :: "'o object \<Rightarrow> 'o object sendqueue \<times> sq_add_out \<Rightarrow> 'o asys \<Rightarrow> 'o asys \<times> session_error option option" where
  "queue_result v r S =
     (case r of
        (q, AddRet (Some e) sig) \<Rightarrow>
          (S\<lparr>sess := (sess S)\<lparr>aqueue := q\<rparr>\<rparr>,
           Some (Some (if e = ErrQueueFull then ErrSendQueFull
                       else if e = ErrAddTimeout then SocketBase.ErrSendTimeout else ErrSocketClose)))
      | (q, AddRet None sig) \<Rightarrow> (aio_queued v q S, Some None)
      | (q, AddWait) \<Rightarrow> (S\<lparr>sess := (sess S)\<lparr>aqueue := q\<rparr>\<rparr>, None))"

definition aio_SendWithTimeout :: "bool \<Rightarrow> 'o object option \<Rightarrow> 'o asys \<Rightarrow> 'o asys \<times> session_error option option" where
  "aio_SendWithTimeout has_enc obj S =
     (case obj of
        None \<Rightarrow> (S, Some (Some ErrInvaildObject))
      | Some v \<Rightarrow>
          (if needs_encoder v \<and> \<not> has_enc then (S, Some (Some ErrInvaildEncoder))
           else queue_result v (AddWithTimeout v (aqueue (sess S))) S))"

definition aio_Send_resume :: "int \<Rightarrow> bool \<Rightarrow> 'o object \<Rightarrow> 'o asys \<Rightarrow> 'o asys \<times> session_error option option" where
  "aio_Send_resume timeout ok v S = queue_result v (AddWithTimeout_resume timeout ok v (aqueue (sess S))) S"

text \<open>\<open>DirectSend\<close>: the request, and its completion, of which there is none as long as the caller waits.\<close>

definition aio_DirectSend :: "bool \<Rightarrow> (nat \<times> session_error option) option \<Rightarrow> (nat \<times> session_error option) option" where
  "aio_DirectSend refused completion =
     (if refused then Some (0, Some ErrSocketClose)
      else map_option (\<lambda>(n, err). (n, if err = Some NetTimeout then Some SocketBase.ErrSendTimeout else err)) completion)"

section \<open>Definitions: setters and getters\<close>

text \<open>\<open>atomic.Value\<close>: \<open>Store\<close> panics for nil and for a value whose dynamic type is not that of the first one. A value
  carries the name of its type.\<close>

type_synonym 'v dynamic = "string \<times> 'v"

definition Value_Store :: "'v dynamic option \<Rightarrow> 'v dynamic option \<Rightarrow> 'v dynamic option go" where
  "Value_Store x old =
     (case x of
        None \<Rightarrow> Panic (UserPanic ''sync/atomic: store of nil value into Value'')
      | Some (t, v) \<Rightarrow>
          (case old of
             Some (t0, v0) \<Rightarrow>
               if t0 \<noteq> t then Panic (UserPanic ''sync/atomic: store of inconsistently typed value into Value'') else Ret (Some (t, v))
           | None \<Rightarrow> Ret (Some (t, v))))"

record ('v, 'p) session_opts =
  ud :: "'v dynamic option"
  recvTimeout :: int
  sendTimeout :: int
  has_errorCallback :: bool
  encoder_set :: bool
  inboundProcessor :: "'p option"

definition SetUserData :: "'v dynamic option \<Rightarrow> ('v, 'p) session_opts \<Rightarrow> ('v, 'p) session_opts go" where
  "SetUserData x s = map_ret (\<lambda>u. s\<lparr>ud := u\<rparr>) (Value_Store x (ud s))"

definition GetUserData :: "('v, 'p) session_opts \<Rightarrow> 'v dynamic option" where
  "GetUserData s = ud s"

definition SetRecvTimeout :: "int \<Rightarrow> ('v, 'p) session_opts \<Rightarrow> ('v, 'p) session_opts" where
  "SetRecvTimeout timeout s = s\<lparr>recvTimeout := timeout\<rparr>"

definition SetSendTimeout :: "int \<Rightarrow> ('v, 'p) session_opts \<Rightarrow> ('v, 'p) session_opts" where
  "SetSendTimeout timeout s = s\<lparr>sendTimeout := timeout\<rparr>"

definition getRecvTimeout :: "('v, 'p) session_opts \<Rightarrow> int" where
  "getRecvTimeout s = recvTimeout s"

definition getSendTimeout :: "('v, 'p) session_opts \<Rightarrow> int" where
  "getSendTimeout s = sendTimeout s"

definition SetErrorCallBack :: "'cb option \<Rightarrow> ('v, 'p) session_opts \<Rightarrow> ('v, 'p) session_opts" where
  "SetErrorCallBack cb s = s\<lparr>has_errorCallback := (cb \<noteq> None)\<rparr>"

definition aio_SetEncoder :: "'e option \<Rightarrow> ('v, 'p) session_opts \<Rightarrow> ('v, 'p) session_opts" where
  "aio_SetEncoder e s = s\<lparr>encoder_set := (e \<noteq> None)\<rparr>"

text \<open>\<open>SetInBoundProcessor\<close> of the three session types asserts that the processor has the methods of its own kind.\<close>

definition SetInBoundProcessor :: "('p \<Rightarrow> bool) \<Rightarrow> 'p \<Rightarrow> ('v, 'p) session_opts \<Rightarrow> ('v, 'p) session_opts go" where
  "SetInBoundProcessor implements p s =
     (if implements p then Ret (s\<lparr>inboundProcessor := Some p\<rparr>) else Panic (UserPanic ''interface conversion''))"

text \<open>The constructors: a stream session is made of a TCP or a Unix connection only, a websocket session of any but nil; both
  have a send queue of 128 objects.\<close>

datatype conn_kind = TCPConn | UnixConn | OtherConn

definition NewStreamSocket :: "conn_kind \<Rightarrow> 'o socket_base option" where
  "NewStreamSocket k =
     (case k of OtherConn \<Rightarrow> None | _ \<Rightarrow> Some (NewBase False False (the (NewSendQueue [128]))))"

definition NewWSSocket :: "'c option \<Rightarrow> 'o socket_base option" where
  "NewWSSocket conn = (case conn of None \<Rightarrow> None | Some c \<Rightarrow> Some (NewBase False False (the (NewSendQueue [128]))))"

text \<open>The other setters act on the sessions' own records; of a callback or an encoder only its presence matters there. The flag
  of \<open>SetSendQueueSize\<close> says that waiting senders are woken.\<close>

definition SetEncoder :: "'e option \<Rightarrow> 'o socket_base \<Rightarrow> 'o socket_base" where
  "SetEncoder e s = s\<lparr>has_encoder := (e \<noteq> None)\<rparr>"

definition SetCloseCallBack :: "'cb option \<Rightarrow> 'o socket_base \<Rightarrow> 'o socket_base" where
  "SetCloseCallBack cb s = s\<lparr>has_closeCallBack := (cb \<noteq> None)\<rparr>"

definition SetSendQueueSize :: "int \<Rightarrow> 'o socket_base \<Rightarrow> 'o socket_base \<times> bool" where
  "SetSendQueueSize n s = (let (q, sig) = SetFullSize n (sendQue s) in (s\<lparr>sendQue := q\<rparr>, sig))"

definition aio_SetErrorCallBack :: "'cb option \<Rightarrow> 'o aio \<Rightarrow> 'o aio" where
  "aio_SetErrorCallBack cb s = s\<lparr>has_errcb := (cb \<noteq> None)\<rparr>"

definition aio_SetCloseCallBack :: "'cb option \<Rightarrow> 'o aio \<Rightarrow> 'o aio" where
  "aio_SetCloseCallBack cb s = s\<lparr>has_closecb := (cb \<noteq> None)\<rparr>"

definition aio_SetSendQueueSize :: "int \<Rightarrow> 'o aio \<Rightarrow> 'o aio \<times> bool" where
  "aio_SetSendQueueSize n s = (let (q, sig) = SetFullSize n (aqueue s) in (s\<lparr>aqueue := q\<rparr>, sig))"

definition aio_IsClosed :: "'o aio \<Rightarrow> bool" where
  "aio_IsClosed s = AtomicTest fclosed (aflag s)"

section \<open>Definitions: the service\<close>

record service_option =
  PollerCount :: int
  WorkerPerPoller :: int
  CompleteRoutinePerPoller :: int

text \<open>A service's pollers: each with its worker count, and the number of goroutines that run its completions.\<close>

record poller =
  workers :: int
  routines :: nat

definition NewSocketService :: "service_option \<Rightarrow> poller list" where
  "NewSocketService o1 =
     (let pc = (if PollerCount o1 = 0 then 1 else PollerCount o1);
          wp = (if WorkerPerPoller o1 = 0 then 1 else WorkerPerPoller o1);
          cp = (if CompleteRoutinePerPoller o1 = 0 then 1 else CompleteRoutinePerPoller o1)
      in replicate (nat pc) \<lparr>workers = wp, routines = nat cp\<rparr>)"

text \<open>\<open>createAIOConn\<close>: a poller chosen by \<open>rand.Int() % len(services)\<close>; \<open>create\<close> is the answer of the poller.\<close>

definition createAIOConn :: "nat \<Rightarrow> (nat \<Rightarrow> 'e + 'c) \<Rightarrow> poller list \<Rightarrow> ('e + 'c) go" where
  "createAIOConn rnd create services =
     (if length services = 0 then Panic (UserPanic ''integer divide by zero'')
      else Ret (create (rnd mod length services)))"

text \<open>\<open>completeRoutine\<close>: the completions of a poller until it is closed, each handed to a goroutine of the pool that calls its
  context's callback with the result and the context's buffer.\<close>

record ('res, 'buf, 'cb) io_completion =
  result :: 'res
  ctx_b :: 'buf
  ctx_cb :: 'cb

fun completeRoutine :: "('res, 'buf, 'cb) io_completion option list \<Rightarrow> ('cb \<times> 'res \<times> 'buf) list \<Rightarrow> ('cb \<times> 'res \<times> 'buf) list \<times> bool" where
  "completeRoutine [] tasks = (tasks, False)"
| "completeRoutine (None # cs) tasks = (tasks, True)"
| "completeRoutine (Some c # cs) tasks = completeRoutine cs (tasks @ [(ctx_cb c, result c, ctx_b c)])"

definition service_Close :: "bool list \<Rightarrow> bool list" where
  "service_Close closed_flags = map (\<lambda>x. True) closed_flags"

section \<open>Properties\<close>

text \<open>Every outcome of \<open>Send\<close>: a nil object, an object without an encoder, a closed session and a full queue are refused with their
  own errors and leave the session as it was; otherwise the object is the last of the queue and of the accepted objects, and the
  session has made a step of the transition system, so that all its properties apply.\<close>

theorem aio_send_outcomes:
  "aio_Send has_enc obj S =
     (case obj of
        None \<Rightarrow> (S, Some ErrInvaildObject)
      | Some v \<Rightarrow>
          if needs_encoder v \<and> \<not> has_enc then (S, Some ErrInvaildEncoder)
          else if closed (aqueue (sess S)) then (S, Some ErrSocketClose)
          else if int (length (qlist (aqueue (sess S)))) \<ge> fullSize (aqueue (sess S)) then (S, Some ErrSendQueFull)
          else (aio_queued v ((aqueue (sess S))\<lparr>qlist := qlist (aqueue (sess S)) @ [v]\<rparr>) S, None)) \<and>
   (snd (aio_Send has_enc obj S) = None \<longrightarrow>
      aio_step g ec S (fst (aio_Send has_enc obj S)) \<and> taken (fst (aio_Send has_enc obj S)) = taken S @ [the obj])"
  (is "?eq \<and> ?step")
proof
  show eq: ?eq by (auto simp: aio_Send_def Add_def split: option.split)
  show ?step
  proof
    assume ok: "snd (aio_Send has_enc obj S) = None"
    then obtain v where v: "obj = Some v" by (cases obj) (simp_all add: aio_Send_def)
    let ?q = "(aqueue (sess S))\<lparr>qlist := qlist (aqueue (sess S)) @ [v]\<rparr>"
    have q: "aio_Send has_enc obj S = (aio_queued v ?q S, None)" "Add v (aqueue (sess S)) = (?q, AddRet None (emptyWaited (aqueue (sess S)) > 0))"
      using ok v by (auto simp: aio_Send_def Add_def split: if_splits)
    have "aio_step g ec S (aio_queued v ?q S)" unfolding aio_queued_def by (rule a_send [OF q(2)])
    then show "aio_step g ec S (fst (aio_Send has_enc obj S)) \<and> taken (fst (aio_Send has_enc obj S)) = taken S @ [the obj]"
      unfolding q(1) using v by (simp add: aio_queued_def)
  qed
qed

theorem aio_send_outcomes_witness:
  "aio_step double (digit_enc double) (aio_init True True) (fst (aio_Send False (Some (OBytes [1])) (aio_init True True))) \<and>
   taken (fst (aio_Send False (Some (OBytes [1])) (aio_init True True :: nat asys))) = [OBytes [1]]"
proof -
  have "snd (aio_Send False (Some (OBytes [1])) (aio_init True True :: nat asys)) = None"
    by (simp add: aio_Send_def needs_encoder_def aio_init_def NewSocket_def NewSendQueue_def Add_def)
  note step = conjunct2 [OF aio_send_outcomes, rule_format, OF this, of double "digit_enc double"]
  have "taken (aio_init True True :: nat asys) @ [the (Some (OBytes [1]))] = [OBytes [1]]" by (simp add: aio_init_def)
  then show ?thesis using step by simp
qed

text \<open>\<open>SendWithTimeout\<close> never reports a full queue: it waits, and is refused only when the queue is closed or its time is over.\<close>

lemma aio_SendWithTimeout_errors:
  assumes "queue_result v r S = (S', Some (Some e))" and "r = AddWithTimeout v q \<or> r = AddWithTimeout_resume t ok v q"
  shows "e = ErrSocketClose \<or> e = SocketBase.ErrSendTimeout \<and> r = AddWithTimeout_resume t ok v q \<and> \<not> ok \<and> 0 < t"
  using assms by (auto simp: queue_result_def AddWithTimeout_def AddWithTimeout_resume_def AddWithTimeout_loop_def Let_def split: if_splits)

text \<open>A new session takes 128 objects and refuses the next.\<close>

lemma new_session_queue:
  assumes "NewStreamSocket k = Some s \<or> NewWSSocket conn = Some s"
  shows "qlist (sendQue s) = [] \<and> fullSize (sendQue s) = 128 \<and> \<not> closed (sendQue s) \<and> \<not> IsClosed s"
  using assms by (auto simp: NewStreamSocket_def NewWSSocket_def NewBase_def NewSendQueue_def IsClosed_def AtomicTest_def split: conn_kind.splits option.splits)

text \<open>User data: what was stored last is loaded; a nil value and a value of another type panic.\<close>

lemma user_data:
  "SetUserData x s = Ret s' \<Longrightarrow> GetUserData s' = x"
  "SetUserData None s = Panic (UserPanic ''sync/atomic: store of nil value into Value'')"
  "ud s = Some (t0, v0) \<Longrightarrow> t \<noteq> t0 \<Longrightarrow>
     SetUserData (Some (t, v)) s = Panic (UserPanic ''sync/atomic: store of inconsistently typed value into Value'')"
  by (auto simp: SetUserData_def GetUserData_def Value_Store_def map_ret_eq_Ret split: option.splits if_splits prod.splits)

text \<open>A connection goes to a poller of the service unless a negative number of pollers was asked for, and every completion
  is handed out once, in order.\<close>

lemma createAIOConn_poller:
  assumes "0 \<le> PollerCount o1"
  shows "\<exists>i < length (NewSocketService o1). createAIOConn rnd create (NewSocketService o1) = Ret (create i)"
  using assms by (auto simp: NewSocketService_def createAIOConn_def Let_def intro!: exI [of _ "rnd mod nat (PollerCount o1)"])

lemma createAIOConn_none: "PollerCount o1 < 0 \<Longrightarrow> createAIOConn rnd create (NewSocketService o1) = Panic (UserPanic ''integer divide by zero'')"
  by (simp add: NewSocketService_def createAIOConn_def)

lemma completeRoutine_all:
  "completeRoutine (map Some cs) tasks = (tasks @ map (\<lambda>c. (ctx_cb c, result c, ctx_b c)) cs, False)"
  "completeRoutine (map Some cs @ None # rest0) tasks = (tasks @ map (\<lambda>c. (ctx_cb c, result c, ctx_b c)) cs, True)"
  by (induction cs arbitrary: tasks) simp_all

end
