(* ===== verification/Network.thy ===== *)
theory Network
  imports KendyPrelude
begin

text \<open>
  Listeners and connectors, \<open>src/socket/listener/\<close> and \<open>src/socket/connector/\<close>. The listeners for \<open>tcp\<close> and \<open>aio\<close> differ only in
  the session they make of a connection: one transition system of the goroutines that call \<open>Serve\<close> and \<open>Close\<close> models both. The
  websocket listener is served by \<open>net/http\<close>. What \<open>Accept\<close>, \<open>Upgrade\<close> and the dialers return are parameters; of a closed
  network listener only its documentation is used: \<open>Accept\<close> returns an error.
\<close>

section \<open>Definitions: the tcp and aio listeners\<close>

datatype listen_error = ErrServerStarted | ErrInvaildNewClientCB | NetFailure string

text \<open>An error of \<open>Accept\<close>: a \<open>net.Error\<close> that is temporary, or any other.\<close>

datatype accept_error = Temporary string | Permanent string

datatype 'c accept_res = AConn 'c | AErr accept_error

text \<open>\<open>New\<close>: the results of \<open>ResolveTCPAddr\<close> and \<open>ListenTCP\<close>; a listener starts with both flags 0.\<close>

definition listener_New :: "string + 'a \<Rightarrow> ('a \<Rightarrow> string + 'l) \<Rightarrow> 'l option \<times> listen_error option" where
  "listener_New addr listen =
     (case addr of
        Inl e \<Rightarrow> (None, Some (NetFailure e))
      | Inr a \<Rightarrow> (case listen a of Inl e \<Rightarrow> (None, Some (NetFailure e)) | Inr l \<Rightarrow> (Some l, None)))"

text \<open>The goroutines: \<open>LServe nocb\<close> and \<open>LCas\<close> at the two tests of \<open>Serve\<close>, \<open>LAccept\<close> before \<open>Accept\<close>, \<open>LConn\<close> with a connection
  to hand to the callback, \<open>LErr\<close> before the load of \<open>closed\<close>, \<open>LRet\<close> returned; \<open>LClose\<close> and \<open>LShut\<close> in \<open>Close\<close> before
  the compare-and-swap and before the listener's own \<open>Close\<close>, \<open>LClosed\<close> returned.\<close>

datatype 'c lpc =
    LServe bool | LCas | LAccept | LConn 'c | LErr accept_error | LRet "listen_error option"
  | LClose | LShut | LClosed

text \<open>\<open>nclosed\<close> says that the network listener is closed; \<open>laccepted\<close> and \<open>lhanded\<close> are the connections that \<open>Accept\<close> has
  returned and those whose session was given to \<open>onNewClient\<close>.\<close>

record 'c listener =
  started :: bool
  lclosed :: bool
  nclosed :: bool
  laccepted :: "'c list"
  lhanded :: "'c list"

fun Serve_step :: "'c accept_res \<Rightarrow> 'c lpc \<Rightarrow> 'c listener \<Rightarrow> ('c listener \<times> 'c lpc) option" where
  "Serve_step r (LServe nocb) s = Some (s, if nocb then LRet (Some ErrInvaildNewClientCB) else LCas)"
| "Serve_step r LCas s =
     Some (if started s then (s, LRet (Some ErrServerStarted)) else (s\<lparr>started := True\<rparr>, LAccept))"
| "Serve_step r LAccept s =
     (case r of
        AConn c \<Rightarrow> if nclosed s then None else Some (s\<lparr>laccepted := laccepted s @ [c]\<rparr>, LConn c)
      | AErr e \<Rightarrow> Some (s, LErr e))"
| "Serve_step r (LConn c) s = Some (s\<lparr>lhanded := lhanded s @ [c]\<rparr>, LAccept)"
| "Serve_step r (LErr e) s =
     Some (s, if lclosed s then LRet None
              else (case e of Temporary t \<Rightarrow> LAccept | Permanent t \<Rightarrow> LRet (Some (NetFailure t))))"
| "Serve_step r p s = None"

fun Close_step :: "'c lpc \<Rightarrow> 'c listener \<Rightarrow> ('c listener \<times> 'c lpc) option" where
  "Close_step LClose s = Some (if lclosed s then (s, LClosed) else (s\<lparr>lclosed := True\<rparr>, LShut))"
| "Close_step LShut s = Some (s\<lparr>nclosed := True\<rparr>, LClosed)"
| "Close_step p s = None"

record 'c lsys =
  lst :: "'c listener"
  lprocs :: "'c lpc list"

definition new_listener :: "'c lsys" where
  "new_listener = \<lparr>lst = \<lparr>started = False, lclosed = False, nclosed = False, laccepted = [], lhanded = []\<rparr>, lprocs = []\<rparr>"

text \<open>Any number of goroutines call \<open>Serve\<close> and \<open>Close\<close>. A step of one that already runs is a \<open>run_step\<close>.\<close>

inductive run_step :: "'c lsys \<Rightarrow> 'c lsys \<Rightarrow> bool" where
  serve: "i < length (lprocs S) \<Longrightarrow> Serve_step r (lprocs S ! i) (lst S) = Some (s, p) \<Longrightarrow>
     run_step S \<lparr>lst = s, lprocs = (lprocs S)[i := p]\<rparr>"
| close: "i < length (lprocs S) \<Longrightarrow> Close_step (lprocs S ! i) (lst S) = Some (s, p) \<Longrightarrow>
     run_step S \<lparr>lst = s, lprocs = (lprocs S)[i := p]\<rparr>"

inductive listener_reach :: "'c lsys \<Rightarrow> bool" where
  l_init: "listener_reach new_listener"
| l_serve: "listener_reach S \<Longrightarrow> listener_reach (S\<lparr>lprocs := lprocs S @ [LServe nocb]\<rparr>)"
| l_close: "listener_reach S \<Longrightarrow> listener_reach (S\<lparr>lprocs := lprocs S @ [LClose]\<rparr>)"
| l_run: "listener_reach S \<Longrightarrow> run_step S S' \<Longrightarrow> listener_reach S'"

section \<open>Definitions: the websocket listener and the connectors\<close>

text \<open>\<open>Serve\<close> of the websocket listener: the flag, the registration of the handler on the default mux, which panics for a
  pattern that is already there, and the requests that \<open>http.Serve\<close> makes of it before it returns \<open>err\<close>. A request whose
  \<open>Upgrade\<close> fails is dropped.\<close>

record 'c wlistener =
  wstarted :: bool
  wclosed :: bool
  origin :: string

definition ws_handler :: "(string + 'c) \<Rightarrow> 'c list \<Rightarrow> 'c list" where
  "ws_handler upgraded sessions = (case upgraded of Inl e \<Rightarrow> sessions | Inr c \<Rightarrow> sessions @ [c])"

definition ws_Serve :: "bool \<Rightarrow> (string + 'c) list \<Rightarrow> string \<Rightarrow> string set \<Rightarrow> 'c wlistener \<Rightarrow>
    (string set \<times> 'c wlistener \<times> 'c list \<times> listen_error) go" where
  "ws_Serve nocb reqs err mux l =
     (if nocb then Ret (mux, l, [], ErrInvaildNewClientCB)
      else if wstarted l then Ret (mux, l, [], ErrServerStarted)
      else
        (let l1 = l\<lparr>wstarted := True\<rparr> in
         if origin l \<in> mux then Panic (UserPanic ''http: multiple registrations'')
         else Ret (insert (origin l) mux, l1\<lparr>wclosed := True\<rparr>, fold ws_handler reqs [], NetFailure err)))"

text \<open>\<open>Dial\<close>: the stream connectors turn the dialer's connection into a session; the websocket connector also returns the
  response of the server, and asks with no header whatever \<open>requestHeader\<close> it was made with.\<close>

definition Dial :: "(string + 'c) \<Rightarrow> 'c option \<times> string option" where
  "Dial dialled = (case dialled of Inl e \<Rightarrow> (None, Some e) | Inr c \<Rightarrow> (Some c, None))"

record ('u, 'hd) wconnector =
  url :: 'u
  requestHeader :: "'hd option"

definition ws_Dial :: "('u \<Rightarrow> 'hd option \<Rightarrow> string + 'c \<times> 'rsp) \<Rightarrow> ('u, 'hd) wconnector \<Rightarrow> 'c option \<times> 'rsp option \<times> string option" where
  "ws_Dial dialer con =
     (case dialer (url con) None of Inl e \<Rightarrow> (None, None, Some e) | Inr (c, rsp) \<Rightarrow> (Some c, Some rsp, None))"

text \<open>The constructors of the websocket listener and connector: the upgrader or dialer that was given first, or the default, an
  upgrader that accepts every origin.\<close>

definition ws_New :: "string + 'a \<Rightarrow> ('a \<Rightarrow> string + 'l) \<Rightarrow> string \<Rightarrow> 'up list \<Rightarrow> 'up \<Rightarrow> ('l \<times> 'up \<times> 'c wlistener) option \<times> listen_error option" where
  "ws_New addr listen org upgraders allow_all =
     (case listener_New addr listen of
        (Some l, None) \<Rightarrow>
          (Some (l, (case upgraders of u # us \<Rightarrow> u | [] \<Rightarrow> allow_all), \<lparr>wstarted = False, wclosed = False, origin = org\<rparr>), None)
      | (l, e) \<Rightarrow> (None, e))"

definition ws_Close :: "'c wlistener \<Rightarrow> 'c wlistener" where
  "ws_Close l = l\<lparr>wclosed := True\<rparr>"

definition ws_connector_New :: "'u \<Rightarrow> 'hd option \<Rightarrow> 'dl list \<Rightarrow> 'dl \<Rightarrow> 'dl \<times> ('u, 'hd) wconnector" where
  "ws_connector_New u hdr dialers dflt = ((case dialers of d # ds \<Rightarrow> d | [] \<Rightarrow> dflt), \<lparr>url = u, requestHeader = hdr\<rparr>)"

text \<open>The stream connectors keep a network and an address. The connector of \<open>aio\<close> returns what \<open>aio.NewSocket\<close> makes of the connection, nil
  when the service refuses it, and no error; the listener of \<open>aio\<close> hands the same to its callback.\<close>

record connector =
  nettype :: string
  dial_addr :: string

definition connector_New :: "string \<Rightarrow> string \<Rightarrow> connector" where
  "connector_New n a = \<lparr>nettype = n, dial_addr = a\<rparr>"

definition aio_Dial :: "('c \<Rightarrow> 's option) \<Rightarrow> (string + 'c) \<Rightarrow> 's option \<times> string option" where
  "aio_Dial newSocket dialled = (case dialled of Inl e \<Rightarrow> (None, Some e) | Inr c \<Rightarrow> (newSocket c, None))"

definition aio_on_new_client :: "('c \<Rightarrow> 's option) \<Rightarrow> 'c listener \<Rightarrow> 's option list" where
  "aio_on_new_client newSocket s = map newSocket (lhanded s)"

section \<open>One server, every connection once\<close>

fun serving :: "'c lpc \<Rightarrow> bool" where
  "serving LAccept = True"
| "serving (LConn c) = True"
| "serving (LErr e) = True"
| "serving p = False"

fun in_hand :: "'c lpc \<Rightarrow> 'c list" where
  "in_hand (LConn c) = [c]"
| "in_hand p = []"

fun wf_lpc :: "'c listener \<Rightarrow> 'c lpc \<Rightarrow> bool" where
  "wf_lpc s LShut = lclosed s"
| "wf_lpc s (LRet None) = lclosed s"
| "wf_lpc s (LRet (Some e)) = (e = ErrServerStarted \<longrightarrow> started s)"
| "wf_lpc s p = True"

definition listener_inv :: "'c lsys \<Rightarrow> bool" where
  "listener_inv S \<longleftrightarrow>
     cnt serving (lprocs S) \<le> (if started (lst S) then 1 else 0) \<and>
     laccepted (lst S) = lhanded (lst S) @ concat (map in_hand (lprocs S)) \<and>
     (nclosed (lst S) \<longrightarrow> lclosed (lst S)) \<and> (\<forall>p \<in> set (lprocs S). wf_lpc (lst S) p)"

lemma in_hand_none: "\<not> serving p \<Longrightarrow> in_hand p = []"
  by (cases p) simp_all

lemma in_hand_same:
  assumes "i < length ps" and "in_hand p = in_hand (ps ! i)"
  shows "concat (map in_hand (ps[i := p])) = concat (map in_hand ps)"
  using assms(2) by (metis list_update_id map_update)

lemma in_hand_only:
  assumes "i < length ps" and "serving (ps ! i)" and "cnt serving ps \<le> 1"
  shows "concat (map in_hand (ps[i := p])) = in_hand p"
proof -
  have ps: "ps = take i ps @ ps ! i # drop (Suc i) ps" using assms(1) by (simp add: id_take_nth_drop)
  have "cnt serving ps = cnt serving (take i ps) + (1 + cnt serving (drop (Suc i) ps))"
    using assms(2) arg_cong [OF ps, of "cnt serving"] by (simp add: cnt_Cons)
  then have "cnt serving (take i ps) = 0" "cnt serving (drop (Suc i) ps) = 0" using assms(3) by simp_all
  then have none: "concat (map in_hand (take i ps)) = []" "concat (map in_hand (drop (Suc i) ps)) = []"
    using in_hand_none by (auto simp: cnt_eq_0)
  show ?thesis using assms(1) by (simp add: upd_conv_take_nth_drop none del: concat_eq_Nil_conv)
qed

lemma listener_invI:
  assumes inv: "listener_inv S" and i: "i < length (lprocs S)"
    and run: "(serving p \<longrightarrow> serving (lprocs S ! i)) \<and> started s = started (lst S) \<or> \<not> started (lst S) \<and> started s"
    and hand: "laccepted s = lhanded s @ concat (map in_hand ((lprocs S)[i := p]))"
    and cl: "lclosed (lst S) \<longrightarrow> lclosed s" "nclosed s \<longrightarrow> lclosed s" "wf_lpc s p"
  shows "listener_inv \<lparr>lst = s, lprocs = (lprocs S)[i := p]\<rparr>"
proof -
  obtain base where c: "\<And>P. cnt P (lprocs S) = base P + (if P (lprocs S ! i) then 1 else 0)"
      "\<And>P x. cnt P ((lprocs S)[i := x]) = base P + (if P x then 1 else 0)"
    using cnt_at [OF i] by metis
  have le: "cnt serving (lprocs S) \<le> (if started (lst S) then 1 else 0)" using inv by (simp add: listener_inv_def)
  have "started (lst S) \<longrightarrow> started s" using run by auto
  then have mono: "wf_lpc s q" if "wf_lpc (lst S) q" for q
    using that cl(1) by (cases "(s, q)" rule: wf_lpc.cases) auto
  have "wf_lpc s q" if "q \<in> set ((lprocs S)[i := p])" for q
    using set_update_subset_insert [of "lprocs S" i p] that cl(3) inv mono by (auto simp: listener_inv_def)
  moreover have "cnt serving ((lprocs S)[i := p]) \<le> (if started s then 1 else 0)"
    using run le by (auto simp: c split: if_splits)
  ultimately show ?thesis using hand cl(2) by (simp add: listener_inv_def)
qed

lemma run_step_inv:
  assumes "run_step S S'" and inv: "listener_inv S"
  shows "listener_inv S'"
  using assms(1)
proof (cases rule: run_step.cases)
  case (serve i r s p)
  have le: "cnt serving (lprocs S) \<le> 1" using inv by (auto simp: listener_inv_def split: if_splits)
  have acc: "laccepted (lst S) = lhanded (lst S) @ concat (map in_hand (lprocs S))" "nclosed (lst S) \<longrightarrow> lclosed (lst S)"
    using inv by (simp_all add: listener_inv_def)
  note same = in_hand_same [OF serve(2)] and only = in_hand_only [OF serve(2) _ le]
  have hand: "concat (map in_hand (lprocs S)) = in_hand (lprocs S ! i)" if "serving (lprocs S ! i)"
    using only [OF that, of "lprocs S ! i"] by simp
  show ?thesis unfolding serve(1)
    by (rule listener_invI [OF inv serve(2)]; use serve(3) acc same [of p] only [of p] hand in
        \<open>cases "lprocs S ! i"; auto split: if_splits accept_res.splits accept_error.splits\<close>)
next
  case (close i s p)
  have "wf_lpc (lst S) (lprocs S ! i)" using inv nth_mem [OF close(2)] by (simp add: listener_inv_def)
  with close show ?thesis unfolding close(1)
    using listener_invI [OF inv close(2), of p s] in_hand_same [OF close(2), of p] inv
    by (cases "lprocs S ! i") (auto simp: listener_inv_def split: if_splits)
qed

lemma listener_reach_inv: "listener_reach S \<Longrightarrow> listener_inv S"
proof (induction rule: listener_reach.induct)
  case l_init
  then show ?case by (simp add: listener_inv_def new_listener_def)
next
  case (l_run S S')
  then show ?case using run_step_inv by blast
qed (auto simp: listener_inv_def cnt_Cons)

section \<open>Properties\<close>

text \<open>C34. However goroutines call \<open>Serve\<close> and \<open>Close\<close> of a listener, at most one of them ever is in the accept loop; the sessions given
  to \<open>onNewClient\<close> are the connections that \<open>Accept\<close> returned, each once and in order, but for the one that is just being handed
  over; and a \<open>Serve\<close> that has returned nil was closed.\<close>

theorem listener_serves:
  assumes "listener_reach S"
  shows "cnt serving (lprocs S) \<le> 1 \<and>
         (\<exists>last. laccepted (lst S) = lhanded (lst S) @ last \<and> length last \<le> cnt serving (lprocs S)) \<and>
         (LRet None \<in> set (lprocs S) \<longrightarrow> lclosed (lst S))"
proof -
  note inv = listener_reach_inv [OF assms]
  have "length (concat (map in_hand ps)) \<le> cnt serving ps" for ps :: "'a lpc list"
  proof (induction ps)
    case (Cons p ps)
    then show ?case by (cases p) (simp_all add: cnt_Cons)
  qed simp
  then show ?thesis using inv by (fastforce simp: listener_inv_def split: if_splits)
qed

text \<open>A run for the witnesses: two connections, the first handed over, then \<open>Close\<close>.\<close>

definition served :: "string lsys" where
  "served = \<lparr>lst = \<lparr>started = True, lclosed = True, nclosed = True, laccepted = [''a'', ''b''], lhanded = [''a'']\<rparr>,
             lprocs = [LConn ''b'', LClosed]\<rparr>"

lemma served_reach: "listener_reach served"
proof -
  let ?st = "\<lambda>a b c xs ys ps. \<lparr>lst = \<lparr>started = a, lclosed = b, nclosed = c, laccepted = xs, lhanded = ys\<rparr>, lprocs = ps\<rparr> :: string lsys"
  have "listener_reach (?st False False False [] [] [])" using listener_reach.l_init unfolding new_listener_def .
  then have "listener_reach (?st False False False [] [] [LServe False])"
    using listener_reach.l_serve [of "?st False False False [] [] []" False] by simp
  then have "listener_reach (?st False False False [] [] [LServe False, LClose])"
    using listener_reach.l_close [of "?st False False False [] [] [LServe False]"] by simp
  then have "listener_reach (?st False False False [] [] [LCas, LClose])"
    by (rule listener_reach.l_run) (use run_step.serve [of 0 "?st False False False [] [] [LServe False, LClose]"] in simp)
  then have "listener_reach (?st True False False [] [] [LAccept, LClose])"
    by (rule listener_reach.l_run) (use run_step.serve [of 0 "?st False False False [] [] [LCas, LClose]"] in simp)
  then have "listener_reach (?st True False False [''a''] [] [LConn ''a'', LClose])"
    by (rule listener_reach.l_run) (use run_step.serve [of 0 "?st True False False [] [] [LAccept, LClose]" "AConn ''a''"] in simp)
  then have "listener_reach (?st True False False [''a''] [''a''] [LAccept, LClose])"
    by (rule listener_reach.l_run) (use run_step.serve [of 0 "?st True False False [''a''] [] [LConn ''a'', LClose]"] in simp)
  then have "listener_reach (?st True False False [''a'', ''b''] [''a''] [LConn ''b'', LClose])"
    by (rule listener_reach.l_run) (use run_step.serve [of 0 "?st True False False [''a''] [''a''] [LAccept, LClose]" "AConn ''b''"] in simp)
  then have "listener_reach (?st True True False [''a'', ''b''] [''a''] [LConn ''b'', LShut])"
    by (rule listener_reach.l_run) (use run_step.close [of 1 "?st True False False [''a'', ''b''] [''a''] [LConn ''b'', LClose]"] in simp)
  then have "listener_reach (?st True True True [''a'', ''b''] [''a''] [LConn ''b'', LClosed])"
    by (rule listener_reach.l_run) (use run_step.close [of 1 "?st True True False [''a'', ''b''] [''a''] [LConn ''b'', LShut]"] in simp)
  then show ?thesis by (simp add: served_def)
qed

theorem listener_serves_witness:
  "\<exists>last. laccepted (lst served) = lhanded (lst served) @ last \<and> length last \<le> cnt serving (lprocs served)"
  using listener_serves [OF served_reach] by blast

text \<open>The steps a goroutine has before it at most, once the listener is closed.\<close>

fun rank :: "'c lpc \<Rightarrow> nat" where
  "rank (LServe nocb) = 5"
| "rank LCas = 4"
| "rank (LConn c) = 3"
| "rank LAccept = 2"
| "rank (LErr e) = 1"
| "rank LClose = 2"
| "rank LShut = 1"
| "rank p = 0"

lemma rank_Serve: "Serve_step r p s = Some (s', q) \<Longrightarrow> nclosed s \<Longrightarrow> lclosed s \<Longrightarrow> rank q < rank p \<and> nclosed s' \<and> (serving p \<longrightarrow> serving q \<or> q = LRet None)"
  by (cases p) (auto split: accept_res.splits if_splits)

lemma rank_Close: "Close_step p s = Some (s', q) \<Longrightarrow> nclosed s \<Longrightarrow> rank q < rank p \<and> nclosed s' \<and> \<not> serving p"
  by (cases p) (auto split: if_splits)

lemma rank_stuck: "Serve_step (AErr e) p s = None \<Longrightarrow> Close_step p s = None \<Longrightarrow> rank p = 0"
  by (cases p) auto

text \<open>C35. \<open>Close\<close> ends \<open>Serve\<close>: once it has closed the network listener, the goroutines of the listener have only a bounded number of
  steps left (each one lowers the sum of their ranks); where none of them can go on all have returned; and one that was in the
  accept loop leaves it only by returning nil.\<close>

theorem listener_close_ends:
  assumes "listener_reach S" and "nclosed (lst S)"
  shows "(run_step S S' \<longrightarrow> sum_list (map rank (lprocs S')) < sum_list (map rank (lprocs S)) \<and> nclosed (lst S') \<and>
            (\<forall>i<length (lprocs S). serving (lprocs S ! i) \<longrightarrow> serving (lprocs S' ! i) \<or> lprocs S' ! i = LRet None)) \<and>
         ((\<nexists>T. run_step S T) \<longrightarrow> (\<forall>p \<in> set (lprocs S). rank p = 0 \<and> \<not> serving p))"
proof -
  have cl: "lclosed (lst S)" using listener_reach_inv [OF assms(1)] assms(2) by (simp add: listener_inv_def)
  have less: "sum_list (map rank ((lprocs S)[i := q])) < sum_list (map rank (lprocs S))"
    if "i < length (lprocs S)" "rank q < rank (lprocs S ! i)" for i q
  proof -
    have "sum_list (map rank (lprocs S)) = sum_list (map rank (take i (lprocs S) @ lprocs S ! i # drop (Suc i) (lprocs S)))"
      using that(1) by (simp add: id_take_nth_drop [symmetric])
    then show ?thesis using that by (simp add: upd_conv_take_nth_drop)
  qed
  have one: "sum_list (map rank (lprocs S')) < sum_list (map rank (lprocs S)) \<and> nclosed (lst S') \<and>
      (\<forall>i<length (lprocs S). serving (lprocs S ! i) \<longrightarrow> serving (lprocs S' ! i) \<or> lprocs S' ! i = LRet None)"
    if "run_step S S'"
    using that
  proof (cases rule: run_step.cases)
    case (serve i r s p)
    then show ?thesis using rank_Serve [OF serve(3) assms(2) cl] less [of i p] by (simp add: nth_list_update)
  next
    case (close i s p)
    then show ?thesis using rank_Close [OF close(3) assms(2)] less [of i p] by (auto simp: nth_list_update)
  qed
  have "rank p = 0 \<and> \<not> serving p" if stuck: "\<nexists>T. run_step S T" and p: "p \<in> set (lprocs S)" for p
  proof -
    obtain i where i: "i < length (lprocs S)" "lprocs S ! i = p" using p by (metis in_set_conv_nth)
    have "Serve_step r p (lst S) = None" "Close_step p (lst S) = None" for r
      using stuck run_step.serve [OF i(1), of r] run_step.close [OF i(1)] i(2) by (metis not_Some_eq surj_pair)+
    then have "rank p = 0" using rank_stuck by blast
    then show ?thesis by (cases p) simp_all
  qed
  then show ?thesis using one by blast
qed

theorem listener_close_ends_witness:
  "\<exists>T. run_step served T \<and> sum_list (map rank (lprocs T)) < sum_list (map rank (lprocs served)) \<and> nclosed (lst T)"
proof -
  have "\<exists>T. run_step served T" using run_step.serve [of 0 served] by (auto simp: served_def)
  moreover have "nclosed (lst served)" by (simp add: served_def)
  ultimately show ?thesis using listener_close_ends [OF served_reach] by blast
qed

text \<open>The websocket connector's header has no effect on the connection it makes.\<close>

lemma ws_Dial_ignores_header: "ws_Dial dialer (con\<lparr>requestHeader := hd1\<rparr>) = ws_Dial dialer (con\<lparr>requestHeader := hd2\<rparr>)"
  by (simp add: ws_Dial_def)

text \<open>A second websocket listener for a path that was served before panics.\<close>

lemma ws_Serve_twice:
  assumes "ws_Serve False reqs err mux l = Ret (mux', l', ss, e)" and "\<not> wstarted l" "\<not> wstarted l2" and "origin l2 = origin l"
  shows "ws_Serve False reqs2 err2 mux' l2 = Panic (UserPanic ''http: multiple registrations'')"
  using assms by (auto simp: ws_Serve_def Let_def split: if_splits)

text \<open>A nil session without an error: the connector of \<open>aio\<close> does not report that the service refused the connection.\<close>

lemma aio_Dial_nil: "aio_Dial newSocket (Inr c) = (None, None) \<longleftrightarrow> newSocket c = None"
  by (simp add: aio_Dial_def)

text \<open>A websocket listener that was made by \<open>New\<close> serves once: every request that could be upgraded is handed on, in order.\<close>

lemma ws_New_serves:
  assumes "ws_New addr listen org ups dflt = (Some (l, u, w), None)" and "org \<notin> mux"
  shows "\<exists>w'. ws_Serve False reqs err mux w = Ret (insert org mux, w', [c. Inr c \<leftarrow> reqs], NetFailure err) \<and>
    ws_Serve False reqs' err' mux' w' = Ret (mux', w', [], ErrServerStarted)"
proof -
  have w: "w = \<lparr>wstarted = False, wclosed = False, origin = org\<rparr>"
    using assms(1) by (auto simp: ws_New_def split: prod.splits option.splits)
  have "fold ws_handler reqs acc = acc @ [c. Inr c \<leftarrow> reqs]" for acc
    by (induction reqs arbitrary: acc) (auto simp: ws_handler_def split: sum.splits)
  then show ?thesis using assms(2) by (simp add: ws_Serve_def w Let_def)
qed

end
