(* ===== verification/RpcStream.thy ===== *)
theory RpcStream
  imports RpcSystem Sessions Network
begin

text \<open>
  The RPC programs over a stream connection, \<open>src/example/test_rpc/test_rpc.go\<close> (the program of \<open>src/example/aio/test_rpc/test_rpc.go\<close> is
  the same over asynchronous sessions): the channel that wraps a session, \<open>Caller\<close> and \<open>RPCServer\<close>, put together with the client and server
  of RpcClient and RpcServer, the codec of RpcCodec, the session's send queue and send goroutine, and the \<open>PBReceiver\<close> at each end.
\<close>

section \<open>Definitions: sessions and channels\<close>

text \<open>The texts of the errors of \<open>src/error.go\<close> that \<open>Send\<close> returns.\<close>

fun error_text :: "session_error \<Rightarrow> string" where
  "error_text ErrSocketClose = ''socket close''"
| "error_text ErrSendQueFull = ''send queue full''"
| "error_text SocketBase.ErrSendTimeout = ''send timeout''"
| "error_text ErrRecvTimeout = ''recv timeout''"
| "error_text ErrInvaildObject = ''object == nil''"
| "error_text ErrInvaildEncoder = ''encoder == nil''"
| "error_text SocketBase.ErrCbNil = ''cb == nil''"
| "error_text NetTimeout = ''i/o timeout''"
| "error_text (NetError e) = e"

text \<open>\<open>Send\<close> of a session as one call; the first one starts the send goroutine, an I/O activity.\<close>

definition session_Send :: "'o object \<Rightarrow> 'o socket_base \<Rightarrow> 'o socket_base \<times> session_error option" where
  "session_Send v s =
     (case Send_check (Some v) s of
        Some e \<Rightarrow> (s, Some e)
      | None \<Rightarrow>
          (let (q, r) = Add v (sendQue s); s1 = s\<lparr>sendQue := q\<rparr> in
           case send_result r of
             Some e \<Rightarrow> (s1, Some e)
           | None \<Rightarrow> (let (s2, won) = cas_sendOnce s1 in (if won then addIO s2 else s2, None))))"

text \<open>\<open>BeginRecv\<close> on a session that nobody has closed: the receive goroutine is the other I/O activity.\<close>

definition session_BeginRecv :: "'o socket_base \<Rightarrow> 'o socket_base" where
  "session_BeginRecv s =
     (let (s1, won) = cas_beginOnce s
      in if won \<and> \<not> AtomicTest (fclosed OR frclosed) (flag s1) then addIO s1 else s1)"

text \<open>A channel: its session, its name, and the address of the channel object, which is its \<open>UID\<close>.\<close>

record 'o tcp_channel =
  chan_session :: "'o socket_base"
  chan_name :: string
  chan_uid :: uint64

definition NewTcpStreamChannel :: "uint64 \<Rightarrow> string \<Rightarrow> string \<Rightarrow> 'o socket_base \<Rightarrow> 'o tcp_channel" where
  "NewTcpStreamChannel addr remote near s = \<lparr>chan_session = s, chan_name = remote @ ''<->'' @ near, chan_uid = addr\<rparr>"

definition SendRequest :: "'o \<Rightarrow> 'o tcp_channel \<Rightarrow> 'o tcp_channel \<times> session_error option" where
  "SendRequest message ch = (let (s, e) = session_Send (OMsg message) (chan_session ch) in (ch\<lparr>chan_session := s\<rparr>, e))"

definition SendResponse :: "'o \<Rightarrow> 'o tcp_channel \<Rightarrow> 'o tcp_channel \<times> session_error option" where
  "SendResponse message ch = (let (s, e) = session_Send (OMsg message) (chan_session ch) in (ch\<lparr>chan_session := s\<rparr>, e))"

text \<open>The limit of the encoder and of the receiver that both ends set on a session.\<close>

definition maxPacket :: int where "maxPacket = 65535"

section \<open>Definitions: the caller\<close>

text \<open>The RPC client of the package, which all callers share, and the channel of one caller, nil before \<open>Dial\<close>.\<close>

record ('cb, 'o) caller =
  call_client :: "'cb rpc_client"
  call_channel :: "'o tcp_channel option"

definition NewCaller :: "'cb rpc_client \<Rightarrow> ('cb, 'o) caller" where
  "NewCaller c = \<lparr>call_client = c, call_channel = None\<rparr>"

text \<open>What \<open>Dial\<close> makes of a new session: the encoder, a close callback, and the receive goroutine.\<close>

definition dial_session :: "'o socket_base \<Rightarrow> 'o socket_base" where
  "dial_session s = session_BeginRecv (SetCloseCallBack (Some ()) (SetEncoder (Some ()) s))"

definition Caller_Dial :: "(string + conn_kind) \<Rightarrow> uint64 \<Rightarrow> string \<Rightarrow> string \<Rightarrow> ('cb, 'o) caller \<Rightarrow> (('cb, 'o) caller \<times> string option) go" where
  "Caller_Dial dialled addr remote near C =
     (case Dial dialled of
        (k, Some e) \<Rightarrow> Ret (C, Some e)
      | (None, None) \<Rightarrow> Panic NilDeref
      | (Some k, None) \<Rightarrow>
          (case NewStreamSocket k of
             None \<Rightarrow> Panic NilDeref
           | Some s \<Rightarrow> Ret (C\<lparr>call_channel := Some (NewTcpStreamChannel addr remote near (dial_session s))\<rparr>, None)))"

text \<open>\<open>AsynCall\<close> of the client over the caller's channel, with the error that it returns: \<open>encm\<close> encodes the request, \<open>SendRequest\<close>
  queues it. \<open>x\<close> and \<open>h\<close> are the addresses of the context and of a new list head.\<close>

definition call_over :: "('m rpc_message \<Rightarrow> 'o option) \<Rightarrow> addr \<Rightarrow> addr \<Rightarrow> string \<Rightarrow> 'm \<Rightarrow> 'cb option \<Rightarrow> ('cb, 'o) caller \<Rightarrow>
    (('cb, 'o) caller \<times> rpc_error option) go" where
  "call_over encm x h m a cb C =
     (case call_channel C of
        None \<Rightarrow> (if cb = None then Ret (C, Some RpcClient.ErrCbNil) else Panic NilDeref)
      | Some ch \<Rightarrow>
          (let c = call_client C; uid = chan_uid ch in
           if cb = None then map_ret (\<lambda>(c', r). (C\<lparr>call_client := c'\<rparr>, r)) (AsynCall x h uid cb None None c)
           else
             case encm (request_of (sequence c + 1) m a True) of
               None \<Rightarrow> map_ret (\<lambda>(c', r). (C\<lparr>call_client := c'\<rparr>, r)) (AsynCall x h uid cb (Some (ErrOther ''encode error'')) None c)
             | Some pk \<Rightarrow>
                 (let (ch', e) = SendRequest pk ch in
                  map_ret (\<lambda>(c', r). (C\<lparr>call_client := c', call_channel := Some ch'\<rparr>, r))
                    (AsynCall x h uid cb None (map_option (\<lambda>e. ErrOther (error_text e)) e) c))))"

text \<open>\<open>Caller.AsynCall\<close> drops the error.\<close>

definition Caller_AsynCall :: "('m rpc_message \<Rightarrow> 'o option) \<Rightarrow> addr \<Rightarrow> addr \<Rightarrow> string \<Rightarrow> 'm \<Rightarrow> 'cb option \<Rightarrow> ('cb, 'o) caller \<Rightarrow>
    ('cb, 'o) caller go" where
  "Caller_AsynCall encm x h m a cb C = map_ret fst (call_over encm x h m a cb C)"

text \<open>\<open>Caller.Call\<close>: the callback \<open>f\<close> stores its arguments; \<open>fs\<close> are the callbacks that have run since, and \<open>None\<close> is a caller that waits.\<close>

definition Caller_Call :: "('m rpc_message \<Rightarrow> 'o option) \<Rightarrow> addr \<Rightarrow> addr \<Rightarrow> string \<Rightarrow> 'm \<Rightarrow> 'cb \<Rightarrow> ('cb, 'm) fired list \<Rightarrow> ('cb, 'o) caller \<Rightarrow>
    (('cb, 'o) caller \<times> ('m option \<times> rpc_error option) go option) go" where
  "Caller_Call encm x h m a f fs C =
     map_ret (\<lambda>(C', r). (C', Call_result r (sequence (call_client C) + 1) fs)) (call_over encm x h m a (Some f) C)"

text \<open>The callback of the caller's session: every message goes to \<open>OnRPCMessage\<close>. The result has the callbacks that ran.\<close>

fun client_receive :: "('o \<Rightarrow> 'm rpc_message option go) \<Rightarrow> 'o list \<Rightarrow> 'cb rpc_client \<Rightarrow> ('cb rpc_client \<times> ('cb, 'm) fired list) go" where
  "client_receive decm [] c = Ret (c, [])"
| "client_receive decm (pk # pks) c =
     bind_go (decm pk) (\<lambda>msg.
       bind_go (RpcClient.OnRPCMessage msg c) (\<lambda>(c1, out).
         map_ret (\<lambda>(c2, outs). (c2, out @ outs)) (client_receive decm pks c1)))"

section \<open>Definitions: the server\<close>

record ('h, 'm, 'o, 'l) rpc_program =
  prog_server :: "('h, 'm, 'o) rpc_server"
  prog_listener :: "'l option"

definition program_New :: "('h, 'm, 'o, 'l) rpc_program" where
  "program_New = \<lparr>prog_server = NewRPCServer, prog_listener = None\<rparr>"

definition program_RegisterMethod :: "string \<Rightarrow> 'h option \<Rightarrow> ('h, 'm, 'o, 'l) rpc_program \<Rightarrow> ('h, 'm, 'o, 'l) rpc_program" where
  "program_RegisterMethod name method p = p\<lparr>prog_server := fst (RegisterMethod name method (prog_server p))\<rparr>"

text \<open>\<open>Serve\<close>: an error of \<open>New\<close>, or what the listener's \<open>Serve\<close> returns, which hands every session to \<open>on_client\<close>.\<close>

definition program_Serve :: "string + 'a \<Rightarrow> ('a \<Rightarrow> string + 'l) \<Rightarrow> ('l \<Rightarrow> listen_error option) \<Rightarrow> ('h, 'm, 'o, 'l) rpc_program \<Rightarrow>
    ('h, 'm, 'o, 'l) rpc_program \<times> listen_error option" where
  "program_Serve addr listen serve p =
     (case listener_New addr listen of
        (l, Some e) \<Rightarrow> (p\<lparr>prog_listener := l\<rparr>, Some e)
      | (None, None) \<Rightarrow> (p\<lparr>prog_listener := None\<rparr>, None)
      | (Some l, None) \<Rightarrow> (p\<lparr>prog_listener := Some l\<rparr>, serve l))"

definition on_client :: "uint64 \<Rightarrow> string \<Rightarrow> string \<Rightarrow> 'o socket_base \<Rightarrow> 'o tcp_channel" where
  "on_client addr remote near s = NewTcpStreamChannel addr remote near (session_BeginRecv (SetEncoder (Some ()) s))"

text \<open>The callback of a server's session: \<open>OnRPCMessage\<close> with the session's channel. The responses that it sends on this channel
  \<open>id\<close> go through \<open>SendResponse\<close>, whose error is only logged.\<close>

definition respond :: "chan_id \<Rightarrow> (chan_id \<times> 'o) list \<Rightarrow> 'o tcp_channel \<Rightarrow> 'o tcp_channel" where
  "respond i out ch = fold (\<lambda>(j, pk) ch. if j = i then fst (SendResponse pk ch) else ch) out ch"

fun server_receive :: "('m, 'o) RpcServer.encoder \<Rightarrow> ('o \<Rightarrow> 'm rpc_message option go) \<Rightarrow> 'm \<Rightarrow> ('h, 'm) handler_run \<Rightarrow> chan_id \<Rightarrow>
    'o list \<Rightarrow> ('h, 'm, 'o) rpc_server \<times> 'o tcp_channel \<Rightarrow> (('h, 'm, 'o) rpc_server \<times> 'o tcp_channel) go" where
  "server_receive encm decm nil run i [] st = Ret st"
| "server_receive encm decm nil run i (pk # pks) (s, ch) =
     bind_go (decm pk) (\<lambda>msg.
       let s1 = RpcServer.OnRPCMessage encm nil run i msg s
       in server_receive encm decm nil run i pks (s1, respond i (drop (length (sent s)) (sent s1)) ch))"

section \<open>Definitions: the connection\<close>

text \<open>One direction of the connection: the send goroutine's \<open>Get\<close> takes what is queued, packs it with the encoder and writes it,
  \<open>script\<close> being the answers of \<open>Write\<close>; the receiver at the other end cuts what it reads, \<open>sizes\<close> at a time, into messages. \<open>None\<close>
  stands for a panic, an error or a stream that is not used up.\<close>

definition tcp_carry :: "growth \<Rightarrow> 'o proto \<Rightarrow> registry \<Rightarrow> buffer \<Rightarrow> write_result list \<Rightarrow> nat list \<Rightarrow> 'o tcp_channel \<Rightarrow>
    ('o tcp_channel \<times> 'o list) option" where
  "tcp_carry g Q reg pb script sizes ch =
     (case Get (sendQue (chan_session ch)) of
        (q, GetWait) \<Rightarrow> Some (ch, [])
      | (q, GetRet cl items sig) \<Rightarrow>
          (case send_thread g (PbEncoder g Q reg maxPacket) False pb script [(cl, items)] None \<lparr>wire = [], errors = [], closes = []\<rparr> of
             Some (Ret (st, dead)) \<Rightarrow>
               (case pb_session (Suc (length items + length sizes)) Q reg sizes (wire st) (NewPBReceiver maxPacket) [] of
                  Some (Ret (R, input, ms, None)) \<Rightarrow> Some (ch\<lparr>chan_session := (chan_session ch)\<lparr>sendQue := q\<rparr>\<rparr>, ms)
                | _ \<Rightarrow> None)
           | _ \<Rightarrow> None))"

text \<open>A call to be made: the addresses of its context and list head, the method, the argument, the callback.\<close>

type_synonym ('m, 'cb) call_args = "addr \<times> addr \<times> string \<times> 'm \<times> 'cb"

fun call_all :: "('m rpc_message \<Rightarrow> 'o option) \<Rightarrow> ('m, 'cb) call_args list \<Rightarrow> ('cb, 'o) caller \<Rightarrow> ('cb, 'o) caller go" where
  "call_all encm [] C = Ret C"
| "call_all encm ((x, h, m, a, f) # cs) C = bind_go (Caller_AsynCall encm x h m a (Some f) C) (call_all encm cs)"

text \<open>A round: calls are made, the requests cross the connection, the server answers, the responses come back. The result has the
  callbacks that ran.\<close>

definition rpc_round :: "('m, 'o) RpcServer.encoder \<Rightarrow> ('o \<Rightarrow> 'm rpc_message option go) \<Rightarrow> 'm \<Rightarrow> ('h, 'm) handler_run \<Rightarrow> chan_id \<Rightarrow>
    ('o tcp_channel \<Rightarrow> ('o tcp_channel \<times> 'o list) option) \<Rightarrow> ('o tcp_channel \<Rightarrow> ('o tcp_channel \<times> 'o list) option) \<Rightarrow>
    ('m, 'cb) call_args list \<Rightarrow> ('cb, 'o) caller \<Rightarrow> ('h, 'm, 'o) rpc_server \<times> 'o tcp_channel \<Rightarrow>
    (('cb, 'o) caller \<times> (('h, 'm, 'o) rpc_server \<times> 'o tcp_channel) \<times> ('cb, 'm) fired list) option" where
  "rpc_round encm decm nil run i there home calls C st =
     (case call_all encm calls C of
        Panic e \<Rightarrow> None
      | Ret C1 \<Rightarrow>
          Option.bind (Option.bind (call_channel C1) there) (\<lambda>(ch1, reqs).
            case server_receive encm decm nil run i reqs st of
              Panic e \<Rightarrow> None
            | Ret (s1, sc1) \<Rightarrow>
                Option.bind (home sc1) (\<lambda>(sc2, resps).
                  case client_receive decm resps (call_client C1) of
                    Panic e \<Rightarrow> None
                  | Ret (c2, fs) \<Rightarrow> Some (\<lparr>call_client = c2, call_channel = Some ch1\<rparr>, (s1, sc2), fs))))"

section \<open>Channels and links\<close>

text \<open>An open session with an encoder, room for \<open>n\<close> objects and the messages \<open>ms\<close> queued.\<close>

definition ready :: "nat \<Rightarrow> 'o tcp_channel \<Rightarrow> 'o list \<Rightarrow> bool" where
  "ready n ch ms \<longleftrightarrow>
     (let s = chan_session ch; q = sendQue s
      in has_encoder s \<and> \<not> closed q \<and> fullSize q = int n \<and> qlist q = map OMsg ms)"

lemma session_Send_ready:
  assumes "ready n ch ms" and "length ms < n"
  shows "\<exists>s. session_Send (OMsg m) (chan_session ch) = (s, None) \<and> ready n (ch\<lparr>chan_session := s\<rparr>) (ms @ [m])"
  using assms by (auto simp: session_Send_def Send_check_def Add_def send_result_def cas_sendOnce_def addIO_def ready_def Let_def)

lemma Send_ready:
  assumes "ready n ch ms" and "length ms < n"
  shows "\<exists>ch'. SendRequest m ch = (ch', None) \<and> ready n ch' (ms @ [m]) \<and> chan_uid ch' = chan_uid ch"
    and "\<exists>ch'. SendResponse m ch = (ch', None) \<and> ready n ch' (ms @ [m]) \<and> chan_uid ch' = chan_uid ch"
  using session_Send_ready [OF assms, of m] by (auto simp: SendRequest_def SendResponse_def)

text \<open>The contract of one direction of a connection: what is queued arrives, in order, and the queue is empty.\<close>

locale link =
  fixes xfer :: "'o tcp_channel \<Rightarrow> ('o tcp_channel \<times> 'o list) option" and crosses :: "'o list \<Rightarrow> bool"
  assumes delivers: "ready n ch ms \<Longrightarrow> crosses ms \<Longrightarrow> \<exists>ch'. xfer ch = Some (ch', ms) \<and> ready n ch' []"

text \<open>What crosses a stream connection: messages that fit the encoder, with writes that succeed and reads enough for their bytes.\<close>

definition tcp_crosses :: "'o proto \<Rightarrow> registry \<Rightarrow> write_result list \<Rightarrow> nat list \<Rightarrow> 'o list \<Rightarrow> bool" where
  "tcp_crosses Q reg script sizes ms \<longleftrightarrow>
     (\<forall>m \<in> set ms. fits Q reg maxPacket m) \<and> list_all ok_write script \<and> script \<noteq> [] \<and>
     length (wires Q reg ms) \<le> length (filter (\<lambda>n. 0 < n) sizes)"

interpretation tl: link "tcp_carry g Q (register_all ts) pb script sizes" "tcp_crosses Q (register_all ts) script sizes"
  for g Q ts pb script sizes
proof unfold_locales
  fix n and ch :: "'a tcp_channel" and ms
  assume r: "ready n ch ms" and c: "tcp_crosses Q (register_all ts) script sizes ms"
  let ?q = "sendQue (chan_session ch)"
  show "\<exists>ch'. tcp_carry g Q (register_all ts) pb script sizes ch = Some (ch', ms) \<and> ready n ch' []"
  proof (cases "ms = []")
    case True
    then show ?thesis using r by (auto simp: tcp_carry_def Get_def ready_def Let_def)
  next
    case False
    have "\<forall>ms' \<in> set [ms]. ms' \<noteq> [] \<and> (\<forall>m \<in> set ms'. fits Q (register_all ts) maxPacket m)"
      using False c by (simp add: tcp_crosses_def)
    from pb_link [OF this, of script sizes g False pb] obtain st R input where
        s: "send_thread g (PbEncoder g Q (register_all ts) maxPacket) False pb script [(False, map OMsg ms)] None
          \<lparr>wire = [], errors = [], closes = []\<rparr> = Some (Ret (st, False))"
        and p: "pb_session (Suc (length ms + length sizes)) Q (register_all ts) sizes (wire st) (NewPBReceiver maxPacket) [] =
          Some (Ret (R, input, ms, None))"
      using c by (auto simp: tcp_crosses_def as_batches_def Suc_le_eq)
    have "Get ?q = (?q\<lparr>qlist := []\<rparr>, GetRet False (map OMsg ms) (fullWaited ?q > 0))"
      using r False by (simp add: Get_def ready_def Let_def)
    then show ?thesis using s p r by (simp add: tcp_carry_def ready_def Let_def)
  qed
qed

section \<open>Calls, requests and responses\<close>

text \<open>What the calls make of the sequence number \<open>sq\<close> before them: the requests, the responses of methods that answer by \<open>ans\<close>, the
  entries of the call table, and the callbacks.\<close>

type_synonym 'm answers = "string \<Rightarrow> 'm \<Rightarrow> 'm \<times> rpc_error option"

definition response_to :: "'m answers \<Rightarrow> uint64 \<Rightarrow> string \<Rightarrow> 'm \<Rightarrow> 'm rpc_response" where
  "response_to ans sq m a = \<lparr>resp_seq = sq, resp_err = snd (ans m a), resp_ret = fst (ans m a)\<rparr>"

fun reqs_of :: "('m rpc_message \<Rightarrow> 'o option) \<Rightarrow> uint64 \<Rightarrow> ('m, 'cb) call_args list \<Rightarrow> 'o list" where
  "reqs_of encm sq [] = []"
| "reqs_of encm sq ((x, h, m, a, f) # cs) = the (encm (request_of (sq + 1) m a True)) # reqs_of encm (sq + 1) cs"

fun resps_of :: "('m rpc_message \<Rightarrow> 'o option) \<Rightarrow> 'm answers \<Rightarrow> uint64 \<Rightarrow> ('m, 'cb) call_args list \<Rightarrow> 'o list" where
  "resps_of encm ans sq [] = []"
| "resps_of encm ans sq ((x, h, m, a, f) # cs) = the (encm (Response (response_to ans (sq + 1) m a))) # resps_of encm ans (sq + 1) cs"

fun issued_of :: "uint64 \<Rightarrow> ('m, 'cb) call_args list \<Rightarrow> (uint64 \<times> 'cb) list" where
  "issued_of sq [] = []"
| "issued_of sq ((x, h, m, a, f) # cs) = (sq + 1, f) # issued_of (sq + 1) cs"

fun fires_of :: "(rpc_error \<Rightarrow> rpc_error) \<Rightarrow> 'm answers \<Rightarrow> uint64 \<Rightarrow> ('m, 'cb) call_args list \<Rightarrow> ('cb, 'm) fired list" where
  "fires_of ce ans sq [] = []"
| "fires_of ce ans sq ((x, h, m, a, f) # cs) =
     (sq + 1, f, Some (fst (ans m a)), map_option ce (snd (ans m a))) # fires_of ce ans (sq + 1) cs"

text \<open>The addresses of the calls are free and distinct.\<close>

definition fresh_calls :: "'cb rpc_client \<Rightarrow> ('m, 'cb) call_args list \<Rightarrow> bool" where
  "fresh_calls c cs \<longleftrightarrow>
     distinct (concat (map (\<lambda>(x, h, r). [x, h]) cs)) \<and> (\<forall>(x, h, r) \<in> set cs. free_addr c x \<and> free_addr c h)"

lemma AsynCall_addresses:
  assumes "AsynCall x h uid (Some f) None None c = Ret (c1, None)"
  shows "ran (callContexts c1) \<subseteq> insert x (ran (callContexts c))" and "ran (channels c1) \<subseteq> insert h (ran (channels c))"
    and "sequence c1 = sequence c + 1"
  using assms by (auto simp: AsynCall_def addCall_def Let_def bind_go_eq_Ret ran_def split: option.splits if_splits)

lemma fresh_calls_step:
  assumes "fresh_calls c ((x, h, r) # cs)" and "AsynCall x h uid (Some f) None None c = Ret (c1, None)"
  shows "fresh_calls c1 cs"
proof -
  let ?as = "concat (map (\<lambda>(x, h, r). [x, h]) cs)"
  have new: "{x, h} \<inter> set ?as = {}" and d: "distinct ?as" and old: "\<forall>(x, h, r) \<in> set cs. free_addr c x \<and> free_addr c h"
    using assms(1) by (simp_all add: fresh_calls_def)
  have keep: "free_addr c1 y" if "free_addr c y" "y \<notin> {x, h}" for y
    using that AsynCall_addresses(1,2) [OF assms(2)] unfolding free_addr_def by blast
  have "free_addr c1 y \<and> free_addr c1 k" if i: "(y, k, q) \<in> set cs" for y k q
  proof -
    have "y \<in> set ?as" "k \<in> set ?as" unfolding set_concat set_map using i by (rule UN_I [OF imageI], simp)+
    then have "y \<notin> {x, h}" "k \<notin> {x, h}" using new by blast+
    moreover have "free_addr c y" "free_addr c k" using bspec [OF old i] by simp_all
    ultimately show ?thesis using keep by blast
  qed
  then have "\<forall>(y, k, q) \<in> set cs. free_addr c1 y \<and> free_addr c1 k" by blast
  then show ?thesis using d unfolding fresh_calls_def by (rule conjI [rotated])
qed

text \<open>All calls are accepted: their requests are queued in order, and the client is waiting for their answers.\<close>

lemma call_over_ok:
  assumes inv: "rpc_inv S" and C: "call_client C = client S" "call_channel C = Some ch" "ready n ch ms" "length ms < n"
    and free: "free_addr (client S) x" "free_addr (client S) h" "x \<noteq> h" "sequence (client S) \<noteq> - 1"
    and pk: "encm (request_of (sequence (client S) + 1) m a True) = Some pk"
  shows "\<exists>c1 ch1. Caller_AsynCall encm x h m a (Some f) C = Ret \<lparr>call_client = c1, call_channel = Some ch1\<rparr> \<and> ready n ch1 (ms @ [pk]) \<and>
    AsynCall x h (chan_uid ch) (Some f) None None (client S) = Ret (c1, None)"
proof -
  obtain c1 where c1: "AsynCall x h (chan_uid ch) (Some f) None None (client S) = Ret (c1, None)"
    using AsynCall_sent [OF inv free] by blast
  obtain ch1 where ch1: "SendRequest pk ch = (ch1, None)" "ready n ch1 (ms @ [pk])" using Send_ready(1) [OF C(3,4)] by blast
  have e: "C\<lparr>call_client := c1, call_channel := Some ch1\<rparr> = \<lparr>call_client = c1, call_channel = Some ch1\<rparr>" by (cases C) simp
  have "Caller_AsynCall encm x h m a (Some f) C = Ret (C\<lparr>call_client := c1, call_channel := Some ch1\<rparr>)"
    using c1 ch1(1) C(1,2) pk by (simp add: Caller_AsynCall_def call_over_def)
  then show ?thesis unfolding e using c1 ch1(2) by blast
qed

lemma word_room: "unat sq + Suc n < 2 ^ 64 \<Longrightarrow> sq \<noteq> - 1 \<and> unat (sq + 1) = Suc (unat sq)" for sq :: uint64
proof -
  assume a: "unat sq + Suc n < 2 ^ 64"
  have ne: "sq \<noteq> - 1"
  proof
    assume "sq = - 1"
    then have "unat sq = 2 ^ 64 - 1" by (simp add: unsigned_minus_1_eq_mask mask_eq_exp_minus_1)
    then show False using a by simp
  qed
  then have "sq + 1 \<noteq> 0" by (metis add_eq_0_iff2 add.commute)
  then show ?thesis using ne unat_eq_0 by (metis Suc_eq_plus1 add.commute unatSuc)
qed

lemma call_all_ok:
  assumes "rpc_reach S" and "call_client C = client S" "call_channel C = Some ch" "ready n ch ms" "length ms + length calls \<le> n"
    and "fresh_calls (client S) calls" and "unat (sequence (client S)) + length calls < 2 ^ 64"
    and "\<forall>(x, h, m, a, f) \<in> set calls. \<forall>sq. encm (request_of sq m a True) \<noteq> None"
  shows "\<exists>C1 ch1 S1. call_all encm calls C = Ret C1 \<and> call_client C1 = client S1 \<and> call_channel C1 = Some ch1 \<and>
    ready n ch1 (ms @ reqs_of encm (sequence (client S)) calls) \<and> rpc_reach S1 \<and> log S1 = log S \<and>
    issued S1 = issued S @ issued_of (sequence (client S)) calls"
  using assms
proof (induction calls arbitrary: S C ch ms)
  case Nil
  then show ?case by auto
next
  case (Cons cl calls)
  obtain x h m a f where cl: "cl = (x, h, m, a, f)" by (cases cl)
  let ?sq = "sequence (client S)"
  have room: "?sq \<noteq> - 1" "unat (?sq + 1) = Suc (unat ?sq)" using word_room [of ?sq "length calls"] Cons.prems(7) by simp_all
  have free: "free_addr (client S) x" "free_addr (client S) h" "x \<noteq> h" using Cons.prems(6) by (auto simp: fresh_calls_def cl)
  obtain pk where pk: "encm (request_of (?sq + 1) m a True) = Some pk" using Cons.prems(8) unfolding cl by force
  have "length ms < n" using Cons.prems(5) by simp
  from call_over_ok [OF rpc_reach_inv [OF Cons.prems(1)] Cons.prems(2-4) this free room(1), of encm m a pk f] pk obtain c1 ch1 where
      c1: "Caller_AsynCall encm x h m a (Some f) C = Ret \<lparr>call_client = c1, call_channel = Some ch1\<rparr>" "ready n ch1 (ms @ [pk])"
      "AsynCall x h (chan_uid ch) (Some f) None None (client S) = Ret (c1, None)" by blast
  let ?S = "S\<lparr>client := c1, issued := issued S @ [(?sq + 1, f)]\<rparr>"
  have reach: "rpc_reach ?S"
    using rpc_reach.step [OF Cons.prems(1) rpc_step.call [OF free room(1) c1(3)]] by simp
  have sq: "sequence c1 = ?sq + 1" by (rule AsynCall_addresses(3) [OF c1(3)])
  have fr: "fresh_calls (client ?S) calls" using fresh_calls_step [OF Cons.prems(6) [unfolded cl] c1(3)] by simp
  have un: "unat (sequence (client ?S)) + length calls < 2 ^ 64" using Cons.prems(7) room(2) sq by simp
  have len: "length (ms @ [pk]) + length calls \<le> n" using Cons.prems(5) by simp
  from Cons.IH [where S = ?S and C = "\<lparr>call_client = c1, call_channel = Some ch1\<rparr>" and ch = ch1, OF reach _ _ c1(2) len fr un]
  obtain C1 ch2 S1 where "call_all encm calls \<lparr>call_client = c1, call_channel = Some ch1\<rparr> = Ret C1" "call_client C1 = client S1"
      "call_channel C1 = Some ch2" "ready n ch2 ((ms @ [pk]) @ reqs_of encm (sequence (client ?S)) calls)" "rpc_reach S1"
      "log S1 = log ?S" "issued S1 = issued ?S @ issued_of (sequence (client ?S)) calls"
    using Cons.prems(8) by auto
  then show ?case using c1(1) pk sq by (intro exI [of _ C1] exI [of _ ch2] exI [of _ S1]) (simp add: cl)
qed

section \<open>A round of calls\<close>

lemma request_served:
  assumes "methods s m = Some k" and "run k a = ([DoReply v e], None)"
    and "encm (Response \<lparr>resp_seq = sq, resp_err = e, resp_ret = v\<rparr>) = Some pk"
  shows "sent (RpcServer.OnRPCMessage encm nil run i (Some (request_of sq m a True)) s) = sent s @ [(i, pk)]"
    and "methods (RpcServer.OnRPCMessage encm nil run i (Some (request_of sq m a True)) s) = methods s"
  using assms by (simp_all add: RpcServer.OnRPCMessage_def request_of_def callMethod_def Reply_def cas_fired_def reply_def Let_def)

text \<open>A pending call is answered by its response.\<close>

lemma response_runs:
  assumes "rpc_reach S" and "(resp_seq r, f) \<in> set (issued S)" and "resp_seq r \<notin> fst ` set (log S)"
  shows "\<exists>c. RpcClient.OnRPCMessage (Some (Response r)) (client S) = Ret (c, [(resp_seq r, f, Some (resp_ret r), resp_err r)]) \<and>
    rpc_reach (S\<lparr>client := c, log := log S @ [(resp_seq r, f, Some (resp_ret r), resp_err r)]\<rparr>)"
proof -
  have inv: "rpc_inv S" by (rule rpc_reach_inv [OF assms(1)])
  have "filter (\<lambda>y. fst y = resp_seq r) (log S) = []" using assms(3) by (force simp: filter_empty_conv)
  then obtain x where x: "callContexts (client S) (resp_seq r) = Some x" using answered_once [OF inv assms(2)] by auto
  from remove_answer_inv [OF inv x, of "Some (resp_ret r)" "resp_err r"] obtain c f' where
      c: "removeCallBySeqno (resp_seq r) (client S) = Ret (c, Some x)" "fire x (Some (resp_ret r)) (resp_err r) c = [(resp_seq r, f', Some (resp_ret r), resp_err r)]"
      "rpc_inv (S\<lparr>client := c, log := log S @ [(resp_seq r, f', Some (resp_ret r), resp_err r)]\<rparr>)" by blast
  have "(resp_seq r, f') \<in> set (issued S)" using rpc_invD(8) [OF c(3), of "resp_seq r" f' "Some (resp_ret r)" "resp_err r"] by simp
  then have "f' = f" using assms(2) eq_key_imp_eq_value [OF rpc_invD(3) [OF inv]] by blast
  then have out: "RpcClient.OnRPCMessage (Some (Response r)) (client S) = Ret (c, [(resp_seq r, f, Some (resp_ret r), resp_err r)])"
    using c(1,2) by (simp add: RpcClient.OnRPCMessage_def)
  then show ?thesis using rpc_reach.step [OF assms(1) rpc_step.message [OF out]] by blast
qed

text \<open>A method that answers at once, by \<open>ans\<close>, with values that are \<open>good\<close>: they arrive as they are.\<close>

definition answers :: "('m \<Rightarrow> bool) \<Rightarrow> 'm answers \<Rightarrow> ('h, 'm) handler_run \<Rightarrow> ('h, 'm, 'o) rpc_server \<Rightarrow> string \<Rightarrow> 'm \<Rightarrow> bool" where
  "answers good ans run s m a \<longleftrightarrow> good a \<and> good (fst (ans m a)) \<and>
     (\<exists>k. methods s m = Some k \<and> run k a = ([DoReply (fst (ans m a)) (snd (ans m a))], None))"

text \<open>A codec that carries good values as they are.\<close>

locale rpc_exact = rpc_codec +
  fixes good :: "'a \<Rightarrow> bool"
  assumes request_exact: "good (req_arg r) \<Longrightarrow> \<exists>pk. encm (Request r) = Some pk \<and> decm pk = Ret (Some (Request r))"
    and response_exact: "good (resp_ret s) \<Longrightarrow>
      \<exists>pk. encm (Response s) = Some pk \<and> decm pk = Ret (Some (Response (s\<lparr>resp_err := map_option carry_err (resp_err s)\<rparr>)))"
begin

lemma server_receive_ok:
  assumes "\<forall>(x, h, m, a, f) \<in> set calls. answers good ans run s m a" and "ready n ch ms" and "length ms + length calls \<le> n"
  shows "\<exists>s' ch'. server_receive encm decm nil run i (reqs_of encm sq calls) (s, ch) = Ret (s', ch') \<and>
    ready n ch' (ms @ resps_of encm ans sq calls)"
  using assms
proof (induction calls arbitrary: s ch ms sq)
  case (Cons cl calls)
  obtain x h m a f where cl: "cl = (x, h, m, a, f)" by (cases cl)
  have an: "answers good ans run s m a" using Cons.prems(1) by (simp add: cl)
  then obtain k where k: "good a" "good (fst (ans m a))" "methods s m = Some k"
      "run k a = ([DoReply (fst (ans m a)) (snd (ans m a))], None)" by (auto simp: answers_def)
  obtain pk where pk: "encm (request_of (sq + 1) m a True) = Some pk" "decm pk = Ret (Some (request_of (sq + 1) m a True))"
    using request_exact [of "\<lparr>req_seq = sq + 1, req_method = m, req_arg = a, needResp = True\<rparr>"] k(1) by (auto simp: request_of_def)
  obtain pk' where pk': "encm (Response (response_to ans (sq + 1) m a)) = Some pk'"
    using response_exact [of "response_to ans (sq + 1) m a"] k(2) by (auto simp: response_to_def)
  let ?s = "RpcServer.OnRPCMessage encm nil run i (Some (request_of (sq + 1) m a True)) s"
  note served = request_served [where encm = encm and run = run and nil = nil and i = i and a = a, OF k(3,4) pk' [unfolded response_to_def]]
  have "length ms < n" using Cons.prems(3) by simp
  from Send_ready(2) [OF Cons.prems(2) this, of pk'] obtain ch' where
    ch': "SendResponse pk' ch = (ch', None)" "ready n ch' (ms @ [pk'])" by blast
  have "\<forall>(x, h, m, a, f) \<in> set calls. answers good ans run ?s m a"
    using Cons.prems(1) served(2) by (auto simp: answers_def)
  from Cons.IH [OF this ch'(2), of "sq + 1"] Cons.prems(3) obtain s' ch'' where
    "server_receive encm decm nil run i (reqs_of encm (sq + 1) calls) (?s, ch') = Ret (s', ch'')"
    "ready n ch'' ((ms @ [pk']) @ resps_of encm ans (sq + 1) calls)" by auto
  then show ?case using pk pk' ch'(1) served(1) by (simp add: cl respond_def Let_def)
qed simp

lemma client_receive_ok:
  assumes "rpc_reach S" and "issued S = pre @ issued_of sq calls" and "fst ` set (log S) \<inter> fst ` set (issued_of sq calls) = {}"
    and "\<forall>(x, h, m, a, f) \<in> set calls. good (fst (ans m a))"
  shows "\<exists>S'. client_receive decm (resps_of encm ans sq calls) (client S) = Ret (client S', fires_of carry_err ans sq calls) \<and>
    rpc_reach S' \<and> log S' = log S @ fires_of carry_err ans sq calls \<and> issued S' = issued S"
  using assms
proof (induction calls arbitrary: S pre sq)
  case (Cons cl calls)
  obtain x h m a f where cl: "cl = (x, h, m, a, f)" by (cases cl)
  let ?r = "\<lparr>resp_seq = sq + 1, resp_err = map_option carry_err (snd (ans m a)), resp_ret = fst (ans m a)\<rparr>"
  obtain pk where pk: "encm (Response (response_to ans (sq + 1) m a)) = Some pk" "decm pk = Ret (Some (Response ?r))"
    using response_exact [of "response_to ans (sq + 1) m a"] Cons.prems(4) by (auto simp: response_to_def cl)
  have eq: "issued S = (pre @ [(sq + 1, f)]) @ issued_of (sq + 1) calls" using Cons.prems(2) by (simp add: cl)
  have "(resp_seq ?r, f) \<in> set (issued S)" "resp_seq ?r \<notin> fst ` set (log S)" using eq Cons.prems(3) by (auto simp: cl)
  from response_runs [OF Cons.prems(1) this] obtain c where
      c: "RpcClient.OnRPCMessage (Some (Response ?r)) (client S) = Ret (c, [(sq + 1, f, Some (fst (ans m a)), map_option carry_err (snd (ans m a)))])"
      "rpc_reach (S\<lparr>client := c, log := log S @ [(sq + 1, f, Some (fst (ans m a)), map_option carry_err (snd (ans m a)))]\<rparr>)" by auto
  let ?S = "S\<lparr>client := c, log := log S @ [(sq + 1, f, Some (fst (ans m a)), map_option carry_err (snd (ans m a)))]\<rparr>"
  have "distinct (map fst (issued S))" using rpc_invD(3) [OF rpc_reach_inv [OF Cons.prems(1)]] .
  then have "sq + 1 \<notin> fst ` set (issued_of (sq + 1) calls)" unfolding eq by auto
  then have dis: "fst ` set (log ?S) \<inter> fst ` set (issued_of (sq + 1) calls) = {}" using Cons.prems(3) by (auto simp: cl)
  have "issued ?S = (pre @ [(sq + 1, f)]) @ issued_of (sq + 1) calls" using eq by simp
  from Cons.IH [OF c(2) this dis] Cons.prems(4) obtain S' where
    "client_receive decm (resps_of encm ans (sq + 1) calls) c = Ret (client S', fires_of carry_err ans (sq + 1) calls)" "rpc_reach S'"
    "log S' = log ?S @ fires_of carry_err ans (sq + 1) calls" "issued S' = issued S" by auto
  then show ?case using c(1) pk by (intro exI [of _ S']) (simp add: cl)
qed auto

end

text \<open>Client and server joined by two links.\<close>

locale rpc_connection = rpc_exact encm decm carry carry_err good + up: link there up_ok + down: link home down_ok
  for encm :: "'m rpc_message \<Rightarrow> 'o option" and decm carry carry_err good
    and there home :: "'o tcp_channel \<Rightarrow> ('o tcp_channel \<times> 'o list) option" and up_ok down_ok
begin

lemma round_answers:
  assumes reach: "rpc_reach S" and C: "call_client C = client S" "call_channel C = Some ch" "ready n ch []"
    and fr: "fresh_calls (client S) calls" "unat (sequence (client S)) + length calls < 2 ^ 64"
    and sc: "ready n' sc []" and len: "length calls \<le> n" "length calls \<le> n'"
    and ans: "\<forall>(x, h, m, a, f) \<in> set calls. answers good ans run s m a"
    and cross: "up_ok (reqs_of encm (sequence (client S)) calls)" "down_ok (resps_of encm ans (sequence (client S)) calls)"
  shows "\<exists>S' ch' s' sc'. rpc_round encm decm nil run i there home calls C (s, sc) =
      Some (\<lparr>call_client = client S', call_channel = Some ch'\<rparr>, (s', sc'), fires_of carry_err ans (sequence (client S)) calls) \<and>
    ready n ch' [] \<and> ready n' sc' [] \<and> rpc_reach S' \<and> log S' = log S @ fires_of carry_err ans (sequence (client S)) calls \<and>
    issued S' = issued S @ issued_of (sequence (client S)) calls"
proof -
  let ?sq = "sequence (client S)"
  have good: "\<forall>(x, h, m, a, f) \<in> set calls. good a \<and> good (fst (ans m a))" using ans by (auto simp: answers_def)
  have "encm (request_of sq m a True) \<noteq> None" if "good a" for sq m a
    using request_exact [of "\<lparr>req_seq = sq, req_method = m, req_arg = a, needResp = True\<rparr>"] that by (auto simp: request_of_def)
  then have enc: "\<forall>(x, h, m, a, f) \<in> set calls. \<forall>sq. encm (request_of sq m a True) \<noteq> None" using good by fast
  have "length [] + length calls \<le> n" using len by simp
  from call_all_ok [OF reach C this fr enc] obtain C1 ch1 S1 where
      C1: "call_all encm calls C = Ret C1" "call_client C1 = client S1" "call_channel C1 = Some ch1"
        "ready n ch1 (reqs_of encm ?sq calls)" and S1: "rpc_reach S1" "log S1 = log S" "issued S1 = issued S @ issued_of ?sq calls" by auto
  obtain ch2 where ch2: "there ch1 = Some (ch2, reqs_of encm ?sq calls)" "ready n ch2 []" using up.delivers [OF C1(4) cross(1)] by blast
  have "length [] + length calls \<le> n'" using len by simp
  from server_receive_ok [OF ans sc this, of nil i ?sq] obtain s1 sc1 where
      sr: "server_receive encm decm nil run i (reqs_of encm ?sq calls) (s, sc) = Ret (s1, sc1)" "ready n' sc1 (resps_of encm ans ?sq calls)" by auto
  obtain sc2 where sc2: "home sc1 = Some (sc2, resps_of encm ans ?sq calls)" "ready n' sc2 []" using down.delivers [OF sr(2) cross(2)] by blast
  note invS = rpc_reach_inv [OF reach] and invS1 = rpc_reach_inv [OF S1(1)]
  have "fst ` set (log S) \<subseteq> fst ` set (issued S)" using rpc_invD(5) [OF invS] by blast
  moreover have "fst ` set (issued S) \<inter> fst ` set (issued_of ?sq calls) = {}" using rpc_invD(3) [OF invS1] unfolding S1(3) by auto
  ultimately have dis: "fst ` set (log S1) \<inter> fst ` set (issued_of ?sq calls) = {}" using S1(2) by auto
  have "\<forall>(x, h, m, a, f) \<in> set calls. good (fst (ans m a))" using good by fast
  from client_receive_ok [OF S1(1,3) dis this] obtain S2 where
      cr: "client_receive decm (resps_of encm ans ?sq calls) (client S1) = Ret (client S2, fires_of carry_err ans ?sq calls)"
      and S2: "rpc_reach S2" "log S2 = log S1 @ fires_of carry_err ans ?sq calls" "issued S2 = issued S1" by blast
  have "rpc_round encm decm nil run i there home calls C (s, sc) =
      Some (\<lparr>call_client = client S2, call_channel = Some ch2\<rparr>, (s1, sc2), fires_of carry_err ans ?sq calls)"
    using C1(1-3) ch2(1) sr(1) sc2(1) cr by (simp add: rpc_round_def)
  then show ?thesis using ch2(2) sc2(2) S2 S1(2,3) by auto
qed

end

text \<open>The codec of the RPC programs over two stream connections.\<close>

interpretation rs: rpc_connection "test_enc g P (register_all ts)" "test_dec errorf P (register_all ts)" "trip P" "trip_err errorf"
    "carries P (register_all ts)" "tcp_carry g Q (register_all ts) pb script sizes" "tcp_carry g Q (register_all ts) pb' script' sizes'"
    "tcp_crosses Q (register_all ts) script sizes" "tcp_crosses Q (register_all ts) script' sizes'"
  for g P ts errorf Q pb script sizes pb' script' sizes'
  by unfold_locales (use carried_request carried_response in blast)+

section \<open>Properties\<close>

text \<open>What \<open>Dial\<close> and the server's callback make of a new connection is ready, with room for 128 messages.\<close>

lemma dialled_ready:
  assumes "k \<noteq> OtherConn"
  shows "\<exists>ch. Caller_Dial (Inr k) addr remote near C = Ret (C\<lparr>call_channel := Some ch\<rparr>, None) \<and> ready 128 ch []"
  using assms by (cases k) (auto simp: Caller_Dial_def Dial_def NewStreamSocket_def NewTcpStreamChannel_def dial_session_def session_BeginRecv_def
      cas_beginOnce_def addIO_def SetCloseCallBack_def SetEncoder_def NewBase_def NewSendQueue_def ready_def Let_def)

lemma accepted_ready: "NewStreamSocket k = Some s \<Longrightarrow> ready 128 (on_client addr remote near s) []"
  by (cases k) (auto simp: on_client_def NewStreamSocket_def NewTcpStreamChannel_def session_BeginRecv_def cas_beginOnce_def addIO_def
      SetEncoder_def NewBase_def NewSendQueue_def ready_def Let_def)

text \<open>C5. RPC over a connection: calls that a \<open>Caller\<close> makes, as many as the send queues have room for, are encoded by \<open>TestEncoder\<close>, queued
  by \<open>Send\<close>, packed and written by the send goroutine, cut from the byte stream by the server's \<open>PBReceiver\<close>, however it is split into reads,
  decoded, answered by their methods, and the responses take the same way back. With arguments, results and messages
  that fit, no step fails or panics, and exactly the callbacks of these calls run, in the order of the calls, each once and with the result
  and the text of the error of its own method. Both queues are empty again and the client is in a reachable state, so rounds can follow one
  another.\<close>

theorem rpc_over_stream:
  assumes "rpc_reach S" and "call_client C = client S" "call_channel C = Some ch" "ready n ch []"
    and "fresh_calls (client S) calls" "unat (sequence (client S)) + length calls < 2 ^ 64"
    and "ready n' sc []" and "length calls \<le> n" "length calls \<le> n'"
    and "\<forall>(x, h, m, a, f) \<in> set calls. answers (carries P (register_all ts)) ans run s m a"
    and "tcp_crosses Q (register_all ts) script sizes (reqs_of (test_enc g P (register_all ts)) (sequence (client S)) calls)"
    and "tcp_crosses Q (register_all ts) script' sizes' (resps_of (test_enc g P (register_all ts)) ans (sequence (client S)) calls)"
  shows "\<exists>S' ch' s' sc'. rpc_round (test_enc g P (register_all ts)) (test_dec errorf P (register_all ts)) None run i
      (tcp_carry g Q (register_all ts) pb script sizes) (tcp_carry g Q (register_all ts) pb' script' sizes') calls C (s, sc) =
      Some (\<lparr>call_client = client S', call_channel = Some ch'\<rparr>, (s', sc'), fires_of (trip_err errorf) ans (sequence (client S)) calls) \<and>
    ready n ch' [] \<and> ready n' sc' [] \<and> rpc_reach S' \<and> log S' = log S @ fires_of (trip_err errorf) ans (sequence (client S)) calls \<and>
    issued S' = issued S @ issued_of (sequence (client S)) calls"
  by (rule rs.round_answers [OF assms])

text \<open>For the witness: one call between a dialled caller and a server with one method, and a protobuf for its two messages.\<close>

definition two_proto :: "pb_object \<Rightarrow> pb_object \<Rightarrow> pb_object proto" where
  "two_proto r s = \<lparr>marshal = (\<lambda>x. Some (if x = r then [1] else [2])), unmarshal = (\<lambda>nm d. Some (if d = [1] then r else s)),
     type_of = (\<lambda>x. ''rpc'')\<rparr>"

abbreviation rpc_types :: "(string \<times> uint32) list" where
  "rpc_types \<equiv> [(''raw'', 1), (''rpc'', 4)]"

abbreviation ping_req :: pb_object where
  "ping_req \<equiv> the (test_enc double raw_proto (register_all rpc_types) (request_of 1 ''ping'' (Some [1]) True))"

abbreviation ping_resp :: pb_object where
  "ping_resp \<equiv> the (test_enc double raw_proto (register_all rpc_types) (Response \<lparr>resp_seq = 1, resp_err = None, resp_ret = Some [2]\<rparr>))"

lemma two_crosses:
  assumes "x = r \<or> x = s"
  shows "tcp_crosses (two_proto r s) (register_all rpc_types) [all_written] (replicate 20 1) [x]"
proof -
  have "fits (two_proto r s) (register_all rpc_types) maxPacket x"
    using assms by (auto simp: fits_def two_proto_def register_all_def Register_def empty_registry_def maxPacket_def)
  moreover have "length (wire_form (two_proto r s) (register_all rpc_types) x) = 9"
    by (simp add: wire_form_def two_proto_def)
  ultimately show ?thesis by (simp add: tcp_crosses_def ok_write_def all_written_def)
qed

theorem rpc_over_stream_witness:
  "\<exists>C S' ch' s' sc'. Caller_Dial (Inr TCPConn) 7 ''a'' ''b'' (NewCaller (NewClient 0)) = Ret (C, None) \<and>
     rpc_round (test_enc double raw_proto (register_all rpc_types)) (test_dec id raw_proto (register_all rpc_types)) None
      (\<lambda>(u :: unit) a. ([DoReply (Some [2]) None], None)) 3
      (tcp_carry double (two_proto ping_req ping_resp) (register_all rpc_types) (Buffers.New []) [all_written] (replicate 20 1))
      (tcp_carry double (two_proto ping_req ping_resp) (register_all rpc_types) (Buffers.New []) [all_written] (replicate 20 1))
      [(10, 20, ''ping'', Some [1], ''cb'')] C
      (fst (RegisterMethod ''ping'' (Some ()) NewRPCServer), on_client 9 ''b'' ''a'' (the (NewStreamSocket TCPConn))) =
     Some (\<lparr>call_client = client S', call_channel = Some ch'\<rparr>, (s', sc'), [(1, ''cb'', Some (Some [2]), None)]) \<and>
     rpc_reach (S' :: (string, byte list option) rpc_sys)"
proof -
  let ?S = "\<lparr>client = NewClient 0, issued = [], log = []\<rparr> :: (string, byte list option) rpc_sys"
  let ?calls = "[(10, 20, ''ping'', Some [1], ''cb'')] :: (byte list option, string) call_args list"
  let ?ans = "\<lambda>m a. (Some [2], None) :: byte list option \<times> rpc_error option" and ?run = "\<lambda>(u :: unit) a. ([DoReply (Some [2]) None], None)"
  let ?s = "fst (RegisterMethod ''ping'' (Some ()) NewRPCServer) :: (unit, byte list option, pb_object) rpc_server"
  let ?reg = "register_all rpc_types" and ?q = "two_proto ping_req ping_resp"
  obtain ch where ch: "Caller_Dial (Inr TCPConn) 7 ''a'' ''b'' (NewCaller (NewClient 0)) =
      Ret ((NewCaller (NewClient 0) :: (string, pb_object) caller)\<lparr>call_channel := Some ch\<rparr>, None)" "ready 128 ch []"
    using dialled_ready [of TCPConn] by blast
  let ?C = "(NewCaller (NewClient 0) :: (string, pb_object) caller)\<lparr>call_channel := Some ch\<rparr>"
  have sc: "ready 128 (on_client 9 ''b'' ''a'' (the (NewStreamSocket TCPConn)) :: pb_object tcp_channel) []"
    by (rule accepted_ready [of TCPConn]) (simp add: NewStreamSocket_def)
  have c: "carries raw_proto ?reg (Some [b])" for b
    by (simp add: carries_def fits_def raw_proto_def register_all_def Register_def empty_registry_def maxArgSize_def)
  have an: "\<forall>(x, h, m, a, f) \<in> set ?calls. answers (carries raw_proto ?reg) ?ans ?run ?s m a"
    using c by (simp add: answers_def RegisterMethod_def NewRPCServer_def)
  have sq: "sequence (client ?S) = 0" by (simp add: NewClient_def)
  have fr: "fresh_calls (client ?S) ?calls" "unat (sequence (client ?S)) + length ?calls < 2 ^ 64"
    by (simp_all add: fresh_calls_def free_addr_def NewClient_def)
  have x: "tcp_crosses ?q ?reg [all_written] (replicate 20 1) (reqs_of (test_enc double raw_proto ?reg) (sequence (client ?S)) ?calls)"
    "tcp_crosses ?q ?reg [all_written] (replicate 20 1) (resps_of (test_enc double raw_proto ?reg) ?ans (sequence (client ?S)) ?calls)"
    unfolding sq using two_crosses [of ping_req ping_req ping_resp] two_crosses [of ping_resp ping_req ping_resp] by (simp_all add: response_to_def)
  have C: "call_client ?C = client ?S" "call_channel ?C = Some ch" by (simp_all add: NewCaller_def)
  have l: "length ?calls \<le> 128" by simp
  from rpc_over_stream [OF rpc_reach.init C ch(2) fr sc l l an x, of id 3 "Buffers.New []" "Buffers.New []"]
  show ?thesis using ch(1) unfolding sq by auto
qed

end
