(* ===== verification/BufferPool.thy ===== *)
theory BufferPool
  imports Buffers
begin

text \<open>
  The pool of byte buffers, \<open>src/buffer/pool.go\<close>, with \<open>Buffer.Free\<close> of \<open>src/buffer/buffer.go\<close>: size classes, the
  counters of \<open>Put\<close>, calibration of the default and maximal sizes, and the buffers kept for reuse. \<open>sort.Sort\<close> and the
  float expression of the percentile are arguments; \<open>sync.Pool\<close> is a list whose items may be handed out in any order
  or not at all.
\<close>

section \<open>Definitions\<close>

definition minBitSize :: nat where "minBitSize = 6"
definition steps :: nat where "steps = 20"
definition minSize :: uint64 where "minSize = push_bit minBitSize 1"
definition calibrateCallsThreshold :: uint64 where "calibrateCallsThreshold = 42000"

record callSize =
  cs_calls :: uint64
  cs_size :: uint64

record bpool =
  calls :: "uint64 list"
  calibrating :: uint64
  defaultSize :: uint64
  maxSize :: uint64
  pool_items :: "buffer list"

definition newPool :: bpool where
  "newPool = \<lparr>calls = replicate steps 0, calibrating = 0, defaultSize = 0, maxSize = 0, pool_items = []\<rparr>"

function index_loop :: "int \<Rightarrow> nat \<Rightarrow> nat" where
  "index_loop n idx = (if n > 0 then index_loop (n div 2) (Suc idx) else idx)"
  by pat_completeness auto
termination by (relation "measure (\<lambda>(n, idx). nat n)") auto

declare index_loop.simps [simp del]

definition index :: "int \<Rightarrow> nat" where
  "index n = (let idx = index_loop ((n - 1) div 2 ^ minBitSize) 0 in if idx \<ge> steps then steps - 1 else idx)"

text \<open>The loop that looks for the largest size among the most used ones.\<close>

fun cal_loop :: "uint64 \<Rightarrow> uint64 \<Rightarrow> uint64 \<Rightarrow> callSize list \<Rightarrow> uint64" where
  "cal_loop maxSum s mx [] = mx"
| "cal_loop maxSum s mx (c # cs) =
     (if s > maxSum then mx
      else cal_loop maxSum (s + cs_calls c) (if cs_size c > mx then cs_size c else mx) cs)"

definition calibrate :: "(callSize list \<Rightarrow> callSize list) \<Rightarrow> (uint64 \<Rightarrow> uint64) \<Rightarrow> bpool \<Rightarrow> bpool" where
  "calibrate srt pct p =
     (if calibrating p \<noteq> 0 then p
      else
        (let a = map (\<lambda>i. \<lparr>cs_calls = calls p ! i, cs_size = push_bit i minSize\<rparr>) [0..<steps];
             callsSum = sum_list (calls p);
             b = srt a; dflt = cs_size (b ! 0); mx = cal_loop (pct callsSum) 0 dflt b
         in p\<lparr>calls := replicate steps 0, defaultSize := dflt, maxSize := mx, calibrating := 0\<rparr>))"

definition pool_Put :: "(callSize list \<Rightarrow> callSize list) \<Rightarrow> (uint64 \<Rightarrow> uint64) \<Rightarrow> buffer \<Rightarrow> bpool \<Rightarrow> bpool" where
  "pool_Put srt pct b p =
     (let idx = index (int (Len b)); c = calls p ! idx + 1; p1 = p\<lparr>calls := (calls p)[idx := c]\<rparr>;
          p2 = (if c > calibrateCallsThreshold then calibrate srt pct p1 else p1)
      in if maxSize p2 = 0 \<or> int (Cap b) \<le> sint (maxSize p2) then p2\<lparr>pool_items := Reset b # pool_items p2\<rparr> else p2)"

text \<open>\<open>choice\<close>: the item that \<open>sync.Pool\<close> hands out; none when it is empty or was cleared.\<close>

definition pool_Get :: "nat \<Rightarrow> nat option \<Rightarrow> bpool \<Rightarrow> bpool \<times> buffer" where
  "pool_Get self choice p =
     (case choice of
        Some i \<Rightarrow> if i < length (pool_items p)
                  then (p\<lparr>pool_items := take i (pool_items p) @ drop (Suc i) (pool_items p)\<rparr>, pool_items p ! i)
                  else (p, \<lparr>bs = \<lparr>sarr = replicate (unat (defaultSize p)) 0, slen = 0\<rparr>, bpool = Some self\<rparr>)
      | None \<Rightarrow> (p, \<lparr>bs = \<lparr>sarr = replicate (unat (defaultSize p)) 0, slen = 0\<rparr>, bpool = Some self\<rparr>))"

text \<open>\<open>Free\<close>: only buffers of a pool go back to it.\<close>

definition Free :: "(callSize list \<Rightarrow> callSize list) \<Rightarrow> (uint64 \<Rightarrow> uint64) \<Rightarrow> buffer \<Rightarrow> (nat \<Rightarrow> bpool) \<Rightarrow> nat \<Rightarrow> bpool" where
  "Free srt pct b pools = (case bpool b of None \<Rightarrow> pools | Some k \<Rightarrow> pools(k := pool_Put srt pct b (pools k)))"

section \<open>Size classes\<close>

lemma index_loop_spec:
  "n > 0 \<Longrightarrow> \<exists>k. index_loop n idx = idx + Suc k \<and> 2 ^ k \<le> n \<and> n < 2 ^ Suc k"
proof (induction n idx rule: index_loop.induct)
  case (1 n idx)
  show ?case
  proof (cases "n div 2 > 0")
    case True
    then obtain k where k: "index_loop (n div 2) (Suc idx) = Suc idx + Suc k" "2 ^ k \<le> n div 2" "n div 2 < 2 ^ Suc k"
      using 1 by blast
    have "index_loop n idx = idx + Suc (Suc k)" using 1(2) k(1) by (simp add: index_loop.simps)
    moreover have "2 ^ Suc k \<le> n" "n < 2 ^ Suc (Suc k)" using k(2,3) by auto
    ultimately show ?thesis by blast
  next
    case False
    then have n: "n = 1" using 1(2) by linarith
    have "index_loop n idx = idx + Suc 0" by (simp add: n index_loop.simps)
    then show ?thesis using n by (intro exI [of _ 0]) simp
  qed
qed

lemma index_loop_le: "n \<le> 0 \<Longrightarrow> index_loop n idx = idx"
  by (simp add: index_loop.simps)

text \<open>C26. \<open>index\<close> computes the size class: the least class whose size, 64 shifted left by it, holds \<open>n\<close> bytes, and
  the last class for everything beyond its size; it is always an index of the counters.\<close>

theorem index_size_class:
  "index n < steps \<and> (n \<le> 2 ^ (minBitSize + steps - 1) \<longrightarrow> n \<le> 2 ^ (minBitSize + index n)) \<and>
   (index n > 0 \<longrightarrow> 2 ^ (minBitSize + index n - 1) < n) \<and> (n > 2 ^ (minBitSize + steps - 1) \<longrightarrow> index n = steps - 1)"
proof -
  define m where "m = (n - 1) div 64"
  have ix: "index n = (if index_loop m 0 \<ge> 20 then 19 else index_loop m 0)"
    by (simp add: index_def m_def minBitSize_def steps_def Let_def)
  show ?thesis
  proof (cases "m > 0")
    case False
    then have "index n = 0" "n \<le> 64" using ix index_loop_le [of m 0] by (simp, simp add: m_def)
    then show ?thesis by (simp add: minBitSize_def steps_def)
  next
    case True
    then obtain k where k: "index_loop m 0 = Suc k" "2 ^ k \<le> m" "m < 2 ^ Suc k" using index_loop_spec [of m 0] by auto
    have lo: "64 * 2 ^ k < n" using k(2) by (simp add: m_def)
    have hi: "n \<le> 64 * 2 ^ Suc k" using k(3) by (simp add: m_def)
    show ?thesis
    proof (cases "Suc k < 20")
      case small: True
      then have "index n = Suc k" using ix k(1) by simp
      moreover have "(2::int) ^ (5 + Suc k) \<le> 2 ^ 24" "(2::int) ^ (6 + Suc k) \<le> 2 ^ 25"
        using small by (intro power_increasing; simp)+
      ultimately show ?thesis using lo hi small by (auto simp: minBitSize_def steps_def power_add)
    next
      case big: False
      then have "index n = 19" using ix k(1) by simp
      moreover have "(2::int) ^ 19 \<le> 2 ^ k" using big by (intro power_increasing) simp_all
      ultimately show ?thesis using lo by (simp add: minBitSize_def steps_def)
    qed
  qed
qed

section \<open>Calibration\<close>

definition class_size :: "uint64 \<Rightarrow> bool" where
  "class_size s \<longleftrightarrow> (\<exists>i < steps. s = push_bit i minSize)"

lemma class_size_bounds:
  assumes "class_size s"
  shows "64 \<le> unat s \<and> unat s \<le> 2 ^ 25"
proof -
  obtain i where i: "i < 20" "s = push_bit i (push_bit 6 1)" using assms by (auto simp: class_size_def steps_def minSize_def minBitSize_def)
  have s: "s = word_of_nat (2 ^ (i + 6))" by (simp add: i(2) push_bit_eq_mult power_add mult.commute)
  have b: "(2::nat) ^ (i + 6) \<le> 2 ^ 25" "(2::nat) ^ 6 \<le> 2 ^ (i + 6)" using i(1) by (intro power_increasing; simp)+
  have "unat s = 2 ^ (i + 6)" using b(1) unfolding s unsigned_of_nat by (subst take_bit_nat_eq_self) simp_all
  then show ?thesis using b by simp
qed

lemma cal_loop_spec:
  assumes "class_size mx" and "\<forall>c \<in> set cs. class_size (cs_size c)"
  shows "class_size (cal_loop m s mx cs) \<and> mx \<le> cal_loop m s mx cs"
  using assms
proof (induction cs arbitrary: s mx)
  case (Cons c cs)
  let ?mx = "if cs_size c > mx then cs_size c else mx"
  have "class_size ?mx" using Cons.prems by simp
  then have "class_size (cal_loop m (s + cs_calls c) ?mx cs) \<and> ?mx \<le> cal_loop m (s + cs_calls c) ?mx cs"
    using Cons.IH Cons.prems(2) by (meson list.set_intros(2))
  moreover have "mx \<le> ?mx" by (cases "cs_size c > mx") simp_all
  ultimately show ?case using Cons.prems(1) by (auto split: if_splits)
qed simp

text \<open>The state of a pool between two calls: all counters there, no calibration under way, sizes unset or two classes
  with the default at most the maximum, and only empty buffers kept.\<close>

definition wf_pool :: "bpool \<Rightarrow> bool" where
  "wf_pool p \<longleftrightarrow>
     length (calls p) = steps \<and> calibrating p = 0 \<and>
     (defaultSize p = 0 \<and> maxSize p = 0 \<or> class_size (defaultSize p) \<and> class_size (maxSize p) \<and> defaultSize p \<le> maxSize p) \<and>
     (\<forall>b \<in> set (pool_items p). wf_buffer b \<and> Bytes b = [])"

lemma wf_newPool: "wf_pool newPool"
  by (simp add: wf_pool_def newPool_def)

lemma calibrate_classes:
  assumes perm: "\<And>xs. mset (srt xs) = mset xs" and wf: "wf_pool p"
  shows "class_size (defaultSize (calibrate srt pct p))" and "class_size (maxSize (calibrate srt pct p))"
    and "defaultSize (calibrate srt pct p) \<le> maxSize (calibrate srt pct p)"
proof -
  define a where "a = map (\<lambda>i. \<lparr>cs_calls = calls p ! i, cs_size = push_bit i minSize\<rparr>) [0..<steps]"
  have set: "set (srt a) = set a" using mset_eq_setD [OF perm] .
  have "length (srt a) = steps" using mset_eq_length [OF perm, of a] by (simp add: a_def)
  then have "srt a ! 0 \<in> set (srt a)" by (simp add: steps_def)
  then have "srt a ! 0 \<in> set a" using set by simp
  moreover have classes: "\<forall>c \<in> set a. class_size (cs_size c)" by (auto simp: a_def class_size_def)
  ultimately have d: "class_size (cs_size (srt a ! 0))" by simp
  note loop = cal_loop_spec [OF d, of "srt a" "pct (sum_list (calls p))" 0]
  have eq: "defaultSize (calibrate srt pct p) = cs_size (srt a ! 0)"
      "maxSize (calibrate srt pct p) = cal_loop (pct (sum_list (calls p))) 0 (cs_size (srt a ! 0)) (srt a)"
    using wf by (simp_all add: calibrate_def wf_pool_def Let_def a_def)
  show "class_size (defaultSize (calibrate srt pct p))" "class_size (maxSize (calibrate srt pct p))"
      "defaultSize (calibrate srt pct p) \<le> maxSize (calibrate srt pct p)"
    using loop d classes set eq by simp_all
qed

lemma wf_calibrate:
  assumes "\<And>xs. mset (srt xs) = mset xs" and "wf_pool p"
  shows "wf_pool (calibrate srt pct p)"
proof -
  have "pool_items (calibrate srt pct p) = pool_items p" "calibrating (calibrate srt pct p) = 0"
      "length (calls (calibrate srt pct p)) = steps"
    using assms(2) by (simp_all add: calibrate_def wf_pool_def Let_def)
  then show ?thesis using calibrate_classes [OF assms, of pct] assms(2) by (simp add: wf_pool_def)
qed

lemma wf_Get:
  assumes "wf_pool q" and "pool_Get self choice q = (p', b')"
  shows "wf_pool p' \<and> wf_buffer b' \<and> Bytes b' = []"
proof -
  let ?new = "\<lparr>bs = \<lparr>sarr = replicate (unat (defaultSize q)) 0, slen = 0\<rparr>, bpool = Some self\<rparr>"
  have new: "wf_buffer ?new \<and> Bytes ?new = []" by (simp add: wf_buffer_def wf_slice_def Bytes_def sbytes_def)
  show ?thesis
  proof (cases "\<exists>i. choice = Some i \<and> i < length (pool_items q)")
    case True
    then obtain i where i: "choice = Some i" "i < length (pool_items q)" by blast
    then have eq: "p' = q\<lparr>pool_items := take i (pool_items q) @ drop (Suc i) (pool_items q)\<rparr>" "b' = pool_items q ! i"
      using assms(2) by (auto simp: pool_Get_def)
    have "set (take i (pool_items q) @ drop (Suc i) (pool_items q)) \<subseteq> set (pool_items q)"
      by (auto dest: in_set_takeD in_set_dropD)
    then have "\<forall>b \<in> set (pool_items p'). wf_buffer b \<and> Bytes b = []" using assms(1) unfolding wf_pool_def eq(1) by auto
    then have "wf_pool p'" using assms(1) by (simp add: wf_pool_def eq(1))
    moreover have "b' \<in> set (pool_items q)" using i(2) by (simp add: eq(2))
    ultimately show ?thesis using assms(1) by (simp add: wf_pool_def)
  next
    case False
    then have "p' = q" "b' = ?new" using assms(2) by (auto simp: pool_Get_def split: option.splits if_splits)
    then show ?thesis using assms(1) new by simp
  qed
qed

text \<open>C24. \<open>Put\<close> and \<open>Get\<close> keep the pool well formed, whatever the percentile expression gives and however \<open>sort.Sort\<close>
  orders ties: the counter index is in range, a buffer that \<open>Get\<close> returns is empty, and the default size is 0 before
  the first calibration and between 64 bytes and 32 megabytes, and at most the maximal size, after it.\<close>

theorem pool_put_get:
  assumes "\<And>xs. mset (srt xs) = mset xs" and "wf_pool p" and "wf_buffer b"
  shows "wf_pool (pool_Put srt pct b p) \<and> index (int (Len b)) < length (calls p) \<and>
    (case pool_Get self choice (pool_Put srt pct b p) of (p', b') \<Rightarrow> wf_pool p' \<and> wf_buffer b' \<and> Bytes b' = [] \<and>
       (defaultSize p' = 0 \<or> 64 \<le> unat (defaultSize p') \<and> unat (defaultSize p') \<le> 2 ^ 25 \<and> defaultSize p' \<le> maxSize p'))"
proof -
  have idx: "index (int (Len b)) < steps" by (auto simp: index_def steps_def Let_def)
  define p1 where "p1 = p\<lparr>calls := (calls p)[index (int (Len b)) := calls p ! index (int (Len b)) + 1]\<rparr>"
  have w1: "wf_pool p1" using assms(2) by (simp add: wf_pool_def p1_def)
  define p2 where "p2 = (if calls p ! index (int (Len b)) + 1 > calibrateCallsThreshold then calibrate srt pct p1 else p1)"
  have w2: "wf_pool p2" using w1 wf_calibrate [OF assms(1) w1] by (simp add: p2_def)
  have put: "pool_Put srt pct b p = p2 \<or> pool_Put srt pct b p = p2\<lparr>pool_items := Reset b # pool_items p2\<rparr>"
    by (simp add: pool_Put_def Let_def p1_def p2_def)
  then have w3: "wf_pool (pool_Put srt pct b p)" using w2 by (elim disjE) (simp_all add: wf_pool_def)
  obtain p' b' where g: "pool_Get self choice (pool_Put srt pct b p) = (p', b')" by fastforce
  have "wf_pool p' \<and> wf_buffer b' \<and> Bytes b' = []"
    by (rule wf_Get [OF w3 g])
  moreover have "defaultSize p' = 0 \<or> 64 \<le> unat (defaultSize p') \<and> unat (defaultSize p') \<le> 2 ^ 25 \<and> defaultSize p' \<le> maxSize p'"
    using calculation class_size_bounds by (auto simp: wf_pool_def)
  ultimately show ?thesis using w3 idx assms(2) g by (simp add: wf_pool_def)
qed

section \<open>Witnesses\<close>

theorem index_size_class_witness: "index 65 = 1 \<and> (65::int) \<le> 2 ^ (minBitSize + 1) \<and> 2 ^ (minBitSize + 1 - 1) < (65::int)"
proof -
  have "index 65 = 1" by (simp add: index_def minBitSize_def steps_def index_loop.simps)
  then show ?thesis using index_size_class [of 65] by (simp add: minBitSize_def steps_def)
qed

theorem pool_put_get_witness:
  "wf_pool (pool_Put (sort_key (\<lambda>c. - cs_calls c)) (\<lambda>s. s) \<lparr>bs = \<lparr>sarr = [1, 2], slen = 2\<rparr>, bpool = None\<rparr> newPool)"
  using pool_put_get [OF _ wf_newPool, of "sort_key (\<lambda>c. - cs_calls c)" "\<lparr>bs = \<lparr>sarr = [1, 2], slen = 2\<rparr>, bpool = None\<rparr>" "\<lambda>s. s"]
  by (simp add: wf_buffer_def wf_slice_def)

end
