(* ===== verification/PoolRace.thy ===== *)
theory PoolRace
  imports BufferPool
begin

text \<open>
  The pool of buffers under concurrency, \<open>src/buffer/pool.go\<close>: any number of goroutines in \<open>Put\<close>, \<open>Get\<close> and \<open>calibrate\<close>, interleaved between
  their atomic operations. One step is one operation of \<open>sync/atomic\<close> or of \<open>sync.Pool\<close> with the local computation that follows it.
\<close>

section \<open>Definitions\<close>

text \<open>The points: \<open>PutAdd\<close> before the counter is incremented, \<open>PutCas\<close> before the compare-and-swap on \<open>calibrating\<close>, \<open>CalSwap\<close> before
  counter \<open>i\<close> is swapped with 0, with the list \<open>a\<close> so far, \<open>CalDefault\<close>, \<open>CalMax\<close> and \<open>CalEnd\<close> before the three stores, \<open>PutLoad\<close> before the
  load of \<open>maxSize\<close>, \<open>PutKeep\<close> before the buffer is reset and given to \<open>sync.Pool\<close>; \<open>GetItem\<close> before \<open>sync.Pool\<close> is asked and
  \<open>GetLoad\<close> before the load of \<open>defaultSize\<close> when it had nothing.\<close>

datatype pool_pc =
    PutAdd buffer | PutCas buffer
  | CalSwap buffer nat "callSize list" | CalDefault buffer uint64 uint64 | CalMax buffer uint64 | CalEnd buffer
  | PutLoad buffer | PutKeep buffer
  | GetItem | GetLoad

text \<open>The pool with its histories: the calls of \<open>Put\<close> counted in each class, the lists that the calibrations have sorted, and the
  buffers that \<open>Get\<close> has returned.\<close>

record pool_sys =
  pl :: bpool
  counted :: "uint64 list"
  reports :: "callSize list list"
  handed :: "buffer list"
  pprocs :: "pool_pc list"

text \<open>The sizes that a calibration computes from its list.\<close>

definition cal_sizes :: "(callSize list \<Rightarrow> callSize list) \<Rightarrow> (uint64 \<Rightarrow> uint64) \<Rightarrow> callSize list \<Rightarrow> uint64 \<times> uint64" where
  "cal_sizes srt pct a =
     (let callsSum = sum_list (map cs_calls a); b = srt a; dflt = cs_size (b ! 0) in (dflt, cal_loop (pct callsSum) 0 dflt b))"

text \<open>\<open>choice\<close>: the item that \<open>sync.Pool\<close> hands out; \<open>self\<close> is the pool that a new buffer belongs to.\<close>

fun pool_thread :: "(callSize list \<Rightarrow> callSize list) \<Rightarrow> (uint64 \<Rightarrow> uint64) \<Rightarrow> nat \<Rightarrow> nat option \<Rightarrow> pool_pc \<Rightarrow> pool_sys \<Rightarrow>
    pool_sys \<times> pool_pc list" where
  "pool_thread srt pct self choice (PutAdd b) S =
     (let p = pl S; idx = index (int (Len b)); c = calls p ! idx + 1
      in (S\<lparr>pl := p\<lparr>calls := (calls p)[idx := c]\<rparr>, counted := (counted S)[idx := counted S ! idx + 1]\<rparr>,
          [if c > calibrateCallsThreshold then PutCas b else PutLoad b]))"
| "pool_thread srt pct self choice (PutCas b) S =
     (if calibrating (pl S) = 0 then (S\<lparr>pl := (pl S)\<lparr>calibrating := 1\<rparr>\<rparr>, [CalSwap b 0 []]) else (S, [PutLoad b]))"
| "pool_thread srt pct self choice (CalSwap b i acc) S =
     (let p = pl S; a = acc @ [\<lparr>cs_calls = calls p ! i, cs_size = push_bit i minSize\<rparr>]; S1 = S\<lparr>pl := p\<lparr>calls := (calls p)[i := 0]\<rparr>\<rparr>
      in if Suc i < steps then (S1, [CalSwap b (Suc i) a])
         else (let (dflt, mx) = cal_sizes srt pct a in (S1\<lparr>reports := reports S @ [a]\<rparr>, [CalDefault b dflt mx])))"
| "pool_thread srt pct self choice (CalDefault b dflt mx) S = (S\<lparr>pl := (pl S)\<lparr>defaultSize := dflt\<rparr>\<rparr>, [CalMax b mx])"
| "pool_thread srt pct self choice (CalMax b mx) S = (S\<lparr>pl := (pl S)\<lparr>maxSize := mx\<rparr>\<rparr>, [CalEnd b])"
| "pool_thread srt pct self choice (CalEnd b) S = (S\<lparr>pl := (pl S)\<lparr>calibrating := 0\<rparr>\<rparr>, [PutLoad b])"
| "pool_thread srt pct self choice (PutLoad b) S =
     (S, if maxSize (pl S) = 0 \<or> int (Cap b) \<le> sint (maxSize (pl S)) then [PutKeep b] else [])"
| "pool_thread srt pct self choice (PutKeep b) S = (S\<lparr>pl := (pl S)\<lparr>pool_items := Reset b # pool_items (pl S)\<rparr>\<rparr>, [])"
| "pool_thread srt pct self choice GetItem S =
     (let items = pool_items (pl S) in
      case choice of
        Some i \<Rightarrow> if i < length items
                  then (S\<lparr>pl := (pl S)\<lparr>pool_items := take i items @ drop (Suc i) items\<rparr>, handed := handed S @ [items ! i]\<rparr>, [])
                  else (S, [GetLoad])
      | None \<Rightarrow> (S, [GetLoad]))"
| "pool_thread srt pct self choice GetLoad S =
     (S\<lparr>handed := handed S @ [\<lparr>bs = \<lparr>sarr = replicate (unat (defaultSize (pl S))) 0, slen = 0\<rparr>, bpool = Some self\<rparr>]\<rparr>, [])"

inductive pool_step :: "(callSize list \<Rightarrow> callSize list) \<Rightarrow> (uint64 \<Rightarrow> uint64) \<Rightarrow> nat \<Rightarrow> pool_sys \<Rightarrow> pool_sys \<Rightarrow> bool" for srt pct self where
  p_run: "pprocs S = xs @ p # ys \<Longrightarrow> pool_thread srt pct self choice p S = (S', qs) \<Longrightarrow>
     pool_step srt pct self S (S'\<lparr>pprocs := xs @ qs @ ys\<rparr>)"
| p_put: "wf_buffer b \<Longrightarrow> pool_step srt pct self S (S\<lparr>pprocs := pprocs S @ [PutAdd b]\<rparr>)"
| p_get: "pool_step srt pct self S (S\<lparr>pprocs := pprocs S @ [GetItem]\<rparr>)"

definition pool_start :: pool_sys where
  "pool_start = \<lparr>pl = newPool, counted = replicate steps 0, reports = [], handed = [], pprocs = []\<rparr>"

inductive pool_reach :: "(callSize list \<Rightarrow> callSize list) \<Rightarrow> (uint64 \<Rightarrow> uint64) \<Rightarrow> nat \<Rightarrow> pool_sys \<Rightarrow> bool" for srt pct self where
  pr_start: "pool_reach srt pct self pool_start"
| pr_step: "pool_reach srt pct self S \<Longrightarrow> pool_step srt pct self S S' \<Longrightarrow> pool_reach srt pct self S'"

section \<open>The invariant\<close>

text \<open>A goroutine that holds \<open>calibrating\<close>, and what it has swapped out of counter \<open>i\<close> but not reported yet.\<close>

fun in_cal :: "pool_pc \<Rightarrow> bool" where
  "in_cal (CalSwap b i a) = True"
| "in_cal (CalDefault b d m) = True"
| "in_cal (CalMax b m) = True"
| "in_cal (CalEnd b) = True"
| "in_cal p = False"

fun swapped :: "nat \<Rightarrow> pool_pc \<Rightarrow> uint64" where
  "swapped i (CalSwap b k a) = (if i < k then cs_calls (a ! i) else 0)"
| "swapped i p = 0"

fun ok_pc :: "bpool \<Rightarrow> pool_pc \<Rightarrow> bool" where
  "ok_pc p (PutAdd b) \<longleftrightarrow> wf_buffer b"
| "ok_pc p (PutCas b) \<longleftrightarrow> wf_buffer b"
| "ok_pc p (CalSwap b i a) \<longleftrightarrow> wf_buffer b \<and> i < steps \<and> map cs_size a = map (\<lambda>j. push_bit j minSize) [0..<i]"
| "ok_pc p (CalDefault b d m) \<longleftrightarrow> wf_buffer b \<and> class_size d \<and> class_size m \<and> d \<le> m"
| "ok_pc p (CalMax b m) \<longleftrightarrow> wf_buffer b \<and> class_size (defaultSize p) \<and> class_size m \<and> defaultSize p \<le> m"
| "ok_pc p (CalEnd b) \<longleftrightarrow> wf_buffer b"
| "ok_pc p (PutLoad b) \<longleftrightarrow> wf_buffer b"
| "ok_pc p (PutKeep b) \<longleftrightarrow> wf_buffer b"
| "ok_pc p q \<longleftrightarrow> True"

fun storing :: "pool_pc \<Rightarrow> bool" where
  "storing (CalMax b m) = True"
| "storing p = False"

definition sizes_ok :: "bpool \<Rightarrow> bool" where
  "sizes_ok p \<longleftrightarrow> defaultSize p = 0 \<and> maxSize p = 0 \<or> class_size (defaultSize p) \<and> class_size (maxSize p) \<and> defaultSize p \<le> maxSize p"

definition items_ok :: "bpool \<Rightarrow> bool" where
  "items_ok p \<longleftrightarrow> (\<forall>b \<in> set (pool_items p). wf_buffer b \<and> Bytes b = [])"

text \<open>Every call of \<open>Put\<close> is in its counter, in the hands of the calibration that swapped the counter, or in one report.\<close>

definition accounted :: "pool_sys \<Rightarrow> bool" where
  "accounted S \<longleftrightarrow> (\<forall>i < steps. counted S ! i =
     calls (pl S) ! i + sum_list (map (\<lambda>r. cs_calls (r ! i)) (reports S)) + sum_list (map (swapped i) (pprocs S)))"

definition pool_inv :: "pool_sys \<Rightarrow> bool" where
  "pool_inv S \<longleftrightarrow>
     length (calls (pl S)) = steps \<and> length (counted S) = steps \<and>
     cnt in_cal (pprocs S) = of_bool (calibrating (pl S) \<noteq> 0) \<and>
     (\<forall>p \<in> set (pprocs S). ok_pc (pl S) p) \<and>
     (cnt storing (pprocs S) = 0 \<longrightarrow> sizes_ok (pl S)) \<and>
     items_ok (pl S) \<and> (\<forall>b \<in> set (handed S). wf_buffer b \<and> Bytes b = []) \<and> accounted S"

lemma pool_invD:
  assumes "pool_inv S"
  shows "length (calls (pl S)) = steps" "length (counted S) = steps" "cnt in_cal (pprocs S) = of_bool (calibrating (pl S) \<noteq> 0)"
    and "\<And>p. p \<in> set (pprocs S) \<Longrightarrow> ok_pc (pl S) p" "cnt storing (pprocs S) = 0 \<Longrightarrow> sizes_ok (pl S)" "items_ok (pl S)"
    and "\<forall>b \<in> set (handed S). wf_buffer b \<and> Bytes b = []" "accounted S"
  using assms by (simp_all add: pool_inv_def)

lemma ok_pc_cong: "defaultSize p' = defaultSize p \<Longrightarrow> ok_pc p' q = ok_pc p q"
  by (cases q) simp_all

lemma ok_pc_not_storing: "\<not> storing q \<Longrightarrow> ok_pc p' q = ok_pc p q"
  by (cases q) simp_all

lemma storing_in_cal: "storing q \<Longrightarrow> in_cal q"
  by (cases q) simp_all

lemma rebalance:
  fixes c :: "'a :: ab_group_add"
  assumes c: "c = k + r + (x + s + y)" and e: "c' + k + s + r = c + k' + q + r'"
  shows "c' = k' + r' + (x + q + y)"
proof -
  have "c' + (k + s + r) = (k' + r' + (x + q + y)) + (k + s + r)" using e unfolding c by (simp add: ac_simps)
  then show ?thesis by (rule add_right_imp_eq)
qed

text \<open>What a step of one goroutine has to keep.\<close>

lemma pool_inv_frame:
  assumes inv: "pool_inv S" and thr: "pprocs S = xs @ p # ys" "pprocs S' = xs @ qs @ ys"
    and len: "length (calls (pl S')) = steps" "length (counted S') = steps"
    and cal: "cnt in_cal qs + of_bool (calibrating (pl S) \<noteq> 0) = of_bool (in_cal p) + of_bool (calibrating (pl S') \<noteq> 0)"
    and ok: "\<And>q. q \<in> set qs \<Longrightarrow> ok_pc (pl S') q" "defaultSize (pl S') = defaultSize (pl S) \<or> in_cal p"
    and sz: "sizes_ok (pl S) \<Longrightarrow> \<not> storing p \<Longrightarrow> cnt storing qs = 0 \<Longrightarrow> sizes_ok (pl S')" "storing p \<Longrightarrow> sizes_ok (pl S')"
    and it: "items_ok (pl S')" "\<forall>b \<in> set (handed S'). wf_buffer b \<and> Bytes b = []"
    and ac: "\<And>i. i < steps \<Longrightarrow> counted S' ! i + calls (pl S) ! i + swapped i p + sum_list (map (\<lambda>r. cs_calls (r ! i)) (reports S)) =
      counted S ! i + calls (pl S') ! i + sum_list (map (swapped i) qs) + sum_list (map (\<lambda>r. cs_calls (r ! i)) (reports S'))"
  shows "pool_inv S'"
proof -
  note I = pool_invD [OF inv]
  have others: "ok_pc (pl S') q" if q: "q \<in> set xs \<or> q \<in> set ys" for q
  proof (cases "defaultSize (pl S') = defaultSize (pl S)")
    case True
    then show ?thesis using I(4) [of q] q thr(1) ok_pc_cong [OF True, of q] by auto
  next
    case False
    then have "in_cal p" using ok(2) by blast
    then have "cnt in_cal (xs @ ys) + 1 = of_bool (calibrating (pl S) \<noteq> 0)" using I(3) by (simp add: thr(1) cnt_Cons)
    moreover have "(of_bool (calibrating (pl S) \<noteq> 0) :: nat) \<le> 1" by simp
    ultimately have "cnt in_cal (xs @ ys) = 0" by linarith
    then have "\<not> storing q" using q storing_in_cal by (auto simp: cnt_eq_0)
    then show ?thesis using I(4) [of q] q thr(1) ok_pc_not_storing [of q "pl S'" "pl S"] by auto
  qed
  have st: "sizes_ok (pl S')" if "cnt storing (pprocs S') = 0"
  proof (cases "storing p")
    case False
    then have "cnt storing (pprocs S) = 0" "cnt storing qs = 0" using that by (simp_all add: thr cnt_Cons)
    then show ?thesis using sz(1) I(5) False by blast
  qed (rule sz(2))
  have acc: "accounted S'" unfolding accounted_def
  proof (intro allI impI)
    fix i
    assume i: "i < steps"
    let ?r = "sum_list (map (\<lambda>r. cs_calls (r ! i)) (reports S))" and ?r' = "sum_list (map (\<lambda>r. cs_calls (r ! i)) (reports S'))"
    let ?x = "sum_list (map (swapped i) xs)" and ?y = "sum_list (map (swapped i) ys)" and ?q = "sum_list (map (swapped i) qs)"
    have "counted S ! i = calls (pl S) ! i + ?r + (?x + swapped i p + ?y)"
      using I(8) i by (simp add: accounted_def thr(1) add.assoc)
    from rebalance [OF this ac [OF i]] have "counted S' ! i = calls (pl S') ! i + ?r' + (?x + ?q + ?y)" .
    then show "counted S' ! i = calls (pl S') ! i + ?r' + sum_list (map (swapped i) (pprocs S'))"
      by (simp add: thr(2) add.assoc)
  qed
  have "cnt in_cal xs + of_bool (in_cal p) + cnt in_cal ys = of_bool (calibrating (pl S) \<noteq> 0)"
    using I(3) by (cases "in_cal p"; cases "calibrating (pl S) = 0") (simp_all add: thr(1) cnt_Cons)
  with cal have "cnt in_cal (pprocs S') = of_bool (calibrating (pl S') \<noteq> 0)" unfolding thr(2) cnt_append by linarith
  moreover have "\<forall>q \<in> set (pprocs S'). ok_pc (pl S') q" using ok(1) others unfolding thr(2) by auto
  ultimately show ?thesis unfolding pool_inv_def using len st it acc by blast
qed

text \<open>The sizes of a calibration.\<close>

lemma cal_sizes_classes:
  assumes perm: "\<And>xs. mset (srt xs) = mset xs" and a: "map cs_size a = map (\<lambda>j. push_bit j minSize) [0..<steps]"
    and s: "cal_sizes srt pct a = (d, m)"
  shows "class_size d \<and> class_size m \<and> d \<le> m"
proof -
  have len: "length a = steps" using arg_cong [OF a, of length] by simp
  have cls: "class_size (cs_size c)" if "c \<in> set a" for c
  proof -
    have "cs_size c \<in> set (map cs_size a)" using that by simp
    then show ?thesis unfolding a class_size_def by auto
  qed
  have set: "set (srt a) = set a" using mset_eq_setD [OF perm] .
  have "length (srt a) = steps" using mset_eq_length [OF perm, of a] len by simp
  then have "srt a ! 0 \<in> set (srt a)" by (simp add: steps_def)
  then have d: "class_size (cs_size (srt a ! 0))" using cls set by simp
  have "\<forall>c \<in> set (srt a). class_size (cs_size c)" using cls set by simp
  from cal_loop_spec [OF d this, of "pct (sum_list (map cs_calls a))" 0] show ?thesis
    using s d by (auto simp: cal_sizes_def Let_def)
qed

section \<open>Every step keeps it\<close>

lemma pool_inv_start: "pool_inv pool_start"
  by (simp add: pool_inv_def pool_start_def newPool_def sizes_ok_def items_ok_def accounted_def)

lemma pool_inv_put:
  assumes inv: "pool_inv S" and thr: "pprocs S = xs @ PutAdd b # ys"
    and r: "pool_thread srt pct self choice (PutAdd b) S = (S', qs)"
  shows "pool_inv (S'\<lparr>pprocs := xs @ qs @ ys\<rparr>)"
proof -
  note I = pool_invD [OF inv]
  let ?k = "index (int (Len b))" and ?p = "pl S"
  have k: "?k < steps" by (auto simp: index_def steps_def Let_def)
  have wf: "wf_buffer b" using I(4) [of "PutAdd b"] thr by simp
  have S': "S' = S\<lparr>pl := ?p\<lparr>calls := (calls ?p)[?k := calls ?p ! ?k + 1]\<rparr>, counted := (counted S)[?k := counted S ! ?k + 1]\<rparr>"
      "qs = [PutCas b] \<or> qs = [PutLoad b]"
    using r by (auto simp: Let_def split: if_splits)
  have "(counted S)[?k := counted S ! ?k + 1] ! i + calls ?p ! i = counted S ! i + (calls ?p)[?k := calls ?p ! ?k + 1] ! i"
    if "i < steps" for i using that k I(1,2) by (cases "i = ?k") (simp_all add: nth_list_update)
  then show ?thesis
    using S' wf I(1,2,6,7) by (intro pool_inv_frame [OF inv thr, of _ qs]) (auto simp: cnt_Cons sizes_ok_def items_ok_def)
qed

lemma pool_inv_swap:
  assumes inv: "pool_inv S" and thr: "pprocs S = xs @ CalSwap b k acc # ys" and perm: "\<And>xs. mset (srt xs) = mset xs"
    and r: "pool_thread srt pct self choice (CalSwap b k acc) S = (S', qs)"
  shows "pool_inv (S'\<lparr>pprocs := xs @ qs @ ys\<rparr>)"
proof -
  note I = pool_invD [OF inv]
  let ?p = "pl S" and ?a = "acc @ [\<lparr>cs_calls = calls (pl S) ! k, cs_size = push_bit k minSize\<rparr>]"
  have ok: "wf_buffer b" "k < steps" "map cs_size acc = map (\<lambda>j. push_bit j minSize) [0..<k]" using I(4) [of "CalSwap b k acc"] thr by simp_all
  have len: "length acc = k" using arg_cong [OF ok(3), of length] unfolding length_map by simp
  have a: "map cs_size ?a = map (\<lambda>j. push_bit j minSize) [0..<Suc k]" using ok(3) by simp
  have acc: "swapped i (CalSwap b k acc) + calls ?p ! i = (if i < Suc k then cs_calls (?a ! i) else 0) + (calls ?p)[k := 0] ! i"
    if "i < steps" for i
    using that I(1) len by (cases i k rule: linorder_cases) (simp_all add: nth_append)
  obtain d m where dm: "cal_sizes srt pct ?a = (d, m)" by fastforce
  show ?thesis
  proof (cases "Suc k < steps")
    case True
    then have S': "S' = S\<lparr>pl := ?p\<lparr>calls := (calls ?p)[k := 0]\<rparr>\<rparr>" "qs = [CalSwap b (Suc k) ?a]" using r by (simp_all add: Let_def)
    show ?thesis
    proof (rule pool_inv_frame [OF inv thr, of _ qs])
      fix i
      assume i: "i < steps"
      show "counted (S'\<lparr>pprocs := xs @ qs @ ys\<rparr>) ! i + calls ?p ! i + swapped i (CalSwap b k acc) + sum_list (map (\<lambda>r. cs_calls (r ! i)) (reports S)) =
          counted S ! i + calls (pl (S'\<lparr>pprocs := xs @ qs @ ys\<rparr>)) ! i + sum_list (map (swapped i) qs) +
          sum_list (map (\<lambda>r. cs_calls (r ! i)) (reports (S'\<lparr>pprocs := xs @ qs @ ys\<rparr>)))"
        using acc [OF i] unfolding S' by (simp add: ac_simps)
    qed (use S' ok(1) a True I(1,2,6,7) in \<open>auto simp: cnt_Cons sizes_ok_def items_ok_def\<close>)
  next
    case False
    then have k: "Suc k = steps" using ok(2) by simp
    have S': "S' = S\<lparr>pl := ?p\<lparr>calls := (calls ?p)[k := 0]\<rparr>, reports := reports S @ [?a]\<rparr>" "qs = [CalDefault b d m]"
      using r False dm by (simp_all add: Let_def)
    show ?thesis
    proof (rule pool_inv_frame [OF inv thr, of _ qs])
      fix i
      assume i: "i < steps"
      show "counted (S'\<lparr>pprocs := xs @ qs @ ys\<rparr>) ! i + calls ?p ! i + swapped i (CalSwap b k acc) + sum_list (map (\<lambda>r. cs_calls (r ! i)) (reports S)) =
          counted S ! i + calls (pl (S'\<lparr>pprocs := xs @ qs @ ys\<rparr>)) ! i + sum_list (map (swapped i) qs) +
          sum_list (map (\<lambda>r. cs_calls (r ! i)) (reports (S'\<lparr>pprocs := xs @ qs @ ys\<rparr>)))"
        using acc [OF i] i k unfolding S' by (simp add: ac_simps)
    qed (use S' ok(1) cal_sizes_classes [OF perm a [unfolded k] dm] I(1,2,6,7) in \<open>auto simp: cnt_Cons sizes_ok_def items_ok_def\<close>)
  qed
qed

lemma pool_inv_store:
  assumes inv: "pool_inv S" and thr: "pprocs S = xs @ p # ys" and p: "p = CalDefault b d m \<or> p = CalMax b m \<or> p = CalEnd b \<or> p = PutCas b"
    and r: "pool_thread srt pct self choice p S = (S', qs)"
  shows "pool_inv (S'\<lparr>pprocs := xs @ qs @ ys\<rparr>)"
proof -
  note I = pool_invD [OF inv] and ok = pool_invD(4) [OF inv, of p]
  have held: "calibrating (pl S) \<noteq> 0" if "in_cal p"
    using that I(3) by (cases "calibrating (pl S) = 0") (simp_all add: thr cnt_Cons)
  from p show ?thesis
  proof (elim disjE)
    assume p: "p = CalDefault b d m"
    then show ?thesis using r ok thr I(1,2,6,7)
      by (intro pool_inv_frame [OF inv thr, of _ qs]) (auto simp: cnt_Cons items_ok_def)
  next
    assume p: "p = CalMax b m"
    then show ?thesis using r ok thr I(1,2,6,7)
      by (intro pool_inv_frame [OF inv thr, of _ qs]) (auto simp: cnt_Cons items_ok_def sizes_ok_def)
  next
    assume p: "p = CalEnd b"
    then show ?thesis using r ok thr I(1,2,6,7) held
      by (intro pool_inv_frame [OF inv thr, of _ qs]) (auto simp: cnt_Cons items_ok_def sizes_ok_def)
  next
    assume p: "p = PutCas b"
    then show ?thesis using r ok thr I(1,2,6,7)
      by (intro pool_inv_frame [OF inv thr, of _ qs]) (auto simp: cnt_Cons items_ok_def sizes_ok_def steps_def split: if_splits)
  qed
qed

lemma pool_inv_keep:
  assumes inv: "pool_inv S" and thr: "pprocs S = xs @ p # ys" and p: "p = PutLoad b \<or> p = PutKeep b"
    and r: "pool_thread srt pct self choice p S = (S', qs)"
  shows "pool_inv (S'\<lparr>pprocs := xs @ qs @ ys\<rparr>)"
proof -
  note I = pool_invD [OF inv] and ok = pool_invD(4) [OF inv, of p]
  from p show ?thesis
  proof (elim disjE)
    assume p: "p = PutLoad b"
    then have "S' = S" "qs = [] \<or> qs = [PutKeep b]" using r by (auto split: if_splits)
    moreover have "wf_buffer b" using p ok thr by simp
    ultimately show ?thesis
      by (intro pool_inv_frame [OF inv thr, of _ qs]) (use p I(1,2,6,7) in \<open>auto simp: cnt_Cons\<close>)
  next
    assume p: "p = PutKeep b"
    then have "S' = S\<lparr>pl := (pl S)\<lparr>pool_items := Reset b # pool_items (pl S)\<rparr>\<rparr>" "qs = []" using r by simp_all
    then show ?thesis
      by (intro pool_inv_frame [OF inv thr, of _ qs]) (use p I(1,2,6,7) in \<open>simp_all add: items_ok_def sizes_ok_def\<close>)
  qed
qed

lemma pool_inv_get:
  assumes inv: "pool_inv S" and thr: "pprocs S = xs @ GetItem # ys"
    and r: "pool_thread srt pct self choice GetItem S = (S', qs)"
  shows "pool_inv (S'\<lparr>pprocs := xs @ qs @ ys\<rparr>)"
proof (cases "\<exists>i. choice = Some i \<and> i < length (pool_items (pl S))")
  case True
  note I = pool_invD [OF inv]
  let ?items = "pool_items (pl S)"
  obtain i where i: "choice = Some i" "i < length ?items" using True by blast
  then have S': "S' = S\<lparr>pl := (pl S)\<lparr>pool_items := take i ?items @ drop (Suc i) ?items\<rparr>, handed := handed S @ [?items ! i]\<rparr>" "qs = []"
    using r by (simp_all add: Let_def)
  have "set (take i ?items @ drop (Suc i) ?items) \<subseteq> set ?items" by (auto dest: in_set_takeD in_set_dropD)
  then have left: "items_ok (pl S')" using I(6) unfolding S' items_ok_def by auto
  have "?items ! i \<in> set ?items" using i(2) by simp
  then have "wf_buffer (?items ! i) \<and> Bytes (?items ! i) = []" using I(6) unfolding items_ok_def by blast
  then show ?thesis
    by (intro pool_inv_frame [OF inv thr, of _ qs]) (use S' left I(1,2,7) in \<open>simp_all add: sizes_ok_def\<close>)
next
  case False
  then have "S' = S" "qs = [GetLoad]" using r by (auto simp: Let_def split: option.splits)
  then show ?thesis
    by (intro pool_inv_frame [OF inv thr, of _ qs]) (use pool_invD(1,2,6,7) [OF inv] in \<open>simp_all add: cnt_Cons\<close>)
qed

lemma pool_inv_load:
  assumes inv: "pool_inv S" and thr: "pprocs S = xs @ GetLoad # ys"
    and r: "pool_thread srt pct self choice GetLoad S = (S', qs)"
  shows "pool_inv (S'\<lparr>pprocs := xs @ qs @ ys\<rparr>)"
  by (intro pool_inv_frame [OF inv thr, of _ qs])
    (use r pool_invD(1,2,6,7) [OF inv] in \<open>auto simp: wf_buffer_def wf_slice_def Bytes_def sbytes_def\<close>)

lemma pool_inv_spawn:
  assumes inv: "pool_inv S" and p: "p = PutAdd b \<and> wf_buffer b \<or> p = GetItem"
  shows "pool_inv (S\<lparr>pprocs := pprocs S @ [p]\<rparr>)"
proof -
  have q: "\<not> in_cal p" "\<not> storing p" "ok_pc (pl S) p" "swapped i p = 0" for i using p by auto
  show ?thesis using inv q by (auto simp: pool_inv_def accounted_def cnt_Cons)
qed

lemma pool_reach_inv:
  assumes "pool_reach srt pct self S" and perm: "\<And>xs. mset (srt xs) = mset xs"
  shows "pool_inv S"
  using assms(1)
proof (induction rule: pool_reach.induct)
  case (pr_step S S')
  from pr_step.hyps(2) show ?case
  proof (cases rule: pool_step.cases)
    case (p_run xs p ys choice S1 qs)
    show ?thesis unfolding p_run(1)
    proof (cases p)
      case (PutAdd b)
      then show "pool_inv (S1\<lparr>pprocs := xs @ qs @ ys\<rparr>)" using pool_inv_put [OF pr_step.IH] p_run by blast
    next
      case (CalSwap b i a)
      then show "pool_inv (S1\<lparr>pprocs := xs @ qs @ ys\<rparr>)" using pool_inv_swap [OF pr_step.IH _ perm] p_run by blast
    qed (use pool_inv_store [OF pr_step.IH p_run(2) _ p_run(3)] pool_inv_keep [OF pr_step.IH p_run(2) _ p_run(3)]
        pool_inv_get [OF pr_step.IH] pool_inv_load [OF pr_step.IH] p_run in blast)+
  qed (use pool_inv_spawn [OF pr_step.IH] in auto)
qed (rule pool_inv_start)

section \<open>Properties\<close>

text \<open>No goroutine waits for another: every operation of the pool ends after a bounded number of its own steps.\<close>

fun pool_rank :: "pool_pc \<Rightarrow> nat" where
  "pool_rank (PutAdd b) = steps + 8"
| "pool_rank (PutCas b) = steps + 7"
| "pool_rank (CalSwap b i a) = 6 + (steps - i)"
| "pool_rank (CalDefault b d m) = 5"
| "pool_rank (CalMax b m) = 4"
| "pool_rank (CalEnd b) = 3"
| "pool_rank (PutLoad b) = 2"
| "pool_rank (PutKeep b) = 1"
| "pool_rank GetItem = 2"
| "pool_rank GetLoad = 1"

lemma pool_wait_free:
  assumes "pool_thread srt pct self choice p S = (S', qs)"
  shows "sum_list (map pool_rank qs) < pool_rank p"
  using assms by (cases p) (auto simp: Let_def split: if_splits option.splits prod.splits)

text \<open>C25. However the goroutines that use a pool interleave: at most one of them calibrates; while none does, the pool is well formed, with
  sizes that one and the same calibration has stored; \<open>Get\<close> returns empty buffers only; and no call of \<open>Put\<close> is lost or counted twice: in
  every size class the calls made are those in the counter, those that a running calibration has swapped out, and those in exactly one of
  the lists that finished calibrations have evaluated.\<close>

theorem pool_interleaved:
  assumes "pool_reach srt pct self S" and "\<And>xs. mset (srt xs) = mset xs"
  shows "cnt in_cal (pprocs S) \<le> 1 \<and> (calibrating (pl S) = 0 \<longrightarrow> wf_pool (pl S)) \<and>
    (\<forall>b \<in> set (handed S). wf_buffer b \<and> Bytes b = []) \<and>
    (\<forall>i < steps. counted S ! i =
       calls (pl S) ! i + sum_list (map (\<lambda>r. cs_calls (r ! i)) (reports S)) + sum_list (map (swapped i) (pprocs S)))"
proof -
  note I = pool_invD [OF pool_reach_inv [OF assms]]
  have "wf_pool (pl S)" if c: "calibrating (pl S) = 0"
  proof -
    have "cnt in_cal (pprocs S) = 0" using I(3) c by simp
    then have "cnt storing (pprocs S) = 0" using storing_in_cal by (auto simp: cnt_eq_0)
    then show ?thesis using I(1,5,6) c by (simp add: wf_pool_def sizes_ok_def items_ok_def)
  qed
  moreover have "cnt in_cal (pprocs S) \<le> 1" using I(3) by simp
  ultimately show ?thesis using I(7,8) unfolding accounted_def by blast
qed

text \<open>A buffer of two bytes on its way into the pool: it is counted in the first class.\<close>

definition two_bytes :: buffer where
  "two_bytes = \<lparr>bs = \<lparr>sarr = [1, 2], slen = 2\<rparr>, bpool = None\<rparr>"

theorem pool_interleaved_witness:
  "\<exists>S. pool_reach (sort_key (\<lambda>c. - cs_calls c)) (\<lambda>s. s) 0 S \<and> pprocs S = [PutLoad two_bytes] \<and> counted S ! 0 = 1 \<and>
     counted S ! 0 = calls (pl S) ! 0 + sum_list (map (\<lambda>r. cs_calls (r ! 0)) (reports S)) + sum_list (map (swapped 0) (pprocs S))"
proof -
  let ?srt = "sort_key (\<lambda>c. - cs_calls c)" and ?pct = "\<lambda>s. s :: uint64"
  let ?S = "pool_start\<lparr>pprocs := pprocs pool_start @ [PutAdd two_bytes]\<rparr>"
  have wf: "wf_buffer two_bytes" by (simp add: two_bytes_def wf_buffer_def wf_slice_def)
  have r: "pool_reach ?srt ?pct 0 ?S" by (rule pr_step [OF pr_start p_put [OF wf]])
  have idx: "index (int (Len two_bytes)) = 0" by (simp add: two_bytes_def Len_def index_def minBitSize_def steps_def index_loop.simps)
  obtain S1 qs where t: "pool_thread ?srt ?pct 0 None (PutAdd two_bytes) ?S = (S1, qs)" by fastforce
  then have f: "qs = [PutLoad two_bytes]" "counted S1 = (replicate steps 0)[0 := 1]"
    by (auto simp: Let_def idx pool_start_def newPool_def steps_def calibrateCallsThreshold_def)
  have reach: "pool_reach ?srt ?pct 0 (S1\<lparr>pprocs := [] @ qs @ []\<rparr>)"
    by (rule pr_step [OF r p_run [OF _ t]]) (simp add: pool_start_def)
  let ?T = "S1\<lparr>pprocs := [] @ qs @ []\<rparr>"
  have perm: "mset (?srt xs) = mset xs" for xs by simp
  have steps: "(0::nat) < steps" by (simp add: steps_def)
  note eq = conjunct2 [OF conjunct2 [OF conjunct2 [OF pool_interleaved [OF reach perm]]], rule_format, OF steps]
  have "pprocs ?T = [PutLoad two_bytes] \<and> counted ?T ! 0 = 1" using f by (simp add: steps_def)
  with reach eq show ?thesis by blast
qed

end
