(* ===== verification/Reflection.thy ===== *)
theory Reflection
  imports KendyPrelude
begin

text \<open>
  Calls by reflection, \<open>Call\<close> and \<open>ProtectCall\<close> of \<open>src/util/util.go\<close>, the arguments that \<open>pcall2\<close> of \<open>src/event/eventHandler.go\<close>
  passes, and the function wrappers of \<open>src/util/hook.go\<close>. Of package \<open>reflect\<close> the model has the parts these use: the signature of a
  function value, \<open>Call\<close>, \<open>CallSlice\<close>, \<open>MakeFunc\<close> and \<open>Zero\<close> with the checks that make them panic. A function acts on a state, so that
  the order of effects can be stated; which types are assignable to which is the parameter \<open>asg\<close>.
\<close>

section \<open>Definitions: package reflect\<close>

datatype ty = TNamed string | TSlice ty

fun Elem :: "ty \<Rightarrow> ty" where
  "Elem (TSlice t) = t"
| "Elem (TNamed n) = TNamed n"

text \<open>A \<open>reflect.Value\<close>: the zero value of a type, a value with its dynamic type, a slice.\<close>

datatype 'v gval = Zero ty | Base ty 'v | SliceOf ty "'v gval list"

fun TypeOf :: "'v gval \<Rightarrow> ty" where
  "TypeOf (Zero t) = t"
| "TypeOf (Base t v) = t"
| "TypeOf (SliceOf t vs) = TSlice t"

type_synonym ('s, 'a) eff = "'s \<Rightarrow> 's \<times> 'a go"

record ('s, 'v) func =
  ins :: "ty list"
  variadic :: bool
  outs :: "ty list"
  body :: "'v gval list \<Rightarrow> ('s, 'v gval list) eff"

definition reflect_panic :: "('s, 'a) eff" where
  "reflect_panic s = (s, Panic (UserPanic ''reflect''))"

text \<open>\<open>Value.Call\<close> makes the slice of a variadic function itself; \<open>Value.CallSlice\<close> takes it as the last argument.\<close>

definition Value_Call :: "(ty \<Rightarrow> ty \<Rightarrow> bool) \<Rightarrow> ('s, 'v) func \<Rightarrow> 'v gval list \<Rightarrow> ('s, 'v gval list) eff" where
  "Value_Call asg f xs =
     (let n = length (ins f) in
      if variadic f then
        (if length xs < n - 1 \<or> \<not> list_all2 asg (map TypeOf (take (n - 1) xs)) (take (n - 1) (ins f)) \<or>
            \<not> list_all (\<lambda>x. asg (TypeOf x) (Elem (last (ins f)))) (drop (n - 1) xs)
         then reflect_panic else body f (take (n - 1) xs @ [SliceOf (Elem (last (ins f))) (drop (n - 1) xs)]))
      else if list_all2 asg (map TypeOf xs) (ins f) then body f xs else reflect_panic)"

definition Value_CallSlice :: "(ty \<Rightarrow> ty \<Rightarrow> bool) \<Rightarrow> ('s, 'v) func \<Rightarrow> 'v gval list \<Rightarrow> ('s, 'v gval list) eff" where
  "Value_CallSlice asg f xs =
     (if variadic f \<and> list_all2 asg (map TypeOf xs) (ins f) then body f xs else reflect_panic)"

text \<open>\<open>MakeFunc\<close>: a function of the same type whose results are checked.\<close>

definition MakeFunc :: "(ty \<Rightarrow> ty \<Rightarrow> bool) \<Rightarrow> ('s, 'v) func \<Rightarrow> ('v gval list \<Rightarrow> ('s, 'v gval list) eff) \<Rightarrow> ('s, 'v) func" where
  "MakeFunc asg f b = f\<lparr>body := (\<lambda>xs s. case b xs s of
     (s', Ret ys) \<Rightarrow> if list_all2 asg (map TypeOf ys) (outs f) then (s', Ret ys) else reflect_panic s'
   | (s', Panic p) \<Rightarrow> (s', Panic p))\<rparr>"

section \<open>Definitions: Call and ProtectCall\<close>

text \<open>A function value, or something that is none (\<open>None\<close>); an argument that is nil is \<open>None\<close>.\<close>

definition Call :: "(ty \<Rightarrow> ty \<Rightarrow> bool) \<Rightarrow> ('s, 'v) func option \<Rightarrow> 'v gval option list \<Rightarrow> ('s, 'v gval list) eff" where
  "Call asg fn args s =
     (case fn of
        None \<Rightarrow> reflect_panic s
      | Some f \<Rightarrow>
          (let numIn = length (ins f) in
           if numIn = 0 then Value_Call asg f [] s
           else
             (let argumentIn = (if variadic f then numIn - 1 else numIn) in
              if length args < argumentIn then (s, Panic (UserPanic ''with too few input arguments''))
              else
                (let xs = map (\<lambda>i. case args ! i of None \<Rightarrow> Zero (ins f ! i) | Some v \<Rightarrow> v) [0..<argumentIn] in
                 if variadic f then
                   (let el = Elem (ins f ! (numIn - 1));
                        sl = map (\<lambda>x. case x of None \<Rightarrow> Zero el | Some v \<Rightarrow> v) (drop argumentIn args)
                    in if list_all (\<lambda>x. case x of None \<Rightarrow> True | Some v \<Rightarrow> asg (TypeOf v) el) (drop argumentIn args)
                       then Value_CallSlice asg f (xs @ [SliceOf el sl]) s
                       else reflect_panic s)
                 else Value_Call asg f xs s))))"

definition ProtectCall :: "(ty \<Rightarrow> ty \<Rightarrow> bool) \<Rightarrow> ('s, 'v) func option \<Rightarrow> 'v gval option list \<Rightarrow> 's \<Rightarrow> 's \<times> 'v gval list \<times> panic option" where
  "ProtectCall asg fn args s =
     (case Call asg fn args s of (s', Ret ys) \<Rightarrow> (s', ys, None) | (s', Panic p) \<Rightarrow> (s', [], Some p))"

text \<open>The arguments of \<open>pcall2\<close>: a handler whose first parameter is a handle is given its own.\<close>

definition pcall2_args :: "ty \<Rightarrow> 'v gval \<Rightarrow> ('s, 'v) func \<Rightarrow> 'v gval option list \<Rightarrow> 'v gval option list" where
  "pcall2_args handle_ty h f args = (if length (ins f) > 0 \<and> ins f ! 0 = handle_ty then Some h # args else args)"

text \<open>\<open>pcall2\<close> logs the error of the protected call, the second result, and goes on.\<close>

definition pcall2 :: "(ty \<Rightarrow> ty \<Rightarrow> bool) \<Rightarrow> ty \<Rightarrow> 'v gval \<Rightarrow> ('s, 'v) func \<Rightarrow> 'v gval option list \<Rightarrow> 's \<Rightarrow> 's \<times> panic option" where
  "pcall2 asg handle_ty h f args s =
     (let (s', ys, err) = ProtectCall asg (Some f) (pcall2_args handle_ty h f args) s in (s', err))"

section \<open>Definitions: hooks\<close>

text \<open>\<open>fn.Call\<close> or \<open>fn.CallSlice\<close>, as the hooked function is variadic.\<close>

definition call_as :: "(ty \<Rightarrow> ty \<Rightarrow> bool) \<Rightarrow> ('s, 'v) func \<Rightarrow> ('s, 'v) func \<Rightarrow> 'v gval list \<Rightarrow> ('s, 'v gval list) eff" where
  "call_as asg hooked f xs = (if variadic hooked then Value_CallSlice asg f xs else Value_Call asg f xs)"

text \<open>A deferred call: it runs whether the function returns or panics; a panic of its own replaces the other.\<close>

definition deferred :: "('s \<Rightarrow> 's \<times> unit go) option \<Rightarrow> ('s, 'a) eff \<Rightarrow> ('s, 'a) eff" where
  "deferred after m s =
     (case after of
        None \<Rightarrow> m s
      | Some a \<Rightarrow> (let (s1, r) = m s in case a s1 of (s2, Ret u) \<Rightarrow> (s2, r) | (s2, Panic p) \<Rightarrow> (s2, Panic p)))"

text \<open>The results of a call that \<open>before\<close> has refused: those it gives, and for a missing or nil one the zero value of the
  parameter at the same place.\<close>

definition refused :: "('s, 'v) func \<Rightarrow> 'v gval option list \<Rightarrow> 'v gval list go" where
  "refused f ret =
     (if \<exists>i < length (outs f). (i \<ge> length ret \<or> ret ! i = None) \<and> i \<ge> length (ins f)
      then Panic (UserPanic ''reflect'')
      else Ret (map (\<lambda>i. if i \<ge> length ret then Zero (ins f ! i)
                         else (case ret ! i of None \<Rightarrow> Zero (ins f ! i) | Some v \<Rightarrow> v)) [0..<length (outs f)]))"

definition Hook1 :: "(ty \<Rightarrow> ty \<Rightarrow> bool) \<Rightarrow> ('s, 'v) func \<Rightarrow> ('s, bool \<times> 'v gval option list) eff option \<Rightarrow> ('s \<Rightarrow> 's \<times> unit go) option \<Rightarrow>
    ('s, 'v) func" where
  "Hook1 asg f before after = MakeFunc asg f (\<lambda>xs s.
     case before of
       None \<Rightarrow> deferred after (call_as asg f f xs) s
     | Some b \<Rightarrow>
         (case b s of
            (s1, Panic p) \<Rightarrow> (s1, Panic p)
          | (s1, Ret (ok, ret)) \<Rightarrow> if \<not> ok then (s1, refused f ret) else deferred after (call_as asg f f xs) s1))"

text \<open>A call of \<open>before\<close> or \<open>after\<close> in \<open>Hook2\<close>, whose results are dropped.\<close>

definition hook_call :: "(ty \<Rightarrow> ty \<Rightarrow> bool) \<Rightarrow> ('s, 'v) func \<Rightarrow> 'v gval list \<Rightarrow> ('s, 'v) func \<Rightarrow> 's \<Rightarrow> 's \<times> unit go" where
  "hook_call asg f xs h s =
     (let (s', r) = (if length (ins h) = 0 then Value_Call asg h [] s else call_as asg f h xs s) in (s', map_ret (\<lambda>ys. ()) r))"

definition Hook2 :: "(ty \<Rightarrow> ty \<Rightarrow> bool) \<Rightarrow> ('s, 'v) func \<Rightarrow> ('s, 'v) func option \<Rightarrow> ('s, 'v) func option \<Rightarrow> ('s, 'v) func" where
  "Hook2 asg f before after = MakeFunc asg f (\<lambda>xs s.
     case (case before of None \<Rightarrow> (s, Ret ()) | Some b \<Rightarrow> hook_call asg f xs b s) of
       (s1, Panic p) \<Rightarrow> (s1, Panic p)
     | (s1, Ret u) \<Rightarrow> deferred (map_option (hook_call asg f xs) after) (call_as asg f f xs) s1)"

definition bind_eff :: "('s, 'a) eff \<Rightarrow> ('a \<Rightarrow> ('s, 'b) eff) \<Rightarrow> ('s, 'b) eff" where
  "bind_eff m k s = (case m s of (s', Ret x) \<Rightarrow> k x s' | (s', Panic p) \<Rightarrow> (s', Panic p))"

text \<open>\<open>Hook3\<close>: the variable \<open>out\<close> is empty when there is no \<open>before\<close>.\<close>

definition Hook3 :: "(ty \<Rightarrow> ty \<Rightarrow> bool) \<Rightarrow> ('s, 'v) func \<Rightarrow> ('s, 'v) func option \<Rightarrow> ('s, 'v) func option \<Rightarrow> ('s, 'v) func" where
  "Hook3 asg f before after = MakeFunc asg f (\<lambda>xs.
     bind_eff (case before of None \<Rightarrow> (\<lambda>s. (s, Ret [])) | Some b \<Rightarrow> call_as asg f b xs) (\<lambda>out.
       bind_eff (call_as asg f f out) (\<lambda>out.
         case after of None \<Rightarrow> (\<lambda>s. (s, Ret out)) | Some a \<Rightarrow> call_as asg f a out)))"

section \<open>What a protected call does\<close>

text \<open>A function type: the last parameter of a variadic function is a slice.\<close>

definition wf_func :: "('s, 'v) func \<Rightarrow> bool" where
  "wf_func f \<longleftrightarrow> (variadic f \<longrightarrow> ins f \<noteq> [] \<and> last (ins f) = TSlice (Elem (last (ins f))))"

definition fixed :: "('s, 'v) func \<Rightarrow> nat" where
  "fixed f = (if variadic f then length (ins f) - 1 else length (ins f))"

definition or_zero :: "ty \<Rightarrow> 'v gval option \<Rightarrow> 'v gval" where
  "or_zero t a = (case a of None \<Rightarrow> Zero t | Some v \<Rightarrow> v)"

text \<open>The arguments as the function receives them, and when they are accepted: enough of them, each nil or of a type that is assignable;
  more than enough are dropped unless the function is variadic.\<close>

definition given :: "('s, 'v) func \<Rightarrow> 'v gval option list \<Rightarrow> 'v gval list" where
  "given f args =
     map2 or_zero (take (fixed f) (ins f)) (take (fixed f) args) @
     (if variadic f then [SliceOf (Elem (last (ins f))) (map (or_zero (Elem (last (ins f)))) (drop (fixed f) args))] else [])"

definition accepted_args :: "(ty \<Rightarrow> ty \<Rightarrow> bool) \<Rightarrow> ('s, 'v) func \<Rightarrow> 'v gval option list \<Rightarrow> bool" where
  "accepted_args asg f args \<longleftrightarrow>
     fixed f \<le> length args \<and>
     (\<forall>i < fixed f. \<forall>v. args ! i = Some v \<longrightarrow> asg (TypeOf v) (ins f ! i)) \<and>
     (variadic f \<longrightarrow> (\<forall>v. Some v \<in> set (drop (fixed f) args) \<longrightarrow> asg (TypeOf v) (Elem (last (ins f)))))"

lemma indexed_args:
  assumes "k \<le> length (ins f)" and "k \<le> length args"
  shows "map (\<lambda>i. case args ! i of None \<Rightarrow> Zero (ins f ! i) | Some v \<Rightarrow> v) [0..<k] = map2 or_zero (take k (ins f)) (take k args)"
  using assms by (intro nth_equalityI) (simp_all add: or_zero_def split: option.split)

lemma zero_fill: "case_option (Zero t) (\<lambda>v. v) = or_zero t"
  by (simp add: or_zero_def fun_eq_iff)

lemma assignable_fixed:
  assumes refl: "\<And>t. asg t t" and k: "k \<le> length (ins f)" "k \<le> length args"
  shows "list_all2 asg (map TypeOf (map2 or_zero (take k (ins f)) (take k args))) (take k (ins f)) \<longleftrightarrow>
    (\<forall>i < k. \<forall>v. args ! i = Some v \<longrightarrow> asg (TypeOf v) (ins f ! i))"
proof -
  have "list_all2 asg (map TypeOf (map2 or_zero (take k (ins f)) (take k args))) (take k (ins f)) \<longleftrightarrow>
      (\<forall>i < k. asg (TypeOf (or_zero (ins f ! i) (args ! i))) (ins f ! i))"
    using k by (auto simp: list_all2_conv_all_nth)
  moreover have z: "asg (TypeOf (or_zero t a)) t \<longleftrightarrow> (\<forall>v. a = Some v \<longrightarrow> asg (TypeOf v) t)" for t a
    using refl by (cases a) (simp_all add: or_zero_def)
  ultimately show ?thesis unfolding z by blast
qed

lemma Call_fixed:
  assumes refl: "\<And>t. asg t t" and f: "\<not> variadic f"
  shows "if accepted_args asg f args then Call asg (Some f) args s = body f (given f args) s
         else \<exists>p. Call asg (Some f) args s = (s, Panic p)"
proof (cases "fixed f \<le> length args")
  case True
  let ?xs = "map2 or_zero (ins f) (take (length (ins f)) args)"
  have n: "length (ins f) \<le> length args" "fixed f = length (ins f)" using True f by (simp_all add: fixed_def)
  have "Call asg (Some f) args s = (if list_all2 asg (map TypeOf ?xs) (ins f) then body f ?xs s else reflect_panic s)"
    using n(1) f indexed_args [of "length (ins f)" f args] by (simp add: Call_def Value_Call_def Let_def)
  moreover have "list_all2 asg (map TypeOf ?xs) (ins f) \<longleftrightarrow> accepted_args asg f args"
    using assignable_fixed [where asg = asg and k = "length (ins f)" and f = f and args = args, OF refl] n f
    by (simp add: accepted_args_def)
  moreover have "given f args = ?xs" using n(2) f by (simp add: given_def)
  ultimately show ?thesis by (simp add: reflect_panic_def)
next
  case False
  then show ?thesis using f by (auto simp: accepted_args_def fixed_def Call_def Let_def)
qed

text \<open>The slice that \<open>Call\<close> makes for a variadic function always fits_types, so only the other arguments decide.\<close>

lemma CallSlice_made:
  assumes refl: "\<And>t. asg t t" and f: "variadic f" "ins f = ts @ [TSlice el]" and len: "length xs = length ts"
  shows "Value_CallSlice asg f (xs @ [SliceOf el ys]) s =
    (if list_all2 asg (map TypeOf xs) ts then body f (xs @ [SliceOf el ys]) s else reflect_panic s)"
  using f len refl [of "TSlice el"] by (simp add: Value_CallSlice_def list_all2_append)

lemma Call_variadic:
  assumes refl: "\<And>t. asg t t" and f: "variadic f" "ins f = ts @ [TSlice el]"
  shows "if accepted_args asg f args then Call asg (Some f) args s = body f (given f args) s
         else \<exists>p. Call asg (Some f) args s = (s, Panic p)"
proof (cases "length ts \<le> length args")
  case True
  let ?k = "length ts"
  let ?xs = "map2 or_zero ts (take ?k args)" and ?sl = "map (or_zero el) (drop ?k args)"
  let ?fits_types = "list_all2 asg (map TypeOf ?xs) ts"
  let ?tail = "list_all (\<lambda>x. case x of None \<Rightarrow> True | Some v \<Rightarrow> asg (TypeOf v) el) (drop ?k args)"
  have fx: "fixed f = ?k" and el: "Elem (last (ins f)) = el" "ins f ! ?k = TSlice el" using f by (simp_all add: fixed_def)
  have xs: "map (\<lambda>i. case args ! i of None \<Rightarrow> Zero (ins f ! i) | Some v \<Rightarrow> v) [0..<?k] = ?xs"
    using indexed_args [of ?k f args] True f(2) by simp
  have call: "Call asg (Some f) args s = (if ?tail \<and> ?fits_types then body f (?xs @ [SliceOf el ?sl]) s else reflect_panic s)"
    using CallSlice_made [where asg = asg and xs = ?xs and ys = ?sl and s = s, OF refl f] xs f True
    by (simp add: Call_def Let_def zero_fill)
  have fits_types: "?fits_types \<longleftrightarrow> (\<forall>i < ?k. \<forall>v. args ! i = Some v \<longrightarrow> asg (TypeOf v) (ins f ! i))"
    using assignable_fixed [where asg = asg and k = ?k and f = f and args = args, OF refl] True f(2) by simp
  have tail: "?tail \<longleftrightarrow> (\<forall>v. Some v \<in> set (drop ?k args) \<longrightarrow> asg (TypeOf v) el)"
    by (auto simp: list_all_iff split: option.splits)
  have acc: "accepted_args asg f args \<longleftrightarrow> ?tail \<and> ?fits_types"
    unfolding accepted_args_def fx el fits_types tail using True f(1) by simp blast
  have giv: "given f args = ?xs @ [SliceOf el ?sl]" unfolding given_def fx el using f by simp
  show ?thesis unfolding acc giv call by (simp add: reflect_panic_def)
next
  case False
  then show ?thesis using f by (simp add: accepted_args_def fixed_def Call_def Let_def)
qed

lemma Call_cases:
  assumes refl: "\<And>t. asg t t" and f: "wf_func f"
  shows "if accepted_args asg f args then Call asg (Some f) args s = body f (given f args) s
         else \<exists>p. Call asg (Some f) args s = (s, Panic p)"
proof (cases "variadic f")
  case True
  then have "ins f = butlast (ins f) @ [TSlice (Elem (last (ins f)))]" using f by (simp add: wf_func_def)
  then show ?thesis using Call_variadic [where asg = asg, OF refl True] by blast
next
  case False
  then show ?thesis by (rule Call_fixed [where asg = asg, OF refl])
qed

text \<open>C40. A protected call never panics: when the arguments are accepted it runs the function exactly once, on the arguments with
  zero values for the nil ones and the surplus collected into the slice of a variadic function, and returns its results, or the panic of
  the function as an error; with too few arguments or one of the wrong type the function is not run at all and an error is returned.\<close>

theorem protect_call:
  assumes "\<And>t. asg t t" and "wf_func f"
  shows "if accepted_args asg f args
         then ProtectCall asg (Some f) args s =
           (case body f (given f args) s of (s', Ret ys) \<Rightarrow> (s', ys, None) | (s', Panic p) \<Rightarrow> (s', [], Some p))
         else \<exists>p. ProtectCall asg (Some f) args s = (s, [], Some p)"
  using Call_cases [where asg = asg, OF assms, of args s] by (auto simp: ProtectCall_def split: if_splits)

text \<open>A handler whose first parameter is a handle gets its own there, followed by the arguments of the event.\<close>

lemma pcall2_handle:
  assumes refl: "\<And>t. asg t t" and f: "\<not> variadic f" "ins f = handle_ty # ts"
    and h: "TypeOf h = handle_ty" and args: "length args = length ts" "list_all2 (\<lambda>a t. \<forall>v. a = Some v \<longrightarrow> asg (TypeOf v) t) args ts"
    and run: "body f (h # map2 or_zero ts args) s = (s', Ret ys)"
  shows "pcall2 asg handle_ty h f args s = (s', None)"
proof -
  have "accepted_args asg f (Some h # args)"
    using f h args refl [of handle_ty] by (auto simp: accepted_args_def fixed_def nth_Cons' list_all2_conv_all_nth)
  moreover have "given f (Some h # args) = h # map2 or_zero ts args" using f args(1) by (simp add: given_def fixed_def or_zero_def)
  moreover have "wf_func f" using f(1) by (simp add: wf_func_def)
  ultimately have "Call asg (Some f) (Some h # args) s = (s', Ret ys)"
    using Call_cases [where asg = asg and f = f and args = "Some h # args" and s = s, OF refl] run by simp
  then show ?thesis using f by (simp add: pcall2_def pcall2_args_def ProtectCall_def)
qed

text \<open>A variadic function that counts its calls, with a nil for its first parameter.\<close>

definition counting :: "(nat, int) func" where
  "counting = \<lparr>ins = [TNamed ''string'', TSlice (TNamed ''int'')], variadic = True, outs = [TNamed ''int''],
     body = (\<lambda>xs n. (n + 1, case xs of [_, SliceOf t ys] \<Rightarrow> Ret [Base (TNamed ''int'') (int (length ys))] | _ \<Rightarrow> Ret []))\<rparr>"

theorem protect_call_witness:
  "ProtectCall (=) (Some counting) [None, Some (Base (TNamed ''int'') 7), None] 0 = (1, [Base (TNamed ''int'') 2], None) \<and>
   (\<exists>p. ProtectCall (=) (Some counting) [Some (Base (TNamed ''int'') 7)] 0 = (0, [], Some p))"
proof -
  let ?a = "[None, Some (Base (TNamed ''int'') 7), None]" and ?b = "[Some (Base (TNamed ''int'') 7)]"
  have wf: "wf_func counting" by (simp add: counting_def wf_func_def)
  have a: "accepted_args (=) counting ?a" by (simp add: counting_def accepted_args_def fixed_def)
  have g: "body counting (given counting ?a) 0 = (1, Ret [Base (TNamed ''int'') 2])"
    by (simp add: counting_def given_def fixed_def or_zero_def)
  have b: "\<not> accepted_args (=) counting ?b" by (auto simp: counting_def accepted_args_def fixed_def)
  show ?thesis
    using protect_call [of "(=)", OF refl wf, of ?a 0] protect_call [of "(=)", OF refl wf, of ?b 0] unfolding g if_P [OF a] if_not_P [OF b]
    by simp
qed

section \<open>What the hooks do\<close>

definition fits_types :: "(ty \<Rightarrow> ty \<Rightarrow> bool) \<Rightarrow> 'v gval list \<Rightarrow> ty list \<Rightarrow> bool" where
  "fits_types asg xs ts \<longleftrightarrow> list_all2 asg (map TypeOf xs) ts"

text \<open>A function that respects its result type.\<close>

definition typed :: "(ty \<Rightarrow> ty \<Rightarrow> bool) \<Rightarrow> ('s, 'v) func \<Rightarrow> bool" where
  "typed asg f \<longleftrightarrow> (\<forall>xs s s' ys. body f xs s = (s', Ret ys) \<longrightarrow> fits_types asg ys (outs f))"

text \<open>A function that may serve as \<open>before\<close> or \<open>after\<close>: it has the parameters of the hooked function, or none.\<close>

definition hookable :: "('s, 'v) func \<Rightarrow> ('s, 'v) func \<Rightarrow> bool" where
  "hookable f h \<longleftrightarrow> (ins h = ins f \<and> variadic h = variadic f) \<or> (ins h = [] \<and> \<not> variadic h)"

definition hook_args :: "('s, 'v) func \<Rightarrow> 'v gval list \<Rightarrow> 'v gval list" where
  "hook_args h xs = (if ins h = [] then [] else xs)"

lemma call_as_fits:
  assumes "fits_types asg xs (ins g)" and "variadic g = variadic f"
  shows "call_as asg f g xs = body g xs"
  using assms by (simp add: call_as_def Value_Call_def Value_CallSlice_def fits_types_def fun_eq_iff)

lemma hook_call_fits:
  assumes "fits_types asg xs (ins f)" and "wf_func f" and "hookable f h" and "body h (hook_args h xs) s = (s', Ret ys)"
  shows "hook_call asg f xs h s = (s', Ret ())"
proof (cases "ins h = []")
  case True
  then show ?thesis using assms(2-4) by (auto simp: hook_call_def Value_Call_def hook_args_def hookable_def wf_func_def)
next
  case False
  then show ?thesis using assms call_as_fits [of asg xs h f] by (auto simp: hook_call_def hook_args_def hookable_def)
qed

text \<open>\<open>Hook2\<close> runs \<open>before\<close>, then the function on the same arguments, then \<open>after\<close>, each once and in this order, and gives
  the results of the function; \<open>after\<close> runs also when the function panics, and the panic goes on.\<close>

theorem hook2_order:
  assumes "typed asg f" "wf_func f" "fits_types asg xs (ins f)" "hookable f b" "hookable f a"
    and "body b (hook_args b xs) s = (s1, Ret ys)"
    and "body f xs s1 = (s2, r)"
    and "body a (hook_args a xs) s2 = (s3, Ret zs)"
  shows "body (Hook2 asg f (Some b) (Some a)) xs s = (s3, r)"
  using assms hook_call_fits [of asg xs f b s s1 ys] hook_call_fits [of asg xs f a s2 s3 zs] call_as_fits [of asg xs f f]
  by (auto simp: Hook2_def MakeFunc_def deferred_def typed_def fits_types_def split: go.split)

text \<open>A function that doubles its argument, or panics on 0, with hooks that write to a trace; \<open>before\<close> takes the argument,
  \<open>after\<close> none.\<close>

definition int_ty :: ty where
  "int_ty = TNamed ''int''"

definition doubling :: "(string list, int) func" where
  "doubling = \<lparr>ins = [int_ty], variadic = False, outs = [int_ty],
     body = (\<lambda>xs tr. (tr @ [''fn''], case xs of [Base t n] \<Rightarrow> (if n = 0 then Panic NilDeref else Ret [Base int_ty (2 * n)])
                                     | _ \<Rightarrow> Ret [Zero int_ty]))\<rparr>"

definition tracing :: "string \<Rightarrow> ty list \<Rightarrow> (string list, int) func" where
  "tracing w ts = \<lparr>ins = ts, variadic = False, outs = [], body = (\<lambda>xs tr. (tr @ [w], Ret []))\<rparr>"

theorem hook2_order_witness:
  "body (Hook2 (=) doubling (Some (tracing ''before'' [int_ty])) (Some (tracing ''after'' []))) [Base int_ty 0] [] =
     ([''before'', ''fn'', ''after''], Panic NilDeref)"
  by (rule hook2_order [where ys = "[]" and zs = "[]" and ?s1.0 = "[''before'']" and ?s2.0 = "[''before'', ''fn'']"])
    (auto simp: doubling_def tracing_def typed_def wf_func_def fits_types_def hookable_def hook_args_def
      split: list.splits gval.splits if_splits)

text \<open>\<open>Hook1\<close>: when \<open>before\<close> refuses with all the results, they are the results and neither the function nor \<open>after\<close> runs.\<close>

lemma hook1_refused:
  assumes "b s = (s1, Ret (False, map Some ys))" and "fits_types asg ys (outs f)"
  shows "body (Hook1 asg f (Some b) after) xs s = (s1, Ret ys)"
proof -
  have "length ys = length (outs f)" using assms(2) list_all2_lengthD [of asg "map TypeOf ys" "outs f"] by (simp add: fits_types_def)
  then have "refused f (map Some ys) = Ret ys" by (auto simp: refused_def intro!: nth_equalityI)
  then show ?thesis using assms by (simp add: Hook1_def MakeFunc_def fits_types_def)
qed

text \<open>A refusal that leaves out a result panics when the function has no parameter at that place: \<open>Zero(fnType.In(i))\<close> is meant to be
  \<open>Zero(fnType.Out(i))\<close>.\<close>

lemma hook1_refused_panics:
  assumes "b s = (s1, Ret (False, []))" and "ins f = []" and "outs f \<noteq> []"
  shows "body (Hook1 asg f (Some b) after) xs s = (s1, Panic (UserPanic ''reflect''))"
proof -
  have "0 < length (outs f)" using assms(3) by simp
  then have "refused f [] = Panic (UserPanic ''reflect'')" unfolding refused_def using assms(2) by (auto intro: exI [of _ 0])
  then show ?thesis using assms(1) by (simp add: Hook1_def MakeFunc_def)
qed

text \<open>\<open>Hook3\<close> composes the three functions; without a \<open>before\<close> the function is called with no arguments at all, so it panics when
  it has parameters, and is not run.\<close>

lemma hook3_composes:
  assumes "typed asg a" "outs a = outs f"
    and "fits_types asg xs (ins b)" "variadic b = variadic f" "body b xs s = (s1, Ret ys)"
    and "fits_types asg ys (ins f)" "body f ys s1 = (s2, Ret zs)"
    and "fits_types asg zs (ins a)" "variadic a = variadic f"
  shows "body (Hook3 asg f (Some b) (Some a)) xs s = body a zs s2"
  using assms call_as_fits [of asg xs b f] call_as_fits [of asg ys f f] call_as_fits [of asg zs a f]
  by (auto simp: Hook3_def MakeFunc_def bind_eff_def typed_def fits_types_def split: go.split prod.split)

lemma hook3_without_before:
  assumes "\<not> variadic f" and "ins f \<noteq> []"
  shows "body (Hook3 asg f None after) xs s = (s, Panic (UserPanic ''reflect''))"
  using assms by (simp add: Hook3_def MakeFunc_def bind_eff_def call_as_def Value_Call_def reflect_panic_def)

end
