(* ===== verification/PriorityQueue.thy ===== *)
theory PriorityQueue
  imports CircList
begin

text \<open>
  Package \<open>event\<close>, file \<open>src/event/priorityQueue.go\<close>: the list items and their pool, the
  array of circular lists \<open>pq\<close> with its \<open>high\<close> cursor, and the blocking queue \<open>PriorityQueue\<close>
  built from it with a mutex and two condition variables. First the sequential structure,
  down to the pointers, with its refinement to a list of lists; then the methods as the critical
  sections between \<open>Lock\<close>, \<open>Wait\<close> and \<open>Unlock\<close>; then the system of goroutines that
  interleaves them.
\<close>

section \<open>Definitions: items and pq\<close>

text \<open>The store of list items (\<open>ppnext\<close> and \<open>v\<close> of each address), the tails of the priority
  lists, and the two counters of \<open>pq\<close>.\<close>

record 'v pq =
  ppnext :: links
  ival :: "addr \<Rightarrow> 'v option"
  priorityQueue :: "addr option list"
  count :: nat
  high :: nat

text \<open>\<open>getListItem\<close>: the item \<open>a\<close> that \<open>sync.Pool\<close> hands out gets the value;
  \<open>releaseListItem\<close> clears it and returns it to the pool.\<close>

definition getListItem :: "addr \<Rightarrow> 'v \<Rightarrow> (addr \<Rightarrow> 'v option) \<Rightarrow> (addr \<Rightarrow> 'v option)" where
  "getListItem a v st = st(a := Some v)"

definition releaseListItem :: "addr \<Rightarrow> (addr \<Rightarrow> 'v option) \<Rightarrow> (addr \<Rightarrow> 'v option)" where
  "releaseListItem a st = st(a := None)"

definition newpq :: "int \<Rightarrow> 'v pq" where
  "newpq priorityCount =
     (let n = (if priorityCount \<le> 0 then 1 else priorityCount)
      in \<lparr>ppnext = (\<lambda>_. None), ival = (\<lambda>_. None),
          priorityQueue = replicate (nat n) None, count = 0, high = 0\<rparr>)"

definition clamp_priority :: "int \<Rightarrow> nat \<Rightarrow> nat" where
  "clamp_priority priority n =
     (if priority < 0 then 0 else if priority \<ge> int n then n - 1 else nat priority)"

definition pq_push :: "addr \<Rightarrow> int \<Rightarrow> 'v \<Rightarrow> 'v pq \<Rightarrow> 'v pq" where
  "pq_push a priority v q =
     (let p = clamp_priority priority (length (priorityQueue q));
          (nxt', tail') = list_push a (ppnext q, priorityQueue q ! p)
      in q\<lparr>ppnext := nxt', ival := getListItem a v (ival q),
           priorityQueue := (priorityQueue q)[p := tail'],
           count := count q + 1,
           high := (if p > high q then p else high q)\<rparr>)"

text \<open>The loop at the end of \<open>pop\<close>: down to the next non-empty list, or to 0.\<close>

fun lower_high :: "addr option list \<Rightarrow> nat \<Rightarrow> nat" where
  "lower_high qs 0 = 0"
| "lower_high qs (Suc h) = (if qs ! Suc h = None then lower_high qs h else Suc h)"

definition pq_pop :: "'v pq \<Rightarrow> ('v pq \<times> bool \<times> 'v option) go" where
  "pq_pop q =
     (if count q > 0 then
        bind_go (list_pop (ppnext q, priorityQueue q ! high q)) (\<lambda>((nxt', tail'), r).
          (case r of
             None \<Rightarrow> Panic NilDeref
           | Some item \<Rightarrow>
               (let v = ival q item; qs = (priorityQueue q)[high q := tail']
                in Ret (q\<lparr>ppnext := nxt', ival := releaseListItem item (ival q),
                          priorityQueue := qs, count := count q - 1,
                          high := lower_high qs (high q)\<rparr>, True, v))))
      else Ret (q, False, None))"

section \<open>Abstract priority queue\<close>

text \<open>A list of first-in first-out lists, the last one of the highest priority.\<close>

definition apush :: "int \<Rightarrow> 'v \<Rightarrow> 'v list list \<Rightarrow> 'v list list" where
  "apush priority v vss =
     (let p = clamp_priority priority (length vss) in vss[p := vss ! p @ [v]])"

fun apop :: "'v list list \<Rightarrow> ('v \<times> 'v list list) option" where
  "apop [] = None"
| "apop (vs # vss) = (case apop vss of
      Some (v, vss') \<Rightarrow> Some (v, vs # vss')
    | None \<Rightarrow> (case vs of [] \<Rightarrow> None | v # vs' \<Rightarrow> Some (v, vs' # vss)))"

lemma apop_None: "apop vss = None \<longleftrightarrow> concat vss = []"
  by (induction vss) (auto split: option.splits list.splits)

lemma apop_top:
  assumes "h < length vss" and "vss ! h = v # vs"
    and "\<And>p. h < p \<Longrightarrow> p < length vss \<Longrightarrow> vss ! p = []"
  shows "apop vss = Some (v, vss[h := vs])"
  using assms
proof (induction vss arbitrary: h)
  case Nil
  then show ?case by simp
next
  case (Cons ws vss)
  show ?case
  proof (cases h)
    case 0
    have "\<forall>p<length vss. vss ! p = []"
      using Cons.prems(3) [of "Suc _"] 0 by simp
    then have "apop vss = None" by (simp only: apop_None concat_eq_Nil_nth)
    then show ?thesis using 0 Cons.prems(2) by simp
  next
    case (Suc h')
    have "apop vss = Some (v, vss[h' := vs])"
      using Cons.prems(1,2) Cons.prems(3) [of "Suc _"] Suc by (intro Cons.IH) simp_all
    then show ?thesis using Suc by simp
  qed
qed

lemma apop_Some_top:
  assumes "apop vss = Some (v, vss')"
  shows "\<exists>h vs. h < length vss \<and> vss ! h = v # vs \<and> vss' = vss[h := vs] \<and>
           (\<forall>p. h < p \<longrightarrow> p < length vss \<longrightarrow> vss ! p = [])"
proof -
  have "concat vss \<noteq> []" using assms apop_None [of vss] by simp
  then have "\<exists>p<length vss. vss ! p \<noteq> []" unfolding concat_eq_Nil_nth by blast
  then have ne: "{p. p < length vss \<and> vss ! p \<noteq> []} \<noteq> {}" (is "?S \<noteq> {}")
    by blast
  define h where "h = Max ?S"
  have fin: "finite ?S" by simp
  have h: "h < length vss" "vss ! h \<noteq> []" using Max_in [OF fin ne] by (auto simp: h_def)
  have above: "\<forall>p. h < p \<longrightarrow> p < length vss \<longrightarrow> vss ! p = []"
    using Max_ge [OF fin] by (auto simp: h_def not_le [symmetric])
  obtain w ws where ws: "vss ! h = w # ws" using h(2) by (cases "vss ! h") auto
  then have "apop vss = Some (w, vss[h := ws])" using h(1) above by (intro apop_top) auto
  then show ?thesis using assms h ws above by auto
qed

section \<open>Refinement\<close>

text \<open>\<open>pq_inv q xss\<close>: list \<open>p\<close> of \<open>q\<close> holds exactly the items \<open>xss ! p\<close> in order, no item is in
  two lists, \<open>count\<close> is their number, and \<open>high\<close> is the highest non-empty list, or 0.\<close>

definition pq_inv :: "'v pq \<Rightarrow> addr list list \<Rightarrow> bool" where
  "pq_inv q xss \<longleftrightarrow>
     length xss = length (priorityQueue q) \<and> xss \<noteq> [] \<and>
     (\<forall>p<length xss. circ (ppnext q, priorityQueue q ! p) (xss ! p)) \<and>
     (\<forall>p<length xss. \<forall>r<length xss. p \<noteq> r \<longrightarrow> set (xss ! p) \<inter> set (xss ! r) = {}) \<and>
     (\<forall>p<length xss. \<forall>a\<in>set (xss ! p). ival q a \<noteq> None) \<and>
     count q = length (concat xss) \<and>
     high q < length xss \<and>
     (\<forall>p<length xss. high q < p \<longrightarrow> xss ! p = []) \<and>
     (xss ! high q = [] \<longrightarrow> high q = 0)"

lemma pq_invD:
  assumes "pq_inv q xss"
  shows "length (priorityQueue q) = length xss" and "xss \<noteq> []"
    and "p < length xss \<Longrightarrow> circ (ppnext q, priorityQueue q ! p) (xss ! p)"
    and "p < length xss \<Longrightarrow> r < length xss \<Longrightarrow> p \<noteq> r \<Longrightarrow> a \<in> set (xss ! p) \<Longrightarrow> a \<notin> set (xss ! r)"
    and "p < length xss \<Longrightarrow> a \<in> set (xss ! p) \<Longrightarrow> ival q a \<noteq> None"
    and "count q = length (concat xss)" and "high q < length xss"
    and "p < length xss \<Longrightarrow> high q < p \<Longrightarrow> xss ! p = []"
    and "xss ! high q = [] \<Longrightarrow> high q = 0"
proof -
  show "p < length xss \<Longrightarrow> r < length xss \<Longrightarrow> p \<noteq> r \<Longrightarrow> a \<in> set (xss ! p) \<Longrightarrow> a \<notin> set (xss ! r)"
    using assms by (simp add: pq_inv_def disjoint_iff)
qed (use assms in \<open>simp_all add: pq_inv_def\<close>)

definition pq_vals :: "'v pq \<Rightarrow> addr list list \<Rightarrow> 'v list list" where
  "pq_vals q xss = map (map (the \<circ> ival q)) xss"

text \<open>\<open>pq_rep q vss\<close>: the pointer structure represents the abstract queue \<open>vss\<close>.\<close>

definition pq_rep :: "'v pq \<Rightarrow> 'v list list \<Rightarrow> bool" where
  "pq_rep q vss \<longleftrightarrow> (\<exists>xss. pq_inv q xss \<and> vss = pq_vals q xss)"

text \<open>The item that \<open>sync.Pool\<close> or the allocator hands out is not in use: its value is nil, as
  \<open>releaseListItem\<close> and the zero value leave it.\<close>

definition unused :: "'v pq \<Rightarrow> addr \<Rightarrow> bool" where
  "unused q a \<longleftrightarrow> ival q a = None"

lemma unused_not_queued: "pq_inv q xss \<Longrightarrow> unused q a \<Longrightarrow> a \<notin> set (concat xss)"
  using pq_invD(5) by (fastforce simp: unused_def in_set_conv_nth [of _ xss])

lemma clamp_less: "0 < n \<Longrightarrow> clamp_priority priority n < n"
  by (auto simp: clamp_priority_def)

lemma clamp_id: "0 \<le> priority \<Longrightarrow> priority < int n \<Longrightarrow> clamp_priority priority n = nat priority"
  by (simp add: clamp_priority_def)

lemma pq_inv_newpq: "pq_inv (newpq k) (replicate (nat (if k \<le> 0 then 1 else k)) [])"
  by (auto simp: pq_inv_def newpq_def Let_def)

lemma pq_rep_newpq: "pq_rep (newpq k :: 'v pq) (replicate (nat (if k \<le> 0 then 1 else k)) [])"
  using pq_inv_newpq [of k] by (auto simp: pq_rep_def pq_vals_def)

lemma pq_inv_push:
  fixes priority :: int
  assumes inv: "pq_inv q xss" and new: "a \<notin> set (concat xss)"
  defines "p \<equiv> clamp_priority priority (length xss)"
  shows "pq_inv (pq_push a priority v q) (xss[p := xss ! p @ [a]])"
proof -
  have p: "p < length xss" using inv by (auto simp: p_def pq_inv_def intro: clamp_less)
  have len: "length (priorityQueue q) = length xss" using inv by (simp add: pq_inv_def)
  obtain nxt' tail' where push: "list_push a (ppnext q, priorityQueue q ! p) = (nxt', tail')"
    by fastforce
  have cp: "circ (ppnext q, priorityQueue q ! p) (xss ! p)" using inv p by (simp add: pq_inv_def)
  have "a \<notin> set (xss ! p)" using new p by auto
  then have c: "circ (nxt', tail') (xss ! p @ [a])"
    using circ_push [OF cp] push by metis
  have frame: "nxt' y = ppnext q y" if "y \<notin> set (xss ! p)" "y \<noteq> a" for y
    using list_push_frame [OF cp that] push by simp
  have new': "\<And>r. r < length xss \<Longrightarrow> a \<notin> set (xss ! r)" using new by auto
  have others: "circ (nxt', priorityQueue q ! r) (xss ! r)" if "r < length xss" "r \<noteq> p" for r
  proof -
    have "circ (ppnext q, priorityQueue q ! r) (xss ! r)" using inv that by (simp add: pq_inv_def)
    moreover have "nxt' y = ppnext q y" if "y \<in> set (xss ! r)" for y
      using pq_invD(4) [OF inv p \<open>r < length xss\<close>] \<open>r \<noteq> p\<close> that new' [OF \<open>r < length xss\<close>]
      by (intro frame) blast+
    ultimately show ?thesis by (subst circ_cong [where g = "ppnext q"]) auto
  qed
  have upd: "pq_push a priority v q = q\<lparr>ppnext := nxt', ival := (ival q)(a := Some v),
      priorityQueue := (priorityQueue q)[p := tail'], count := count q + 1,
      high := (if p > high q then p else high q)\<rparr>"
    by (simp add: pq_push_def len push p_def [symmetric] getListItem_def)
  have cnt: "count q + 1 = length (concat (xss[p := xss ! p @ [a]]))"
    using length_concat_update [OF p, of "xss ! p @ [a]"] inv by (simp add: pq_inv_def)
  show ?thesis
    unfolding upd using inv p c others cnt new'
    by (simp add: pq_inv_def nth_list_update len) (use c in auto)
qed

lemma lower_high_spec:
  "lower_high qs h \<le> h \<and> (\<forall>p. lower_high qs h < p \<longrightarrow> p \<le> h \<longrightarrow> qs ! p = None) \<and>
     (qs ! lower_high qs h = None \<longrightarrow> lower_high qs h = 0)"
  by (induction h) (auto simp: le_Suc_eq)

lemma pq_vals_cong:
  "(\<And>p a. p < length xss \<Longrightarrow> a \<in> set (xss ! p) \<Longrightarrow> ival q' a = ival q a) \<Longrightarrow>
     pq_vals q' xss = pq_vals q xss"
  unfolding pq_vals_def
  by (rule map_cong [OF refl], rule map_cong [OF refl]) (metis comp_apply in_set_conv_nth)

lemma pq_vals_update:
  "p < length xss \<Longrightarrow> pq_vals q (xss[p := ys]) = (pq_vals q xss)[p := map (the \<circ> ival q) ys]"
  by (simp add: pq_vals_def map_update)

lemma pq_vals_nth [simp]: "p < length xss \<Longrightarrow> pq_vals q xss ! p = map (the \<circ> ival q) (xss ! p)"
  by (simp add: pq_vals_def)

lemma length_pq_vals [simp]: "length (pq_vals q xss) = length xss"
  by (simp add: pq_vals_def)

lemma length_concat_pq_vals: "length (concat (pq_vals q xss)) = length (concat xss)"
  by (simp add: pq_vals_def length_concat comp_def)

lemma pq_rep_push:
  assumes "pq_rep q vss" and "unused q a"
  shows "pq_rep (pq_push a priority v q) (apush priority v vss)"
proof -
  obtain xss where inv: "pq_inv q xss" and vss: "vss = pq_vals q xss"
    using assms(1) by (auto simp: pq_rep_def)
  define p where "p = clamp_priority priority (length xss)"
  have new: "a \<notin> set (concat xss)" using unused_not_queued [OF inv assms(2)] .
  have p: "p < length xss" using inv by (auto simp: p_def pq_inv_def intro: clamp_less)
  have ival: "ival (pq_push a priority v q) = (ival q)(a := Some v)"
    by (simp add: pq_push_def Let_def getListItem_def split: prod.splits)
  have keep: "map (the \<circ> ival (pq_push a priority v q)) (xss ! r) = map (the \<circ> ival q) (xss ! r)"
    if "r < length xss" for r
    using new that by (auto simp: ival)
  have "pq_vals (pq_push a priority v q) (xss[p := xss ! p @ [a]]) = apush priority v vss"
  proof (rule nth_equalityI)
    fix r assume "r < length (pq_vals (pq_push a priority v q) (xss[p := xss ! p @ [a]]))"
    then have r: "r < length xss" by simp
    show "pq_vals (pq_push a priority v q) (xss[p := xss ! p @ [a]]) ! r = apush priority v vss ! r"
      using p r keep [OF r] keep [OF p]
      by (simp add: nth_list_update apush_def Let_def vss p_def [symmetric] ival)
  qed (simp add: apush_def Let_def vss)
  then show ?thesis
    using pq_inv_push [OF inv new, of priority v, folded p_def] unfolding pq_rep_def by metis
qed

lemma pq_inv_top:
  assumes "pq_inv q xss" and "0 < count q"
  shows "xss ! high q \<noteq> []"
proof
  assume none: "xss ! high q = []"
  then have "high q = 0" using assms(1) by (simp add: pq_inv_def)
  then have "concat xss = []"
    unfolding concat_eq_Nil_nth using none pq_invD(8) [OF assms(1)] by (metis gr0I)
  then show False using assms by (simp add: pq_inv_def)
qed

lemma pq_pop_inv:
  assumes inv: "pq_inv q xss" and top: "xss ! high q = a # ys"
  shows "\<exists>q'. pq_pop q = Ret (q', True, ival q a) \<and> pq_inv q' (xss[high q := ys]) \<and>
           ival q' = (ival q)(a := None)"
proof -
  let ?h = "high q" and ?xss = "xss[high q := ys]"
  have h: "?h < length xss" and len: "length (priorityQueue q) = length xss"
    using inv by (auto simp: pq_inv_def)
  have ch: "circ (ppnext q, priorityQueue q ! ?h) (a # ys)"
    using pq_invD(3) [OF inv h] top by simp
  obtain nxt' tail' where pop: "list_pop (ppnext q, priorityQueue q ! ?h) = Ret ((nxt', tail'), Some a)"
      and c: "circ (nxt', tail') ys"
    using circ_pop_Cons [OF ch] by auto
  have frame: "nxt' y = ppnext q y" if "y \<notin> set (a # ys)" for y
    using list_pop_frame [OF ch pop that] by simp
  have cnt: "count q = Suc (length (concat ?xss))"
    using length_concat_update [OF h, of ys] inv top by (simp add: pq_inv_def)
  define qs where "qs = (priorityQueue q)[?h := tail']"
  define q' where "q' = q\<lparr>ppnext := nxt', ival := (ival q)(a := None), priorityQueue := qs,
      count := count q - 1, high := lower_high qs ?h\<rparr>"
  have eq: "pq_pop q = Ret (q', True, ival q a)"
    using pop cnt by (simp add: pq_pop_def q'_def qs_def releaseListItem_def Let_def)
  have disj: "set (xss ! r) \<inter> set (a # ys) = {}" if "r < length xss" "r \<noteq> ?h" for r
    using pq_invD(4) [OF inv that(1) h that(2)] top by auto
  have circs: "circ (nxt', qs ! r) (?xss ! r)" if "r < length xss" for r
  proof (cases "r = ?h")
    case True
    then show ?thesis using c h len by (simp add: qs_def)
  next
    case False
    have "circ (ppnext q, priorityQueue q ! r) (xss ! r)" using inv that by (simp add: pq_inv_def)
    moreover have "nxt' y = ppnext q y" if "y \<in> set (xss ! r)" for y
      using frame disj [OF \<open>r < length xss\<close> False] that by blast
    ultimately have "circ (nxt', priorityQueue q ! r) (xss ! r)"
      by (subst circ_cong [where g = "ppnext q"]) auto
    then show ?thesis using False by (simp add: qs_def)
  qed
  have empty: "qs ! r = None \<longleftrightarrow> ?xss ! r = []" if "r < length xss" for r
    using circs [OF that] by (auto simp: circ_def split: if_splits)
  have low: "lower_high qs ?h < length xss" using lower_high_spec [of qs ?h] h by linarith
  have above: "?xss ! p = []" if "p < length xss" "lower_high qs ?h < p" for p
    using lower_high_spec [of qs ?h] empty [OF that(1)] that inv
    by (cases "p \<le> ?h") (auto simp: pq_inv_def nth_list_update)
  have zero: "?xss ! lower_high qs ?h = [] \<longrightarrow> lower_high qs ?h = 0"
    using lower_high_spec [of qs ?h] empty [OF low] by simp
  have dy: "a \<notin> set ys" using circ_distinct [OF ch] by simp
  have sets: "set (?xss ! r) \<subseteq> set (xss ! r)" "a \<notin> set (?xss ! r)" if "r < length xss" for r
    using that h top dy disj [of r] by (auto simp: nth_list_update split: if_splits)
  have "pq_inv q' ?xss"
    unfolding pq_inv_def
  proof (intro conjI)
    show "\<forall>p<length ?xss. \<forall>r<length ?xss. p \<noteq> r \<longrightarrow> set (?xss ! p) \<inter> set (?xss ! r) = {}"
      using sets(1) pq_invD(4) [OF inv] unfolding length_list_update by blast
    show "\<forall>p<length ?xss. \<forall>a\<in>set (?xss ! p). ival q' a \<noteq> None"
      using sets pq_invD(5) [OF inv] by (fastforce simp: q'_def)
    show "count q' = length (concat ?xss)" using cnt by (simp add: q'_def)
  qed (use pq_invD(2) [OF inv] circs low above zero len in \<open>simp_all add: q'_def qs_def\<close>)
  then show ?thesis using eq by (auto simp: q'_def)
qed

lemma pq_rep_pop:
  assumes "pq_rep q vss"
  shows "case apop vss of
      None \<Rightarrow> pq_pop q = Ret (q, False, None)
    | Some (v, vss') \<Rightarrow> \<exists>q'. pq_pop q = Ret (q', True, Some v) \<and> pq_rep q' vss'"
proof -
  obtain xss where inv: "pq_inv q xss" and vss: "vss = pq_vals q xss"
    using assms by (auto simp: pq_rep_def)
  show ?thesis
  proof (cases "count q = 0")
    case True
    then have "concat vss = []"
      using pq_invD(6) [OF inv] length_concat_pq_vals [of q xss]
      by (simp add: vss del: concat_eq_Nil_conv)
    then have "apop vss = None" by (simp only: apop_None)
    then show ?thesis using True by (simp add: pq_pop_def)
  next
    case False
    let ?h = "high q"
    obtain a ys where top: "xss ! ?h = a # ys"
      using pq_inv_top [OF inv] False by (cases "xss ! ?h") auto
    have h: "?h < length xss" using inv by (simp add: pq_inv_def)
    obtain v where v: "ival q a = Some v"
      using pq_invD(5) [OF inv h, of a] top by auto
    obtain q' where q': "pq_pop q = Ret (q', True, ival q a)" "pq_inv q' (xss[?h := ys])"
        "ival q' = (ival q)(a := None)"
      using pq_pop_inv [OF inv top] by blast
    have dy: "a \<notin> set ys" "\<And>r. r < length xss \<Longrightarrow> r \<noteq> ?h \<Longrightarrow> a \<notin> set (xss ! r)"
    proof -
      show "a \<notin> set ys"
        using circ_distinct [OF pq_invD(3) [OF inv h]] top by simp
      show "\<And>r. r < length xss \<Longrightarrow> r \<noteq> ?h \<Longrightarrow> a \<notin> set (xss ! r)"
        using pq_invD(4) [OF inv h, of _ a] top by auto
    qed
    have "pq_vals q' (xss[?h := ys]) = pq_vals q (xss[?h := ys])"
      by (rule pq_vals_cong) (use dy h in \<open>auto simp: q'(3) nth_list_update split: if_splits\<close>)
    then have "pq_vals q' (xss[?h := ys]) = vss[?h := map (the \<circ> ival q) ys]"
      using h by (simp add: pq_vals_update vss)
    moreover have "apop vss = Some (v, vss[?h := map (the \<circ> ival q) ys])"
      using h top v inv by (intro apop_top) (auto simp: vss pq_inv_def)
    ultimately show ?thesis using q' v by (auto simp: pq_rep_def)
  qed
qed

lemma pq_rep_count: "pq_rep q vss \<Longrightarrow> count q = length (concat vss)"
  by (auto simp: pq_rep_def pq_inv_def length_concat_pq_vals)

lemma pq_pop_rep_cases:
  assumes "pq_rep q vss"
  obtains (empty) "count q = 0" "pq_pop q = Ret (q, False, None)"
    | (item) q' v vss' where "0 < count q" "pq_pop q = Ret (q', True, Some v)" "pq_rep q' vss'"
        "apop vss = Some (v, vss')"
  using pq_rep_pop [OF assms] pq_rep_count [OF assms] apop_None [of vss]
  by (cases "apop vss") auto

section \<open>Definitions: the blocking queue\<close>

datatype queue_error = ErrQueueClosed | ErrQueueFull

record 'v pqueue =
  pqq :: "'v pq"
  fullSize :: int
  closed :: bool
  emptyWaited :: int
  fullWaited :: int
  closeOnce :: bool

definition defaultFullSize :: int where
  "defaultFullSize = 10000"

definition NewPriorityQueue :: "int \<Rightarrow> int list \<Rightarrow> 'v pqueue" where
  "NewPriorityQueue priorityCount fs =
     \<lparr>pqq = newpq priorityCount,
      fullSize = (case fs of f # _ \<Rightarrow> (if f > 0 then f else defaultFullSize) | [] \<Rightarrow> defaultFullSize),
      closed = False, emptyWaited = 0, fullWaited = 0, closeOnce = False\<rparr>"

text \<open>
  Each method is cut at the points where it releases the mutex. \<open>AddRet err sig\<close> is a return
  with the \<open>needSignal\<close> flag computed under the lock, \<open>AddWait\<close> a call of \<open>fullCond.Wait\<close>;
  \<open>GetRet\<close> and \<open>GetWait\<close> likewise for \<open>Get\<close> and \<open>emptyCond\<close>. The parameter \<open>a\<close> is the list item that
  \<open>getListItem\<close> obtains.
\<close>

datatype add_out = AddRet "queue_error option" bool | AddWait

datatype 'v get_out = GetRet bool "'v option" bool | GetWait

definition AddNoWait :: "addr \<Rightarrow> int \<Rightarrow> 'v \<Rightarrow> bool list \<Rightarrow> 'v pqueue \<Rightarrow> 'v pqueue \<times> add_out" where
  "AddNoWait a priority item fullReturn s =
     (if closed s then (s, AddRet (Some ErrQueueClosed) False)
      else (let n = count (pqq s) in
        if fullReturn \<noteq> [] \<and> hd fullReturn \<and> int n \<ge> fullSize s
        then (s, AddRet (Some ErrQueueFull) False)
        else (s\<lparr>pqq := pq_push a priority item (pqq s)\<rparr>, AddRet None (emptyWaited s > 0))))"

text \<open>The loop test of \<open>Add\<close>, then \<open>Wait\<close> or the push.\<close>

definition Add_loop :: "addr \<Rightarrow> int \<Rightarrow> 'v \<Rightarrow> 'v pqueue \<Rightarrow> 'v pqueue \<times> add_out" where
  "Add_loop a priority item s =
     (if int (count (pqq s)) \<ge> fullSize s then (s\<lparr>fullWaited := fullWaited s + 1\<rparr>, AddWait)
      else (s\<lparr>pqq := pq_push a priority item (pqq s)\<rparr>, AddRet None (emptyWaited s > 0)))"

definition Add :: "addr \<Rightarrow> int \<Rightarrow> 'v \<Rightarrow> 'v pqueue \<Rightarrow> 'v pqueue \<times> add_out" where
  "Add a priority item s =
     (if closed s then (s, AddRet (Some ErrQueueClosed) False) else Add_loop a priority item s)"

text \<open>\<open>Add\<close> after \<open>fullCond.Wait\<close> has returned with the lock held.\<close>

definition Add_resume :: "addr \<Rightarrow> int \<Rightarrow> 'v \<Rightarrow> 'v pqueue \<Rightarrow> 'v pqueue \<times> add_out" where
  "Add_resume a priority item s =
     (let s' = s\<lparr>fullWaited := fullWaited s - 1\<rparr> in
      if closed s' then (s', AddRet (Some ErrQueueClosed) False) else Add_loop a priority item s')"

definition Get :: "'v pqueue \<Rightarrow> ('v pqueue \<times> 'v get_out) go" where
  "Get s =
     (if \<not> closed s \<and> count (pqq s) = 0
      then Ret (s\<lparr>emptyWaited := emptyWaited s + 1\<rparr>, GetWait)
      else if count (pqq s) > 0
      then map_ret (\<lambda>(q', ok, v). (s\<lparr>pqq := q'\<rparr>, GetRet (closed s) v (fullWaited s > 0)))
             (pq_pop (pqq s))
      else Ret (s, GetRet (closed s) None (fullWaited s > 0)))"

text \<open>\<open>Get\<close> after \<open>emptyCond.Wait\<close> has returned: back to the loop test.\<close>

definition Get_resume :: "'v pqueue \<Rightarrow> ('v pqueue \<times> 'v get_out) go" where
  "Get_resume s = Get (s\<lparr>emptyWaited := emptyWaited s - 1\<rparr>)"

text \<open>\<open>Close\<close>: the compare-and-swap, then the critical section; the two broadcasts follow it.\<close>

definition Close_cas :: "'v pqueue \<Rightarrow> 'v pqueue \<times> bool" where
  "Close_cas s = (if closeOnce s then (s, False) else (s\<lparr>closeOnce := True\<rparr>, True))"

definition Close_locked :: "'v pqueue \<Rightarrow> 'v pqueue" where
  "Close_locked s = s\<lparr>closed := True\<rparr>"

text \<open>\<open>SetFullSize\<close>: the new state and whether \<open>fullCond\<close> is broadcast.\<close>

definition SetFullSize :: "int \<Rightarrow> 'v pqueue \<Rightarrow> 'v pqueue \<times> bool" where
  "SetFullSize newSize s =
     (if newSize > 0
      then (s\<lparr>fullSize := newSize\<rparr>, fullSize s < newSize \<and> fullWaited s > 0)
      else (s, False))"

section \<open>Definitions: goroutines\<close>

text \<open>Where a goroutine stands in a method of the queue: outside, parked in or woken from one
  of the two condition variables, or past its critical section with a wake-up still to send.\<close>

datatype 'v pc =
    is_Idle: Idle
  | is_AddParked: AddParked int 'v
  | is_AddWoken: AddWoken int 'v
  | is_GetParked: GetParked
  | is_GetWoken: GetWoken
  | is_SigEmpty: SigEmpty
  | is_BcFull: BcFull
  | is_CloseLock: CloseLock
  | is_CloseBcEmpty: CloseBcEmpty
  | is_CloseBcFull: CloseBcFull

text \<open>The queue, its goroutines, and two histories: the items whose \<open>Add\<close> succeeded and those
  a \<open>Get\<close> returned.\<close>

record 'v psys =
  queue :: "'v pqueue"
  procs :: "'v pc list"
  accepted :: "'v list"
  delivered :: "'v list"

definition init_psys :: "int \<Rightarrow> int list \<Rightarrow> nat \<Rightarrow> 'v psys" where
  "init_psys priorityCount fs n =
     \<lparr>queue = NewPriorityQueue priorityCount fs, procs = replicate n Idle, accepted = [], delivered = []\<rparr>"

fun after_add :: "int \<Rightarrow> 'v \<Rightarrow> add_out \<Rightarrow> 'v pc" where
  "after_add priority v (AddRet err sig) = (if sig then SigEmpty else Idle)"
| "after_add priority v AddWait = AddParked priority v"

fun after_get :: "'v get_out \<Rightarrow> 'v pc" where
  "after_get (GetRet cl v sig) = (if sig then BcFull else Idle)"
| "after_get GetWait = GetParked"

fun added :: "'v \<Rightarrow> add_out \<Rightarrow> 'v list" where
  "added v (AddRet None sig) = [v]"
| "added v _ = []"

fun got :: "'v get_out \<Rightarrow> 'v list" where
  "got (GetRet cl (Some v) sig) = [v]"
| "got _ = []"

fun wake_getter :: "'v pc \<Rightarrow> 'v pc" where
  "wake_getter GetParked = GetWoken"
| "wake_getter pc = pc"

fun wake_adder :: "'v pc \<Rightarrow> 'v pc" where
  "wake_adder (AddParked p v) = AddWoken p v"
| "wake_adder pc = pc"

definition upd :: "'v psys \<Rightarrow> 'v pqueue \<Rightarrow> nat \<Rightarrow> 'v pc \<Rightarrow> 'v list \<Rightarrow> 'v list \<Rightarrow> 'v psys" where
  "upd S s' i pc new out = S\<lparr>queue := s', procs := (procs S)[i := pc],
     accepted := accepted S @ new, delivered := delivered S @ out\<rparr>"

text \<open>One step: some goroutine \<open>i\<close> runs its next critical section or sends its wake-up.\<close>

inductive pq_step :: "'v psys \<Rightarrow> 'v psys \<Rightarrow> bool" where
  add_no_wait: "i < length (procs S) \<Longrightarrow> procs S ! i = Idle \<Longrightarrow> unused (pqq (queue S)) a \<Longrightarrow>
     AddNoWait a priority v fr (queue S) = (s', r) \<Longrightarrow>
     pq_step S (upd S s' i (after_add priority v r) (added v r) [])"
| add: "i < length (procs S) \<Longrightarrow> procs S ! i = Idle \<Longrightarrow> unused (pqq (queue S)) a \<Longrightarrow>
     Add a priority v (queue S) = (s', r) \<Longrightarrow>
     pq_step S (upd S s' i (after_add priority v r) (added v r) [])"
| add_resume: "i < length (procs S) \<Longrightarrow> procs S ! i = AddWoken priority v \<Longrightarrow>
     unused (pqq (queue S)) a \<Longrightarrow> Add_resume a priority v (queue S) = (s', r) \<Longrightarrow>
     pq_step S (upd S s' i (after_add priority v r) (added v r) [])"
| get: "i < length (procs S) \<Longrightarrow> procs S ! i = Idle \<Longrightarrow> Get (queue S) = Ret (s', g) \<Longrightarrow>
     pq_step S (upd S s' i (after_get g) [] (got g))"
| get_resume: "i < length (procs S) \<Longrightarrow> procs S ! i = GetWoken \<Longrightarrow> Get_resume (queue S) = Ret (s', g) \<Longrightarrow>
     pq_step S (upd S s' i (after_get g) [] (got g))"
| signal_one: "i < length (procs S) \<Longrightarrow> procs S ! i = SigEmpty \<Longrightarrow>
     j < length (procs S) \<Longrightarrow> procs S ! j = GetParked \<Longrightarrow>
     pq_step S (S\<lparr>procs := (procs S)[i := Idle, j := GetWoken]\<rparr>)"
| signal_none: "i < length (procs S) \<Longrightarrow> procs S ! i = SigEmpty \<Longrightarrow>
     \<forall>pc \<in> set (procs S). \<not> is_GetParked pc \<Longrightarrow>
     pq_step S (upd S (queue S) i Idle [] [])"
| bc_full: "i < length (procs S) \<Longrightarrow> procs S ! i = BcFull \<Longrightarrow>
     pq_step S (S\<lparr>procs := map wake_adder ((procs S)[i := Idle])\<rparr>)"
| close_cas: "i < length (procs S) \<Longrightarrow> procs S ! i = Idle \<Longrightarrow> Close_cas (queue S) = (s', won) \<Longrightarrow>
     pq_step S (upd S s' i (if won then CloseLock else Idle) [] [])"
| close_lock: "i < length (procs S) \<Longrightarrow> procs S ! i = CloseLock \<Longrightarrow>
     pq_step S (upd S (Close_locked (queue S)) i CloseBcEmpty [] [])"
| close_bc_empty: "i < length (procs S) \<Longrightarrow> procs S ! i = CloseBcEmpty \<Longrightarrow>
     pq_step S (S\<lparr>procs := map wake_getter ((procs S)[i := CloseBcFull])\<rparr>)"
| close_bc_full: "i < length (procs S) \<Longrightarrow> procs S ! i = CloseBcFull \<Longrightarrow>
     pq_step S (S\<lparr>procs := map wake_adder ((procs S)[i := Idle])\<rparr>)"
| set_full_size: "i < length (procs S) \<Longrightarrow> procs S ! i = Idle \<Longrightarrow>
     SetFullSize newSize (queue S) = (s', sig) \<Longrightarrow>
     pq_step S (upd S s' i (if sig then BcFull else Idle) [] [])"

inductive pq_reach :: "'v psys \<Rightarrow> bool" where
  init: "pq_reach (init_psys priorityCount fs n)"
| step: "pq_reach S \<Longrightarrow> pq_step S T \<Longrightarrow> pq_reach T"

section \<open>Invariant of the goroutine system\<close>

lemma wake_getter_disc [simp]:
  "is_Idle (wake_getter pc) = is_Idle pc" "is_AddParked (wake_getter pc) = is_AddParked pc"
  "is_AddWoken (wake_getter pc) = is_AddWoken pc" "is_GetParked (wake_getter pc) = False"
  "is_GetWoken (wake_getter pc) = (is_GetWoken pc \<or> is_GetParked pc)"
  "is_SigEmpty (wake_getter pc) = is_SigEmpty pc" "is_BcFull (wake_getter pc) = is_BcFull pc"
  "is_CloseBcEmpty (wake_getter pc) = is_CloseBcEmpty pc"
  "is_CloseBcFull (wake_getter pc) = is_CloseBcFull pc"
  by (cases pc; simp)+

lemma wake_adder_disc [simp]:
  "is_Idle (wake_adder pc) = is_Idle pc" "is_AddParked (wake_adder pc) = False"
  "is_AddWoken (wake_adder pc) = (is_AddWoken pc \<or> is_AddParked pc)"
  "is_GetParked (wake_adder pc) = is_GetParked pc" "is_GetWoken (wake_adder pc) = is_GetWoken pc"
  "is_SigEmpty (wake_adder pc) = is_SigEmpty pc" "is_BcFull (wake_adder pc) = is_BcFull pc"
  "is_CloseBcEmpty (wake_adder pc) = is_CloseBcEmpty pc"
  "is_CloseBcFull (wake_adder pc) = is_CloseBcFull pc"
  by (cases pc; simp)+

lemma cnt_woken [simp]:
  "cnt (\<lambda>pc. is_GetWoken pc \<or> is_GetParked pc) ps = cnt is_GetWoken ps + cnt is_GetParked ps"
  "cnt (\<lambda>pc. is_AddWoken pc \<or> is_AddParked pc) ps = cnt is_AddWoken ps + cnt is_AddParked ps"
proof -
  show "cnt (\<lambda>pc. is_GetWoken pc \<or> is_GetParked pc) ps = cnt is_GetWoken ps + cnt is_GetParked ps"
    by (rule cnt_disj) (auto simp: is_GetWoken_def is_GetParked_def)
  show "cnt (\<lambda>pc. is_AddWoken pc \<or> is_AddParked pc) ps = cnt is_AddWoken ps + cnt is_AddParked ps"
    by (rule cnt_disj) (auto simp: is_AddWoken_def is_AddParked_def)
qed

text \<open>The waiter counters are exact; queued items beside a parked getter are covered by signals on
  the way or getters already woken; free room beside a parked adder, and a closed queue
  beside any parked goroutine, are covered by a broadcast on the way.\<close>

definition wait_inv :: "'v pqueue \<Rightarrow> 'v pc list \<Rightarrow> bool" where
  "wait_inv s ps \<longleftrightarrow>
     emptyWaited s = int (cnt is_GetParked ps + cnt is_GetWoken ps) \<and>
     fullWaited s = int (cnt is_AddParked ps + cnt is_AddWoken ps) \<and>
     (0 < cnt is_GetParked ps \<longrightarrow> count (pqq s) \<le> cnt is_SigEmpty ps + cnt is_GetWoken ps) \<and>
     (0 < cnt is_AddParked ps \<longrightarrow> int (count (pqq s)) < fullSize s \<longrightarrow> 0 < cnt is_BcFull ps) \<and>
     (closed s \<longrightarrow> 0 < cnt is_GetParked ps \<longrightarrow> 0 < cnt is_CloseBcEmpty ps) \<and>
     (closed s \<longrightarrow> 0 < cnt is_AddParked ps \<longrightarrow>
        0 < cnt is_CloseBcEmpty ps + cnt is_CloseBcFull ps)"

definition data_inv :: "'v psys \<Rightarrow> bool" where
  "data_inv S \<longleftrightarrow> (\<exists>vss. pq_rep (pqq (queue S)) vss \<and>
     mset (accepted S) = mset (delivered S) + mset (concat vss))"

lemma count_push [simp]: "count (pq_push a priority v q) = count q + 1"
  by (simp add: pq_push_def Let_def split: prod.split)

lemma pop_count:
  assumes "pq_rep q vss" and "pq_pop q = Ret (q', ok, v)" and "0 < count q"
  shows "int (count q') = int (count q) - 1"
proof (rule pq_pop_rep_cases [OF assms(1)])
  assume "count q = 0"
  with assms show ?thesis by simp
next
  fix q'' w vss'
  assume item: "0 < count q" "pq_pop q = Ret (q'', True, Some w)" "pq_rep q'' vss'"
    "apop vss = Some (w, vss')"
  obtain h vs where h: "h < length vss" "vss ! h = w # vs" "vss' = vss[h := vs]"
    using apop_Some_top [OF item(4)] by blast
  have "length (concat vss) = Suc (length (concat vss'))"
    using length_concat_update [OF h(1), of vs] h(2,3) by simp
  then show ?thesis
    using pq_rep_count [OF assms(1)] pq_rep_count [OF item(3)] item(2) assms(2) by simp
qed

text \<open>What each critical section does to the fields the invariant reads, one case per path.\<close>

lemma AddNoWait_cases:
  assumes "AddNoWait a priority v fr s = (s', r)"
  obtains (err) e where "s' = s" "r = AddRet (Some e) False"
    | (push) sig where "\<not> closed s" "s' = s\<lparr>pqq := pq_push a priority v (pqq s)\<rparr>" "r = AddRet None sig"
        "sig = (0 < emptyWaited s)"
  using assms by (auto simp: AddNoWait_def Let_def split: if_splits)

lemma Add_loop_cases:
  assumes "Add_loop a priority v s = (s', r)"
  obtains (wait) "fullSize s \<le> int (count (pqq s))" "s' = s\<lparr>fullWaited := fullWaited s + 1\<rparr>" "r = AddWait"
    | (push) sig where "s' = s\<lparr>pqq := pq_push a priority v (pqq s)\<rparr>" "r = AddRet None sig"
        "sig = (0 < emptyWaited s)"
  using assms by (auto simp: Add_loop_def split: if_splits)

lemma Get_cases:
  assumes "Get s = Ret (s', g)" and "pq_rep (pqq s) vss"
  obtains (wait) "\<not> closed s" "count (pqq s) = 0" "s' = s\<lparr>emptyWaited := emptyWaited s + 1\<rparr>" "g = GetWait"
    | (item) q' v vss' sig where "0 < count (pqq s)" "s' = s\<lparr>pqq := q'\<rparr>" "g = GetRet (closed s) (Some v) sig"
        "sig = (0 < fullWaited s)" "pq_pop (pqq s) = Ret (q', True, Some v)" "pq_rep q' vss'"
        "apop vss = Some (v, vss')"
    | (drained) sig where "closed s" "count (pqq s) = 0" "s' = s" "g = GetRet True None sig"
        "sig = (0 < fullWaited s)"
  using assms(2)
proof (cases rule: pq_pop_rep_cases)
  case empty
  then show ?thesis using assms(1) that(1,3) by (auto simp: Get_def split: if_splits)
next
  case (item q' v vss')
  then show ?thesis using assms(1) that(2) by (auto simp: Get_def)
qed

lemma AddNoWait_wait:
  assumes "wait_inv s ps" and "i < length ps" and "ps ! i = Idle"
    and "AddNoWait a priority v fr s = (s', r)"
  shows "wait_inv s' (ps[i := after_add priority v r])"
proof -
  obtain base where base: "\<And>P. cnt P ps = base P + (if P (ps ! i) then 1 else 0)"
      "\<And>P x. cnt P (ps[i := x]) = base P + (if P x then 1 else 0)"
    using cnt_at [OF assms(2)] by metis
  from assms(4) show ?thesis
  proof (cases rule: AddNoWait_cases)
    case (err e)
    then show ?thesis using assms(1,3) by (simp add: wait_inv_def base)
  next
    case (push sig)
    then show ?thesis using assms(1,3) by (cases sig) (auto simp: wait_inv_def base)
  qed
qed

lemma Add_wait:
  assumes "wait_inv s ps" and "i < length ps" and "ps ! i = Idle"
    and "Add a priority v s = (s', r)"
  shows "wait_inv s' (ps[i := after_add priority v r])"
proof (cases "closed s")
  case True
  moreover have "ps[i := Idle] = ps" using assms(2,3) by (metis list_update_id)
  ultimately show ?thesis using assms by (auto simp: Add_def)
next
  case False
  obtain base where base: "\<And>P. cnt P ps = base P + (if P (ps ! i) then 1 else 0)"
      "\<And>P x. cnt P (ps[i := x]) = base P + (if P x then 1 else 0)"
    using cnt_at [OF assms(2)] by metis
  from False assms(4) have "Add_loop a priority v s = (s', r)" by (simp add: Add_def)
  then show ?thesis
  proof (cases rule: Add_loop_cases)
    case wait
    then show ?thesis using assms(1,3) False by (auto simp: wait_inv_def base)
  next
    case (push sig)
    then show ?thesis using assms(1,3) by (cases sig) (auto simp: wait_inv_def base)
  qed
qed

lemma Add_resume_eq: "Add_resume a priority v s = Add a priority v (s\<lparr>fullWaited := fullWaited s - 1\<rparr>)"
  by (simp add: Add_resume_def Add_def)

lemma Add_resume_wait:
  assumes "wait_inv s ps" and "i < length ps" and "ps ! i = AddWoken priority v"
    and "Add_resume a priority v s = (s', r)"
  shows "wait_inv s' (ps[i := after_add priority v r])"
proof -
  obtain base where base: "\<And>P. cnt P ps = base P + (if P (ps ! i) then 1 else 0)"
      "\<And>P x. cnt P (ps[i := x]) = base P + (if P x then 1 else 0)"
    using cnt_at [OF assms(2)] by metis
  have "wait_inv (s\<lparr>fullWaited := fullWaited s - 1\<rparr>) (ps[i := Idle])"
    using assms(1,3) by (simp add: wait_inv_def base)
  from Add_wait [OF this, of i, OF _ _ assms(4) [unfolded Add_resume_eq]] assms(2)
  show ?thesis by simp
qed

lemma Get_wait:
  assumes "wait_inv s ps" and "i < length ps" and "ps ! i = Idle" and "pq_rep (pqq s) vss"
    and "Get s = Ret (s', g)"
  shows "wait_inv s' (ps[i := after_get g])"
proof -
  obtain base where base: "\<And>P. cnt P ps = base P + (if P (ps ! i) then 1 else 0)"
      "\<And>P x. cnt P (ps[i := x]) = base P + (if P x then 1 else 0)"
    using cnt_at [OF assms(2)] by metis
  from assms(5,4) show ?thesis
  proof (cases rule: Get_cases)
    case wait
    then show ?thesis using assms(1,3) by (auto simp: wait_inv_def base)
  next
    case (item q' v vss' sig)
    have "int (count q') = int (count (pqq s)) - 1"
      using pop_count [OF assms(4) item(5,1)] .
    then show ?thesis using assms(1,3) item(1-4) by (cases sig) (auto simp: wait_inv_def base)
  next
    case (drained sig)
    then show ?thesis using assms(1,3) by (cases sig) (auto simp: wait_inv_def base)
  qed
qed

lemma Get_resume_wait:
  assumes "wait_inv s ps" and "i < length ps" and "ps ! i = GetWoken" and "pq_rep (pqq s) vss"
    and "Get_resume s = Ret (s', g)"
  shows "wait_inv s' (ps[i := after_get g])"
proof -
  obtain base where base: "\<And>P. cnt P ps = base P + (if P (ps ! i) then 1 else 0)"
      "\<And>P x. cnt P (ps[i := x]) = base P + (if P x then 1 else 0)"
    using cnt_at [OF assms(2)] by metis
  let ?s = "s\<lparr>emptyWaited := emptyWaited s - 1\<rparr>"
  have "Get ?s = Ret (s', g)" "pq_rep (pqq ?s) vss"
    using assms(4,5) by (simp_all add: Get_resume_def)
  then show ?thesis
  proof (cases rule: Get_cases)
    case wait
    then show ?thesis using assms(1,3) by (auto simp: wait_inv_def base)
  next
    case (item q' v vss' sig)
    have "int (count q') = int (count (pqq s)) - 1"
      using pop_count [OF assms(4)] item(1,5) by simp
    then show ?thesis using assms(1,3) item(1-4) by (cases sig) (auto simp: wait_inv_def base)
  next
    case (drained sig)
    then show ?thesis using assms(1,3) by (cases sig) (auto simp: wait_inv_def base)
  qed
qed

lemma signal_wait:
  assumes "wait_inv s ps" and "i < length ps" and "ps ! i = SigEmpty"
    and "j < length ps" and "ps ! j = GetParked"
  shows "wait_inv s (ps[i := Idle, j := GetWoken])"
proof -
  obtain base where base: "\<And>P. cnt P ps = base P + (if P (ps ! i) then 1 else 0)"
      "\<And>P x. cnt P (ps[i := x]) = base P + (if P x then 1 else 0)"
    using cnt_at [OF assms(2)] by metis
  have j: "j < length (ps[i := Idle])" "ps[i := Idle] ! j = GetParked"
    using assms by (auto simp: nth_list_update)
  obtain base' where base': "\<And>P. cnt P (ps[i := Idle]) = base' P + (if P (ps[i := Idle] ! j) then 1 else 0)"
      "\<And>P x. cnt P ((ps[i := Idle])[j := x]) = base' P + (if P x then 1 else 0)"
    using cnt_at [OF j(1)] by metis
  have b: "base P = base' P + (if P GetParked then 1 else 0) - (if P Idle then 1 else 0)" for P
    using base(2) [of P Idle] base'(1) [of P] by (simp add: j(2))
  show ?thesis using assms(1,3) by (simp add: wait_inv_def base(1) base'(2) b)
qed

lemma bc_adders_wait:
  assumes "wait_inv s ps" and "i < length ps" and "ps ! i = BcFull \<or> ps ! i = CloseBcFull"
  shows "wait_inv s (map wake_adder (ps[i := Idle]))"
proof -
  obtain base where base: "\<And>P. cnt P ps = base P + (if P (ps ! i) then 1 else 0)"
      "\<And>P x. cnt P (ps[i := x]) = base P + (if P x then 1 else 0)"
    using cnt_at [OF assms(2)] by metis
  from assms(3) show ?thesis
  proof
    assume "ps ! i = BcFull"
    then show ?thesis using assms(1) by (simp add: wait_inv_def cnt_map base)
  next
    assume "ps ! i = CloseBcFull"
    then show ?thesis using assms(1) by (simp add: wait_inv_def cnt_map base)
  qed
qed

lemma bc_getters_wait:
  assumes "wait_inv s ps" and "i < length ps" and "ps ! i = CloseBcEmpty"
  shows "wait_inv s (map wake_getter (ps[i := CloseBcFull]))"
proof -
  obtain base where base: "\<And>P. cnt P ps = base P + (if P (ps ! i) then 1 else 0)"
      "\<And>P x. cnt P (ps[i := x]) = base P + (if P x then 1 else 0)"
    using cnt_at [OF assms(2)] by metis
  show ?thesis using assms(1,3) by (auto simp: wait_inv_def cnt_map base)
qed

lemma signal_none_wait:
  assumes "wait_inv s ps" and "i < length ps" and "ps ! i = SigEmpty"
    and "\<forall>pc\<in>set ps. \<not> is_GetParked pc"
  shows "wait_inv s (ps[i := Idle])"
proof -
  obtain base where base: "\<And>P. cnt P ps = base P + (if P (ps ! i) then 1 else 0)"
      "\<And>P x. cnt P (ps[i := x]) = base P + (if P x then 1 else 0)"
    using cnt_at [OF assms(2)] by metis
  have "base is_GetParked = 0"
    using assms(3,4) base(1) [of is_GetParked] cnt_eq_0 [of is_GetParked ps] by simp
  then show ?thesis using assms(1,3) by (simp add: wait_inv_def base)
qed

lemma Close_cas_wait:
  assumes "wait_inv s ps" and "i < length ps" and "ps ! i = Idle" and "Close_cas s = (s', won)"
  shows "wait_inv s' (ps[i := if won then CloseLock else Idle])"
proof -
  obtain base where base: "\<And>P. cnt P ps = base P + (if P (ps ! i) then 1 else 0)"
      "\<And>P x. cnt P (ps[i := x]) = base P + (if P x then 1 else 0)"
    using cnt_at [OF assms(2)] by metis
  show ?thesis
    using assms(1,3,4) by (cases "closeOnce s") (auto simp: Close_cas_def, simp_all add: wait_inv_def base)
qed

lemma Close_locked_wait:
  assumes "wait_inv s ps" and "i < length ps" and "ps ! i = CloseLock"
  shows "wait_inv (Close_locked s) (ps[i := CloseBcEmpty])"
proof -
  obtain base where base: "\<And>P. cnt P ps = base P + (if P (ps ! i) then 1 else 0)"
      "\<And>P x. cnt P (ps[i := x]) = base P + (if P x then 1 else 0)"
    using cnt_at [OF assms(2)] by metis
  show ?thesis using assms(1,3) by (simp add: wait_inv_def base Close_locked_def)
qed

lemma SetFullSize_wait:
  assumes "wait_inv s ps" and "i < length ps" and "ps ! i = Idle"
    and "SetFullSize newSize s = (s', sig)"
  shows "wait_inv s' (ps[i := if sig then BcFull else Idle])"
proof -
  obtain base where base: "\<And>P. cnt P ps = base P + (if P (ps ! i) then 1 else 0)"
      "\<And>P x. cnt P (ps[i := x]) = base P + (if P x then 1 else 0)"
    using cnt_at [OF assms(2)] by metis
  show ?thesis
  proof (cases "newSize > 0")
    case False
    then show ?thesis using assms(1,3,4) by (simp add: SetFullSize_def wait_inv_def base)
  next
    case True
    with assms(4) have s': "s' = s\<lparr>fullSize := newSize\<rparr>"
      and sig: "sig = (fullSize s < newSize \<and> fullWaited s > 0)" by (auto simp: SetFullSize_def)
    show ?thesis
    proof (cases sig)
      case True
      then show ?thesis using assms(1,3) s' by (simp add: wait_inv_def base)
    next
      case False
      then show ?thesis using assms(1,3) s' sig by (simp add: wait_inv_def base)
    qed
  qed
qed

section \<open>Preservation\<close>

lemma data_push:
  assumes "pq_rep q vss" and "unused q a"
  shows "\<exists>vss'. pq_rep (pq_push a priority v q) vss' \<and> mset (concat vss') = mset (concat vss) + {#v#}"
proof -
  have "vss \<noteq> []" using assms(1) by (auto simp: pq_rep_def pq_vals_def pq_inv_def)
  then have "clamp_priority priority (length vss) < length vss" by (simp add: clamp_less)
  from mset_concat_update [OF this, of "vss ! clamp_priority priority (length vss) @ [v]"]
  have "mset (concat (apush priority v vss)) = mset (concat vss) + {#v#}"
    by (simp add: apush_def Let_def)
  then show ?thesis using pq_rep_push [OF assms] by blast
qed

lemma data_pop:
  assumes "apop vss = Some (v, vss')"
  shows "mset (concat vss) = add_mset v (mset (concat vss'))"
proof -
  obtain h vs where h: "h < length vss" "vss ! h = v # vs" "vss' = vss[h := vs]"
    using apop_Some_top [OF assms] by blast
  show ?thesis using mset_concat_update [OF h(1), of vs] h(2,3) by simp
qed

text \<open>Every result of the three adding sections either leaves the queue alone and adds nothing,
  or pushes the item and reports success.\<close>

lemma Add_loop_data:
  assumes "Add_loop a priority v s = (s', r)"
  shows "(pqq s' = pqq s \<and> added v r = []) \<or> (pqq s' = pq_push a priority v (pqq s) \<and> added v r = [v])"
  using assms by (cases rule: Add_loop_cases) auto

lemma adds_data:
  "AddNoWait a priority v fr s = (s', r) \<Longrightarrow>
     (pqq s' = pqq s \<and> added v r = []) \<or> (pqq s' = pq_push a priority v (pqq s) \<and> added v r = [v])"
  "Add a priority v s = (s', r) \<Longrightarrow>
     (pqq s' = pqq s \<and> added v r = []) \<or> (pqq s' = pq_push a priority v (pqq s) \<and> added v r = [v])"
  "Add_resume a priority v s = (s', r) \<Longrightarrow>
     (pqq s' = pqq s \<and> added v r = []) \<or> (pqq s' = pq_push a priority v (pqq s) \<and> added v r = [v])"
proof -
  show add: "Add a priority v s = (s', r) \<Longrightarrow>
     (pqq s' = pqq s \<and> added v r = []) \<or> (pqq s' = pq_push a priority v (pqq s) \<and> added v r = [v])" for s
    using Add_loop_data [of a priority v s s' r] by (auto simp: Add_def split: if_splits)
  show "Add_resume a priority v s = (s', r) \<Longrightarrow>
     (pqq s' = pqq s \<and> added v r = []) \<or> (pqq s' = pq_push a priority v (pqq s) \<and> added v r = [v])"
    using add [of "s\<lparr>fullWaited := fullWaited s - 1\<rparr>"] by (simp add: Add_resume_eq)
  show "AddNoWait a priority v fr s = (s', r) \<Longrightarrow>
     (pqq s' = pqq s \<and> added v r = []) \<or> (pqq s' = pq_push a priority v (pqq s) \<and> added v r = [v])"
    by (erule AddNoWait_cases) auto
qed

lemma data_inv_added:
  assumes "data_inv S" and "unused (pqq (queue S)) a"
    and "(pqq s' = pqq (queue S) \<and> added v r = []) \<or>
         (pqq s' = pq_push a priority v (pqq (queue S)) \<and> added v r = [v])"
  shows "data_inv (upd S s' i pc (added v r) [])"
proof -
  obtain vss where vss: "pq_rep (pqq (queue S)) vss"
      "mset (accepted S) = mset (delivered S) + mset (concat vss)"
    using assms(1) by (auto simp: data_inv_def)
  from assms(3) show ?thesis
  proof
    assume "pqq s' = pqq (queue S) \<and> added v r = []"
    then show ?thesis using vss by (auto simp: data_inv_def upd_def)
  next
    assume push: "pqq s' = pq_push a priority v (pqq (queue S)) \<and> added v r = [v]"
    obtain vss' where "pq_rep (pq_push a priority v (pqq (queue S))) vss'"
        "mset (concat vss') = mset (concat vss) + {#v#}"
      using data_push [OF vss(1) assms(2)] by blast
    then have "pq_rep (pqq s') vss' \<and>
        mset (accepted S @ added v r) = mset (delivered S) + mset (concat vss')"
      using push vss(2) by simp
    then show ?thesis unfolding data_inv_def upd_def by auto
  qed
qed

lemma data_inv_got:
  assumes "data_inv S" and "Get s = Ret (s', g)" and "pqq s = pqq (queue S)"
  shows "data_inv (upd S s' i pc [] (got g))"
proof -
  obtain vss where vss: "pq_rep (pqq (queue S)) vss"
      "mset (accepted S) = mset (delivered S) + mset (concat vss)"
    using assms(1) by (auto simp: data_inv_def)
  have rep: "pq_rep (pqq s) vss" using vss(1) assms(3) by simp
  from assms(2) rep show ?thesis
  proof (cases rule: Get_cases)
    case wait
    then show ?thesis using vss assms(3) by (auto simp: data_inv_def upd_def)
  next
    case (item q' v vss' sig)
    then have "mset (accepted S) = mset (delivered S @ [v]) + mset (concat vss')"
      using vss(2) data_pop [OF item(7)] by simp
    then show ?thesis using item(2,3,6) unfolding data_inv_def upd_def by auto
  next
    case (drained sig)
    then show ?thesis using vss assms(3) by (auto simp: data_inv_def upd_def)
  qed
qed

lemma pq_step_inv:
  assumes "pq_step S T" and "wait_inv (queue S) (procs S)" and "data_inv S"
  shows "wait_inv (queue T) (procs T) \<and> data_inv T"
proof -
  obtain vss where rep: "pq_rep (pqq (queue S)) vss" using assms(3) by (auto simp: data_inv_def)
  from assms(1) show ?thesis
  proof cases
    case (add_no_wait i a priority v fr s' r)
    then show ?thesis using assms(2,3) data_inv_added [OF _ _ adds_data(1)] AddNoWait_wait
      by (auto simp: upd_def)
  next
    case (add i a priority v s' r)
    then show ?thesis using assms(2,3) data_inv_added [OF _ _ adds_data(2)] Add_wait
      by (auto simp: upd_def)
  next
    case (add_resume i priority v a s' r)
    then show ?thesis using assms(2,3) data_inv_added [OF _ _ adds_data(3)] Add_resume_wait
      by (auto simp: upd_def)
  next
    case (get i s' g)
    then show ?thesis using assms(2,3) data_inv_got [OF _ get(4)] Get_wait [OF _ _ _ rep]
      by (auto simp: upd_def)
  next
    case (get_resume i s' g)
    then show ?thesis
      using assms(2,3) data_inv_got [OF _ get_resume(4) [unfolded Get_resume_def]] Get_resume_wait [OF _ _ _ rep]
      by (auto simp: upd_def)
  next
    case (signal_one i j)
    then show ?thesis using assms(2,3) signal_wait by (auto simp: data_inv_def)
  next
    case (signal_none i)
    then show ?thesis using assms(2,3) signal_none_wait by (auto simp: data_inv_def upd_def)
  next
    case (bc_full i)
    then show ?thesis using assms(2,3) bc_adders_wait by (auto simp: data_inv_def)
  next
    case (close_cas i s' won)
    then have "pqq s' = pqq (queue S)" by (auto simp: Close_cas_def split: if_splits)
    then show ?thesis using assms(3) close_cas(1) Close_cas_wait [OF assms(2) close_cas(2,3,4)]
      by (simp add: data_inv_def upd_def)
  next
    case (close_lock i)
    then show ?thesis using assms(2,3) Close_locked_wait
      by (auto simp: data_inv_def upd_def Close_locked_def)
  next
    case (close_bc_empty i)
    then show ?thesis using assms(2,3) bc_getters_wait by (auto simp: data_inv_def)
  next
    case (close_bc_full i)
    then show ?thesis using assms(2,3) bc_adders_wait by (auto simp: data_inv_def)
  next
    case (set_full_size i newSize s' sig)
    then have "pqq s' = pqq (queue S)" by (auto simp: SetFullSize_def split: if_splits)
    then show ?thesis using assms(3) set_full_size(1) SetFullSize_wait [OF assms(2) set_full_size(2,3,4)]
      by (simp add: data_inv_def upd_def)
  qed
qed

lemma pq_reach_inv: "pq_reach S \<Longrightarrow> wait_inv (queue S) (procs S) \<and> data_inv S"
proof (induction rule: pq_reach.induct)
  case (init priorityCount fs n)
  have "pq_rep (newpq priorityCount :: 'v pq) (replicate (nat (if priorityCount \<le> 0 then 1 else priorityCount)) [])"
    by (rule pq_rep_newpq)
  then show ?case
    by (auto simp: init_psys_def NewPriorityQueue_def wait_inv_def data_inv_def newpq_def Let_def)
next
  case (step S T)
  then show ?case by (intro pq_step_inv) auto
qed

section \<open>Theorems\<close>

text \<open>C10. The pointer structure implements the abstract priority queue: \<open>push\<close> appends to the
  list of the clamped priority, and \<open>pop\<close> never panics and takes the oldest item of the
  highest non-empty priority, or reports that there is none exactly when all lists are empty.\<close>

theorem pq_refines:
  assumes "pq_rep q vss" and "unused q a"
  shows "pq_rep (pq_push a priority v q) (apush priority v vss) \<and>
    (if concat vss = [] then pq_pop q = Ret (q, False, None)
     else \<exists>q' w h ws. pq_pop q = Ret (q', True, Some w) \<and> pq_rep q' (vss[h := ws]) \<and>
       h < length vss \<and> vss ! h = w # ws \<and> (\<forall>p. h < p \<longrightarrow> p < length vss \<longrightarrow> vss ! p = []))"
proof (cases "apop vss")
  case None
  then show ?thesis
    using pq_rep_push [OF assms] pq_rep_pop [OF assms(1)] apop_None [of vss] by simp
next
  case (Some r)
  then obtain w vss' where r: "apop vss = Some (w, vss')" by (cases r) auto
  obtain h ws where h: "h < length vss" "vss ! h = w # ws" "vss' = vss[h := ws]"
      "\<forall>p. h < p \<longrightarrow> p < length vss \<longrightarrow> vss ! p = []"
    using apop_Some_top [OF r] by blast
  obtain q' where "pq_pop q = Ret (q', True, Some w)" "pq_rep q' vss'"
    using pq_rep_pop [OF assms(1)] r by auto
  then show ?thesis
    using pq_rep_push [OF assms] h apop_None [of vss] r by (simp del: concat_eq_Nil_conv) blast
qed

theorem pq_refines_witness:
  "\<exists>q'. pq_pop (pq_push 7 2 ''b'' (pq_push 4 0 ''a'' (newpq 3))) = Ret (q', True, Some ''b'') \<and>
     pq_rep q' [[''a''], [], []]"
proof -
  have "pq_rep (newpq 3 :: string pq) (replicate (nat (if (3::int) \<le> 0 then 1 else 3)) [])"
    by (rule pq_rep_newpq)
  then have new: "pq_rep (newpq 3 :: string pq) [[], [], []]" by (simp add: numeral_3_eq_3)
  have "unused (newpq 3 :: string pq) 4" by (simp add: unused_def newpq_def Let_def)
  from pq_refines [OF new this, of 0 "''a''"]
  have one: "pq_rep (pq_push 4 0 ''a'' (newpq 3)) [[''a''], [], []]"
    by (simp add: apush_def clamp_priority_def Let_def)
  have u: "unused (pq_push 4 0 ''a'' (newpq 3)) 7"
    by (simp add: unused_def newpq_def pq_push_def getListItem_def Let_def split: prod.split)
  from pq_refines [OF one this, of 2 "''b''"]
  have two: "pq_rep (pq_push 7 2 ''b'' (pq_push 4 0 ''a'' (newpq 3))) [[''a''], [], [''b'']]"
    by (simp add: apush_def clamp_priority_def Let_def numeral_2_eq_2)
  have "unused (pq_push 7 2 ''b'' (pq_push 4 0 ''a'' (newpq 3))) 9"
    by (simp add: unused_def newpq_def pq_push_def getListItem_def Let_def split: prod.split)
  note three = pq_refines [OF two this, of 0 "''c''"]
  have ne: "concat [[''a''], [], [''b'']] \<noteq> []" by simp
  from three obtain q' w h ws where
    h: "pq_pop (pq_push 7 2 ''b'' (pq_push 4 0 ''a'' (newpq 3))) = Ret (q', True, Some w)"
      "pq_rep q' ([[''a''], [], [''b'']][h := ws])" "h < length [[''a''], [], [''b'']]"
      "[[''a''], [], [''b'']] ! h = w # ws"
      "\<forall>p. h < p \<longrightarrow> p < length [[''a''], [], [''b'']] \<longrightarrow> [[''a''], [], [''b'']] ! p = []"
    unfolding if_not_P [OF ne] by blast
  have "h = 2" using h(3) h(5) [rule_format, of 2] by (cases "h < 2") auto
  then show ?thesis using h(1,2,4) by (simp add: numeral_2_eq_2)
qed

text \<open>C9. No lost wake-up. In every reachable state of the goroutines that share a
  queue, while a \<open>Get\<close> is parked the queued items are covered one for one by signals not
  yet sent and getters already woken; while an \<open>Add\<close> is parked beside free room, or either is
  parked on a closed queue, a broadcast that will wake it is on the way.\<close>

theorem pq_no_lost_wakeup:
  assumes "pq_reach S"
  shows "(GetParked \<in> set (procs S) \<longrightarrow>
            count (pqq (queue S)) \<le> cnt is_SigEmpty (procs S) + cnt is_GetWoken (procs S)) \<and>
         (GetParked \<in> set (procs S) \<longrightarrow> closed (queue S) \<longrightarrow> CloseBcEmpty \<in> set (procs S)) \<and>
         (AddParked p v \<in> set (procs S) \<longrightarrow> int (count (pqq (queue S))) < fullSize (queue S) \<longrightarrow>
            BcFull \<in> set (procs S)) \<and>
         (AddParked p v \<in> set (procs S) \<longrightarrow> closed (queue S) \<longrightarrow>
            CloseBcEmpty \<in> set (procs S) \<or> CloseBcFull \<in> set (procs S))"
proof -
  have inv: "wait_inv (queue S) (procs S)" using pq_reach_inv [OF assms] by simp
  have gp: "GetParked \<in> set (procs S) \<Longrightarrow> 0 < cnt is_GetParked (procs S)"
    and ap: "AddParked p v \<in> set (procs S) \<Longrightarrow> 0 < cnt is_AddParked (procs S)"
    by (force simp: cnt_gt_0)+
  have mem: "0 < cnt is_CloseBcEmpty (procs S) \<Longrightarrow> CloseBcEmpty \<in> set (procs S)"
      "0 < cnt is_CloseBcFull (procs S) \<Longrightarrow> CloseBcFull \<in> set (procs S)"
      "0 < cnt is_BcFull (procs S) \<Longrightarrow> BcFull \<in> set (procs S)"
    by (auto simp: cnt_gt_0 is_CloseBcEmpty_def is_CloseBcFull_def is_BcFull_def)
  show ?thesis
    using inv gp ap mem unfolding wait_inv_def by (metis add_is_0 not_gr_zero)
qed

text \<open>A reachable state with a parked \<open>Get\<close>, used by the witnesses.\<close>

definition parked_state :: "string psys" where
  "parked_state = upd (init_psys 2 [5] 2) ((NewPriorityQueue 2 [5])\<lparr>emptyWaited := 1\<rparr>) 0 GetParked [] []"

lemma parked_state_reach: "pq_reach parked_state"
proof -
  have "pq_step (init_psys 2 [5] 2 :: string psys) parked_state"
    unfolding parked_state_def
    by (rule pq_step.get [of 0 _ _ GetWait, simplified])
      (simp_all add: init_psys_def Get_def NewPriorityQueue_def newpq_def Let_def numeral_2_eq_2)
  then show ?thesis by (rule pq_reach.step [OF pq_reach.init])
qed

lemma parked_state_procs: "procs parked_state = [GetParked, Idle]"
  by (simp add: parked_state_def upd_def init_psys_def numeral_2_eq_2)

theorem pq_no_lost_wakeup_witness:
  "GetParked \<in> set (procs parked_state) \<and> count (pqq (queue parked_state)) = 0"
  using pq_no_lost_wakeup [OF parked_state_reach, of 0 "''x''"]
  by (simp add: parked_state_procs cnt_Cons)

text \<open>Nobody sleeps for no reason: when every goroutine is outside the queue or parked in
  it, a parked \<open>Get\<close> means the queue is empty and open, and a parked \<open>Add\<close> means it is full and
  open.\<close>

theorem pq_quiescent:
  assumes "pq_reach S"
    and "\<forall>pc \<in> set (procs S). is_Idle pc \<or> is_GetParked pc \<or> is_AddParked pc"
  shows "(GetParked \<in> set (procs S) \<longrightarrow> count (pqq (queue S)) = 0 \<and> \<not> closed (queue S)) \<and>
         (AddParked p v \<in> set (procs S) \<longrightarrow>
            fullSize (queue S) \<le> int (count (pqq (queue S))) \<and> \<not> closed (queue S))"
proof -
  have inv: "wait_inv (queue S) (procs S)" using pq_reach_inv [OF assms(1)] by simp
  have none: "cnt is_SigEmpty (procs S) = 0" "cnt is_GetWoken (procs S) = 0" "cnt is_BcFull (procs S) = 0"
      "cnt is_CloseBcEmpty (procs S) = 0" "cnt is_CloseBcFull (procs S) = 0"
    unfolding cnt_eq_0 using assms(2) by (metis pc.disc pc.exhaust_disc pc.collapse)+
  have gp: "GetParked \<in> set (procs S) \<Longrightarrow> 0 < cnt is_GetParked (procs S)"
    and ap: "AddParked p v \<in> set (procs S) \<Longrightarrow> 0 < cnt is_AddParked (procs S)"
    by (force simp: cnt_gt_0)+
  show ?thesis using inv none gp ap by (auto simp: wait_inv_def)
qed

theorem pq_quiescent_witness:
  "GetParked \<in> set (procs parked_state) \<and> \<not> closed (queue parked_state)"
  using pq_quiescent [OF parked_state_reach, of 0 "''x''"] by (simp add: parked_state_procs)

text \<open>Items are neither lost nor duplicated nor invented: in every reachable state the
  items whose \<open>Add\<close> succeeded are exactly those a \<open>Get\<close> has returned together with those
  still queued, and \<open>Get\<close> does not panic.\<close>

theorem pq_conservation:
  assumes "pq_reach S"
  shows "\<exists>vss. pq_rep (pqq (queue S)) vss \<and>
           mset (accepted S) = mset (delivered S) + mset (concat vss) \<and>
           (\<exists>s' g. Get (queue S) = Ret (s', g))"
proof -
  obtain vss where vss: "pq_rep (pqq (queue S)) vss"
      "mset (accepted S) = mset (delivered S) + mset (concat vss)"
    using pq_reach_inv [OF assms] by (auto simp: data_inv_def)
  have "\<exists>s' g. Get (queue S) = Ret (s', g)"
    by (rule pq_pop_rep_cases [OF vss(1)]) (auto simp: Get_def)
  then show ?thesis using vss by blast
qed

theorem pq_conservation_witness:
  "\<exists>vss. pq_rep (pqq (queue parked_state)) vss \<and> mset (concat vss) = {#}"
  using pq_conservation [OF parked_state_reach]
  by (auto simp: parked_state_def upd_def init_psys_def)

end
