(* ===== verification/EventHandler.thy ===== *)
theory EventHandler
  imports DList
begin

text \<open>
  Event handlers, \<open>src/event/eventHandler.go\<close>: the handlers of an event in a doubly linked list between two sentinels,
  the ring of operations deferred while an emission runs, the emission loop with the calls that handlers and other
  goroutines make while it has released the lock, and the table of events above it. Handlers are values; what a
  handler does to its own event during a call is a parameter, as is what other goroutines do in that window.
\<close>

section \<open>Definitions: the slot of an event\<close>

datatype 'a op = OpEmit 'a | OpDelete addr | OpRegister addr

text \<open>The slot with the handles made for it: links, function, once flag and version by address; the sentinels
  \<open>l.head\<close> and \<open>l.tail\<close>; the ring of deferred operations. The two counters stand for allocation.\<close>

record ('f, 'a) hslot =
  hlinks :: dlinks
  hfn :: "addr \<Rightarrow> 'f option"
  honce :: "addr \<Rightarrow> bool"
  hversion :: "addr \<Rightarrow> int"
  halloc :: nat
  hhead :: addr
  htail :: addr
  emiting :: bool
  sversion :: int
  opnext :: links
  pendingOP :: "addr option"
  opval :: "addr \<Rightarrow> 'a op option"
  opalloc :: nat

definition new_slot :: "int \<Rightarrow> ('f, 'a) hslot" where
  "new_slot v = \<lparr>hlinks = \<lparr>nnext = (\<lambda>_. None)(0 := Some 1), pprev = (\<lambda>_. None)(1 := Some 0)\<rparr>,
     hfn = (\<lambda>_. None), honce = (\<lambda>_. False), hversion = (\<lambda>_. 0), halloc = 2, hhead = 0, htail = 1,
     emiting = False, sversion = v, opnext = (\<lambda>_. None), pendingOP = None, opval = (\<lambda>_. None), opalloc = 0\<rparr>"

definition new_handle :: "bool \<Rightarrow> 'f \<Rightarrow> ('f, 'a) hslot \<Rightarrow> ('f, 'a) hslot \<times> addr" where
  "new_handle once fn s =
     (let h = halloc s in
      (s\<lparr>halloc := Suc h, hfn := (hfn s)(h := Some fn), honce := (honce s)(h := once),
         hversion := (hversion s)(h := 0)\<rparr>, h))"

definition slot_push :: "'a op \<Rightarrow> ('f, 'a) hslot \<Rightarrow> ('f, 'a) hslot" where
  "slot_push v s =
     (let item = opalloc s; (nxt, t) = list_push item (opnext s, pendingOP s)
      in s\<lparr>opalloc := Suc item, opval := (opval s)(item := Some v), opnext := nxt, pendingOP := t\<rparr>)"

definition slot_pop :: "('f, 'a) hslot \<Rightarrow> (('f, 'a) hslot \<times> 'a op option) go" where
  "slot_pop s =
     map_ret (\<lambda>((nxt, t), r).
       (s\<lparr>opnext := nxt, pendingOP := t\<rparr>, (case r of None \<Rightarrow> None | Some item \<Rightarrow> opval s item)))
       (list_pop (opnext s, pendingOP s))"

definition doRegister :: "addr \<Rightarrow> ('f, 'a) hslot \<Rightarrow> ('f, 'a) hslot go" where
  "doRegister h s =
     (let s1 = s\<lparr>hversion := (hversion s)(h := sversion s)\<rparr> in
      (case pprev (hlinks s1) (htail s1) of
         None \<Rightarrow> Panic NilDeref
       | Some p \<Rightarrow>
           (let l1 = set_next h (Some (htail s1)) (set_next p (Some h) (hlinks s1));
                l2 = set_prev h (pprev l1 (htail s1)) l1
            in Ret (s1\<lparr>hlinks := set_prev (htail s1) (Some h) l2\<rparr>))))"

definition slot_register :: "addr \<Rightarrow> ('f, 'a) hslot \<Rightarrow> ('f, 'a) hslot go" where
  "slot_register h s = (if emiting s then Ret (slot_push (OpRegister h) s) else doRegister h s)"

definition doRemove :: "addr \<Rightarrow> ('f, 'a) hslot \<Rightarrow> ('f, 'a) hslot go" where
  "doRemove h s =
     (if hversion s h = sversion s then
        (case pprev (hlinks s) h of
           None \<Rightarrow> Panic NilDeref
         | Some p \<Rightarrow>
             (let n = nnext (hlinks s) h; l1 = set_next p n (hlinks s) in
              (case nnext l1 h of
                 None \<Rightarrow> Panic NilDeref
               | Some n \<Rightarrow>
                   (let l2 = set_prev n (pprev l1 h) l1
                    in Ret (s\<lparr>hlinks := set_prev h None (set_next h None l2), hversion := (hversion s)(h := 0)\<rparr>)))))
      else Ret s)"

definition slot_remove :: "addr \<Rightarrow> ('f, 'a) hslot \<Rightarrow> ('f, 'a) hslot go" where
  "slot_remove h s = (if emiting s then Ret (slot_push (OpDelete h) s) else doRemove h s)"

section \<open>Definitions: emission\<close>

text \<open>What reaches the event while a handler runs: calls of \<open>Register\<close>, \<open>Remove\<close> and \<open>Emit\<close> for it.\<close>

datatype ('f, 'a) request = RRegister bool 'f | RRemove addr | REmit 'a

text \<open>One such call, in the window where the emission runs: \<open>Emit\<close> only queues, \<open>Remove\<close> compares the versions first.\<close>

definition serve :: "('f, 'a) request \<Rightarrow> ('f, 'a) hslot \<Rightarrow> ('f, 'a) hslot go" where
  "serve rq s =
     (case rq of
        RRegister once fn \<Rightarrow> (let (s1, h) = new_handle once fn s in slot_register h s1)
      | RRemove h \<Rightarrow> if hversion s h = sversion s then slot_remove h s else Ret s
      | REmit args \<Rightarrow> Ret (slot_push (OpEmit args) s))"

primrec serve_all :: "('f, 'a) request list \<Rightarrow> ('f, 'a) hslot \<Rightarrow> ('f, 'a) hslot go" where
  "serve_all [] s = Ret s"
| "serve_all (rq # rqs) s = bind_go (serve rq s) (serve_all rqs)"

text \<open>The inner loop over the handlers. \<open>call k fn h args\<close> is what is asked of the slot while the \<open>k\<close>-th call of a
  handler, of function \<open>fn\<close> and handle \<open>h\<close>, runs. No result is a loop that has not ended with this fuel.\<close>

type_synonym ('f, 'a) calls = "nat \<Rightarrow> 'f \<Rightarrow> addr \<Rightarrow> 'a \<Rightarrow> ('f, 'a) request list"

fun emit_list :: "nat \<Rightarrow> ('f, 'a) calls \<Rightarrow> 'a \<Rightarrow> addr option \<Rightarrow> ('f, 'a) hslot \<times> (addr \<times> 'a) list \<Rightarrow>
    (('f, 'a) hslot \<times> (addr \<times> 'a) list) go option" where
  "emit_list 0 call args cur st = None"
| "emit_list (Suc fuel) call args cur (s, log) =
     (if cur = Some (htail s) then Some (Ret (s, log))
      else
        (case cur of
           None \<Rightarrow> Some (Panic NilDeref)
         | Some h \<Rightarrow>
             (case hfn s h of
                None \<Rightarrow> Some (Panic NilDeref)
              | Some fn \<Rightarrow>
                  (case serve_all (call (length log) fn h args) s of
                     Panic p \<Rightarrow> Some (Panic p)
                   | Ret s1 \<Rightarrow>
                       (let next = nnext (hlinks s1) h in
                        (case (if honce s1 h then doRemove h s1 else Ret s1) of
                           Panic p \<Rightarrow> Some (Panic p)
                         | Ret s2 \<Rightarrow> emit_list fuel call args next (s2, log @ [(h, args)])))))))"

fun emit_loop :: "nat \<Rightarrow> ('f, 'a) calls \<Rightarrow> ('f, 'a) hslot \<times> (addr \<times> 'a) list \<Rightarrow>
    (('f, 'a) hslot \<times> (addr \<times> 'a) list) go option" where
  "emit_loop 0 call st = None"
| "emit_loop (Suc fuel) call (s, log) =
     (case slot_pop s of
        Panic p \<Rightarrow> Some (Panic p)
      | Ret (s1, None) \<Rightarrow> Some (Ret (s1\<lparr>emiting := False\<rparr>, log))
      | Ret (s1, Some (OpDelete h)) \<Rightarrow>
          (case doRemove h s1 of Panic p \<Rightarrow> Some (Panic p) | Ret s2 \<Rightarrow> emit_loop fuel call (s2, log))
      | Ret (s1, Some (OpRegister h)) \<Rightarrow>
          (case doRegister h s1 of Panic p \<Rightarrow> Some (Panic p) | Ret s2 \<Rightarrow> emit_loop fuel call (s2, log))
      | Ret (s1, Some (OpEmit args)) \<Rightarrow>
          (case emit_list (Suc (halloc s1)) call args (nnext (hlinks s1) (hhead s1)) (s1, log) of
             None \<Rightarrow> None
           | Some (Panic p) \<Rightarrow> Some (Panic p)
           | Some (Ret st) \<Rightarrow> emit_loop fuel call st))"

definition slot_emit :: "nat \<Rightarrow> ('f, 'a) calls \<Rightarrow> 'a \<Rightarrow> ('f, 'a) hslot \<Rightarrow>
    (('f, 'a) hslot \<times> (addr \<times> 'a) list) go option" where
  "slot_emit fuel call args s =
     (let s1 = slot_push (OpEmit args) s in
      if emiting s1 then Some (Ret (s1, [])) else emit_loop fuel call (s1\<lparr>emiting := True\<rparr>, []))"

section \<open>Definitions: the table of events\<close>

text \<open>The slots ever made, by number, and the table from events to slots. A handle is its event, the slot it was
  made for and its address there.\<close>

record ('e, 'f, 'a) event_handler =
  slots :: "'e \<Rightarrow> nat option"
  objs :: "nat \<Rightarrow> ('f, 'a) hslot"
  nslots :: nat
  eversion :: int

type_synonym 'e handle = "'e \<times> nat \<times> addr"

definition NewEventHandler :: "('e, 'f, 'a) event_handler" where
  "NewEventHandler = \<lparr>slots = (\<lambda>_. None), objs = (\<lambda>_. new_slot 0), nslots = 0, eversion = 0\<rparr>"

definition eh_register :: "'e \<Rightarrow> bool \<Rightarrow> 'f \<Rightarrow> ('e, 'f, 'a) event_handler \<Rightarrow>
    (('e, 'f, 'a) event_handler \<times> 'e handle) go" where
  "eh_register event once fn t =
     (let (t1, n) =
        (case slots t event of
           Some n \<Rightarrow> (t, n)
         | None \<Rightarrow> (let v = eversion t + 1; n = nslots t in
                    (t\<lparr>eversion := v, objs := (objs t)(n := new_slot v), nslots := Suc n,
                       slots := (slots t)(event := Some n)\<rparr>, n)));
         (s1, h) = new_handle once fn (objs t1 n)
      in map_ret (\<lambda>s2. (t1\<lparr>objs := (objs t1)(n := s2)\<rparr>, (event, n, h))) (slot_register h s1))"

definition Register :: "'e \<Rightarrow> 'f \<Rightarrow> ('e, 'f, 'a) event_handler \<Rightarrow> (('e, 'f, 'a) event_handler \<times> 'e handle) go" where
  "Register event fn t = eh_register event False fn t"

definition RegisterOnce :: "'e \<Rightarrow> 'f \<Rightarrow> ('e, 'f, 'a) event_handler \<Rightarrow> (('e, 'f, 'a) event_handler \<times> 'e handle) go" where
  "RegisterOnce event fn t = eh_register event True fn t"

definition Remove :: "'e handle \<Rightarrow> ('e, 'f, 'a) event_handler \<Rightarrow> ('e, 'f, 'a) event_handler go" where
  "Remove hh t =
     (case hh of (event, m, h) \<Rightarrow>
       (case slots t event of
          None \<Rightarrow> Ret t
        | Some n \<Rightarrow>
            if hversion (objs t m) h = sversion (objs t n)
            then map_ret (\<lambda>s. t\<lparr>objs := (objs t)(n := s)\<rparr>) (slot_remove h (objs t n))
            else Ret t))"

definition Emit :: "nat \<Rightarrow> ('f, 'a) calls \<Rightarrow> 'e \<Rightarrow> 'a \<Rightarrow> ('e, 'f, 'a) event_handler \<Rightarrow>
    (('e, 'f, 'a) event_handler \<times> (addr \<times> 'a) list) go option" where
  "Emit fuel call event args t =
     (case slots t event of
        None \<Rightarrow> Some (Ret (t, []))
      | Some n \<Rightarrow> map_option (map_ret (\<lambda>(s, log). (t\<lparr>objs := (objs t)(n := s)\<rparr>, log))) (slot_emit fuel call args (objs t n)))"

definition Clear :: "'e \<Rightarrow> ('e, 'f, 'a) event_handler \<Rightarrow> ('e, 'f, 'a) event_handler" where
  "Clear event t = t\<lparr>slots := (slots t)(event := None)\<rparr>"

section \<open>Specification\<close>

text \<open>The event as lists: the handlers in registration order, the deferred operations in the order they came.\<close>

record ('f, 'a) aslot =
  ahs :: "addr list"
  aops :: "'a op list"
  aalloc :: nat
  afn :: "addr \<Rightarrow> 'f option"
  aonce :: "addr \<Rightarrow> bool"

definition aserve :: "('f, 'a) request \<Rightarrow> ('f, 'a) aslot \<Rightarrow> ('f, 'a) aslot" where
  "aserve rq A =
     (case rq of
        RRegister once fn \<Rightarrow>
          A\<lparr>aalloc := Suc (aalloc A), afn := (afn A)(aalloc A := Some fn), aonce := (aonce A)(aalloc A := once),
            aops := aops A @ [OpRegister (aalloc A)]\<rparr>
      | RRemove h \<Rightarrow> if h \<in> set (ahs A) then A\<lparr>aops := aops A @ [OpDelete h]\<rparr> else A
      | REmit args \<Rightarrow> A\<lparr>aops := aops A @ [OpEmit args]\<rparr>)"

primrec aemit :: "('f, 'a) calls \<Rightarrow> 'a \<Rightarrow> addr list \<Rightarrow> ('f, 'a) aslot \<times> (addr \<times> 'a) list \<Rightarrow>
    ('f, 'a) aslot \<times> (addr \<times> 'a) list" where
  "aemit call args [] st = st"
| "aemit call args (h # hs) st =
     (let A1 = fold aserve (call (length (snd st)) (the (afn (fst st) h)) h args) (fst st);
          A2 = (if aonce A1 h then A1\<lparr>ahs := remove1 h (ahs A1)\<rparr> else A1)
      in aemit call args hs (A2, snd st @ [(h, args)]))"

fun aloop :: "nat \<Rightarrow> ('f, 'a) calls \<Rightarrow> ('f, 'a) aslot \<times> (addr \<times> 'a) list \<Rightarrow>
    (('f, 'a) aslot \<times> (addr \<times> 'a) list) option" where
  "aloop 0 call st = None"
| "aloop (Suc fuel) call (A, log) =
     (case aops A of
        [] \<Rightarrow> Some (A, log)
      | OpDelete h # ops \<Rightarrow> aloop fuel call (A\<lparr>aops := ops, ahs := remove1 h (ahs A)\<rparr>, log)
      | OpRegister h # ops \<Rightarrow> aloop fuel call (A\<lparr>aops := ops, ahs := ahs A @ [h]\<rparr>, log)
      | OpEmit args # ops \<Rightarrow> aloop fuel call (aemit call args (ahs A) (A\<lparr>aops := ops\<rparr>, log)))"

section \<open>Abstraction\<close>

primrec regs :: "'a op list \<Rightarrow> addr list" where
  "regs [] = []"
| "regs (v # ops) = (case v of OpRegister h \<Rightarrow> h # regs ops | _ \<Rightarrow> regs ops)"

lemma regs_append [simp]: "regs (xs @ ys) = regs xs @ regs ys"
  by (induction xs) (auto split: op.splits)

definition list_rep :: "('f, 'a) hslot \<Rightarrow> addr list \<Rightarrow> bool" where
  "list_rep s hs \<longleftrightarrow>
     dseg (hlinks s) (hhead s) hs (htail s) \<and> pprev (hlinks s) (htail s) = Some (last (hhead s # hs)) \<and>
     distinct (hhead s # htail s # hs) \<and> (\<forall>h. hversion s h = sversion s \<longleftrightarrow> h \<in> set hs)"

definition ops_rep :: "('f, 'a) hslot \<Rightarrow> 'a op list \<Rightarrow> bool" where
  "ops_rep s ops \<longleftrightarrow>
     (\<exists>as. circ (opnext s, pendingOP s) as \<and> map (opval s) as = map Some ops \<and> (\<forall>a \<in> set as. a < opalloc s))"

definition pend_ok :: "('f, 'a) hslot \<Rightarrow> addr list \<Rightarrow> bool" where
  "pend_ok s hs \<longleftrightarrow>
     distinct (hhead s # htail s # hs) \<and> sversion s \<noteq> 0 \<and> hhead s < halloc s \<and> htail s < halloc s \<and>
     (\<forall>h \<in> set hs. h < halloc s \<and> hfn s h \<noteq> None)"

definition slot_rep :: "('f, 'a) hslot \<Rightarrow> ('f, 'a) aslot \<Rightarrow> bool" where
  "slot_rep s A \<longleftrightarrow>
     list_rep s (ahs A) \<and> ops_rep s (aops A) \<and> pend_ok s (ahs A @ regs (aops A)) \<and>
     aalloc A = halloc s \<and> afn A = hfn s \<and> aonce A = honce s"

lemma ops_rep_push: "ops_rep s ops \<Longrightarrow> ops_rep (slot_push v s) (ops @ [v])"
proof -
  assume "ops_rep s ops"
  then obtain as where a: "circ (opnext s, pendingOP s) as" "map (opval s) as = map Some ops" "\<forall>a \<in> set as. a < opalloc s"
    by (auto simp: ops_rep_def)
  obtain nxt t where p: "list_push (opalloc s) (opnext s, pendingOP s) = (nxt, t)" by fastforce
  have n: "opalloc s \<notin> set as" using a(3) by auto
  then have "circ (nxt, t) (as @ [opalloc s])" using circ_push [OF a(1) n] p by simp
  moreover have "map ((opval s)(opalloc s := Some v)) (as @ [opalloc s]) = map Some (ops @ [v])" using a(2) n by simp
  moreover have "\<forall>x \<in> set (as @ [opalloc s]). x < Suc (opalloc s)" using a(3) by (auto simp: less_Suc_eq)
  ultimately show ?thesis using p
    by (auto simp: ops_rep_def slot_push_def Let_def intro!: exI [of _ "as @ [opalloc s]"])
qed

lemma slot_push_frame [simp]:
  "hlinks (slot_push v s) = hlinks s" "hfn (slot_push v s) = hfn s" "honce (slot_push v s) = honce s"
  "hversion (slot_push v s) = hversion s" "halloc (slot_push v s) = halloc s" "hhead (slot_push v s) = hhead s"
  "htail (slot_push v s) = htail s" "emiting (slot_push v s) = emiting s" "sversion (slot_push v s) = sversion s"
  by (simp_all add: slot_push_def Let_def split: prod.splits)

lemma slot_push_rep:
  assumes "slot_rep s A" and "pend_ok s (ahs A @ regs (aops A) @ regs [v])"
  shows "slot_rep (slot_push v s) (A\<lparr>aops := aops A @ [v]\<rparr>)"
  using assms ops_rep_push [of s "aops A" v] by (simp add: slot_rep_def list_rep_def pend_ok_def)

lemma slot_pop_Nil: "slot_rep s A \<Longrightarrow> aops A = [] \<Longrightarrow> slot_pop s = Ret (s, None)"
  using cl.pop_Nil [of "(opnext s, pendingOP s)"] by (auto simp: slot_rep_def ops_rep_def slot_pop_def)

lemma slot_pop_Cons:
  assumes rep: "slot_rep s A" and ops: "aops A = v # ops"
  shows "\<exists>nxt t. slot_pop s = Ret (s\<lparr>opnext := nxt, pendingOP := t\<rparr>, Some v) \<and>
           ops_rep (s\<lparr>opnext := nxt, pendingOP := t\<rparr>) ops"
proof -
  obtain a as where a: "circ (opnext s, pendingOP s) (a # as)" "opval s a = Some v" "map (opval s) as = map Some ops"
      "\<forall>x \<in> set as. x < opalloc s"
    using rep ops by (auto simp: slot_rep_def ops_rep_def Cons_eq_map_conv map_eq_Cons_conv)
  obtain nxt t where "list_pop (opnext s, pendingOP s) = Ret ((nxt, t), Some a)" "circ (nxt, t) as"
    using cl.pop_Cons [OF a(1)] by auto
  then show ?thesis using a by (auto simp: slot_pop_def ops_rep_def intro!: exI [of _ nxt] exI [of _ t])
qed

lemma doRegister_rep:
  assumes lr: "list_rep s hs" and ok: "pend_ok s (hs @ [h])"
  shows "\<exists>l. doRegister h s = Ret (s\<lparr>hversion := (hversion s)(h := sversion s), hlinks := l\<rparr>) \<and>
             list_rep (s\<lparr>hversion := (hversion s)(h := sversion s), hlinks := l\<rparr>) (hs @ [h])"
proof -
  have r: "dseg (hlinks s) (hhead s) hs (htail s)" "pprev (hlinks s) (htail s) = Some (last (hhead s # hs))"
      "distinct (hhead s # htail s # hs)" "\<forall>x. hversion s x = sversion s \<longleftrightarrow> x \<in> set hs"
    using lr by (simp_all add: list_rep_def)
  have h: "h \<noteq> hhead s" "h \<noteq> htail s" "h \<notin> set hs" using ok by (auto simp: pend_ok_def)
  define p where "p = last (hhead s # hs)"
  define l where "l = set_prev (htail s) (Some h) (set_prev h (Some p)
     (set_next h (Some (htail s)) (set_next p (Some h) (hlinks s))))"
  have p: "p \<noteq> htail s" "p \<noteq> h" using r(3) h last_in_set [of "hhead s # hs"] by (auto simp: p_def)
  have "doRegister h s = Ret (s\<lparr>hversion := (hversion s)(h := sversion s), hlinks := l\<rparr>)"
    using r(2) p h by (simp add: doRegister_def Let_def p_def l_def)
  moreover have "dseg l (hhead s) (hs @ [h]) (htail s)"
  proof (rule dseg_append_back [OF r(1)])
    show "nnext l = (nnext (hlinks s))(last (hhead s # hs) := Some h, h := Some (htail s))" by (simp add: l_def p_def)
    show "pprev l h = Some (last (hhead s # hs))" using h by (simp add: l_def p_def)
    show "pprev l x = pprev (hlinks s) x" if "x \<in> set hs" for x using that h r(3) by (auto simp: l_def)
  qed (use r(3) h in auto)
  moreover have "pprev l (htail s) = Some (last (hhead s # hs @ [h]))" by (simp add: l_def)
  ultimately show ?thesis using r(3,4) h by (auto simp: list_rep_def)
qed

lemma doRemove_rep:
  assumes lr: "list_rep s hs" and v: "sversion s \<noteq> 0"
  shows "\<exists>l w. doRemove h s = Ret (s\<lparr>hlinks := l, hversion := w\<rparr>) \<and>
             list_rep (s\<lparr>hlinks := l, hversion := w\<rparr>) (remove1 h hs)"
proof (cases "h \<in> set hs")
  case False
  then have "hversion s h \<noteq> sversion s" using lr by (simp add: list_rep_def)
  then have "doRemove h s = Ret (s\<lparr>hlinks := hlinks s, hversion := hversion s\<rparr>)" by (simp add: doRemove_def)
  then show ?thesis using lr False remove1_idem by fastforce
next
  case True
  then obtain xs ys where hs: "hs = xs @ h # ys" "h \<notin> set xs" using split_list_first by metis
  have r: "dseg (hlinks s) (hhead s) (xs @ h # ys) (htail s)" "pprev (hlinks s) (htail s) = Some (last (hhead s # xs @ h # ys))"
      "distinct (hhead s # htail s # xs @ h # ys)" "\<forall>x. hversion s x = sversion s \<longleftrightarrow> x \<in> set (xs @ h # ys)"
    using lr hs(1) by (simp_all add: list_rep_def)
  define p n where "p = last (hhead s # xs)" and "n = hd (ys @ [htail s])"
  have nb: "pprev (hlinks s) h = Some p" "nnext (hlinks s) h = Some n"
    using dseg_neighbours [OF r(1)] by (simp_all add: p_def n_def)
  have "p \<in> set (hhead s # xs)" unfolding p_def by (rule last_in_set) simp
  then have pn: "p \<noteq> h" "p \<noteq> htail s" using r(3) by auto
  have "n \<in> set (ys @ [htail s])" unfolding n_def by (rule hd_in_set) simp
  then have nh: "n \<noteq> h" using r(3) by auto
  define l where "l = unlink p h n (hlinks s)"
  have "doRemove h s = Ret (s\<lparr>hlinks := l, hversion := (hversion s)(h := 0)\<rparr>)"
    using r(4) nb pn nh by (simp add: doRemove_def Let_def l_def unlink_def)
  moreover have "dseg l (hhead s) (xs @ ys) (htail s)"
    unfolding l_def by (rule dseg_unlink [OF r(1)]) (use r(3) in \<open>auto simp: p_def n_def\<close>)
  moreover have "pprev l (htail s) = Some (last (hhead s # xs @ ys))"
  proof (cases ys rule: rev_cases)
    case Nil
    then show ?thesis using nh by (simp add: l_def unlink_def n_def p_def)
  next
    case (snoc zs z)
    then have "n \<noteq> htail s" using r(3) by (cases zs) (auto simp: n_def)
    then show ?thesis using r(2,3) snoc unlink_frame(2) [of "htail s" n h p "hlinks s"] by (auto simp: l_def)
  qed
  moreover have "(((hversion s)(h := 0)) x = sversion s) = (x \<in> set (xs @ ys))" for x
    using r(3,4) v by auto
  moreover have "remove1 h hs = xs @ ys" using hs by (simp add: remove1_append)
  ultimately have "list_rep (s\<lparr>hlinks := l, hversion := (hversion s)(h := 0)\<rparr>) (remove1 h hs)"
    using r(3) by (auto simp: list_rep_def)
  then show ?thesis using \<open>doRemove h s = _\<close> by blast
qed

section \<open>Refinement\<close>

lemma new_handle_rep:
  assumes "slot_rep s A" and "new_handle once fn s = (s1, h)"
  shows "h = halloc s \<and> emiting s1 = emiting s \<and> slot_rep s1 (A\<lparr>aalloc := Suc h, afn := (afn A)(h := Some fn), aonce := (aonce A)(h := once)\<rparr>) \<and>
         pend_ok s1 (ahs A @ regs (aops A) @ [h])"
proof -
  have h: "h = halloc s" and s1: "s1 = s\<lparr>halloc := Suc h, hfn := (hfn s)(h := Some fn), honce := (honce s)(h := once),
         hversion := (hversion s)(h := 0)\<rparr>"
    using assms(2) by (auto simp: new_handle_def Let_def)
  have r: "list_rep s (ahs A)" "ops_rep s (aops A)" "pend_ok s (ahs A @ regs (aops A))"
      "aalloc A = halloc s" "afn A = hfn s" "aonce A = honce s"
    using assms(1) by (simp_all add: slot_rep_def)
  have new: "h \<notin> set (ahs A)" "h \<notin> set (regs (aops A))" "h \<noteq> hhead s" "h \<noteq> htail s" "sversion s \<noteq> 0"
    using r(3) h by (auto simp: pend_ok_def)
  have "list_rep s1 (ahs A)" using r(1) new by (auto simp: list_rep_def s1)
  moreover have "ops_rep s1 (aops A)" using r(2) by (simp add: ops_rep_def s1)
  moreover have p: "pend_ok s1 (ahs A @ regs (aops A) @ [h])"
    using r(3) new h by (auto simp: pend_ok_def s1 less_Suc_eq)
  then have "pend_ok s1 (ahs A @ regs (aops A))" by (auto simp: pend_ok_def)
  ultimately show ?thesis using r h p by (simp add: slot_rep_def s1)
qed

lemma serve_rep:
  assumes rep: "slot_rep s A" and em: "emiting s"
  shows "\<exists>s'. serve rq s = Ret s' \<and> slot_rep s' (aserve rq A) \<and> emiting s' \<and> hhead s' = hhead s \<and> htail s' = htail s"
proof (cases rq)
  case (RRegister once fn)
  obtain s1 h where n: "new_handle once fn s = (s1, h)" by fastforce
  note nr = new_handle_rep [OF rep n]
  have al: "aalloc A = halloc s" using rep by (simp add: slot_rep_def)
  have "slot_rep (slot_push (OpRegister h) s1) (aserve rq A)"
    using slot_push_rep [OF nr [THEN conjunct2, THEN conjunct2, THEN conjunct1], of "OpRegister h"] nr al
    by (auto simp: aserve_def RRegister)
  moreover have "serve rq s = Ret (slot_push (OpRegister h) s1)"
    using n nr em by (simp add: serve_def RRegister slot_register_def)
  moreover have "hhead s1 = hhead s \<and> htail s1 = htail s" using n by (auto simp: new_handle_def Let_def)
  ultimately show ?thesis using nr em by simp
next
  case (RRemove h)
  have "(hversion s h = sversion s) = (h \<in> set (ahs A))" using rep by (simp add: slot_rep_def list_rep_def)
  moreover have "slot_rep (slot_push (OpDelete h) s) (A\<lparr>aops := aops A @ [OpDelete h]\<rparr>)"
    using slot_push_rep [OF rep, of "OpDelete h"] rep by (simp add: slot_rep_def)
  ultimately show ?thesis using rep em by (auto simp: serve_def RRemove aserve_def slot_remove_def)
next
  case (REmit args)
  have "slot_rep (slot_push (OpEmit args) s) (A\<lparr>aops := aops A @ [OpEmit args]\<rparr>)"
    using slot_push_rep [OF rep, of "OpEmit args"] rep by (simp add: slot_rep_def)
  then show ?thesis using em by (simp add: serve_def REmit aserve_def)
qed

lemma serve_all_rep:
  assumes "slot_rep s A" and "emiting s"
  shows "\<exists>s'. serve_all rqs s = Ret s' \<and> slot_rep s' (fold aserve rqs A) \<and> emiting s' \<and> hhead s' = hhead s \<and> htail s' = htail s"
  using assms
proof (induction rqs arbitrary: s A)
  case (Cons rq rqs)
  obtain s1 where s1: "serve rq s = Ret s1" "slot_rep s1 (aserve rq A)" "emiting s1" "hhead s1 = hhead s" "htail s1 = htail s"
    using serve_rep [OF Cons.prems] by metis
  then show ?case using Cons.IH [OF s1(2,3)] by auto
qed simp

lemma aserve_ahs [simp]: "ahs (aserve rq A) = ahs A"
  by (simp add: aserve_def split: request.splits)

lemma fold_aserve_ahs [simp]: "ahs (fold aserve rqs A) = ahs A"
  by (induction rqs arbitrary: A) simp_all

lemma remove_rep:
  assumes rep: "slot_rep s A"
  shows "\<exists>s'. doRemove h s = Ret s' \<and> slot_rep s' (A\<lparr>ahs := remove1 h (ahs A)\<rparr>) \<and> emiting s' = emiting s \<and>
           hhead s' = hhead s \<and> htail s' = htail s"
proof -
  have r: "list_rep s (ahs A)" "ops_rep s (aops A)" "pend_ok s (ahs A @ regs (aops A))"
      "aalloc A = halloc s" "afn A = hfn s" "aonce A = honce s"
    using rep by (simp_all add: slot_rep_def)
  obtain l w where d: "doRemove h s = Ret (s\<lparr>hlinks := l, hversion := w\<rparr>)" "list_rep (s\<lparr>hlinks := l, hversion := w\<rparr>) (remove1 h (ahs A))"
    using doRemove_rep [OF r(1), of h] r(3) by (auto simp: pend_ok_def)
  have "pend_ok s (remove1 h (ahs A) @ regs (aops A))"
    using r(3) set_remove1_subset [of h "ahs A"] by (auto simp: pend_ok_def)
  then have "slot_rep (s\<lparr>hlinks := l, hversion := w\<rparr>) (A\<lparr>ahs := remove1 h (ahs A)\<rparr>)"
    using r d(2) by (simp add: slot_rep_def ops_rep_def pend_ok_def)
  then show ?thesis using d(1) by auto
qed

lemma emit_list_rep:
  assumes "slot_rep s A" and "emiting s" and "ahs A = xs @ hs" and "length hs < fuel"
  shows "\<exists>s' A' log'. emit_list fuel call args (Some (hd (hs @ [htail s]))) (s, log) = Some (Ret (s', log')) \<and>
           aemit call args hs (A, log) = (A', log') \<and> slot_rep s' A' \<and> emiting s' \<and> htail s' = htail s \<and> hhead s' = hhead s"
  using assms
proof (induction hs arbitrary: s A xs fuel log)
  case Nil
  then show ?case by (cases fuel) auto
next
  case (Cons h hs)
  obtain n where n: "fuel = Suc n" using Cons.prems(4) by (cases fuel) auto
  have in_list: "h \<in> set (ahs A)" using Cons.prems(3) by simp
  have ok: "pend_ok s (ahs A @ regs (aops A))" and afn: "afn A = hfn s" using Cons.prems(1) by (simp_all add: slot_rep_def)
  obtain fn where fn: "hfn s h = Some fn" and ht: "h \<noteq> htail s" using ok in_list by (auto simp: pend_ok_def)
  let ?rqs = "call (length log) fn h args"
  obtain s1 where s1: "serve_all ?rqs s = Ret s1" "slot_rep s1 (fold aserve ?rqs A)" "emiting s1" "hhead s1 = hhead s" "htail s1 = htail s"
    using serve_all_rep [OF Cons.prems(1,2)] by metis
  let ?A1 = "fold aserve ?rqs A"
  have seg: "dseg (hlinks s1) (hhead s1) (xs @ h # hs) (htail s1)" using s1(2) Cons.prems(3) by (simp add: slot_rep_def list_rep_def)
  have nxt: "nnext (hlinks s1) h = Some (hd (hs @ [htail s1]))" using dseg_neighbours(2) [OF seg] .
  let ?A2 = "if aonce ?A1 h then ?A1\<lparr>ahs := remove1 h (ahs ?A1)\<rparr> else ?A1"
  have o: "aonce ?A1 = honce s1" using s1(2) by (simp add: slot_rep_def)
  obtain s2 where s2: "(if honce s1 h then doRemove h s1 else Ret s1) = Ret s2" "slot_rep s2 ?A2" "emiting s2"
      "hhead s2 = hhead s" "htail s2 = htail s"
    using remove_rep [OF s1(2), of h] s1 o by (cases "honce s1 h") auto
  have "\<exists>ys. ahs ?A2 = ys @ hs"
  proof -
    have "h \<notin> set xs" using ok Cons.prems(3) by (auto simp: pend_ok_def)
    then have "remove1 h (ahs ?A1) = xs @ hs" using Cons.prems(3) by (simp add: remove1_append)
    moreover have "ahs ?A1 = (xs @ [h]) @ hs" using Cons.prems(3) by simp
    ultimately show ?thesis by (cases "aonce ?A1 h") auto
  qed
  then obtain ys where ys: "ahs ?A2 = ys @ hs" by blast
  obtain s' A' log' where ih: "emit_list n call args (Some (hd (hs @ [htail s2]))) (s2, log @ [(h, args)]) = Some (Ret (s', log'))"
      "aemit call args hs (?A2, log @ [(h, args)]) = (A', log')" "slot_rep s' A'" "emiting s'" "htail s' = htail s2" "hhead s' = hhead s2"
    using Cons.IH [OF s2(2,3) ys, of n "log @ [(h, args)]"] Cons.prems(4) n by auto
  have "emit_list fuel call args (Some (hd ((h # hs) @ [htail s]))) (s, log) = Some (Ret (s', log'))"
    using ht fn s1(1,5) nxt s2(1,5) ih(1) by (simp add: n Let_def)
  moreover have "aemit call args (h # hs) (A, log) = (A', log')"
    using ih(2) fn afn by (simp add: Let_def)
  ultimately show ?case using ih s2 by auto
qed

lemma rep_bound:
  assumes "slot_rep s A"
  shows "length (ahs A) < Suc (halloc s)"
proof -
  have d: "distinct (ahs A)" "set (ahs A) \<subseteq> {..<halloc s}"
    using assms by (auto simp: slot_rep_def pend_ok_def)
  show ?thesis using card_mono [OF _ d(2)] distinct_card [OF d(1)] by simp
qed

lemma rep_first: "slot_rep s A \<Longrightarrow> nnext (hlinks s) (hhead s) = Some (hd (ahs A @ [htail s]))"
  by (cases "ahs A") (simp_all add: slot_rep_def list_rep_def)

lemma emit_loop_rep:
  assumes "slot_rep s A" and "emiting s"
  shows "(case aloop fuel call (A, log) of
            None \<Rightarrow> emit_loop fuel call (s, log) = None
          | Some (A', log') \<Rightarrow> \<exists>s'. emit_loop fuel call (s, log) = Some (Ret (s', log')) \<and> slot_rep s' A' \<and>
                                  \<not> emiting s' \<and> aops A' = [])"
  using assms
proof (induction fuel arbitrary: s A log)
  case (Suc fuel)
  note rep = Suc.prems(1)
  show ?case
  proof (cases "aops A")
    case Nil
    then have "slot_pop s = Ret (s, None)" using slot_pop_Nil [OF rep] by simp
    moreover have "slot_rep (s\<lparr>emiting := False\<rparr>) A"
      using rep by (simp add: slot_rep_def list_rep_def ops_rep_def pend_ok_def)
    ultimately show ?thesis using Nil by simp
  next
    case (Cons v ops)
    obtain nxt t where pop: "slot_pop s = Ret (s\<lparr>opnext := nxt, pendingOP := t\<rparr>, Some v)"
        "ops_rep (s\<lparr>opnext := nxt, pendingOP := t\<rparr>) ops"
      using slot_pop_Cons [OF rep Cons] by blast
    let ?s = "s\<lparr>opnext := nxt, pendingOP := t\<rparr>" and ?A = "A\<lparr>aops := ops\<rparr>"
    have r: "list_rep ?s (ahs A)" "pend_ok ?s (ahs A @ regs (v # ops))"
        "aalloc A = halloc s" "afn A = hfn s" "aonce A = honce s"
      using rep Cons by (simp_all add: slot_rep_def list_rep_def pend_ok_def)
    have ok: "pend_ok ?s (ahs A @ regs ops)" using r(2) by (cases v) (auto simp: pend_ok_def)
    have rep1: "slot_rep ?s ?A" using r ok pop(2) by (simp add: slot_rep_def)
    have em: "emiting ?s" using Suc.prems(2) by simp
    show ?thesis
    proof (cases v)
      case (OpDelete h)
      let ?A2 = "?A\<lparr>ahs := remove1 h (ahs A)\<rparr>"
      obtain s2 where d: "doRemove h ?s = Ret s2" "slot_rep s2 ?A2" "emiting s2"
        using remove_rep [OF rep1, of h] em by auto
      have "emit_loop (Suc fuel) call (s, log) = emit_loop fuel call (s2, log)" using pop(1) OpDelete d(1) by simp
      moreover have "aloop (Suc fuel) call (A, log) = aloop fuel call (?A2, log)" using Cons OpDelete by simp
      ultimately show ?thesis using Suc.IH [OF d(2,3), of log] by (simp only:)
    next
      case (OpRegister h)
      have "pend_ok ?s (ahs A @ [h])" using r(2) OpRegister by (auto simp: pend_ok_def)
      then obtain l where d: "doRegister h ?s = Ret (?s\<lparr>hversion := (hversion ?s)(h := sversion ?s), hlinks := l\<rparr>)"
          "list_rep (?s\<lparr>hversion := (hversion ?s)(h := sversion ?s), hlinks := l\<rparr>) (ahs A @ [h])"
        using doRegister_rep [OF r(1)] by blast
      let ?s2 = "?s\<lparr>hversion := (hversion ?s)(h := sversion ?s), hlinks := l\<rparr>"
      have "slot_rep ?s2 (?A\<lparr>ahs := ahs A @ [h]\<rparr>)"
        using d(2) r pop(2) OpRegister by (simp add: slot_rep_def ops_rep_def pend_ok_def)
      moreover have "emiting ?s2" using em by simp
      moreover have "emit_loop (Suc fuel) call (s, log) = emit_loop fuel call (?s2, log)" using pop(1) OpRegister d(1) by simp
      moreover have "aloop (Suc fuel) call (A, log) = aloop fuel call (?A\<lparr>ahs := ahs A @ [h]\<rparr>, log)" using Cons OpRegister by simp
      ultimately show ?thesis using Suc.IH [of ?s2 "?A\<lparr>ahs := ahs A @ [h]\<rparr>" log] by (simp only: simp_thms)
    next
      case (OpEmit args)
      have "length (ahs ?A) < Suc (halloc ?s)" using rep_bound [OF rep1] .
      then obtain s' A' log' where e: "emit_list (Suc (halloc ?s)) call args (nnext (hlinks ?s) (hhead ?s)) (?s, log) = Some (Ret (s', log'))"
          "aemit call args (ahs A) (?A, log) = (A', log')" "slot_rep s' A'" "emiting s'"
        using emit_list_rep [OF rep1 em, of "[]" "ahs A" "Suc (halloc ?s)" call args log] rep_first [OF rep1]
        by (auto simp del: emit_list.simps)
      have "emit_loop (Suc fuel) call (s, log) = emit_loop fuel call (s', log')"
        unfolding emit_loop.simps pop(1) OpEmit go.case prod.case option.case op.case e(1) ..
      moreover have "aloop (Suc fuel) call (A, log) = aloop fuel call (A', log')" using Cons OpEmit e(2) by simp
      ultimately show ?thesis using Suc.IH [OF e(3,4), of log'] by (simp only:)
    qed
  qed
qed simp

section \<open>Runs\<close>

text \<open>A handler list with no deferred operation, as an idle event has.\<close>

lemma idle_emit:
  assumes "slot_rep s A" and "\<not> emiting s"
  shows "\<exists>s1. slot_push (OpEmit args) s = s1 \<and> slot_rep (s1\<lparr>emiting := True\<rparr>) (A\<lparr>aops := aops A @ [OpEmit args]\<rparr>) \<and> \<not> emiting s1"
proof -
  have "slot_rep (slot_push (OpEmit args) s) (A\<lparr>aops := aops A @ [OpEmit args]\<rparr>)"
    using slot_push_rep [OF assms(1), of "OpEmit args"] assms(1) by (simp add: slot_rep_def)
  then have "slot_rep ((slot_push (OpEmit args) s)\<lparr>emiting := True\<rparr>) (A\<lparr>aops := aops A @ [OpEmit args]\<rparr>)"
    by (simp add: slot_rep_def list_rep_def ops_rep_def pend_ok_def)
  then show ?thesis using assms(2) by simp
qed

text \<open>C20. Emission refines its specification: with the lock held the slot implements, down to the pointers, a list
  of handlers and a queue of operations. Whatever handlers and other goroutines ask of the event while handlers run is
  done in the order it came, each emission calls the handlers registered at its turn once and in order, and the loop
  neither panics nor ends early.\<close>

theorem emit_refines:
  assumes "slot_rep s A" and "\<not> emiting s"
  shows "(case aloop fuel call (A\<lparr>aops := aops A @ [OpEmit args]\<rparr>, []) of
            None \<Rightarrow> slot_emit fuel call args s = None
          | Some (A', log) \<Rightarrow> \<exists>s'. slot_emit fuel call args s = Some (Ret (s', log)) \<and> slot_rep s' A' \<and>
                                  \<not> emiting s' \<and> aops A' = [])"
proof -
  obtain s1 where s1: "slot_push (OpEmit args) s = s1"
      "slot_rep (s1\<lparr>emiting := True\<rparr>) (A\<lparr>aops := aops A @ [OpEmit args]\<rparr>)" "\<not> emiting s1"
    using idle_emit [OF assms] by blast
  have "slot_emit fuel call args s = emit_loop fuel call (s1\<lparr>emiting := True\<rparr>, [])"
    using s1 by (simp add: slot_emit_def)
  then show ?thesis using emit_loop_rep [OF s1(2), of fuel call "[]"] by (simp only:) simp
qed

lemma aemit_log: "snd (aemit call args hs st) = snd st @ map (\<lambda>h. (h, args)) hs"
  by (induction hs arbitrary: st) (simp_all add: Let_def)

lemma aemit_quiet:
  "distinct (xs @ hs) \<Longrightarrow> ahs A = xs @ hs \<Longrightarrow>
     fst (aemit (\<lambda>_ _ _ _. []) args hs (A, log)) = A\<lparr>ahs := xs @ filter (\<lambda>h. \<not> aonce A h) hs\<rparr>"
proof (induction hs arbitrary: A xs log)
  case (Cons h hs)
  show ?case
  proof (cases "aonce A h")
    case True
    have "remove1 h (ahs A) = xs @ hs" using Cons.prems by (simp add: remove1_append)
    then show ?thesis using Cons.IH [of xs "A\<lparr>ahs := xs @ hs\<rparr>"] Cons.prems True by (simp add: Let_def)
  next
    case False
    then show ?thesis using Cons.IH [of "xs @ [h]" A] Cons.prems by (simp add: Let_def)
  qed
qed simp

text \<open>With handlers that leave the event alone, \<open>Emit\<close> returns after it called every registered handler exactly
  once, in registration order and with the given arguments; the handlers of \<open>RegisterOnce\<close> are gone afterwards and all
  others are still registered, in the same order.\<close>

theorem emit_calls_handlers:
  assumes "slot_rep s A" and "\<not> emiting s" and "aops A = []"
  shows "\<exists>s'. slot_emit (Suc (Suc n)) (\<lambda>_ _ _ _. []) args s = Some (Ret (s', map (\<lambda>h. (h, args)) (ahs A))) \<and>
           slot_rep s' (A\<lparr>ahs := filter (\<lambda>h. \<not> honce s h) (ahs A)\<rparr>) \<and> \<not> emiting s'"
proof -
  have A: "A\<lparr>aops := []\<rparr> = A" using assms(3) by (cases A) simp
  have d: "distinct ([] @ ahs A)" and o: "aonce A = honce s" using assms(1) by (auto simp: slot_rep_def pend_ok_def)
  have e: "aemit (\<lambda>_ _ _ _. []) args (ahs A) (A, []) = (A\<lparr>ahs := filter (\<lambda>h. \<not> honce s h) (ahs A)\<rparr>, map (\<lambda>h. (h, args)) (ahs A))"
    using aemit_quiet [OF d, of A args "[]"] aemit_log [of "\<lambda>_ _ _ _. []" args "ahs A" "(A, [])"] o by (simp add: prod_eq_iff)
  have "aloop (Suc (Suc n)) (\<lambda>_ _ _ _. []) (A\<lparr>aops := aops A @ [OpEmit args]\<rparr>, [])
      = Some (A\<lparr>ahs := filter (\<lambda>h. \<not> honce s h) (ahs A)\<rparr>, map (\<lambda>h. (h, args)) (ahs A))"
    using assms(3) e by (simp add: A)
  moreover obtain s1 where s1: "slot_push (OpEmit args) s = s1"
      "slot_rep (s1\<lparr>emiting := True\<rparr>) (A\<lparr>aops := aops A @ [OpEmit args]\<rparr>)" "\<not> emiting s1"
    using idle_emit [OF assms(1,2)] by blast
  moreover have "slot_emit (Suc (Suc n)) (\<lambda>_ _ _ _. []) args s = emit_loop (Suc (Suc n)) (\<lambda>_ _ _ _. []) (s1\<lparr>emiting := True\<rparr>, [])"
    using s1 by (simp add: slot_emit_def)
  ultimately show ?thesis using emit_loop_rep [OF s1(2), of "Suc (Suc n)" "\<lambda>_ _ _ _. []" "[]"] by (simp only: option.case) auto
qed

section \<open>Handlers that run once\<close>

definition cnt :: "addr \<Rightarrow> (addr \<times> 'a) list \<Rightarrow> nat" where
  "cnt h log = length (filter (\<lambda>p. fst p = h) log)"

lemma cnt_simps [simp]: "cnt h [] = 0" "cnt h (log @ [(k, x)]) = cnt h log + (if k = h then 1 else 0)"
  by (simp_all add: cnt_def)

lemma cnt_fresh: "(\<And>p. p \<in> set log \<Longrightarrow> fst p \<noteq> h) \<Longrightarrow> cnt h log = 0"
  by (auto simp: cnt_def filter_empty_conv)

definition once_ok :: "('f, 'a) aslot \<Rightarrow> (addr \<times> 'a) list \<Rightarrow> bool" where
  "once_ok A log \<longleftrightarrow>
     distinct (ahs A @ regs (aops A)) \<and> (\<forall>h \<in> set (ahs A @ regs (aops A)) \<union> fst ` set log. h < aalloc A) \<and>
     (\<forall>h. aonce A h \<longrightarrow> cnt h log \<le> 1 \<and> (h \<in> set (ahs A @ regs (aops A)) \<longrightarrow> cnt h log = 0))"

lemma once_okD:
  assumes "once_ok A log"
  shows "distinct (ahs A @ regs (aops A))" and "\<forall>h \<in> set (ahs A @ regs (aops A)) \<union> fst ` set log. h < aalloc A"
    and "\<forall>h. aonce A h \<longrightarrow> cnt h log \<le> 1 \<and> (h \<in> set (ahs A @ regs (aops A)) \<longrightarrow> cnt h log = 0)"
  using assms unfolding once_ok_def by blast+

lemma once_ok_sub:
  assumes ok: "once_ok A log" and d: "distinct (ahs B @ regs (aops B))"
    and sub: "set (ahs B @ regs (aops B)) \<subseteq> set (ahs A @ regs (aops A))"
    and same: "aalloc B = aalloc A" "aonce B = aonce A"
  shows "once_ok B log"
proof -
  have "\<forall>h \<in> set (ahs B @ regs (aops B)) \<union> fst ` set log. h < aalloc B"
    unfolding same(1) by (rule ballI, rule bspec [OF once_okD(2) [OF ok]]) (use sub in blast)
  moreover have "\<forall>h. aonce B h \<longrightarrow> cnt h log \<le> 1 \<and> (h \<in> set (ahs B @ regs (aops B)) \<longrightarrow> cnt h log = 0)"
    using once_okD(3) [OF ok] sub same(2) by (metis subsetD)
  ultimately show ?thesis using d unfolding once_ok_def by (intro conjI)
qed

lemma once_ok_serve:
  assumes ok: "once_ok A log"
  shows "once_ok (aserve rq A) log"
proof (cases rq)
  case (RRegister once fn)
  have "aalloc A \<notin> set (ahs A @ regs (aops A)) \<union> fst ` set log" using once_okD(2) [OF ok] by blast
  moreover from this have "cnt (aalloc A) log = 0" by (intro cnt_fresh) (metis UnCI image_eqI)
  ultimately show ?thesis using ok by (auto simp: once_ok_def aserve_def RRegister less_Suc_eq)
next
  case (RRemove h)
  then show ?thesis using ok by (auto simp: once_ok_def aserve_def)
next
  case (REmit a)
  then show ?thesis using ok by (auto simp: once_ok_def aserve_def)
qed

lemma once_ok_serve_all: "once_ok A log \<Longrightarrow> once_ok (fold aserve rqs A) log"
  by (induction rqs arbitrary: A) (simp_all add: once_ok_serve)

lemma once_ok_call:
  assumes ok: "once_ok A log" and h: "h \<in> set (ahs A)"
  shows "once_ok (if aonce A h then A\<lparr>ahs := remove1 h (ahs A)\<rparr> else A) (log @ [(h, args)])"
proof -
  have d: "distinct (ahs A @ regs (aops A))" and lt: "\<forall>h \<in> set (ahs A @ regs (aops A)) \<union> fst ` set log. h < aalloc A"
    and c: "\<forall>h. aonce A h \<longrightarrow> cnt h log \<le> 1 \<and> (h \<in> set (ahs A @ regs (aops A)) \<longrightarrow> cnt h log = 0)"
    using once_okD [OF ok] .
  have sub: "set (remove1 h (ahs A)) = set (ahs A) - {h}" using d by (simp add: set_remove1_eq)
  have nr: "h \<notin> set (regs (aops A))" using d h by auto
  have lt': "\<forall>k \<in> set (ahs A @ regs (aops A)) \<union> fst ` set (log @ [(h, args)]). k < aalloc A" using lt h by auto
  show ?thesis
  proof (cases "aonce A h")
    case True
    have c': "aonce A k \<longrightarrow> cnt k (log @ [(h, args)]) \<le> 1 \<and>
        (k \<in> set (remove1 h (ahs A) @ regs (aops A)) \<longrightarrow> cnt k (log @ [(h, args)]) = 0)" for k
      using c [rule_format, of k] sub nr h by (cases "k = h") auto
    have "distinct (remove1 h (ahs A) @ regs (aops A))" using d sub by auto
    then show ?thesis using True lt' sub c' by (auto simp: once_ok_def simp del: cnt_simps)
  next
    case False
    have "aonce A k \<longrightarrow> cnt k (log @ [(h, args)]) \<le> 1 \<and>
        (k \<in> set (ahs A @ regs (aops A)) \<longrightarrow> cnt k (log @ [(h, args)]) = 0)" for k
      using c [rule_format, of k] False by (cases "k = h") auto
    then show ?thesis using False lt' d unfolding once_ok_def by (simp del: cnt_simps)
  qed
qed

lemma once_ok_emit:
  assumes "once_ok A log" and "ahs A = xs @ hs" and "aemit call args hs (A, log) = (A', log')"
  shows "once_ok A' log'"
  using assms
proof (induction hs arbitrary: A xs log)
  case (Cons h hs)
  let ?A1 = "fold aserve (call (length log) (the (afn A h)) h args) A"
  let ?A2 = "if aonce ?A1 h then ?A1\<lparr>ahs := remove1 h (ahs ?A1)\<rparr> else ?A1"
  have ok1: "once_ok ?A1 log" using once_ok_serve_all [OF Cons.prems(1)] .
  have h: "h \<in> set (ahs ?A1)" using Cons.prems(2) by simp
  have "h \<notin> set xs" using Cons.prems(1,2) by (auto simp: once_ok_def)
  then have "remove1 h (ahs ?A1) = xs @ hs" "ahs ?A1 = (xs @ [h]) @ hs" using Cons.prems(2) by (simp_all add: remove1_append)
  then obtain ys where ys: "ahs ?A2 = ys @ hs" by (cases "aonce ?A1 h") auto
  have "aemit call args hs (?A2, log @ [(h, args)]) = (A', log')" using Cons.prems(3) by (simp add: Let_def)
  then show ?case using Cons.IH [OF once_ok_call [OF ok1 h] ys] by blast
qed simp

lemma once_ok_loop: "once_ok A log \<Longrightarrow> aloop fuel call (A, log) = Some (A', log') \<Longrightarrow> once_ok A' log'"
proof (induction fuel arbitrary: A log)
  case (Suc fuel)
  show ?case
  proof (cases "aops A")
    case Nil
    then show ?thesis using Suc.prems by simp
  next
    case (Cons v ops)
    show ?thesis
    proof (cases v)
      case (OpDelete h)
      have "set (remove1 h (ahs A)) \<subseteq> set (ahs A)" by (rule set_remove1_subset)
      then have "once_ok (A\<lparr>aops := ops, ahs := remove1 h (ahs A)\<rparr>) log"
        using once_okD(1) [OF Suc.prems(1)] Cons OpDelete by (intro once_ok_sub [OF Suc.prems(1)]) auto
      then show ?thesis using Suc Cons OpDelete by simp
    next
      case (OpRegister h)
      have "once_ok (A\<lparr>aops := ops, ahs := ahs A @ [h]\<rparr>) log"
        using once_okD(1) [OF Suc.prems(1)] Cons OpRegister by (intro once_ok_sub [OF Suc.prems(1)]) auto
      then show ?thesis using Suc Cons OpRegister by simp
    next
      case (OpEmit args)
      have ok: "once_ok (A\<lparr>aops := ops\<rparr>) log"
        using once_okD(1) [OF Suc.prems(1)] Cons OpEmit by (intro once_ok_sub [OF Suc.prems(1)]) auto
      obtain A1 log1 where e: "aemit call args (ahs A) (A\<lparr>aops := ops\<rparr>, log) = (A1, log1)" by fastforce
      have "once_ok A1 log1" by (rule once_ok_emit [OF ok _ e, of "[]"]) simp
      then show ?thesis using Suc Cons OpEmit e by simp
    qed
  qed
qed simp

text \<open>A handler of \<open>RegisterOnce\<close> runs at most once in a whole emission, whatever is emitted, registered and removed
  while handlers run; it may be one that was registered during the emission.\<close>

theorem once_handler_runs_once:
  assumes "slot_rep s A" and "\<not> emiting s" and "slot_emit fuel call args s = Some (Ret (s', log))" and "honce s' h"
  shows "length (filter (\<lambda>p. fst p = h) log) \<le> 1"
proof -
  have r: "pend_ok s (ahs A @ regs (aops A))" "aalloc A = halloc s" using assms(1) by (simp_all add: slot_rep_def)
  have ok: "once_ok (A\<lparr>aops := aops A @ [OpEmit args]\<rparr>) []"
    using r by (simp add: once_ok_def pend_ok_def)
  obtain s1 where s1: "slot_push (OpEmit args) s = s1"
      "slot_rep (s1\<lparr>emiting := True\<rparr>) (A\<lparr>aops := aops A @ [OpEmit args]\<rparr>)" "\<not> emiting s1"
    using idle_emit [OF assms(1,2)] by blast
  let ?run = "aloop fuel call (A\<lparr>aops := aops A @ [OpEmit args]\<rparr>, [])"
  have e: "emit_loop fuel call (s1\<lparr>emiting := True\<rparr>, []) = Some (Ret (s', log))"
    using assms(3) s1 by (simp add: slot_emit_def)
  have em: "emiting (s1\<lparr>emiting := True\<rparr>)" by simp
  note rep = emit_loop_rep [OF s1(2) em, of fuel call "[]", unfolded e]
  obtain A' where A': "?run = Some (A', log)" "slot_rep s' A'"
    using rep by (cases ?run) auto
  have "aonce A' h" using A'(2) assms(4) by (simp add: slot_rep_def)
  then show ?thesis using once_okD(3) [OF once_ok_loop [OF ok A'(1)]] by (simp add: cnt_def)
qed

text \<open>A handle whose registration waits for the end of an emission cannot be removed: its version is not yet
  the slot's, so \<open>Remove\<close> returns without effect and the handler stays registered once the emission is over.\<close>

theorem pending_register_not_removable:
  assumes "slot_rep s A" and "emiting s"
  shows "serve_all [RRegister once fn, RRemove (halloc s)] s = serve_all [RRegister once fn] s \<and>
    (\<exists>s'. serve_all [RRegister once fn, RRemove (halloc s)] s = Ret s' \<and>
       slot_rep s' (aserve (RRegister once fn) A) \<and> halloc s \<in> set (regs (aops (aserve (RRegister once fn) A))))"
proof -
  obtain s1 where s1: "serve (RRegister once fn) s = Ret s1" "slot_rep s1 (aserve (RRegister once fn) A)"
    using serve_rep [OF assms, of "RRegister once fn"] by auto
  have "aalloc A = halloc s" using assms(1) by (simp add: slot_rep_def)
  moreover have "halloc s \<notin> set (ahs A)" using assms(1) by (auto simp: slot_rep_def pend_ok_def)
  moreover have "(hversion s1 (halloc s) = sversion s1) = (halloc s \<in> set (ahs A))"
    using s1(2) by (simp add: slot_rep_def list_rep_def)
  ultimately have "serve (RRemove (halloc s)) s1 = Ret s1" by (simp add: serve_def)
  then show ?thesis using s1 \<open>aalloc A = halloc s\<close> by (simp add: aserve_def)
qed

section \<open>Versions of the event table\<close>

definition ver_ok :: "('f, 'a) hslot \<Rightarrow> bool" where
  "ver_ok s \<longleftrightarrow> (\<forall>h. hversion s h = 0 \<or> hversion s h = sversion s)"

definition keeps :: "('f, 'a) hslot \<Rightarrow> ('f, 'a) hslot \<Rightarrow> bool" where
  "keeps s s' \<longleftrightarrow> sversion s' = sversion s \<and> (ver_ok s \<longrightarrow> ver_ok s')"

lemma keeps_refl [simp]: "keeps s s" and keeps_trans: "keeps s t \<Longrightarrow> keeps t u \<Longrightarrow> keeps s u"
  by (simp_all add: keeps_def)

lemma keeps_same: "sversion s' = sversion s \<Longrightarrow> hversion s' = hversion s \<Longrightarrow> keeps s s'"
  by (simp add: keeps_def ver_ok_def)

lemma keeps_upd:
  "sversion s' = sversion s \<Longrightarrow> hversion s' = (hversion s)(h := x) \<Longrightarrow> x = 0 \<or> x = sversion s \<Longrightarrow> keeps s s'"
  by (simp add: keeps_def ver_ok_def)

lemma keeps_push [simp]: "keeps s (slot_push v s)"
  by (rule keeps_same) simp_all

lemma keeps_pop: "slot_pop s = Ret (s', r) \<Longrightarrow> keeps s s'"
  by (rule keeps_same) (auto simp: slot_pop_def map_ret_eq_Ret)

lemma keeps_doRegister: "doRegister h s = Ret s' \<Longrightarrow> keeps s s'"
  by (rule keeps_upd [of _ _ h "sversion s"]) (auto simp: doRegister_def Let_def split: option.splits)

lemma keeps_doRemove:
  assumes "doRemove h s = Ret s'"
  shows "keeps s s'"
proof (cases "hversion s h = sversion s")
  case True
  show ?thesis by (rule keeps_upd [of _ _ h 0]) (use assms True in \<open>auto simp: doRemove_def Let_def split: option.splits\<close>)
next
  case False
  then show ?thesis using assms by (simp add: doRemove_def)
qed

lemma keeps_new: "new_handle once fn s = (s', h) \<Longrightarrow> keeps s s'"
  by (rule keeps_upd [of _ _ h 0]) (auto simp: new_handle_def Let_def)

lemma keeps_register: "slot_register h s = Ret s' \<Longrightarrow> keeps s s'"
  using keeps_doRegister by (auto simp: slot_register_def split: if_splits)

lemma keeps_remove: "slot_remove h s = Ret s' \<Longrightarrow> keeps s s'"
  using keeps_doRemove by (auto simp: slot_remove_def split: if_splits)

lemma keeps_serve: "serve rq s = Ret s' \<Longrightarrow> keeps s s'"
  using keeps_new keeps_register keeps_remove
  by (cases rq) (fastforce simp: serve_def intro: keeps_trans split: if_splits prod.splits)+

lemma keeps_serve_all: "serve_all rqs s = Ret s' \<Longrightarrow> keeps s s'"
  by (induction rqs arbitrary: s) (auto simp: bind_go_eq_Ret dest: keeps_serve intro: keeps_trans)

lemma keeps_emit_list:
  "emit_list fuel call args cur (s, log) = Some (Ret (s', log')) \<Longrightarrow> keeps s s'"
proof (induction fuel arbitrary: cur s log)
  case (Suc fuel)
  show ?case
  proof (cases "cur = Some (htail s)")
    case True
    then show ?thesis using Suc.prems by simp
  next
    case False
    then obtain h fn s1 s2 where "serve_all (call (length log) fn h args) s = Ret s1"
        and d: "(if honce s1 h then doRemove h s1 else Ret s1) = Ret s2"
        and "emit_list fuel call args (nnext (hlinks s1) h) (s2, log @ [(h, args)]) = Some (Ret (s', log'))"
      using Suc.prems by (auto simp: Let_def split: option.splits go.splits)
    moreover have "keeps s1 s2" using d keeps_doRemove [of h s1 s2] by (auto split: if_splits)
    ultimately show ?thesis using Suc.IH keeps_serve_all keeps_trans by meson
  qed
qed simp

lemma keeps_emit_loop: "emit_loop fuel call (s, log) = Some (Ret (s', log')) \<Longrightarrow> keeps s s'"
proof (induction fuel arbitrary: s log)
  case (Suc fuel)
  obtain s1 r where pop: "slot_pop s = Ret (s1, r)"
    using Suc.prems by (cases "slot_pop s") (auto split: prod.splits)
  have k1: "keeps s s1" using keeps_pop [OF pop] .
  show ?case
  proof (cases r)
    case None
    then have "s' = s1\<lparr>emiting := False\<rparr>" using Suc.prems pop by simp
    then have "keeps s1 s'" by (intro keeps_same) simp_all
    then show ?thesis using k1 keeps_trans by blast
  next
    case (Some v)
    show ?thesis
    proof (cases v)
      case (OpEmit args)
      obtain s2 log2 where e: "emit_list (Suc (halloc s1)) call args (nnext (hlinks s1) (hhead s1)) (s1, log) = Some (Ret (s2, log2))"
          "emit_loop fuel call (s2, log2) = Some (Ret (s', log'))"
        using Suc.prems pop Some OpEmit by (auto simp del: emit_list.simps split: option.splits go.splits)
      then show ?thesis using keeps_emit_list [OF e(1)] Suc.IH [OF e(2)] k1 keeps_trans by blast
    next
      case (OpDelete h)
      obtain s2 where e: "doRemove h s1 = Ret s2" "emit_loop fuel call (s2, log) = Some (Ret (s', log'))"
        using Suc.prems pop Some OpDelete by (auto split: go.splits)
      then show ?thesis using keeps_doRemove [OF e(1)] Suc.IH [OF e(2)] k1 keeps_trans by blast
    next
      case (OpRegister h)
      obtain s2 where e: "doRegister h s1 = Ret s2" "emit_loop fuel call (s2, log) = Some (Ret (s', log'))"
        using Suc.prems pop Some OpRegister by (auto split: go.splits)
      then show ?thesis using keeps_doRegister [OF e(1)] Suc.IH [OF e(2)] k1 keeps_trans by blast
    qed
  qed
qed simp

lemma keeps_emit:
  assumes "slot_emit fuel call args s = Some (Ret (s', log))"
  shows "keeps s s'"
proof (cases "emiting s")
  case True
  then show ?thesis using assms by (auto simp: slot_emit_def)
next
  case False
  have "keeps s ((slot_push (OpEmit args) s)\<lparr>emiting := True\<rparr>)" by (rule keeps_same) simp_all
  then show ?thesis using assms False keeps_emit_loop keeps_trans by (fastforce simp: slot_emit_def)
qed

text \<open>The states of an event table under any sequence of its methods.\<close>

inductive eh_reach :: "('e, 'f, 'a) event_handler \<Rightarrow> bool" where
  eh_new: "eh_reach NewEventHandler"
| eh_reg: "eh_reach t \<Longrightarrow> eh_register event once fn t = Ret (t', h) \<Longrightarrow> eh_reach t'"
| eh_rem: "eh_reach t \<Longrightarrow> Remove h t = Ret t' \<Longrightarrow> eh_reach t'"
| eh_emit: "eh_reach t \<Longrightarrow> Emit fuel call event args t = Some (Ret (t', log)) \<Longrightarrow> eh_reach t'"
| eh_clear: "eh_reach t \<Longrightarrow> eh_reach (Clear event t)"

definition eh_ok :: "('e, 'f, 'a) event_handler \<Rightarrow> bool" where
  "eh_ok t \<longleftrightarrow>
     (\<forall>e n. slots t e = Some n \<longrightarrow> n < nslots t) \<and> int (nslots t) = eversion t \<and>
     (\<forall>n < nslots t. sversion (objs t n) = int n + 1) \<and> (\<forall>n < nslots t. ver_ok (objs t n)) \<and>
     (\<forall>n \<ge> nslots t. objs t n = new_slot 0)"

lemma eh_ok_slot: "eh_ok t \<Longrightarrow> slots t e = Some n \<Longrightarrow> n < nslots t"
  by (simp add: eh_ok_def)

lemma eh_ok_upd:
  assumes "eh_ok t" and "n < nslots t" and "keeps (objs t n) s"
  shows "eh_ok (t\<lparr>objs := (objs t)(n := s)\<rparr>)"
  using assms by (auto simp: eh_ok_def keeps_def)

lemma eh_ok_new_slot:
  fixes t :: "('e, 'f, 'a) event_handler"
  assumes "eh_ok t"
  shows "eh_ok (t\<lparr>eversion := eversion t + 1, objs := (objs t)(nslots t := new_slot (eversion t + 1)),
           nslots := Suc (nslots t), slots := (slots t)(event := Some (nslots t))\<rparr>)"
proof -
  have new: "ver_ok (new_slot (eversion t + 1) :: ('f, 'a) hslot)" "sversion (new_slot (eversion t + 1) :: ('f, 'a) hslot) = eversion t + 1"
    by (simp_all add: ver_ok_def new_slot_def)
  show ?thesis using assms new unfolding eh_ok_def by (simp add: less_Suc_eq all_conj_distrib)
qed

lemma eh_ok_register:
  assumes ok: "eh_ok t" and r: "eh_register event once fn t = Ret (t', h)"
  shows "eh_ok t'"
proof -
  define t1 n where "t1 = (case slots t event of Some n \<Rightarrow> t | None \<Rightarrow>
      t\<lparr>eversion := eversion t + 1, objs := (objs t)(nslots t := new_slot (eversion t + 1)),
        nslots := Suc (nslots t), slots := (slots t)(event := Some (nslots t))\<rparr>)"
    and "n = (case slots t event of Some n \<Rightarrow> n | None \<Rightarrow> nslots t)"
  have t1: "eh_ok t1" "n < nslots t1" "n = nslots t \<or> slots t event = Some n"
    using ok eh_ok_new_slot [OF ok, of event] by (auto simp: t1_def n_def eh_ok_def [of t] split: option.splits)
  obtain s1 a where s1: "new_handle once fn (objs t1 n) = (s1, a)" by fastforce
  obtain s2 where "slot_register a s1 = Ret s2" "t' = t1\<lparr>objs := (objs t1)(n := s2)\<rparr>"
    using r s1 by (cases "slots t event") (auto simp: eh_register_def Let_def t1_def n_def map_ret_eq_Ret)
  then show ?thesis using eh_ok_upd [OF t1(1,2)] keeps_trans [OF keeps_new [OF s1] keeps_register] by simp
qed

lemma eh_reach_ok: "eh_reach t \<Longrightarrow> eh_ok t"
proof (induction rule: eh_reach.induct)
  case eh_new
  show ?case by (simp add: eh_ok_def NewEventHandler_def)
next
  case (eh_reg t event once fn t' h)
  show ?case by (rule eh_ok_register [OF eh_reg.IH eh_reg.hyps(2)])
next
  case (eh_rem t h t')
  obtain event m a where h: "h = (event, m, a)" by (cases h)
  show ?case
  proof (cases "slots t event")
    case None
    then show ?thesis using eh_rem h by (simp add: Remove_def)
  next
    case (Some n)
    show ?thesis
    proof (cases "hversion (objs t m) a = sversion (objs t n)")
      case False
      then show ?thesis using eh_rem h Some by (simp add: Remove_def)
    next
      case True
      then have "map_ret (\<lambda>s. t\<lparr>objs := (objs t)(n := s)\<rparr>) (slot_remove a (objs t n)) = Ret t'"
        using eh_rem.hyps(2) h Some by (simp add: Remove_def)
      then obtain s where s: "slot_remove a (objs t n) = Ret s" "t\<lparr>objs := (objs t)(n := s)\<rparr> = t'"
        by (cases "slot_remove a (objs t n)") simp_all
      show ?thesis unfolding s(2) [symmetric]
        by (rule eh_ok_upd [OF eh_rem.IH eh_ok_slot [OF eh_rem.IH Some] keeps_remove [OF s(1)]])
    qed
  qed
next
  case (eh_emit t fuel call event args t' log)
  show ?case
  proof (cases "slots t event")
    case None
    then show ?thesis using eh_emit by (simp add: Emit_def)
  next
    case (Some n)
    have "map_option (map_ret (\<lambda>(s, log). (t\<lparr>objs := (objs t)(n := s)\<rparr>, log))) (slot_emit fuel call args (objs t n))
        = Some (Ret (t', log))"
      using eh_emit.hyps(2) Some by (simp add: Emit_def)
    then obtain x where "slot_emit fuel call args (objs t n) = Some x"
        "map_ret (\<lambda>(s, log). (t\<lparr>objs := (objs t)(n := s)\<rparr>, log)) x = Ret (t', log)"
      by (cases "slot_emit fuel call args (objs t n)") simp_all
    then obtain s where s: "slot_emit fuel call args (objs t n) = Some (Ret (s, log))" "t\<lparr>objs := (objs t)(n := s)\<rparr> = t'"
      by (cases x) (simp_all split: prod.splits)
    show ?thesis unfolding s(2) [symmetric] by (rule eh_ok_upd [OF eh_emit.IH eh_ok_slot [OF eh_emit.IH Some] keeps_emit [OF s(1)]])
  qed
next
  case (eh_clear t event)
  then show ?case by (auto simp: eh_ok_def Clear_def)
qed

text \<open>In every reachable event table \<open>Remove\<close> with a handle whose slot was cleared changes nothing: no slot made later
  for the same event has the version of the old one, so a stale handle never unlinks, or queues the unlinking of, a node
  of another list.\<close>

theorem stale_remove_ignored:
  assumes reach: "eh_reach t" and m: "m < nslots t" and stale: "slots t event \<noteq> Some m"
  shows "Remove (event, m, h) t = Ret t"
proof (cases "slots t event")
  case None
  then show ?thesis by (simp add: Remove_def)
next
  case (Some n)
  have ok: "eh_ok t" using eh_reach_ok [OF reach] .
  have n: "n < nslots t" "n \<noteq> m" using Some stale eh_ok_slot [OF ok] by auto
  have "sversion (objs t m) = int m + 1" "sversion (objs t n) = int n + 1" "ver_ok (objs t m)"
    using ok n(1) m by (simp_all add: eh_ok_def)
  then have "hversion (objs t m) h \<noteq> sversion (objs t n)"
    using n(2) unfolding ver_ok_def by (metis add_right_cancel of_nat_0_le_iff of_nat_eq_iff zle_add1_eq_le zless_iff_Suc_zadd less_irrefl)
  then show ?thesis using Some by (simp add: Remove_def)
qed

section \<open>Witnesses\<close>

lemma new_slot_rep:
  "v \<noteq> 0 \<Longrightarrow> slot_rep (new_slot v) \<lparr>ahs = [], aops = [], aalloc = 2, afn = (\<lambda>_. None), aonce = (\<lambda>_. False)\<rparr>"
  by (simp add: slot_rep_def new_slot_def list_rep_def ops_rep_def pend_ok_def exI [of _ "[]"])

lemma idle_register:
  assumes rep: "slot_rep s A" and em: "\<not> emiting s" and ops: "aops A = []" and n: "new_handle once fn s = (s1, h)"
  shows "\<exists>s2. slot_register h s1 = Ret s2 \<and> \<not> emiting s2 \<and> slot_rep s2 (A\<lparr>ahs := ahs A @ [h], aalloc := Suc h,
           afn := (afn A)(h := Some fn), aonce := (aonce A)(h := once)\<rparr>)"
proof -
  let ?A = "A\<lparr>aalloc := Suc h, afn := (afn A)(h := Some fn), aonce := (aonce A)(h := once)\<rparr>"
  have r: "emiting s1 = emiting s" "slot_rep s1 ?A" "pend_ok s1 (ahs A @ [h])"
    using new_handle_rep [OF rep n] ops by auto
  have lr: "list_rep s1 (ahs A)" using r(2) by (simp add: slot_rep_def)
  obtain l where d: "doRegister h s1 = Ret (s1\<lparr>hversion := (hversion s1)(h := sversion s1), hlinks := l\<rparr>)"
      "list_rep (s1\<lparr>hversion := (hversion s1)(h := sversion s1), hlinks := l\<rparr>) (ahs A @ [h])"
    using doRegister_rep [OF lr r(3)] by blast
  show ?thesis using d r em ops by (simp add: slot_register_def slot_rep_def ops_rep_def pend_ok_def)
qed

text \<open>An event with a handler at address 2 and a handler that runs once at address 3.\<close>

definition ex_slot :: "(nat, nat) hslot" where
  "ex_slot =
     (case bind_go (let (s, h) = new_handle False 5 (new_slot 1) in slot_register h s)
        (\<lambda>s. let (s, h) = new_handle True 6 s in slot_register h s) of Ret s \<Rightarrow> s | Panic _ \<Rightarrow> new_slot 0)"

definition ex_aslot :: "(nat, nat) aslot" where
  "ex_aslot = \<lparr>ahs = [2, 3], aops = [], aalloc = 4, afn = (\<lambda>_. None)(2 := Some 5, 3 := Some 6),
     aonce = (\<lambda>_. False)(2 := False, 3 := True)\<rparr>"

lemma ex_slot_rep: "slot_rep ex_slot ex_aslot" "\<not> emiting ex_slot" "aops ex_aslot = []"
proof -
  obtain s h where n1: "new_handle False 5 (new_slot 1 :: (nat, nat) hslot) = (s, h)" by fastforce
  have h: "h = 2" using n1 by (auto simp: new_handle_def new_slot_def Let_def)
  obtain s1 where s1: "slot_register h s = Ret s1" "\<not> emiting s1"
      "slot_rep s1 \<lparr>ahs = [2], aops = [], aalloc = 3, afn = (\<lambda>_. None)(2 := Some 5), aonce = (\<lambda>_. False)(2 := False)\<rparr>"
    using idle_register [OF new_slot_rep _ _ n1] h by (auto simp: new_slot_def)
  obtain s' h' where n2: "new_handle True 6 s1 = (s', h')" by fastforce
  have h': "h' = 3" using n2 s1(3) by (auto simp: new_handle_def Let_def slot_rep_def)
  obtain s2 where s2: "slot_register h' s' = Ret s2" "\<not> emiting s2" "slot_rep s2 ex_aslot"
    using idle_register [OF s1(3,2) _ n2] h' by (auto simp: ex_aslot_def numeral_eq_Suc)
  have "ex_slot = s2" using n1 s1(1) n2 s2(1) by (simp add: ex_slot_def)
  then show "slot_rep ex_slot ex_aslot" "\<not> emiting ex_slot" using s2 by simp_all
  show "aops ex_aslot = []" by (simp add: ex_aslot_def)
qed

theorem emit_refines_witness:
  "\<exists>s'. slot_emit 3 (\<lambda>k _ _ _. if k = 0 then [REmit 8] else []) 7 ex_slot = Some (Ret (s', [(2, 7), (3, 7), (2, 8)]))"
proof -
  have "aloop 3 (\<lambda>k _ _ _. if k = 0 then [REmit 8] else []) (ex_aslot\<lparr>aops := aops ex_aslot @ [OpEmit 7]\<rparr>, [])
      = Some (ex_aslot\<lparr>ahs := [2]\<rparr>, [(2, 7), (3, 7), (2, 8)])"
    by (simp add: ex_aslot_def aserve_def numeral_eq_Suc Let_def)
  then show ?thesis
    using emit_refines [OF ex_slot_rep(1,2), of 3 "\<lambda>k _ _ _. if k = 0 then [REmit 8] else []" 7] by auto
qed

theorem emit_calls_handlers_witness:
  "\<exists>s'. slot_emit 2 (\<lambda>_ _ _ _. []) 7 ex_slot = Some (Ret (s', [(2, 7), (3, 7)]))"
  using emit_calls_handlers [OF ex_slot_rep, of 0 7] by (auto simp: ex_aslot_def numeral_eq_Suc)

theorem once_handler_runs_once_witness:
  "\<exists>s' log. slot_emit 3 (\<lambda>k _ _ _. if k = 0 then [REmit 8] else []) 7 ex_slot = Some (Ret (s', log)) \<and> honce s' 3 \<and>
     length (filter (\<lambda>p. fst p = 3) log) \<le> 1"
proof -
  let ?call = "\<lambda>k _ _ _. if k = (0::nat) then [REmit 8] else []"
  have a: "aloop 3 ?call (ex_aslot\<lparr>aops := aops ex_aslot @ [OpEmit 7]\<rparr>, [])
      = Some (ex_aslot\<lparr>ahs := [2]\<rparr>, [(2, 7), (3, 7), (2, 8)])"
    by (simp add: ex_aslot_def aserve_def numeral_eq_Suc Let_def)
  obtain s1 where s1: "slot_push (OpEmit 7) ex_slot = s1"
      "slot_rep (s1\<lparr>emiting := True\<rparr>) (ex_aslot\<lparr>aops := aops ex_aslot @ [OpEmit 7]\<rparr>)" "\<not> emiting s1"
    using idle_emit [OF ex_slot_rep(1,2)] by blast
  have em: "emiting (s1\<lparr>emiting := True\<rparr>)" by simp
  obtain s' where s': "emit_loop 3 ?call (s1\<lparr>emiting := True\<rparr>, []) = Some (Ret (s', [(2, 7), (3, 7), (2, 8)]))"
      "slot_rep s' (ex_aslot\<lparr>ahs := [2]\<rparr>)"
    using emit_loop_rep [OF s1(2) em, of 3 ?call "[]", unfolded a] by auto
  have e: "slot_emit 3 ?call 7 ex_slot = Some (Ret (s', [(2, 7), (3, 7), (2, 8)]))" using s1 s'(1) by (simp add: slot_emit_def)
  have "honce s' = (\<lambda>_. False)(2 := False, 3 := True)" using s'(2) by (simp add: slot_rep_def ex_aslot_def)
  then have o: "honce s' 3" by simp
  show ?thesis using once_handler_runs_once [OF ex_slot_rep(1,2) e o] e o by blast
qed

theorem pending_register_not_removable_witness:
  "serve_all [RRegister False 9, RRemove (halloc ex_slot)] (ex_slot\<lparr>emiting := True\<rparr>)
     = serve_all [RRegister False 9] (ex_slot\<lparr>emiting := True\<rparr>)"
proof -
  have "slot_rep (ex_slot\<lparr>emiting := True\<rparr>) ex_aslot"
    using ex_slot_rep(1) by (simp add: slot_rep_def list_rep_def ops_rep_def pend_ok_def)
  then show ?thesis using pending_register_not_removable [of "ex_slot\<lparr>emiting := True\<rparr>" ex_aslot False 9] by simp
qed

theorem stale_remove_ignored_witness:
  "\<exists>t :: (nat, nat, nat) event_handler. nslots t = 1 \<and> eh_reach t \<and> Remove (0, 0, 2) t = Ret t"
proof -
  obtain t h where t: "eh_register 0 False 5 (NewEventHandler :: (nat, nat, nat) event_handler) = Ret (t, h)" "nslots t = 1"
    by (simp add: eh_register_def NewEventHandler_def new_handle_def slot_register_def doRegister_def new_slot_def Let_def)
  have r: "eh_reach (Clear 0 t)" by (rule eh_clear [OF eh_reg [OF eh_new t(1)]])
  have "nslots (Clear 0 t) = 1" "slots (Clear 0 t) 0 \<noteq> Some 0" using t(2) by (simp_all add: Clear_def)
  then show ?thesis using r stale_remove_ignored [OF r, of 0 0 2] by (intro exI [of _ "Clear 0 t"]) simp
qed

end
