(* ===== verification/EventQueue.thy ===== *)
theory EventQueue
  imports PriorityQueue EventHandler
begin

text \<open>
  The event queue, \<open>src/event/eventQueue.go\<close>, a client of the priority queue: closures are posted with a priority and
  \<open>Run\<close> executes them one after the other; and \<open>EmitToEventQueue\<close> of \<open>src/event/eventHandler.go\<close>, which posts an emission.
\<close>

section \<open>Definitions\<close>

record ('f, 'a) element =
  efn :: 'f
  eargs :: "'a list"

record ('f, 'a) event_queue =
  eventQueue :: "('f, 'a) element pqueue"
  started :: bool

definition NewEventQueueWithPriority :: "int \<Rightarrow> int list \<Rightarrow> ('f, 'a) event_queue" where
  "NewEventQueueWithPriority priority fs = \<lparr>eventQueue = NewPriorityQueue priority fs, started = False\<rparr>"

definition NewEventQueue :: "int list \<Rightarrow> ('f, 'a) event_queue" where
  "NewEventQueue fs = \<lparr>eventQueue = NewPriorityQueue 1 fs, started = False\<rparr>"

definition preparePost :: "'f \<Rightarrow> 'a list \<Rightarrow> ('f, 'a) element" where
  "preparePost fn args = \<lparr>efn = fn, eargs = args\<rparr>"

definition PostFullReturn :: "addr \<Rightarrow> int \<Rightarrow> 'f \<Rightarrow> 'a list \<Rightarrow> ('f, 'a) event_queue \<Rightarrow> ('f, 'a) event_queue \<times> add_out" where
  "PostFullReturn a priority fn args e =
     (let (q, r) = AddNoWait a priority (preparePost fn args) [True] (eventQueue e) in (e\<lparr>eventQueue := q\<rparr>, r))"

definition PostNoWait :: "addr \<Rightarrow> int \<Rightarrow> 'f \<Rightarrow> 'a list \<Rightarrow> ('f, 'a) event_queue \<Rightarrow> ('f, 'a) event_queue \<times> add_out" where
  "PostNoWait a priority fn args e =
     (let (q, r) = AddNoWait a priority (preparePost fn args) [] (eventQueue e) in (e\<lparr>eventQueue := q\<rparr>, r))"

definition Post :: "addr \<Rightarrow> int \<Rightarrow> 'f \<Rightarrow> 'a list \<Rightarrow> ('f, 'a) event_queue \<Rightarrow> ('f, 'a) event_queue \<times> add_out" where
  "Post a priority fn args e =
     (let (q, r) = Add a priority (preparePost fn args) (eventQueue e) in (e\<lparr>eventQueue := q\<rparr>, r))"

definition EQ_Close :: "('f, 'a) event_queue \<Rightarrow> ('f, 'a) event_queue" where
  "EQ_Close e =
     (let (q, first) = Close_cas (eventQueue e) in e\<lparr>eventQueue := (if first then Close_locked q else q)\<rparr>)"

record event_queue_param =
  Priority :: int
  BlockMode :: bool
  FullReturn :: bool

definition EmitToEventQueue :: "addr \<Rightarrow> event_queue_param \<Rightarrow> 'f \<Rightarrow> 'a \<Rightarrow> 'a list \<Rightarrow> ('f, 'a) event_queue \<Rightarrow>
    ('f, 'a) event_queue \<times> add_out" where
  "EmitToEventQueue x param emit event args e =
     (let a = [event] @ args in
      if BlockMode param then Post x (Priority param) emit a e
      else if FullReturn param then PostFullReturn x (Priority param) emit a e
      else PostNoWait x (Priority param) emit a e)"

text \<open>The loop of \<open>Run\<close>: it has returned, is parked in \<open>Get\<close>, or has not got that far with this fuel. \<open>posts k el\<close> are the
  calls of \<open>PostNoWait\<close> made while the \<open>k\<close>-th closure, \<open>el\<close>, runs, by it or by other goroutines. Panics of a closure
  are caught and logged by \<open>ProtectCall\<close>.\<close>

datatype run_end = Returned | Parked | Busy

type_synonym ('f, 'a) posts = "nat \<Rightarrow> ('f, 'a) element \<Rightarrow> (addr \<times> int \<times> 'f \<times> 'a list) list"

primrec post_all :: "(addr \<times> int \<times> 'f \<times> 'a list) list \<Rightarrow> ('f, 'a) event_queue \<Rightarrow> ('f, 'a) event_queue" where
  "post_all [] e = e"
| "post_all (p # ps) e = (case p of (a, priority, fn, args) \<Rightarrow> post_all ps (fst (PostNoWait a priority fn args e)))"

fun run_loop :: "nat \<Rightarrow> ('f, 'a) posts \<Rightarrow> ('f, 'a) event_queue \<Rightarrow> ('f, 'a) element list \<Rightarrow>
    (('f, 'a) event_queue \<times> ('f, 'a) element list \<times> run_end) go" where
  "run_loop 0 posts e log = Ret (e, log, Busy)"
| "run_loop (Suc fuel) posts e log =
     bind_go (Get (eventQueue e)) (\<lambda>(q, r).
       (let e1 = e\<lparr>eventQueue := q\<rparr> in
        (case r of
           GetWait \<Rightarrow> Ret (e1, log, Parked)
         | GetRet cl (Some v) sig \<Rightarrow> run_loop fuel posts (post_all (posts (length log) v) e1) (log @ [v])
         | GetRet cl None sig \<Rightarrow> if cl then Ret (e1, log, Returned) else run_loop fuel posts e1 log)))"

definition Run :: "nat \<Rightarrow> ('f, 'a) posts \<Rightarrow> ('f, 'a) event_queue \<Rightarrow>
    (('f, 'a) event_queue \<times> ('f, 'a) element list \<times> run_end) go" where
  "Run fuel posts e = (if started e then Ret (e, [], Returned) else run_loop fuel posts (e\<lparr>started := True\<rparr>) [])"

section \<open>Specification\<close>

text \<open>The run over lists: always the first element of the highest non-empty priority.\<close>

fun arun :: "nat \<Rightarrow> bool \<Rightarrow> ('f, 'a) posts \<Rightarrow> ('f, 'a) element list list \<Rightarrow> ('f, 'a) element list \<Rightarrow>
    ('f, 'a) element list list \<times> ('f, 'a) element list \<times> run_end" where
  "arun 0 cl posts vss log = (vss, log, Busy)"
| "arun (Suc fuel) cl posts vss log =
     (case apop vss of
        None \<Rightarrow> (vss, log, if cl then Returned else Parked)
      | Some (v, vss') \<Rightarrow>
          arun fuel cl posts
            (if cl then vss' else fold (\<lambda>(a, priority, fn, args). apush priority (preparePost fn args)) (posts (length log) v) vss')
            (log @ [v]))"

text \<open>The items that posts get are not in use, as the item pool promises.\<close>

primrec fresh_posts :: "(addr \<times> int \<times> 'f \<times> 'a list) list \<Rightarrow> ('f, 'a) event_queue \<Rightarrow> bool" where
  "fresh_posts [] e \<longleftrightarrow> True"
| "fresh_posts (p # ps) e \<longleftrightarrow> (case p of (a, priority, fn, args) \<Rightarrow>
     unused (pqq (eventQueue e)) a \<and> fresh_posts ps (fst (PostNoWait a priority fn args e)))"

fun posts_ok :: "nat \<Rightarrow> ('f, 'a) posts \<Rightarrow> ('f, 'a) event_queue \<Rightarrow> ('f, 'a) element list \<Rightarrow> bool" where
  "posts_ok 0 posts e log \<longleftrightarrow> True"
| "posts_ok (Suc fuel) posts e log \<longleftrightarrow>
     (case Get (eventQueue e) of
        Ret (q, GetRet cl (Some v) sig) \<Rightarrow>
          fresh_posts (posts (length log) v) (e\<lparr>eventQueue := q\<rparr>) \<and>
          posts_ok fuel posts (post_all (posts (length log) v) (e\<lparr>eventQueue := q\<rparr>)) (log @ [v])
      | _ \<Rightarrow> True)"

section \<open>Refinement\<close>

lemma PostNoWait_rep:
  assumes "pq_rep (pqq (eventQueue e)) vss" and "unused (pqq (eventQueue e)) a"
  shows "pq_rep (pqq (eventQueue (fst (PostNoWait a priority fn args e))))
           (if closed (eventQueue e) then vss else apush priority (preparePost fn args) vss) \<and>
         closed (eventQueue (fst (PostNoWait a priority fn args e))) = closed (eventQueue e)"
  using pq_rep_push [OF assms] assms(1) by (simp add: PostNoWait_def AddNoWait_def Let_def)

lemma post_all_rep:
  assumes "pq_rep (pqq (eventQueue e)) vss" and "fresh_posts ps e"
  shows "pq_rep (pqq (eventQueue (post_all ps e)))
           (if closed (eventQueue e) then vss
            else fold (\<lambda>(a, priority, fn, args). apush priority (preparePost fn args)) ps vss) \<and>
         closed (eventQueue (post_all ps e)) = closed (eventQueue e)"
  using assms
proof (induction ps arbitrary: e vss)
  case (Cons p ps)
  obtain a priority fn args where p: "p = (a, priority, fn, args)" by (cases p)
  let ?e = "fst (PostNoWait a priority fn args e)"
  have f: "unused (pqq (eventQueue e)) a" "fresh_posts ps ?e" using Cons.prems(2) p by simp_all
  note r = PostNoWait_rep [OF Cons.prems(1) f(1), of priority fn args]
  show ?case using Cons.IH [OF conjunct1 [OF r] f(2)] r p by (cases "closed (eventQueue e)") simp_all
qed simp

lemma run_loop_rep:
  assumes "pq_rep (pqq (eventQueue e)) vss" and "posts_ok fuel posts e log"
  shows "\<exists>e'. run_loop fuel posts e log = Ret (e', snd (arun fuel (closed (eventQueue e)) posts vss log)) \<and>
           pq_rep (pqq (eventQueue e')) (fst (arun fuel (closed (eventQueue e)) posts vss log))"
  using assms
proof (induction fuel arbitrary: e vss log)
  case (Suc fuel)
  let ?q = "eventQueue e"
  show ?case
    using Suc.prems(1)
  proof (cases rule: pq_pop_rep_cases)
    case empty
    then have a: "apop vss = None" using apop_None pq_rep_count [OF Suc.prems(1)] by auto
    have "Get ?q = (if closed ?q then Ret (?q, GetRet True None (fullWaited ?q > 0)) else Ret (?q\<lparr>emptyWaited := emptyWaited ?q + 1\<rparr>, GetWait))"
      using empty by (simp add: Get_def)
    then show ?thesis using a Suc.prems(1) by simp
  next
    case (item q' v vss')
    let ?e = "e\<lparr>eventQueue := ?q\<lparr>pqq := q'\<rparr>\<rparr>"
    have g: "Get ?q = Ret (?q\<lparr>pqq := q'\<rparr>, GetRet (closed ?q) (Some v) (fullWaited ?q > 0))"
      using item by (simp add: Get_def)
    have ok: "fresh_posts (posts (length log) v) ?e" "posts_ok fuel posts (post_all (posts (length log) v) ?e) (log @ [v])"
      using Suc.prems(2) g by simp_all
    have "pq_rep (pqq (eventQueue ?e)) vss'" using item by simp
    note r = post_all_rep [OF this ok(1)]
    show ?thesis using Suc.IH [OF conjunct1 [OF r] ok(2)] r g item by (cases "closed ?q") simp_all
  qed
qed simp

section \<open>Order\<close>

lemma apop_rev:
  assumes "apop vss = Some (v, vss')"
  shows "concat (rev vss) = v # concat (rev vss')"
  using assms
proof (induction vss arbitrary: vss')
  case (Cons vs vss)
  show ?case
  proof (cases "apop vss")
    case None
    then have "concat (rev vss) = []" by (simp add: apop_None)
    then show ?thesis using Cons.prems None by (auto simp del: concat_eq_Nil_conv split: list.splits)
  next
    case (Some p)
    then show ?thesis using Cons by (cases p) auto
  qed
qed simp

lemma arun_drain:
  "length (concat vss) < fuel \<Longrightarrow>
     \<exists>vss'. arun fuel cl (\<lambda>_ _. []) vss log = (vss', log @ concat (rev vss), if cl then Returned else Parked) \<and> concat vss' = []"
proof (induction fuel arbitrary: vss log)
  case (Suc fuel)
  show ?case
  proof (cases "apop vss")
    case None
    then have e: "concat vss = []" by (simp add: apop_None)
    then have "concat (rev vss) = []" by simp
    then show ?thesis using None e by simp
  next
    case (Some p)
    obtain v vss' where p: "p = (v, vss')" by (cases p)
    have c: "concat (rev vss) = v # concat (rev vss')" using apop_rev Some p by simp
    have len: "length (concat (rev xss)) = length (concat xss)" for xss :: "('a, 'b) element list list"
      by (simp add: length_concat rev_map [symmetric])
    have "length (concat vss') < fuel" using Suc.prems c len [of vss] len [of vss'] by simp
    then show ?thesis using Suc.IH [of vss' "log @ [v]"] Some p c by (cases cl) simp_all
  qed
qed simp

lemma posts_ok_none: "posts_ok fuel (\<lambda>_ _. []) e log"
  by (induction fuel arbitrary: e log) (auto split: go.splits get_out.splits option.splits)

text \<open>C21. \<open>Run\<close> executes everything that was posted, the higher priorities first and each priority in the order of the posts,
  and then returns if the queue was closed and waits for more otherwise; a second \<open>Run\<close> returns at once.\<close>

theorem event_queue_order:
  assumes "pq_rep (pqq (eventQueue e)) vss" and "length (concat vss) < fuel" and "\<not> started e"
  shows "\<exists>e'. Run fuel (\<lambda>_ _. []) e = Ret (e', concat (rev vss), if closed (eventQueue e) then Returned else Parked) \<and>
           count (pqq (eventQueue e')) = 0"
proof -
  let ?e = "e\<lparr>started := True\<rparr>"
  obtain vss' where a: "arun fuel (closed (eventQueue e)) (\<lambda>_ _. []) vss [] =
      (vss', concat (rev vss), if closed (eventQueue e) then Returned else Parked)" "concat vss' = []"
    using arun_drain [OF assms(2), of "closed (eventQueue e)" "[]"] by auto
  obtain e' where "run_loop fuel (\<lambda>_ _. []) ?e [] = Ret (e', concat (rev vss), if closed (eventQueue e) then Returned else Parked)"
      "pq_rep (pqq (eventQueue e')) vss'"
    using run_loop_rep [of ?e vss fuel "\<lambda>_ _. []" "[]"] posts_ok_none assms(1) a by auto
  moreover have "count (pqq (eventQueue e')) = 0" using pq_rep_count [OF calculation(2)] a(2) by simp
  ultimately show ?thesis using assms(3) by (simp add: Run_def)
qed

theorem event_queue_order_witness:
  "\<exists>e'. Run 3 (\<lambda>_ _. []) (EQ_Close (fst (PostNoWait 2 1 ''hi'' [] (fst (PostNoWait 1 0 ''lo'' [] (NewEventQueueWithPriority 2 []))))))
     = Ret (e' :: (string, nat) event_queue, [preparePost ''hi'' [], preparePost ''lo'' []], Returned)"
proof -
  let ?n = "NewEventQueueWithPriority 2 [] :: (string, nat) event_queue"
  let ?e = "fst (PostNoWait 2 1 ''hi'' [] (fst (PostNoWait 1 0 ''lo'' [] ?n)))"
  have r0: "pq_rep (pqq (eventQueue ?n)) [[], []]"
    using pq_rep_newpq [of 2] by (simp add: NewEventQueueWithPriority_def NewPriorityQueue_def numeral_eq_Suc)
  have u1: "unused (pqq (eventQueue ?n)) 1"
    by (simp add: NewEventQueueWithPriority_def NewPriorityQueue_def newpq_def unused_def Let_def)
  have c: "\<not> closed (eventQueue ?n)" by (simp add: NewEventQueueWithPriority_def NewPriorityQueue_def)
  note r1 = PostNoWait_rep [OF r0 u1, of 0 "''lo''" "[]"]
  have u2: "unused (pqq (eventQueue (fst (PostNoWait 1 0 ''lo'' [] ?n)))) 2"
    by (simp add: NewEventQueueWithPriority_def NewPriorityQueue_def newpq_def unused_def Let_def PostNoWait_def AddNoWait_def
        pq_push_def getListItem_def split: prod.splits)
  note r2 = PostNoWait_rep [OF conjunct1 [OF r1] u2, of 1 "''hi''" "[]"]
  have "pq_rep (pqq (eventQueue ?e)) [[preparePost ''lo'' []], [preparePost ''hi'' []]]"
    using r1 r2 c by (simp add: apush_def clamp_priority_def Let_def)
  then have rep: "pq_rep (pqq (eventQueue (EQ_Close ?e))) [[preparePost ''lo'' []], [preparePost ''hi'' []]]"
    by (simp add: EQ_Close_def Close_cas_def Close_locked_def)
  have "\<not> closeOnce (eventQueue ?e)" "\<not> started ?e"
    by (simp_all add: NewEventQueueWithPriority_def NewPriorityQueue_def PostNoWait_def AddNoWait_def Let_def)
  then have s: "closed (eventQueue (EQ_Close ?e))" "\<not> started (EQ_Close ?e)"
    by (simp_all add: EQ_Close_def Close_cas_def Close_locked_def)
  show ?thesis using event_queue_order [OF rep _ s(2), of 3] s(1) by auto
qed

end
