(* ===== verification/AioClose.thy ===== *)
theory AioClose
  imports AioSocket
begin

text \<open>
  The end of a session over asynchronous I/O: \<open>ioCount\<close> counts the goroutines and requests under way, and between \<open>ioDone\<close> and
  \<open>Close\<close> of \<open>src/socket/aio/aiosocket.go\<close> the close callback is neither lost nor run twice.
\<close>

section \<open>Invariant\<close>

fun aio_io :: "apc \<Rightarrow> bool" where
  "aio_io (DoSend b) = True" | "aio_io (Issue b) = True" | "aio_io (Flight b) = True" | "aio_io (Compl b e n) = True"
| "aio_io (Store0 b) = True" | "aio_io (Recheck b) = True" | "aio_io (Cas2 b) = True" | "aio_io (Over b) = True"
| "aio_io (Retry b n) = True" | "aio_io (Finish b) = True" | "aio_io RReq = True" | "aio_io RFlight = True"
| "aio_io (RCompl e) = True" | "aio_io (RErrd e) = True" | "aio_io RLoop = True" | "aio_io RUnpack = True"
| "aio_io (RAgain b) = True" | "aio_io IoDec = True" | "aio_io _ = False"

text \<open>\<open>early\<close>: in \<open>Close\<close> before \<open>fdoclose\<close> is set; \<open>firing\<close>: about to look whether the callback is due.\<close>

fun early :: "apc \<Rightarrow> bool" where
  "early (KFlag e d) = True" | "early (KRead e d) = True" | "early (KQueue e d) = True" | "early (KWrite e) = True"
| "early (KReason e) = True" | "early (KDo e) = True" | "early _ = False"

fun firing :: "apc \<Rightarrow> bool" where
  "firing IoTest = True" | "firing IoFire = True" | "firing (KTest e) = True" | "firing (KFire e) = True" | "firing _ = False"

abbreviation fd :: "'o aio \<Rightarrow> bool" where
  "fd s \<equiv> AtomicTest fdoclose (aflag s)"

fun cl_pc :: "'o aio \<Rightarrow> apc \<Rightarrow> bool" where
  "cl_pc s (KDo e) \<longleftrightarrow> acloseOnce s \<and> \<not> fd s \<and> areason s = Some e"
| "cl_pc s (KTest e) \<longleftrightarrow> fd s \<and> areason s = Some e"
| "cl_pc s (KFire e) \<longleftrightarrow> fd s \<and> areason s = Some e"
| "cl_pc s IoFire \<longleftrightarrow> fd s"
| "cl_pc s p \<longleftrightarrow> (early p \<longrightarrow> acloseOnce s \<and> \<not> fd s)"

definition cl_inv :: "'o aio \<Rightarrow> apc list \<Rightarrow> bool" where
  "cl_inv s ps \<longleftrightarrow>
     aioCount s = int (cnt aio_io ps) \<and> cnt early ps \<le> 1 \<and> (\<forall>p \<in> set ps. cl_pc s p) \<and>
     (acloseOnce s \<and> \<not> fd s \<longrightarrow> 0 < cnt early ps) \<and>
     (fd s \<and> \<not> adoCloseOnce s \<longrightarrow> 0 < cnt aio_io ps + cnt firing ps) \<and>
     (fd s \<longrightarrow> acloseOnce s \<and> areason s \<noteq> None) \<and> (adoCloseOnce s \<longrightarrow> fd s) \<and>
     closecbs s = (if adoCloseOnce s \<and> has_closecb s then [areason s] else [])"

text \<open>What the invariant reads of the session.\<close>

definition cl_view :: "'o aio \<Rightarrow> bool \<times> bool \<times> bool \<times> session_error option \<times> session_error option list \<times> bool" where
  "cl_view s = (acloseOnce s, fd s, adoCloseOnce s, areason s, closecbs s, has_closecb s)"

lemma cl_pc_view: "cl_view s' = cl_view s \<Longrightarrow> cl_pc s' p = cl_pc s p"
  by (cases p) (simp_all add: cl_view_def)

lemma early_pc: "cl_pc s p \<Longrightarrow> early p \<Longrightarrow> acloseOnce s \<and> \<not> fd s"
  by (cases p) simp_all

lemma fd_AtomicSet [simp]:
  "bit (AtomicSet fclosed [] f) 3 = bit f 3" "bit (AtomicSet frclosed [] f) 3 = bit f 3" "bit (AtomicSet fdoclose [] f) 3"
  using flag_bits(1-3) [of "undefined\<lparr>flag := f\<rparr>"] by (simp_all add: set_flag_def)

lemma aflag_set_flag [simp]: "aflag (aio_set_flag fl s) = AtomicSet fl [] (aflag s)"
  by (simp add: aio_set_flag_def)

lemma view_simps [simp]:
  "cl_view (aio_addIO s) = cl_view s" "cl_view (aio_set_flag fclosed s) = cl_view s" "cl_view (aio_set_flag frclosed s) = cl_view s"
  "cl_view (s\<lparr>aqueue := q\<rparr>) = cl_view s" "cl_view (s\<lparr>sendLock := l\<rparr>) = cl_view s" "cl_view (s\<lparr>awire := y\<rparr>) = cl_view s"
  "cl_view (s\<lparr>errcbs := es\<rparr>) = cl_view s" "cl_view (s\<lparr>wshut := b\<rparr>) = cl_view s" "cl_view (s\<lparr>abeginOnce := b\<rparr>) = cl_view s"
  "cl_view (s\<lparr>aioCount := n\<rparr>) = cl_view s" "cl_view (s\<lparr>overClosed := b\<rparr>) = cl_view s"
  "cl_view (s\<lparr>heap := h\<rparr>) = cl_view s" "cl_view (s\<lparr>live := lv\<rparr>) = cl_view s" "cl_view (s\<lparr>send_b := sb\<rparr>) = cl_view s"
  "cl_view (s\<lparr>mixed := b\<rparr>) = cl_view s" "cl_view (put_buf i bf s) = cl_view s" "cl_view (free_buf i s) = cl_view s"
  by (simp_all add: cl_view_def put_buf_def free_buf_def) (simp_all add: aio_addIO_def aio_set_flag_def)

lemma count_simps [simp]:
  "aioCount (aio_addIO s) = aioCount s + 1" "aioCount (aio_set_flag fl s) = aioCount s" "aioCount (aio_fire e s) = aioCount s"
  "aioCount (put_buf i bf s) = aioCount s" "aioCount (free_buf i s) = aioCount s"
  by (simp_all add: aio_addIO_def aio_set_flag_def aio_fire_def put_buf_def free_buf_def)

lemma close_over_view: "close_over s = Ret s' \<Longrightarrow> cl_view s' = cl_view s \<and> aioCount s' = aioCount s"
  by (auto simp: close_over_def split: if_splits)

section \<open>Steps\<close>

text \<open>The points that change what the invariant reads.\<close>

fun decisive :: "'o aio \<Rightarrow> apc \<Rightarrow> bool" where
  "decisive s (KCas e d) = (\<not> acloseOnce s)" | "decisive s (KReason e) = True" | "decisive s (KDo e) = True"
| "decisive s IoFire = True" | "decisive s (KFire e) = True" | "decisive s p = False"

lemma plain_view:
  assumes "athread g ec r p s = Some (Ret (s', ps))" and "\<not> decisive s p"
  shows "cl_view s' = cl_view s"
  using assms
  by (cases p) (auto simp: Let_def map_ret_eq_Ret split: if_splits option.splits io_res.splits prod.splits sq_get_out.splits
      dest!: close_over_view)

lemma plain_count:
  assumes "athread g ec r p s = Some (Ret (s', ps))" 
  shows "aioCount s' = aioCount s + int (cnt aio_io ps) - (if aio_io p then 1 else 0)"
  using assms
  by (cases p) (auto simp: cnt_Cons Let_def map_ret_eq_Ret split: if_splits option.splits io_res.splits prod.splits sq_get_out.splits
      dest!: close_over_view)

lemma plain_early:
  assumes "athread g ec r p s = Some (Ret (s', ps))" and "\<not> decisive s p" and "cl_pc s p"
  shows "cnt early ps = (if early p then 1 else 0) \<and> (\<forall>p' \<in> set ps. cl_pc s p')"
  using assms
  by (cases p) (auto simp: cnt_Cons Let_def map_ret_eq_Ret split: if_splits option.splits io_res.splits prod.splits sq_get_out.splits)

text \<open>A goroutine that could run the callback passes this on.\<close>

lemma plain_firing:
  assumes "athread g ec r p s = Some (Ret (s', ps))" and "\<not> decisive s p" and "fd s"
    and "aio_io p \<or> firing p" and "cl_inv s (xs @ p # ys)"
  shows "0 < cnt aio_io (xs @ ps @ ys) + cnt firing (xs @ ps @ ys)"
  using assms
  by (cases p) (auto simp: cl_inv_def cnt_Cons Let_def map_ret_eq_Ret split: if_splits option.splits io_res.splits prod.splits sq_get_out.splits)


lemma cl_plain:
  assumes st: "athread g ec r p s = Some (Ret (s', ps))" and nd: "\<not> decisive s p" and inv: "cl_inv s (xs @ p # ys)"
  shows "cl_inv s' (xs @ ps @ ys)"
proof -
  have v: "cl_view s' = cl_view s" using plain_view [OF st nd] .
  have p: "cl_pc s p" using inv by (simp add: cl_inv_def)
  have e: "cnt early ps = (if early p then 1 else 0)" "\<forall>p' \<in> set ps. cl_pc s p'" using plain_early [OF st nd p] by simp_all
  have pcs: "\<forall>p' \<in> set (xs @ ps @ ys). cl_pc s' p'" using inv e(2) cl_pc_view [OF v] by (auto simp: cl_inv_def)
  have n: "aioCount s' = int (cnt aio_io (xs @ ps @ ys))" using plain_count [OF st] inv by (simp add: cl_inv_def cnt_Cons)
  have ev: "cnt early (xs @ ps @ ys) = cnt early (xs @ p # ys)" using e(1) by (simp add: cnt_Cons)
  have f: "0 < cnt aio_io (xs @ ps @ ys) + cnt firing (xs @ ps @ ys)" if "fd s" "\<not> adoCloseOnce s"
  proof (cases "aio_io p \<or> firing p")
    case True
    then show ?thesis using plain_firing [OF st nd that(1) _ inv] by simp
  next
    case False
    then show ?thesis using inv that by (auto simp: cl_inv_def cnt_Cons)
  qed
  have fields: "acloseOnce s' = acloseOnce s" "fd s' = fd s" "adoCloseOnce s' = adoCloseOnce s" "areason s' = areason s"
      "closecbs s' = closecbs s" "has_closecb s' = has_closecb s"
    using v by (simp_all add: cl_view_def)
  show ?thesis unfolding cl_inv_def fields using inv [unfolded cl_inv_def] ev
    by (intro conjI n pcs impI f) (simp_all only: simp_thms)
qed

text \<open>The others: once a goroutine is in \<open>Close\<close> before \<open>fdoclose\<close>, it is the only one there and nothing is due yet.\<close>

lemma others_early:
  assumes "cl_inv s (xs @ p # ys)" and "early p \<or> \<not> acloseOnce s" and "p' \<in> set xs \<union> set ys"
  shows "\<not> early p' \<and> \<not> fd s \<and> p' \<noteq> IoFire \<and> p' \<noteq> KTest e \<and> p' \<noteq> KFire e"
proof -
  have pc: "cl_pc s p" "cl_pc s p'" using assms(1,3) by (auto simp: cl_inv_def)
  have "\<not> fd s" using assms(1,2) early_pc [OF pc(1)] by (auto simp: cl_inv_def)
  moreover have "\<not> early p'"
  proof
    assume e: "early p'"
    then have "early p" using assms(2) early_pc [OF pc(2)] by blast
    moreover have "0 < cnt early xs + cnt early ys" using e assms(3) cnt_gt_0 [of early] by auto
    ultimately show False using assms(1) by (simp add: cl_inv_def cnt_Cons)
  qed
  ultimately show ?thesis using pc(2) by auto
qed

lemma still_pc:
  assumes "\<not> early p' \<and> p' \<noteq> IoFire \<and> (\<forall>e. p' \<noteq> KTest e \<and> p' \<noteq> KFire e)"
  shows "cl_pc s' p'"
  using assms by (cases p') auto

text \<open>The compare-and-swap on \<open>doCloseOnce\<close> and the callback.\<close>

lemma cl_fire:
  assumes inv: "cl_inv s (xs @ p # ys)" and p: "fd s" "firing p" "\<not> aio_io p" "\<not> early p"
  shows "cl_inv (aio_fire (areason s) s) (xs @ ys)"
proof -
  have pc: "cl_pc (aio_fire (areason s) s) p' = cl_pc s p'" for p' by (cases p') (simp_all add: aio_fire_def)
  show ?thesis using inv p unfolding cl_inv_def pc by (auto simp: cnt_Cons aio_fire_def)
qed

lemma cl_decisive:
  assumes st: "athread g ec r p s = Some (Ret (s', ps))" and d: "decisive s p" and inv: "cl_inv s (xs @ p # ys)"
  shows "cl_inv s' (xs @ ps @ ys)"
proof -
  have rest: "early p \<or> \<not> acloseOnce s \<Longrightarrow> \<forall>p' \<in> set xs \<union> set ys. cl_pc s' p'"
    using others_early [OF inv] still_pc by blast
  show ?thesis
  proof (cases p)
    case (KCas e dl)
    then have s': "s' = s\<lparr>acloseOnce := True\<rparr>" "ps = [KFlag e dl]" and n: "\<not> acloseOnce s" using st d by auto
    have "cnt early xs + cnt early ys = 0"
    proof (rule ccontr)
      assume "cnt early xs + cnt early ys \<noteq> 0"
      then obtain p' where "p' \<in> set xs \<union> set ys" "early p'" using cnt_gt_0 [of early xs] cnt_gt_0 [of early ys] by auto
      then show False using others_early [OF inv] n by blast
    qed
    then show ?thesis using inv rest n KCas unfolding s' by (auto simp: cl_inv_def cnt_Cons)
  next
    case (KReason e)
    then have s': "s' = s\<lparr>areason := Some e\<rparr>" "ps = [KDo e]" using st by auto
    have "acloseOnce s" "\<not> fd s" using inv KReason by (auto simp: cl_inv_def)
    then show ?thesis using inv rest KReason unfolding s' by (auto simp: cl_inv_def cnt_Cons)
  next
    case (KDo e)
    then have s': "s' = aio_set_flag fdoclose s" "ps = [KTest e]" using st by auto
    have "acloseOnce s" "\<not> fd s" "areason s = Some e" using inv KDo by (auto simp: cl_inv_def)
    then show ?thesis using inv rest KDo unfolding s' by (auto simp: cl_inv_def cnt_Cons aio_set_flag_def)
  next
    case IoFire
    then have s': "s' = aio_fire (areason s) s" "ps = []" using st by auto
    have "fd s" using inv IoFire by (auto simp: cl_inv_def)
    then show ?thesis using cl_fire [OF inv] IoFire unfolding s' by simp
  next
    case (KFire e)
    then have s': "s' = aio_fire (areason s) s" "ps = []" using st inv by (auto simp: cl_inv_def)
    have "fd s" using inv KFire by (auto simp: cl_inv_def)
    then show ?thesis using cl_fire [OF inv] KFire unfolding s' by simp
  qed (use d in simp_all)
qed


lemma cl_fresh:
  assumes "cl_inv s ps" and "cl_view s' = cl_view s" and "aioCount s' = aioCount s"
    and "\<not> aio_io p" "\<not> early p" "\<not> firing p"
  shows "cl_inv s' (ps @ [p])"
proof -
  have "cl_pc s' p' = cl_pc s p'" for p' using cl_pc_view [OF assms(2)] .
  moreover have "cl_pc s p" using assms(4-6) by (cases p) simp_all
  ultimately show ?thesis using assms by (simp add: cl_inv_def cl_view_def cnt_Cons)
qed

lemma cl_same: "cl_inv s ps \<Longrightarrow> cl_view s' = cl_view s \<Longrightarrow> aioCount s' = aioCount s \<Longrightarrow> cl_inv s' ps"
  using cl_pc_view [of s' s] by (simp add: cl_inv_def cl_view_def)

lemma cl_thread:
  assumes "athreads S = xs @ p # ys" and "athread g ec r p (sess S) = Some (Ret (s, ps))" and "cl_inv (sess S) (athreads S)"
  shows "cl_inv s (xs @ ps @ ys)"
proof (cases "decisive (sess S) p")
  case True
  then show ?thesis using cl_decisive [OF assms(2) True] assms(1,3) by simp
next
  case False
  then show ?thesis using cl_plain [OF assms(2) False] assms(1,3) by simp
qed

lemma cl_step:
  "aio_step g ec S S' \<Longrightarrow> cl_inv (sess S) (athreads S) \<Longrightarrow> cl_inv (sess S') (athreads S')"
proof (induction rule: aio_step.induct)
  case (a_thread S xs p ys r s ps)
  then show ?case using cl_thread [OF a_thread(1,2) a_thread.prems] by simp
next
  case (a_shutdown S q closeOK remain)
  have "cl_inv ((sess S)\<lparr>aqueue := q\<rparr>) (athreads S)" by (rule cl_same [OF a_shutdown.prems]) simp_all
  moreover have "cl_inv ((sess S)\<lparr>aqueue := q\<rparr>) (athreads S @ [SWrite])" by (rule cl_fresh [OF a_shutdown.prems]) simp_all
  ultimately show ?case by simp
next
  case (a_shutdown_read S)
  show ?case by (simp, rule cl_same [OF a_shutdown_read.prems]) simp_all
next
  case (a_send v S q sig)
  show ?case by (simp, rule cl_fresh [OF a_send.prems]) simp_all
next
  case (a_sendT v S q sig)
  show ?case by (simp, rule cl_fresh [OF a_sendT.prems]) simp_all
next
  case (a_close S e d)
  show ?case by (simp, rule cl_fresh [OF a_close.prems]) simp_all
next
  case (a_begin S nocb)
  show ?case by (simp, rule cl_fresh [OF a_begin.prems]) simp_all
next
  case (a_mixed S h)
  show ?case by (simp, rule cl_same [OF a_mixed.prems]) simp_all
qed

lemma cl_reach:
  "(aio_step g ec)\<^sup>*\<^sup>* (aio_init ecb ccb) S \<Longrightarrow> cl_inv (sess S) (athreads S)"
proof (induction rule: rtranclp_induct)
  case base
  show ?case by (simp add: aio_init_def NewSocket_def cl_inv_def)
next
  case (step S S')
  then show ?case using cl_step by blast
qed

lemma has_closecb_step: "athread g ec r p s = Some (Ret (s', ps)) \<Longrightarrow> has_closecb s' = has_closecb s"
  by (cases p) (auto simp: Let_def map_ret_eq_Ret close_over_def aio_fire_def aio_addIO_def aio_set_flag_def put_buf_def free_buf_def
      split: if_splits option.splits io_res.splits prod.splits sq_get_out.splits)

lemma has_closecb_reach: "(aio_step g ec)\<^sup>*\<^sup>* (aio_init ecb ccb) S \<Longrightarrow> has_closecb (sess S) = ccb"
proof (induction rule: rtranclp_induct)
  case base
  show ?case by (simp add: aio_init_def NewSocket_def)
next
  case (step S S')
  from step(2,3) show ?case
    by (induction rule: aio_step.induct) (auto simp: aio_set_flag_def dest: has_closecb_step)
qed

section \<open>Properties\<close>

text \<open>C29. However \<open>Close\<close>, sends, receives and completions interleave, \<open>ioCount\<close> is the number of I/O activities of the session
  and the close callback runs at most once, not before \<open>Close\<close> has stored its reason and with that reason; once \<open>Close\<close> was called
  and no goroutine of the session is left, it has run.\<close>

theorem aio_close_callback:
  assumes "(aio_step g ec)\<^sup>*\<^sup>* (aio_init ecb True) S"
  shows "aioCount (sess S) = int (cnt aio_io (athreads S)) \<and>
    (closecbs (sess S) = [] \<or> areason (sess S) \<noteq> None \<and> closecbs (sess S) = [areason (sess S)]) \<and>
    (acloseOnce (sess S) \<and> athreads S = [] \<longrightarrow> length (closecbs (sess S)) = 1)"
proof -
  have inv: "cl_inv (sess S) (athreads S)" and cb: "has_closecb (sess S)"
    using cl_reach [OF assms] has_closecb_reach [OF assms] by simp_all
  show ?thesis
  proof (intro conjI impI)
    assume "acloseOnce (sess S) \<and> athreads S = []"
    then have "adoCloseOnce (sess S)" using inv by (auto simp: cl_inv_def)
    then show "length (closecbs (sess S)) = 1" using inv cb by (simp add: cl_inv_def)
  qed (use inv in \<open>auto simp: cl_inv_def split: if_splits\<close>)
qed


text \<open>A receive is under way when the session is closed; its completion finds the flag and runs the callback.\<close>

definition aio_closed_run :: "nat asched list" where
  "aio_closed_run = TBegin # replicate 4 (TThread 0 IoOk) @ TClose ErrSocketClose 0 # replicate 8 (TThread 1 IoOk) @ replicate 5 (TThread 0 IoOk)"

definition aio_closed :: "nat asys" where
  "aio_closed = the (exec double (digit_enc double) aio_closed_run (aio_init True True))"

lemma aio_closed_exec: "exec double (digit_enc double) aio_closed_run (aio_init True True) = Some aio_closed"
  unfolding aio_closed_def by (rule exec_Some) code_simp

theorem aio_close_callback_witness: "length (closecbs (sess aio_closed)) = 1"
proof -
  have "acloseOnce (sess aio_closed)" "athreads aio_closed = []" by code_simp+
  then show ?thesis using aio_close_callback [OF exec_reach [OF aio_closed_exec]] by blast
qed

end
