(* ===== verification/AioRecv.thy ===== *)
theory AioRecv
  imports AioSocket
begin

text \<open>
  Receiving in \<open>src/socket/aio/aiosocket.go\<close>: what \<open>onRecvComplete\<close> does with the data of one completion, the sequence of
  completions of a session, and the default inbound processor, which implements the same \<open>inbound\<close> contract as the one of
  the stream socket.
\<close>

section \<open>Definitions\<close>

record aio_processor =
  abytes :: nat
  abuffer :: "byte list"

definition aio_GetRecvBuff :: "aio_processor \<Rightarrow> byte list" where
  "aio_GetRecvBuff p = abuffer p"

definition aio_Unpack :: "aio_processor \<Rightarrow> aio_processor \<times> byte list option \<times> session_error option" where
  "aio_Unpack p = (if abytes p = 0 then (p, None, None) else (p\<lparr>abytes := 0\<rparr>, Some (take (abytes p) (abuffer p)), None))"

definition aio_OnData :: "aio_processor \<Rightarrow> byte list \<Rightarrow> aio_processor" where
  "aio_OnData p buff = p\<lparr>abytes := length buff\<rparr>"

text \<open>\<open>goaio\<close> has written the received bytes to the front of \<open>GetRecvBuff()\<close> when the request completes.\<close>

definition recv_into :: "aio_processor \<Rightarrow> byte list \<Rightarrow> aio_processor" where
  "recv_into p d = p\<lparr>abuffer := d @ drop (length d) (aio_GetRecvBuff p)\<rparr>"

definition new_aio_processor :: aio_processor where
  "new_aio_processor = \<lparr>abytes = 0, abuffer = replicate 4096 0\<rparr>"

definition aio_inbound :: "(aio_processor, byte list) processor" where
  "aio_inbound = \<lparr>unpack = aio_Unpack, on_data = (\<lambda>p d. aio_OnData (recv_into p d) d)\<rparr>"

text \<open>The loop of \<open>onRecvComplete\<close>. \<open>stopped\<close> is \<open>fclosed | frclosed\<close>; \<open>quit\<close> says whether the session is found closed after the
  callback has had these messages. \<open>None\<close>: out of fuel. The flag of the result is \<open>recvAgain\<close>.\<close>

fun unpack_loop :: "nat \<Rightarrow> ('p, 'm) processor \<Rightarrow> bool \<Rightarrow> ('m list \<Rightarrow> bool) \<Rightarrow> 'p \<Rightarrow> 'm recv_state \<Rightarrow>
    ('p \<times> 'm recv_state \<times> bool) option" where
  "unpack_loop 0 P has_cb quit p st = None"
| "unpack_loop (Suc fuel) P has_cb quit p st =
     (if stopped st then Some (p, st, False)
      else case unpack P p of
        (p', m, Some err) \<Rightarrow>
          (let st1 = st\<lparr>stopped := True, recv_closes := recv_closes st @ [err]\<rparr>
           in Some (p', if has_cb then st1\<lparr>recv_errors := recv_errors st1 @ [err]\<rparr> else st1, False))
      | (p', Some m, None) \<Rightarrow>
          (let ms = received st @ [m] in unpack_loop fuel P has_cb quit p' (st\<lparr>received := ms, stopped := quit ms\<rparr>))
      | (p', None, None) \<Rightarrow> Some (p', st, True))"

datatype completion = CData "byte list" | CErr session_error

text \<open>\<open>onRecvComplete\<close>; the flag of the result says that another request is made, otherwise \<open>ioDone\<close> is called.\<close>

definition onRecvComplete :: "nat \<Rightarrow> ('p, 'm) processor \<Rightarrow> bool \<Rightarrow> ('m list \<Rightarrow> bool) \<Rightarrow> completion \<Rightarrow> 'p \<Rightarrow> 'm recv_state \<Rightarrow>
    ('p \<times> 'm recv_state \<times> bool) option" where
  "onRecvComplete fuel P has_cb quit c p st =
     (if stopped st then Some (p, st, False)
      else case c of
        CErr err \<Rightarrow>
          (let recvAgain = (err = NetTimeout);
               err1 = (if recvAgain then ErrRecvTimeout else err);
               st1 = (if recvAgain then st else st\<lparr>stopped := True\<rparr>);
               st2 = (if has_cb then st1\<lparr>recv_errors := recv_errors st1 @ [err1]\<rparr>
                      else st1\<lparr>stopped := True, recv_closes := recv_closes st1 @ [err1]\<rparr>)
           in Some (p, st2, recvAgain \<and> \<not> stopped st2))
      | CData d \<Rightarrow>
          (case unpack_loop fuel P has_cb quit (on_data P p d) st of
             None \<Rightarrow> None
           | Some (p', st', recvAgain) \<Rightarrow> Some (p', st', recvAgain \<and> \<not> stopped st')))"

text \<open>The completions of a session one after another, each with the answer of the following \<open>Recv1\<close>: true when the request is
  taken. The number of calls of \<open>ioDone\<close> is counted.\<close>

fun recv_run :: "nat \<Rightarrow> ('p, 'm) processor \<Rightarrow> bool \<Rightarrow> ('m list \<Rightarrow> bool) \<Rightarrow> (completion \<times> bool) list \<Rightarrow> 'p \<Rightarrow> 'm recv_state \<Rightarrow>
    ('p \<times> 'm recv_state \<times> nat) option" where
  "recv_run fuel P has_cb quit [] p st = Some (p, st, 0)"
| "recv_run fuel P has_cb quit ((c, req) # cs) p st =
     (case onRecvComplete fuel P has_cb quit c p st of
        None \<Rightarrow> None
      | Some (p', st', again) \<Rightarrow>
          (if again \<and> req then recv_run fuel P has_cb quit cs p' st' else Some (p', st', 1)))"

section \<open>Under the inbound contract\<close>

fun completed :: "completion \<Rightarrow> byte list" where
  "completed (CData d) = d"
| "completed (CErr e) = []"

lemma onRecvComplete_stops: "onRecvComplete fuel P has_cb quit c p st = Some (p', st', again) \<Longrightarrow> again \<Longrightarrow> \<not> stopped st'"
  by (auto simp: onRecvComplete_def Let_def split: if_splits completion.splits option.splits)

context inbound
begin

lemma unpack_loop_result:
  assumes "ok p" and "length (pend p) < fuel" and noerr: "\<And>p p' r e. ok p \<Longrightarrow> unpack P p \<noteq> (p', r, Some e)"
  shows "\<exists>p' st' again. unpack_loop fuel P has_cb quit p st = Some (p', st', again) \<and>
    concat (map mbytes (received st')) @ pend p' = concat (map mbytes (received st)) @ pend p \<and>
    (stopped st \<longrightarrow> stopped st') \<and> (\<not> stopped st' \<longrightarrow> again \<and> (\<exists>q. ok q \<and> unpack P q = (p', None, None)))"
  using assms(1,2)
proof (induction fuel arbitrary: p st)
  case (Suc fuel)
  obtain p1 r e where u: "unpack P p = (p1, r, e)" by (metis prod_cases3)
  have ok1: "ok p1" using unpack_ok [OF Suc.prems(1) u] .
  have e: "e = None" using noerr [OF Suc.prems(1)] u by (cases e) auto
  show ?case
  proof (cases "stopped st")
    case False
    show ?thesis
    proof (cases r)
      case None
      then have u': "unpack P p = (p1, None, None)" using u e by simp
      then have "pend p1 = pend p" using unpack_none [OF Suc.prems(1)] by blast
      moreover have "\<exists>q. ok q \<and> unpack P q = (p1, None, None)" using u' Suc.prems(1) by blast
      ultimately show ?thesis using u' False by auto
    next
      case (Some m)
      then have m: "mbytes m \<noteq> []" "pend p = mbytes m @ pend p1" using unpack_msg [OF Suc.prems(1)] u by auto
      let ?st = "st\<lparr>received := received st @ [m], stopped := quit (received st @ [m])\<rparr>"
      have len: "length (pend p1) < fuel" using m Suc.prems(2) by (cases "mbytes m") auto
      have "unpack_loop (Suc fuel) P has_cb quit p st = unpack_loop fuel P has_cb quit p1 ?st" using u e Some False by (simp add: Let_def)
      then show ?thesis using Suc.IH [OF ok1 len, of ?st] m False by auto
    qed
  qed auto
qed simp

text \<open>A processor that was just found without a message: the next data goes behind what it holds.\<close>

definition drained :: "'p \<Rightarrow> bool" where
  "drained p \<longleftrightarrow> (\<exists>q. ok q \<and> unpack P q = (p, None, None))"

abbreviation flat :: "'m recv_state \<Rightarrow> byte list" where
  "flat st \<equiv> concat (map mbytes (received st))"

lemma onRecvComplete_result:
  assumes p: "drained p" and d: "length (completed c) \<le> chunk" and f: "length (pend p) + length (completed c) < fuel"
    and noerr: "\<And>p p' r e. ok p \<Longrightarrow> unpack P p \<noteq> (p', r, Some e)"
  shows "\<exists>p' st' again. onRecvComplete fuel P has_cb quit c p st = Some (p', st', again) \<and>
    (\<exists>more. flat st @ pend p @ completed c = flat st' @ more) \<and>
    (\<not> stopped st' \<longrightarrow> again \<and> drained p' \<and> flat st' @ pend p' = flat st @ pend p @ completed c)"
proof (cases "stopped st")
  case True
  then show ?thesis by (auto simp: onRecvComplete_def)
next
  case run: False
  show ?thesis
  proof (cases c)
    case (CErr e)
    then show ?thesis using p run by (auto simp: onRecvComplete_def Let_def)
  next
    case (CData b)
    obtain q where q: "ok q" "unpack P q = (p, None, None)" using p by (auto simp: drained_def)
    have ok: "ok (on_data P p b)" and pe: "pend (on_data P p b) = pend p @ b"
      using data_ok [OF q] data_pend [OF q] d CData by simp_all
    have "length (pend (on_data P p b)) < fuel" using f pe CData by simp
    then obtain p' st' again where u: "unpack_loop fuel P has_cb quit (on_data P p b) st = Some (p', st', again)"
        and fl: "flat st' @ pend p' = flat st @ pend p @ b"
        and ag: "\<not> stopped st' \<longrightarrow> again \<and> drained p'"
      using unpack_loop_result [OF ok _ noerr, of fuel has_cb quit st] pe unfolding drained_def by auto
    have "onRecvComplete fuel P has_cb quit c p st = Some (p', st', again \<and> \<not> stopped st')"
      using run u CData by (simp add: onRecvComplete_def)
    then show ?thesis using fl ag CData by (metis completed.simps(1))
  qed
qed

text \<open>With a processor that holds nothing once it is drained, and fuel for one chunk, every sequence of completions is got
  through: what is delivered is always a prefix of the received data, and all of it while requests go on.\<close>

lemma recv_run_result:
  assumes p: "drained p" and d: "\<forall>c \<in> fst ` set cs. length (completed c) \<le> chunk"
    and empty: "\<And>p. drained p \<Longrightarrow> pend p = []" and f: "chunk < fuel"
    and noerr: "\<And>p p' r e. ok p \<Longrightarrow> unpack P p \<noteq> (p', r, Some e)"
  shows "\<exists>p' st' n. recv_run fuel P has_cb quit cs p st = Some (p', st', n) \<and> n \<le> 1 \<and>
    (\<exists>more. flat st @ concat (map (completed \<circ> fst) cs) = flat st' @ more \<and> (n = 0 \<longrightarrow> more = [])) \<and>
    (cs \<noteq> [] \<and> stopped st' \<longrightarrow> n = 1)"
  using p d
proof (induction cs arbitrary: p st)
  case (Cons x cs)
  obtain c req where x: "x = (c, req)" by (cases x)
  have len: "length (completed c) \<le> chunk" using Cons.prems(2) x by simp
  then have lf: "length (pend p) + length (completed c) < fuel" using empty [OF Cons.prems(1)] f by simp
  obtain p' st' again where r: "onRecvComplete fuel P has_cb quit c p st = Some (p', st', again)"
      and pre: "\<exists>more. flat st @ completed c = flat st' @ more"
      and live: "\<not> stopped st' \<longrightarrow> drained p' \<and> flat st' @ pend p' = flat st @ completed c"
    using onRecvComplete_result [OF Cons.prems(1) len lf noerr, of has_cb quit st] empty [OF Cons.prems(1)] by auto
  show ?case
  proof (cases "again \<and> req")
    case False
    then have "recv_run fuel P has_cb quit (x # cs) p st = Some (p', st', 1)" using r x by auto
    then show ?thesis using pre x by (auto simp: append_eq_append_conv2)
  next
    case True
    then have ns: "\<not> stopped st'" using onRecvComplete_stops [OF r] by blast
    then have dr: "drained p'" and fl: "flat st' = flat st @ completed c" using live empty [of p'] by auto
    have ds: "\<forall>c \<in> fst ` set cs. length (completed c) \<le> chunk" using Cons.prems(2) by simp
    obtain p'' st'' n where run: "recv_run fuel P has_cb quit cs p' st' = Some (p'', st'', n)" "n \<le> 1"
        and out: "\<exists>more. flat st' @ concat (map (completed \<circ> fst) cs) = flat st'' @ more \<and> (n = 0 \<longrightarrow> more = [])"
        and st: "cs \<noteq> [] \<and> stopped st'' \<longrightarrow> n = 1"
      using Cons.IH [OF dr ds, of st'] by metis
    have "recv_run fuel P has_cb quit (x # cs) p st = Some (p'', st'', n)" using r x True run by simp
    moreover have "stopped st'' \<longrightarrow> n = 1" using st ns run by (cases cs) auto
    ultimately show ?thesis using run(2) out fl x by (simp add: comp_def)
  qed
qed auto

end

section \<open>The default processor\<close>

definition aio_ok :: "aio_processor \<Rightarrow> bool" where
  "aio_ok p \<longleftrightarrow> length (abuffer p) = 4096 \<and> abytes p \<le> 4096"

definition aio_pend :: "aio_processor \<Rightarrow> byte list" where
  "aio_pend p = take (abytes p) (abuffer p)"

lemma aio_unpack_iff:
  "unpack aio_inbound p = (p', r, e) \<longleftrightarrow>
     abytes p = 0 \<and> p' = p \<and> r = None \<and> e = None \<or>
     abytes p \<noteq> 0 \<and> p' = p\<lparr>abytes := 0\<rparr> \<and> r = Some (aio_pend p) \<and> e = None"
  by (auto simp: aio_inbound_def aio_Unpack_def aio_pend_def)

interpretation aip: inbound aio_inbound aio_ok aio_pend "\<lambda>m. m" 4096
proof unfold_locales
  fix p p' r e assume "aio_ok p" "unpack aio_inbound p = (p', r, e)"
  then show "aio_ok p'" by (auto simp: aio_unpack_iff aio_ok_def)
next
  fix p p' m e assume "aio_ok p" "unpack aio_inbound p = (p', Some m, e)"
  then show "e = None \<and> m \<noteq> [] \<and> aio_pend p = m @ aio_pend p'" by (auto simp: aio_unpack_iff aio_ok_def aio_pend_def)
next
  fix p p' e assume "aio_ok p" "unpack aio_inbound p = (p', None, e)"
  then show "aio_pend p' = aio_pend p" by (auto simp: aio_unpack_iff)
next
  fix p p' and d :: "byte list"
  assume a: "aio_ok p" "unpack aio_inbound p = (p', None, None)" "length d \<le> 4096"
  then have p': "p' = p" "abytes p = 0" "length (abuffer p) = 4096" by (auto simp: aio_unpack_iff aio_ok_def)
  then show "aio_ok (on_data aio_inbound p' d)"
    using a(3) by (simp add: aio_inbound_def aio_ok_def aio_OnData_def recv_into_def aio_GetRecvBuff_def)
  show "aio_pend (on_data aio_inbound p' d) = aio_pend p' @ d"
    using p' by (simp add: aio_inbound_def aio_pend_def aio_OnData_def recv_into_def)
qed

lemma drained_empty: "aip.drained p \<Longrightarrow> aio_pend p = []"
  by (auto simp: aip.drained_def aio_unpack_iff aio_pend_def)

lemma drained_new: "aip.drained new_aio_processor"
  unfolding aip.drained_def by (rule exI [of _ new_aio_processor]) (simp add: aio_unpack_iff aio_ok_def new_aio_processor_def)

text \<open>C30. Receiving over asynchronous I/O with the default processor: whatever completions arrive, data of at most 4096 bytes each,
  timeouts and errors, and whenever the callback closes the session, \<open>onRecvComplete\<close> always returns, the messages delivered are
  a prefix of the received bytes in order, all of them as long as requests go on, and the request's \<open>ioDone\<close> comes once, when
  they end.\<close>

theorem aio_recv_delivers:
  assumes "\<forall>c \<in> fst ` set cs. length (completed c) \<le> 4096" and "st = \<lparr>stopped = False, received = [], recv_errors = [], recv_closes = []\<rparr>"
  shows "\<exists>p' st' n. recv_run 4097 aio_inbound has_cb quit cs new_aio_processor st = Some (p', st', n) \<and> n \<le> 1 \<and>
    (\<exists>more. concat (map (completed \<circ> fst) cs) = concat (received st') @ more \<and> (n = 0 \<longrightarrow> more = [])) \<and>
    (cs \<noteq> [] \<and> stopped st' \<longrightarrow> n = 1)"
  using aip.recv_run_result [OF drained_new assms(1) drained_empty, of 4097 has_cb quit st] assms(2)
  by (simp add: aio_unpack_iff)

theorem aio_recv_delivers_witness:
  "\<exists>p' st' n. recv_run 4097 aio_inbound True (\<lambda>ms. False) [(CData [1, 2], True), (CErr NetTimeout, True), (CData [3], False)]
      new_aio_processor \<lparr>stopped = False, received = [], recv_errors = [], recv_closes = []\<rparr> = Some (p', st', n) \<and> n \<le> 1 \<and>
    (\<exists>more. [1, 2, 3] = concat (received st') @ more \<and> (n = 0 \<longrightarrow> more = []))"
  using aio_recv_delivers [of "[(CData [1, 2], True), (CErr NetTimeout, True), (CData [3], False)]" _ True "\<lambda>ms. False"]
  by fastforce

end
