(* ===== verification/AioStream.thy ===== *)
theory AioStream
  imports AioSocket PbCodec
begin

text \<open>
  The asynchronous session of AioSocket with the protobuf encoder, and a \<open>PBReceiver\<close> of PbCodec at the other end of its connection.
\<close>


text \<open>The session is at rest: no goroutine of it is left, or one that waits in \<open>Get\<close> on an empty queue, and no failed send has left the
  lock taken.\<close>

definition at_rest :: "growth \<Rightarrow> 'o StreamSocket.encoder \<Rightarrow> 'o asys \<Rightarrow> bool" where
  "at_rest g ec S \<longleftrightarrow>
     (\<forall>p \<in> set (athreads S). (\<exists>i. p = DoSend i \<and> Len (heap (sess S) i) = 0) \<and> athread g ec IoOk p (sess S) = None) \<and>
     (sendLock (sess S) \<longrightarrow> athreads S \<noteq> [])"

lemma aio_payload_wires:
  assumes "\<forall>m \<in> set ms. fits P reg mx m"
  shows "concat (map (aio_payload (pb_bytes P reg mx) (pb_fails P reg mx)) (map OMsg ms)) = wires P reg ms"
  using assms fits_encodes by (induction ms) fastforce+

text \<open>C3. An asynchronous session to a \<open>PBReceiver\<close>: however sends, completions, partial writes, timeouts, errors and \<open>Close\<close> interleave in the
  session, as long as no completion was given the buffer of another goroutine from \<open>sendContext.b\<close>, at every moment the receiver at the other end has cut the bytes on the wire into the first of the messages the session has
  accepted, unchanged, in order and with no error, however the bytes are split into reads; once the session has come to rest
  and the reads have taken everything, all of them.\<close>

theorem aio_end_to_end:
  assumes "(aio_step g (PbEncoder g P (register_all ts) mx))\<^sup>*\<^sup>* (aio_init ecb ccb) S" and "taken S = map OMsg ms"
    and "\<forall>m \<in> set ms. fits P (register_all ts) mx m" and nm: "\<not> mixed (sess S)"
  shows "\<exists>R input k. pb_session (Suc (length ms + length sizes)) P (register_all ts) sizes (awire (sess S)) (NewPBReceiver mx) [] =
      Some (Ret (R, input, take k ms, None)) \<and>
    (at_rest g (PbEncoder g P (register_all ts) mx) S \<longrightarrow> length (awire (sess S)) \<le> length (filter (\<lambda>n. 0 < n) sizes) \<longrightarrow> k = length ms)"
proof -
  let ?reg = "register_all ts"
  have pay: "concat (map (aio_payload (pb_bytes P ?reg mx) (pb_fails P ?reg mx)) (taken S)) = wires P ?reg ms"
    unfolding assms(2) by (rule aio_payload_wires [OF assms(3)])
  obtain left where left: "wires P ?reg ms = awire (sess S) @ left"
    using aio_wire_prefix [OF pb_encodes assms(1) nm] unfolding pay by metis
  have rest: "left = []" if "at_rest g (PbEncoder g P ?reg mx) S"
    using conjunct2 [OF aio_at_rest [OF pb_encodes assms(1) nm]] that left unfolding at_rest_def pay by simp
  from receiver_cuts [OF assms(3) left [symmetric], of sizes] obtain R input k where
      k: "pb_session (Suc (length ms + length sizes)) P ?reg sizes (awire (sess S)) (NewPBReceiver mx) [] = Some (Ret (R, input, take k ms, None))"
      "left = [] \<Longrightarrow> length (awire (sess S)) \<le> length (filter (\<lambda>n. 0 < n) sizes) \<Longrightarrow> k = length ms" by metis
  then show ?thesis using rest by blast
qed

text \<open>A message sent by a session whose goroutines all finish, received byte by byte.\<close>

definition raw_enc :: "byte list StreamSocket.encoder" where
  "raw_enc = PbEncoder double raw_proto (register_all [(''raw'', 7)]) 100"

definition raw_sent :: "byte list asys" where
  "raw_sent = the (exec double raw_enc (send_run 0 (OMsg [1, 2]) @ replicate 5 (TThread 0 IoOk)) (aio_init True True))"

lemma raw_sent_exec: "exec double raw_enc (send_run 0 (OMsg [1, 2]) @ replicate 5 (TThread 0 IoOk)) (aio_init True True) = Some raw_sent"
  unfolding raw_sent_def by (rule exec_Some) code_simp

lemma raw_sent_state: "athreads raw_sent = []" "sendLock (sess raw_sent) = False" "taken raw_sent = [OMsg [1, 2]]" "length (awire (sess raw_sent)) = 10"
  "mixed (sess raw_sent) = False"
  by code_simp+

theorem aio_end_to_end_witness:
  "\<exists>R input. pb_session 22 raw_proto (register_all [(''raw'', 7)]) (replicate 20 1) (awire (sess raw_sent)) (NewPBReceiver 100) [] =
     Some (Ret (R, input, [[1, 2]], None))"
proof -
  let ?reg = "register_all [(''raw'', 7)]"
  have reach: "(aio_step double (PbEncoder double raw_proto ?reg 100))\<^sup>*\<^sup>* (aio_init True True) raw_sent"
    using exec_reach [OF raw_sent_exec] by (simp add: raw_enc_def)
  have fit: "\<forall>m \<in> set [[1, 2]]. fits raw_proto ?reg 100 m"
    by (simp add: fits_def raw_proto_def register_all_def Register_def empty_registry_def)
  have rest: "at_rest double (PbEncoder double raw_proto ?reg 100) raw_sent" by (simp add: at_rest_def raw_sent_state)
  have "taken raw_sent = map OMsg [[1, 2]]" by (simp add: raw_sent_state)
  from aio_end_to_end [OF reach this fit _, of "replicate 20 1"] obtain R input k where
    "pb_session 22 raw_proto ?reg (replicate 20 1) (awire (sess raw_sent)) (NewPBReceiver 100) [] = Some (Ret (R, input, take k [[1, 2]], None))"
    "k = 1" using rest raw_sent_state(4,5) by auto
  then show ?thesis by auto
qed

end
