(* ===== verification/ShareBuffer.thy ===== *)
theory ShareBuffer
  imports PbCodec
begin

text \<open>
  The inbound processor that borrows its receive buffer from a shared pool, \<open>src/example/aio/aio_sharebuffer.go\<close>: between packets it
  has no buffer, and \<open>goaio\<close> receives into one of the pool; the rest of a packet that came in part is received into a
  buffer of its own. The frames are those of PbCodec. \<open>goaio\<close> appears as what it does with \<open>GetRecvBuff\<close>: nil makes
  it acquire a pooled buffer, anything else is filled from its start.
\<close>

section \<open>Definitions\<close>

definition PoolBuffSize :: nat where "PoolBuffSize = 65 * 1024"

text \<open>The processor, with the pool and the counter that it shares with the others.\<close>

record share =
  sbuf :: slice
  sw :: nat
  sr :: nat
  spool :: "slice list"
  makeBuffCount :: nat

text \<open>\<open>Acquire\<close>: \<open>sync.Pool\<close> returns any of the released buffers, or a new one.\<close>

definition Acquire :: "nat option \<Rightarrow> slice list \<Rightarrow> slice \<times> slice list" where
  "Acquire pick pool =
     (case pick of
        Some i \<Rightarrow> if i < length pool then (pool ! i, take i pool @ drop (Suc i) pool)
                  else (\<lparr>sarr = replicate PoolBuffSize 0, slen = PoolBuffSize\<rparr>, pool)
      | None \<Rightarrow> (\<lparr>sarr = replicate PoolBuffSize 0, slen = PoolBuffSize\<rparr>, pool))"

definition Release :: "slice \<Rightarrow> slice list \<Rightarrow> slice list" where
  "Release buff pool = (if scap buff = PoolBuffSize then pool @ [\<lparr>sarr = sarr buff, slen = scap buff\<rparr>] else pool)"

definition sb_GetRecvBuff :: "share \<Rightarrow> byte list option go" where
  "sb_GetRecvBuff p =
     (if slen (sbuf p) = 0 then Ret None
      else if sw p > slen (sbuf p) then Panic SliceBounds
      else Ret (Some (drop (sw p) (sbytes (sbuf p)))))"

definition sb_OnData :: "slice \<Rightarrow> share \<Rightarrow> share" where
  "sb_OnData data p =
     (let p1 = (if slen (sbuf p) = 0 then p\<lparr>sbuf := data\<rparr> else p) in p1\<lparr>sw := sw p1 + slen data\<rparr>)"

definition maxPacket :: int where "maxPacket = 4096"

definition sb_Unpack :: "'m proto \<Rightarrow> registry \<Rightarrow> share \<Rightarrow> (share \<times> 'm option \<times> pb_error option) go" where
  "sb_Unpack P reg p =
     (if sr p = sw p then Ret (p, None, None)
      else bind_go (Decode P reg (sarr (sbuf p)) (sr p) (sw p) maxPacket) (\<lambda>(msg, packetSize, err).
        if msg \<noteq> None then
          (let r = sr p + nat packetSize in
           Ret (if r = sw p
                then p\<lparr>sr := 0, sw := 0, spool := Release (sbuf p) (spool p), sbuf := nil_slice\<rparr>
                else p\<lparr>sr := r\<rparr>, msg, err))
        else if err = None then
          (if sw p > scap (sbuf p) then Panic SliceBounds
           else
             (let buff = copy_front (replicate (nat packetSize) 0) (take (sw p - sr p) (drop (sr p) (sarr (sbuf p))))
              in Ret (p\<lparr>makeBuffCount := makeBuffCount p + 1, sw := sw p - sr p, sr := 0,
                        spool := Release (sbuf p) (spool p), sbuf := \<lparr>sarr = buff, slen = length buff\<rparr>\<rparr>, msg, err)))
        else Ret (p, msg, err)))"

definition sb_OnSocketClose :: "share \<Rightarrow> share" where
  "sb_OnSocketClose p = p\<lparr>spool := Release (sbuf p) (spool p)\<rparr>"

text \<open>A completed receive of at most \<open>n\<close> bytes of the stream \<open>input\<close>: where the bytes go, then \<open>OnData\<close>. The result is the processor
  and what is left of the stream.\<close>

definition sb_receive :: "nat option \<Rightarrow> nat \<Rightarrow> byte list \<Rightarrow> share \<Rightarrow> (share \<times> byte list) go" where
  "sb_receive pick n input p =
     map_ret (\<lambda>room. case room of
        None \<Rightarrow>
          (let (b, pool) = Acquire pick (spool p); d = take (min n (length (sarr b))) input
           in (sb_OnData \<lparr>sarr = d @ drop (length d) (sarr b), slen = length d\<rparr> (p\<lparr>spool := pool\<rparr>), drop (length d) input))
      | Some rm \<Rightarrow>
          (let d = take (min n (length rm)) input;
               a = take (sw p) (sarr (sbuf p)) @ d @ drop (sw p + length d) (sarr (sbuf p))
           in (sb_OnData \<lparr>sarr = d, slen = length d\<rparr> (p\<lparr>sbuf := \<lparr>sarr = a, slen = slen (sbuf p)\<rparr>\<rparr>), drop (length d) input)))
       (sb_GetRecvBuff p)"

text \<open>The loop of \<open>onRecvComplete\<close>: messages until there is none. \<open>None\<close>: out of fuel.\<close>

fun sb_drain :: "nat \<Rightarrow> 'm proto \<Rightarrow> registry \<Rightarrow> share \<Rightarrow> 'm list \<Rightarrow> (share \<times> 'm list \<times> pb_error option) go option" where
  "sb_drain 0 P reg p ms = None"
| "sb_drain (Suc fuel) P reg p ms =
     (case sb_Unpack P reg p of
        Panic e \<Rightarrow> Some (Panic e)
      | Ret (p', Some m, err) \<Rightarrow> sb_drain fuel P reg p' (ms @ [m])
      | Ret (p', None, err) \<Rightarrow> Some (Ret (p', ms, err)))"

definition sb_complete :: "nat \<Rightarrow> 'm proto \<Rightarrow> registry \<Rightarrow> nat option \<times> nat \<Rightarrow> byte list \<Rightarrow> share \<Rightarrow>
    (share \<times> byte list \<times> 'm list \<times> pb_error option) go option" where
  "sb_complete fuel P reg rd input p =
     (case sb_receive (fst rd) (snd rd) input p of
        Panic e \<Rightarrow> Some (Panic e)
      | Ret (p1, input1) \<Rightarrow> map_option (map_ret (\<lambda>(p2, ms, err). (p2, input1, ms, err))) (sb_drain fuel P reg p1 []))"

section \<open>The states of the processor between receives\<close>

text \<open>No buffer; a buffer of its own with at least the header of the packet; and what is left when a receive ends inside a header.\<close>

definition sb_idle :: "share \<Rightarrow> bool" where
  "sb_idle p \<longleftrightarrow> slen (sbuf p) = 0 \<and> sw p = 0 \<and> sr p = 0"

definition sb_partial :: "'m proto \<Rightarrow> registry \<Rightarrow> 'm \<Rightarrow> byte list \<Rightarrow> share \<Rightarrow> bool" where
  "sb_partial P reg m hs p \<longleftrightarrow>
     sr p = 0 \<and> sw p = length hs \<and> 4 \<le> length hs \<and> length hs < length (wire_form P reg m) \<and>
     slen (sbuf p) = length (wire_form P reg m) \<and> length (sarr (sbuf p)) = slen (sbuf p) \<and> take (sw p) (sarr (sbuf p)) = hs"

definition header_cut :: "share \<Rightarrow> bool" where
  "header_cut p \<longleftrightarrow> slen (sbuf p) = 0 \<and> 0 < sw p \<and> sw p < 4 \<and> sr p = 0"

text \<open>The lost bytes and the rest of the stream.\<close>

definition sb_lost :: "'m proto \<Rightarrow> registry \<Rightarrow> 'm list \<Rightarrow> byte list \<Rightarrow> share \<Rightarrow> bool" where
  "sb_lost P reg ms input p \<longleftrightarrow>
     header_cut p \<and> (\<exists>hs. hs \<noteq> [] \<and> length hs < 4 \<and> hs @ input = concat (map (wire_form P reg) ms))"

definition pool_ok :: "share \<Rightarrow> bool" where
  "pool_ok p \<longleftrightarrow> (\<forall>b \<in> set (spool p). scap b = PoolBuffSize)"

text \<open>What a processor in the middle of unpacking holds.\<close>

definition sb_held :: "share \<Rightarrow> byte list" where
  "sb_held p = take (sw p - sr p) (drop (sr p) (sarr (sbuf p)))"

definition sb_wf :: "share \<Rightarrow> bool" where
  "sb_wf p \<longleftrightarrow> sr p < sw p \<and> sw p \<le> length (sarr (sbuf p))"

lemma length_sb_held: "sb_wf p \<Longrightarrow> length (sb_held p) = sw p - sr p"
  by (auto simp: sb_held_def sb_wf_def)

lemma Decode_window:
  assumes "s \<le> e" and "e \<le> length b"
  shows "Decode P reg b s e mx = Decode P reg (take (e - s) (drop s b)) 0 (e - s) mx"
  using assms by (simp add: Decode_def of_nat_diff Let_def)

lemma Decode_sb_held: "sb_wf p \<Longrightarrow> Decode P reg (sarr (sbuf p)) (sr p) (sw p) mx = Decode P reg (sb_held p) 0 (length (sb_held p)) mx"
  using Decode_window [of "sr p" "sw p" "sarr (sbuf p)"] length_sb_held [of p] by (simp add: sb_held_def sb_wf_def)

lemma sb_Unpack_idle: "sr p = sw p \<Longrightarrow> sb_Unpack P reg p = Ret (p, None, None)"
  by (simp add: sb_Unpack_def)

lemma sb_Unpack_message:
  assumes wf: "sb_wf p" and dec: "Decode P reg (sb_held p) 0 (length (sb_held p)) maxPacket = Ret (Some m, int n, None)" and n: "n \<le> length (sb_held p)"
  shows "sb_Unpack P reg p =
    Ret (if n = length (sb_held p) then p\<lparr>sr := 0, sw := 0, spool := Release (sbuf p) (spool p), sbuf := nil_slice\<rparr> else p\<lparr>sr := sr p + n\<rparr>, Some m, None)"
proof -
  have "sr p \<noteq> sw p" "sr p + n = sw p \<longleftrightarrow> n = length (sb_held p)" using wf length_sb_held [OF wf] by (auto simp: sb_wf_def)
  then show ?thesis using dec Decode_sb_held [OF wf, of P reg maxPacket] by (simp add: sb_Unpack_def Let_def)
qed

lemma sb_Unpack_short:
  assumes wf: "sb_wf p" and dec: "Decode P reg (sb_held p) 0 (length (sb_held p)) maxPacket = Ret (None, int n, None)"
  shows "sb_Unpack P reg p =
    Ret (p\<lparr>makeBuffCount := makeBuffCount p + 1, sw := length (sb_held p), sr := 0, spool := Release (sbuf p) (spool p),
          sbuf := \<lparr>sarr = copy_front (replicate n 0) (sb_held p), slen = length (copy_front (replicate n 0) (sb_held p))\<rparr>\<rparr>, None, None)"
proof -
  have "sr p \<noteq> sw p" "\<not> sw p > scap (sbuf p)" using wf by (auto simp: sb_wf_def scap_def)
  then show ?thesis using dec Decode_sb_held [OF wf, of P reg maxPacket] length_sb_held [OF wf]
    by (simp add: sb_Unpack_def Let_def sb_held_def [symmetric])
qed

lemma sb_held_next:
  assumes "sb_wf p" and "n < length (sb_held p)"
  shows "sb_wf (p\<lparr>sr := sr p + n\<rparr>) \<and> sb_held (p\<lparr>sr := sr p + n\<rparr>) = drop n (sb_held p)"
  using assms length_sb_held [OF assms(1)] by (auto simp: sb_wf_def sb_held_def drop_take add.commute)

text \<open>After a receive: all complete messages are delivered, the borrowed buffer goes back to the pool, and the processor is idle, or
  keeps the beginning of the next packet, or has lost the beginning of a header.\<close>

lemma sb_drain_run:
  assumes reg: "registry_ok reg" and "\<forall>m \<in> set ms. fits P reg maxPacket m" and "sb_wf p" and "sb_held p @ input = wires P reg ms"
    and "length (sb_held p) < fuel"
  shows "\<exists>p' j. sb_drain fuel P reg p done = Some (Ret (p', done @ take j ms, None)) \<and> spool p' = Release (sbuf p) (spool p) \<and>
    (sb_idle p' \<and> input = wires P reg (drop j ms) \<or>
     (\<exists>m ms' hs. drop j ms = m # ms' \<and> sb_partial P reg m hs p' \<and> hs @ input = wires P reg (drop j ms)) \<or> sb_lost P reg (drop j ms) input p')"
  using assms(2-)
proof (induction fuel arbitrary: p ms "done")
  case (Suc fuel)
  have ne: "0 < length (sb_held p)" using Suc.prems(2) length_sb_held [OF Suc.prems(2)] by (simp add: sb_wf_def)
  then obtain m ms' where ms: "ms = m # ms'" using Suc.prems(3) by (cases ms) auto
  let ?n = "length (wire_form P reg m)"
  have n: "8 \<le> ?n" by (simp add: wire_form_def)
  have str: "sb_held p @ input = wire_form P reg m @ wires P reg ms'" using Suc.prems(3) ms by simp
  note dec = Decode_frame [OF _ reg str, of maxPacket]
  have fit: "fits P reg maxPacket m" using Suc.prems(1) ms by simp
  consider "length (sb_held p) < 4" | "4 \<le> length (sb_held p)" "length (sb_held p) < ?n" | "length (sb_held p) = ?n" | "?n < length (sb_held p)"
    by linarith
  then show ?case
  proof cases
    case 1
    then have d: "Decode P reg (sb_held p) 0 (length (sb_held p)) maxPacket = Ret (None, int 0, None)" using dec [OF fit] by simp
    from sb_Unpack_short [OF Suc.prems(2) d] have "sb_drain (Suc fuel) P reg p done = Some (Ret (p\<lparr>makeBuffCount := makeBuffCount p + 1,
        sw := length (sb_held p), sr := 0, spool := Release (sbuf p) (spool p), sbuf := \<lparr>sarr = [], slen = 0\<rparr>\<rparr>, done @ take 0 ms, None))"
      by (simp add: copy_front_def)
    moreover have "sb_lost P reg (drop 0 ms) input (p\<lparr>makeBuffCount := makeBuffCount p + 1,
        sw := length (sb_held p), sr := 0, spool := Release (sbuf p) (spool p), sbuf := \<lparr>sarr = [], slen = 0\<rparr>\<rparr>)"
      using 1 ne Suc.prems(3) by (auto simp: header_cut_def sb_lost_def)
    ultimately show ?thesis by fastforce
  next
    case 2
    then have d: "Decode P reg (sb_held p) 0 (length (sb_held p)) maxPacket = Ret (None, int ?n, None)" using dec [OF fit] by simp
    let ?buf = "copy_front (replicate ?n 0) (sb_held p)"
    let ?p = "p\<lparr>makeBuffCount := makeBuffCount p + 1, sw := length (sb_held p), sr := 0, spool := Release (sbuf p) (spool p),
        sbuf := \<lparr>sarr = ?buf, slen = length ?buf\<rparr>\<rparr>"
    have "sb_drain (Suc fuel) P reg p done = Some (Ret (?p, done @ take 0 ms, None))" using sb_Unpack_short [OF Suc.prems(2) d] by simp
    moreover have "sb_partial P reg m (sb_held p) ?p"
      using 2 copy_front_held [of "sb_held p" "replicate ?n 0"] by (simp add: sb_partial_def)
    moreover have "drop 0 ms = m # ms'" "sb_held p @ input = wires P reg (drop 0 ms)" using ms Suc.prems(3) by simp_all
    moreover have "spool ?p = Release (sbuf p) (spool p)" by simp
    ultimately show ?thesis by blast
  next
    case 3
    have d: "Decode P reg (sb_held p) 0 (length (sb_held p)) maxPacket = Ret (Some m, int ?n, None)" using dec [OF fit] 3 n by simp
    let ?p = "p\<lparr>sr := 0, sw := 0, spool := Release (sbuf p) (spool p), sbuf := nil_slice\<rparr>"
    obtain f where f: "fuel = Suc f" using Suc.prems(4) ne by (cases fuel) simp_all
    have "sb_drain (Suc fuel) P reg p done = Some (Ret (?p, done @ take 1 ms, None))"
      using sb_Unpack_message [OF Suc.prems(2) d] 3 f ms sb_Unpack_idle [of ?p P reg] by simp
    moreover have "sb_idle ?p" by (simp add: sb_idle_def nil_slice_def)
    moreover have "input = wires P reg (drop 1 ms)" using str 3 ms by simp
    moreover have "spool ?p = Release (sbuf p) (spool p)" by simp
    ultimately show ?thesis by blast
  next
    case 4
    have d: "Decode P reg (sb_held p) 0 (length (sb_held p)) maxPacket = Ret (Some m, int ?n, None)" using dec [OF fit] 4 n by simp
    let ?p = "p\<lparr>sr := sr p + ?n\<rparr>"
    have p: "sb_wf ?p" "sb_held ?p = drop ?n (sb_held p)" using sb_held_next [OF Suc.prems(2) 4] by simp_all
    have "drop ?n (sb_held p @ input) = wires P reg ms'" using str by simp
    then have "sb_held ?p @ input = wires P reg ms'" using p(2) 4 by simp
    moreover have "\<forall>m \<in> set ms'. fits P reg maxPacket m" "length (sb_held ?p) < fuel" using Suc.prems(1,4) ms p(2) n 4 by simp_all
    ultimately obtain p' j where ih: "sb_drain fuel P reg ?p (done @ [m]) = Some (Ret (p', (done @ [m]) @ take j ms', None))"
        "spool p' = Release (sbuf ?p) (spool ?p)"
        "sb_idle p' \<and> input = wires P reg (drop j ms') \<or>
         (\<exists>m ms'' hs. drop j ms' = m # ms'' \<and> sb_partial P reg m hs p' \<and> hs @ input = wires P reg (drop j ms')) \<or> sb_lost P reg (drop j ms') input p'"
      using Suc.IH [OF _ p(1)] by blast
    have "sb_drain (Suc fuel) P reg p done = Some (Ret (p', done @ take (Suc j) ms, None))"
      using sb_Unpack_message [OF Suc.prems(2) d] 4 ih(1) ms by simp
    moreover have "drop (Suc j) ms = drop j ms'" "spool p' = Release (sbuf p) (spool p)" using ms ih(2) by simp_all
    ultimately show ?thesis using ih(3) by metis
  qed
qed simp

text \<open>A processor between two receives, with the messages and the bytes that are still to come.\<close>

definition sb_waits :: "'m proto \<Rightarrow> registry \<Rightarrow> 'm list \<Rightarrow> byte list \<Rightarrow> share \<Rightarrow> bool" where
  "sb_waits P reg ms input p \<longleftrightarrow>
     sb_idle p \<and> input = wires P reg ms \<or>
     (\<exists>m ms' hs. ms = m # ms' \<and> sb_partial P reg m hs p \<and> hs @ input = wires P reg ms)"

lemma Acquire_ok:
  assumes "\<forall>b \<in> set pool. scap b = PoolBuffSize" and "Acquire pick pool = (b, pool')"
  shows "scap b = PoolBuffSize \<and> set pool' \<subseteq> set pool \<and> length pool \<le> Suc (length pool')"
  using assms by (auto simp: Acquire_def scap_def dest: in_set_takeD in_set_dropD split: option.splits if_splits)

lemma receive_idle:
  assumes p: "sb_idle p" "pool_ok p" and n: "0 < n" "input \<noteq> []" and acq: "Acquire pick (spool p) = (b, pool)"
  shows "\<exists>p1 d input1. sb_receive pick n input p = Ret (p1, input1) \<and> d @ input1 = input \<and> d \<noteq> [] \<and> d = take (min n PoolBuffSize) input \<and>
    sb_wf p1 \<and> sb_held p1 = d \<and> scap (sbuf p1) = PoolBuffSize \<and> spool p1 = pool"
proof -
  have b: "length (sarr b) = PoolBuffSize" using Acquire_ok [OF _ acq] p(2) by (simp add: pool_ok_def scap_def)
  define d where "d = take (min n PoolBuffSize) input"
  have "0 < PoolBuffSize" by (simp add: PoolBuffSize_def)
  then have d: "d \<noteq> []" "length d \<le> n" "length d \<le> PoolBuffSize" using n by (auto simp: d_def)
  let ?p = "p\<lparr>spool := pool, sbuf := \<lparr>sarr = d @ drop (length d) (sarr b), slen = length d\<rparr>, sw := length d\<rparr>"
  have "sb_receive pick n input p = Ret (?p, drop (length d) input)"
    using p acq by (simp add: sb_receive_def sb_GetRecvBuff_def sb_idle_def sb_OnData_def Let_def b d_def)
  moreover have "d @ drop (length d) input = input" by (simp add: d_def min_def)
  moreover have "sb_wf ?p" "sb_held ?p = d" "scap (sbuf ?p) = PoolBuffSize"
    using p(1) d b by (auto simp: sb_wf_def sb_held_def sb_idle_def scap_def)
  moreover have "spool ?p = pool" by simp
  ultimately show ?thesis using d(1) d_def by blast
qed

lemma receive_partial:
  assumes p: "sb_partial P reg m hs p" and n: "0 < n" "input \<noteq> []"
  shows "\<exists>p1 d input1. sb_receive pick n input p = Ret (p1, input1) \<and> d @ input1 = input \<and> d \<noteq> [] \<and> length d \<le> n \<and>
    sb_wf p1 \<and> sb_held p1 = hs @ d \<and> scap (sbuf p1) = length (wire_form P reg m) \<and> spool p1 = spool p"
proof -
  let ?k = "length (wire_form P reg m)"
  have p': "sr p = 0" "sw p = length hs" "length hs < ?k" "slen (sbuf p) = ?k" "length (sarr (sbuf p)) = ?k" "take (length hs) (sarr (sbuf p)) = hs"
    using p unfolding sb_partial_def by metis+
  define d where "d = take (min n (?k - length hs)) input"
  have d: "d \<noteq> []" "length d \<le> n" "length hs + length d \<le> ?k" using n p'(3) by (auto simp: d_def)
  let ?p = "p\<lparr>sbuf := \<lparr>sarr = hs @ d @ drop (length hs + length d) (sarr (sbuf p)), slen = ?k\<rparr>, sw := length hs + length d\<rparr>"
  have k: "?k \<noteq> 0" using p'(3) by linarith
  have "sb_GetRecvBuff p = Ret (Some (drop (length hs) (sarr (sbuf p))))"
    using p' k by (simp add: sb_GetRecvBuff_def sbytes_def)
  then have "sb_receive pick n input p = Ret (?p, drop (length d) input)"
    using p' k by (simp add: sb_receive_def sb_OnData_def Let_def d_def)
  moreover have "d @ drop (length d) input = input" by (simp add: d_def min_def)
  moreover have "sb_wf ?p" "sb_held ?p = hs @ d" "scap (sbuf ?p) = ?k"
    using p' d by (auto simp: sb_wf_def sb_held_def scap_def)
  ultimately show ?thesis using d by force
qed

section \<open>Properties\<close>

lemma frame_fits: "fits P reg maxPacket m \<Longrightarrow> length (wire_form P reg m) < PoolBuffSize"
  by (auto simp: fits_def wire_form_def maxPacket_def PoolBuffSize_def)

lemma share_step:
  assumes reg: "registry_ok reg" and fit: "\<forall>m \<in> set ms. fits P reg maxPacket m" and p: "sb_waits P reg ms input p" "pool_ok p"
    and n: "0 < n" "input \<noteq> []" and fuel: "length input + 4096 + 4 < fuel"
  shows "\<exists>p' input' j. sb_complete fuel P reg (pick, n) input p = Some (Ret (p', input', take j ms, None)) \<and>
    (\<exists>d. d @ input' = input \<and> d \<noteq> []) \<and> pool_ok p' \<and> length (spool p) \<le> length (spool p') \<and>
    (sb_idle p \<longrightarrow> input' = drop (min n PoolBuffSize) input) \<and>
    (sb_waits P reg (drop j ms) input' p' \<or> sb_lost P reg (drop j ms) input' p')"
  using p(1) [unfolded sb_waits_def]
proof (elim disjE exE conjE)
  assume idle: "sb_idle p" and str: "input = wires P reg ms"
  obtain b pool where acq: "Acquire pick (spool p) = (b, pool)" by fastforce
  from receive_idle [OF idle p(2) n acq] obtain p1 d input1 where
    r: "sb_receive pick n input p = Ret (p1, input1)" "d @ input1 = input" "d \<noteq> []" "sb_wf p1" "sb_held p1 = d"
      "scap (sbuf p1) = PoolBuffSize" "spool p1 = pool" and d: "d = take (min n PoolBuffSize) input" by blast
  have i1: "input1 = drop (min n PoolBuffSize) input" using r(2) d by (metis append_take_drop_id same_append_eq)
  have "length (sb_held p1) < fuel" using r(2,5) fuel by auto
  moreover have "sb_held p1 @ input1 = wires P reg ms" using r(2,5) str by simp
  ultimately obtain p' j where "sb_drain fuel P reg p1 [] = Some (Ret (p', [] @ take j ms, None))" "spool p' = Release (sbuf p1) (spool p1)"
      "sb_waits P reg (drop j ms) input1 p' \<or> sb_lost P reg (drop j ms) input1 p'"
    using sb_drain_run [OF reg fit r(4), of input1 fuel "[]"] unfolding sb_waits_def by blast
  moreover have "length (spool p) \<le> Suc (length pool)" "\<forall>b \<in> set pool. scap b = PoolBuffSize"
    using Acquire_ok [OF _ acq] p(2) by (auto simp: pool_ok_def)
  ultimately show ?thesis using r i1 by (auto simp: sb_complete_def Release_def pool_ok_def scap_def)
next
  fix m ms' hs
  assume ms: "ms = m # ms'" and part: "sb_partial P reg m hs p" and str: "hs @ input = wires P reg ms"
  from receive_partial [OF part n] obtain p1 d input1 where
    r: "sb_receive pick n input p = Ret (p1, input1)" "d @ input1 = input" "d \<noteq> []" "sb_wf p1" "sb_held p1 = hs @ d"
      "scap (sbuf p1) = length (wire_form P reg m)" "spool p1 = spool p" by blast
  have m: "fits P reg maxPacket m" using fit ms by simp
  then have "length hs < 4096 + 4 + 1" using part by (auto simp: sb_partial_def fits_def wire_form_def maxPacket_def)
  then have "length (sb_held p1) < fuel" using r(2,5) fuel by auto
  moreover have "sb_held p1 @ input1 = wires P reg ms" using r(2,5) str by simp
  ultimately obtain p' j where "sb_drain fuel P reg p1 [] = Some (Ret (p', [] @ take j ms, None))" "spool p' = Release (sbuf p1) (spool p1)"
      "sb_waits P reg (drop j ms) input1 p' \<or> sb_lost P reg (drop j ms) input1 p'"
    using sb_drain_run [OF reg fit r(4), of input1 fuel "[]"] unfolding sb_waits_def by blast
  moreover have "\<not> sb_idle p" using part by (auto simp: sb_partial_def sb_idle_def)
  moreover have "Release (sbuf p1) (spool p1) = spool p" using frame_fits [OF m] r(6,7) by (simp add: Release_def)
  ultimately show ?thesis using r p(2) by (auto simp: sb_complete_def pool_ok_def)
qed

text \<open>The receives of a session, each with the pool's choice and a size, while there is something to receive.\<close>

fun sb_run :: "nat \<Rightarrow> 'm proto \<Rightarrow> registry \<Rightarrow> (nat option \<times> nat) list \<Rightarrow> byte list \<Rightarrow> share \<Rightarrow> 'm list \<Rightarrow>
    (share \<times> byte list \<times> 'm list \<times> pb_error option) go option" where
  "sb_run fuel P reg [] input p ms = Some (Ret (p, input, ms, None))"
| "sb_run fuel P reg (rd # rds) input p ms =
     (if input = [] then Some (Ret (p, input, ms, None))
      else (case sb_complete fuel P reg rd input p of
              Some (Ret (p', input', ms', None)) \<Rightarrow> sb_run fuel P reg rds input' p' (ms @ ms')
            | r \<Rightarrow> r))"

text \<open>No receive of the run ends inside a header.\<close>

fun sb_clean :: "nat \<Rightarrow> 'm proto \<Rightarrow> registry \<Rightarrow> (nat option \<times> nat) list \<Rightarrow> byte list \<Rightarrow> share \<Rightarrow> bool" where
  "sb_clean fuel P reg [] input p \<longleftrightarrow> True"
| "sb_clean fuel P reg (rd # rds) input p \<longleftrightarrow>
     input = [] \<or>
     (case sb_complete fuel P reg rd input p of
        Some (Ret (p', input', ms', err)) \<Rightarrow> \<not> header_cut p' \<and> sb_clean fuel P reg rds input' p'
      | _ \<Rightarrow> True)"

lemma share_run:
  assumes reg: "registry_ok reg" and "\<forall>m \<in> set ms. fits P reg maxPacket m" and "sb_waits P reg ms input p" and "pool_ok p"
    and "\<forall>(pick, n) \<in> set rds. 0 < n" and "length input + 4100 < fuel" and "sb_clean fuel P reg rds input p"
  shows "\<exists>p' input' j. sb_run fuel P reg rds input p done = Some (Ret (p', input', done @ take j ms, None)) \<and>
    sb_waits P reg (drop j ms) input' p' \<and> pool_ok p' \<and> length (spool p) \<le> length (spool p') \<and>
    (length input \<le> length rds \<longrightarrow> input' = [])"
  using assms(2-)
proof (induction rds arbitrary: ms input p "done")
  case Nil
  then show ?case by (intro exI [of _ p] exI [of _ input] exI [of _ 0]) simp
next
  case (Cons rd rds)
  obtain pick n where rd: "rd = (pick, n)" and n: "0 < n" using Cons.prems(4) by (cases rd) auto
  show ?case
  proof (cases "input = []")
    case True
    then show ?thesis using Cons.prems(2,3) by (intro exI [of _ p] exI [of _ input] exI [of _ 0]) simp
  next
    case False
    have fuel: "length input + 4096 + 4 < fuel" using Cons.prems(5) by simp
    obtain p1 input1 j where c: "sb_complete fuel P reg (pick, n) input p = Some (Ret (p1, input1, take j ms, None))"
        and d: "\<exists>d. d @ input1 = input \<and> d \<noteq> []" and p1: "pool_ok p1" "length (spool p) \<le> length (spool p1)"
        and w: "sb_waits P reg (drop j ms) input1 p1 \<or> header_cut p1"
      using share_step [OF reg Cons.prems(1-3) n False fuel] unfolding sb_lost_def by blast
    have clean: "\<not> header_cut p1" "sb_clean fuel P reg rds input1 p1" using Cons.prems(6) c False rd by simp_all
    have "length input1 < length input" using d by auto
    then have len: "length input1 + 4100 < fuel" "length input \<le> length (rd # rds) \<longrightarrow> length input1 \<le> length rds"
      using Cons.prems(5) by auto
    have "\<forall>m \<in> set (drop j ms). fits P reg maxPacket m" "\<forall>(pick, n) \<in> set rds. 0 < n"
      using Cons.prems(1,4) by (auto dest: in_set_dropD)
    from Cons.IH [OF this(1) _ p1(1) this(2) len(1) clean(2), of "done @ take j ms"] w clean(1) obtain p' input' k where
      ih: "sb_run fuel P reg rds input1 p1 (done @ take j ms) = Some (Ret (p', input', (done @ take j ms) @ take k (drop j ms), None))"
        "sb_waits P reg (drop k (drop j ms)) input' p'" "pool_ok p'" "length (spool p1) \<le> length (spool p')"
        "length input1 \<le> length rds \<longrightarrow> input' = []" by blast
    have "take j ms @ take k (drop j ms) = take (j + k) ms" by (simp add: take_add)
    then have "sb_run fuel P reg (rd # rds) input p done = Some (Ret (p', input', done @ take (j + k) ms, None))"
      using c ih(1) False rd by simp
    moreover have "sb_waits P reg (drop (j + k) ms) input' p'" using ih(2) by (simp add: add.commute)
    moreover have "length (spool p) \<le> length (spool p')" "length input \<le> length (rd # rds) \<longrightarrow> input' = []"
      using ih(4,5) p1(2) len(2) by auto
    ultimately show ?thesis using ih(3) by blast
  qed
qed

text \<open>C36. The share-buffer processor delivers the stream: messages that fit, received in pieces of any size, are unpacked exactly as they
  were sent, in order and without an error or a panic, as long as no receive ends inside the four bytes of a header; when all is
  received everything is delivered, and every buffer borrowed from the pool has been given back.\<close>

theorem share_delivers:
  assumes "\<forall>m \<in> set ms. fits P (register_all ts) maxPacket m" and "\<forall>(pick, n) \<in> set rds. 0 < n"
    and "sb_clean (length (wires P (register_all ts) ms) + 4101) P (register_all ts) rds (wires P (register_all ts) ms) p"
    and "sb_idle p" and "pool_ok p" and "length (wires P (register_all ts) ms) \<le> length rds"
  shows "\<exists>p'. sb_run (length (wires P (register_all ts) ms) + 4101) P (register_all ts) rds (wires P (register_all ts) ms) p [] =
      Some (Ret (p', [], ms, None)) \<and> sb_idle p' \<and> pool_ok p' \<and> length (spool p) \<le> length (spool p')"
proof -
  let ?reg = "register_all ts" and ?w = "wires P (register_all ts) ms"
  have "sb_waits P ?reg ms ?w p" using assms(4) by (simp add: sb_waits_def)
  from share_run [OF registry_ok_all assms(1) this assms(5,2) _ assms(3), of "[]"] assms(6) obtain p' j where
    r: "sb_run (length ?w + 4101) P ?reg rds ?w p [] = Some (Ret (p', [], take j ms, None))"
      "sb_waits P ?reg (drop j ms) [] p'" "pool_ok p'" "length (spool p) \<le> length (spool p')"
    by auto
  have "drop j ms = [] \<and> sb_idle p'"
  proof (cases "drop j ms")
    case Nil
    then show ?thesis using r(2) by (simp add: sb_waits_def)
  next
    case (Cons m ms')
    have "8 \<le> length (wire_form P ?reg m)" by (simp add: wire_form_def)
    then have "wire_form P ?reg m \<noteq> []" by auto
    then obtain hs where "sb_partial P ?reg m hs p'" "hs = wire_form P ?reg m @ wires P ?reg ms'"
      using r(2) Cons by (auto simp: sb_waits_def)
    then show ?thesis by (simp add: sb_partial_def)
  qed
  then show ?thesis using r by (metis append.right_neutral append_take_drop_id)
qed

text \<open>A receive that takes the whole stream does not end inside a header.\<close>

lemma wires_long: "ms \<noteq> [] \<Longrightarrow> 8 \<le> length (wires P reg ms)"
  by (cases ms) (simp_all add: wire_form_def)

lemma clean_whole:
  assumes reg: "registry_ok reg" and fit: "\<forall>m \<in> set ms. fits P reg maxPacket m" and p: "sb_idle p" "pool_ok p"
    and n: "0 < n" "length (wires P reg ms) \<le> min n PoolBuffSize" and fuel: "length (wires P reg ms) + 4096 + 4 < fuel"
  shows "sb_clean fuel P reg ((pick, n) # rds) (wires P reg ms) p"
proof (cases "wires P reg ms = []")
  case False
  have w: "sb_waits P reg ms (wires P reg ms) p" using p(1) by (simp add: sb_waits_def)
  from share_step [OF reg fit w p(2) n(1) False fuel, of pick] obtain p' input' j where
    c: "sb_complete fuel P reg (pick, n) (wires P reg ms) p = Some (Ret (p', input', take j ms, None))"
      and i: "input' = drop (min n PoolBuffSize) (wires P reg ms)"
      and st: "sb_waits P reg (drop j ms) input' p' \<or> sb_lost P reg (drop j ms) input' p'"
    using p(1) by blast
  have i0: "input' = []" using i n(2) by simp
  have "\<not> sb_lost P reg (drop j ms) [] p'"
    using wires_long [of "drop j ms" P reg] unfolding sb_lost_def by (cases "drop j ms = []") auto
  then have "\<not> header_cut p'" using st i0 by (auto simp: sb_waits_def sb_idle_def sb_partial_def header_cut_def)
  then show ?thesis using c i0 by (cases rds) simp_all
qed simp

lemma raw_fits: "length m < 10 \<Longrightarrow> fits raw_proto (register_all [(''raw'', 7)]) maxPacket m"
  by (simp add: fits_def raw_proto_def register_all_def Register_def empty_registry_def maxPacket_def)

definition new_share :: share where
  "new_share = \<lparr>sbuf = nil_slice, sw = 0, sr = 0, spool = [], makeBuffCount = 0\<rparr>"

lemma new_share_ok: "sb_idle new_share" "pool_ok new_share"
  by (simp_all add: sb_idle_def pool_ok_def new_share_def nil_slice_def)

abbreviation raw_wires :: "byte list" where
  "raw_wires \<equiv> wires raw_proto (register_all [(''raw'', 7)]) [[1, 2], [3]]"

theorem share_delivers_witness:
  "\<exists>p'. sb_run (length raw_wires + 4101) raw_proto (register_all [(''raw'', 7)]) ((None, 100) # replicate 18 (None, 100)) raw_wires new_share [] =
      Some (Ret (p', [], [[1, 2], [3]], None)) \<and> sb_idle p' \<and> pool_ok p' \<and> length (spool new_share) \<le> length (spool p')"
proof -
  let ?reg = "register_all [(''raw'', 7)]" and ?rds = "(None :: nat option, 100 :: nat) # replicate 18 (None, 100)"
  have fit: "\<forall>m \<in> set [[1, 2], [3]]. fits raw_proto ?reg maxPacket m" using raw_fits by simp
  have len: "length raw_wires = 19" by (simp add: wire_form_def raw_proto_def)
  have "sb_clean (length raw_wires + 4101) raw_proto ?reg ?rds raw_wires new_share"
    by (rule clean_whole [OF registry_ok_all fit new_share_ok]) (unfold len, simp_all add: PoolBuffSize_def)
  moreover have "\<forall>(pick, n) \<in> set ?rds. 0 < n" "length raw_wires \<le> length ?rds" unfolding len by auto
  ultimately show ?thesis using share_delivers [OF fit _ _ new_share_ok] by blast
qed

text \<open>C37. A receive that ends inside a header loses it: when an idle processor is given the first one to three bytes of a stream of packets,
  it keeps none of them, and the next receive puts its data where the packet should begin and counts the lost bytes as if they
  were there, so that the packet is read from its wrong end on and from what the pooled buffer held before.\<close>

theorem share_header_loss:
  assumes fit: "\<forall>m \<in> set ms. fits P (register_all ts) maxPacket m" and ms: "ms \<noteq> []" and p: "sb_idle p" "pool_ok p" and k: "0 < k" "k < 4"
    and fuel: "4 < fuel" and w: "w0 = wires P (register_all ts) ms"
  shows "\<exists>p1. sb_complete fuel P (register_all ts) (pick, k) w0 p = Some (Ret (p1, drop k w0, [], None)) \<and> header_cut p1 \<and>
    (\<forall>pick' n b pool d. Acquire pick' (spool p1) = (b, pool) \<longrightarrow> d = take (min n PoolBuffSize) (drop k w0) \<longrightarrow> d \<noteq> [] \<longrightarrow>
       k + length d \<le> PoolBuffSize \<longrightarrow>
       (\<exists>p2. sb_receive pick' n (drop k w0) p1 = Ret (p2, drop (length d) (drop k w0)) \<and>
          sb_held p2 = take (k + length d) (d @ drop (length d) (sarr b))))"
proof -
  let ?reg = "register_all ts"
  obtain m ms' where m: "ms = m # ms'" using ms by (cases ms) auto
  have len: "8 \<le> length (wire_form P ?reg m)" by (simp add: wire_form_def)
  then have ne: "w0 \<noteq> []" "k < length w0" using m w k(2) by auto
  obtain b0 pool0 where acq: "Acquire pick (spool p) = (b0, pool0)" by fastforce
  from receive_idle [OF p k(1) ne(1) acq] obtain q d0 i0 where q: "sb_receive pick k w0 p = Ret (q, i0)" "d0 @ i0 = w0"
      "d0 = take (min k PoolBuffSize) w0" "sb_wf q" "sb_held q = d0" "scap (sbuf q) = PoolBuffSize" "spool q = pool0"
    by blast
  have kP: "min k PoolBuffSize = k" using k(2) by (simp add: PoolBuffSize_def)
  then have d0: "length d0 = k" "i0 = drop k w0" using q(2,3) ne(2) by (auto simp: append_eq_conv_conj)
  have m1: "fits P ?reg maxPacket m" using fit m by simp
  have "sb_held q @ i0 = wire_form P ?reg m @ wires P ?reg ms'" using q(2,5) w m by simp
  from Decode_frame [OF m1 registry_ok_all this] have "Decode P ?reg (sb_held q) 0 (length (sb_held q)) maxPacket = Ret (None, int 0, None)"
    using d0 q(5) k(2) by simp
  from sb_Unpack_short [OF q(4) this] have u: "sb_Unpack P ?reg q = Ret (q\<lparr>makeBuffCount := makeBuffCount q + 1, sw := k, sr := 0,
      spool := Release (sbuf q) (spool q), sbuf := \<lparr>sarr = [], slen = 0\<rparr>\<rparr>, None, None)" (is "_ = Ret (?p1, _, _)")
    using q(5) d0(1) by (simp add: copy_front_def)
  obtain f where "fuel = Suc f" using fuel by (cases fuel) auto
  then have c: "sb_complete fuel P ?reg (pick, k) w0 p = Some (Ret (?p1, drop k w0, [], None))" using q(1) d0(2) u by (simp add: sb_complete_def)
  have ok: "\<forall>b \<in> set (spool ?p1). scap b = PoolBuffSize"
    using Acquire_ok [OF _ acq] p(2) q(6,7) by (auto simp: pool_ok_def Release_def scap_def)
  have "\<exists>p2. sb_receive pick' n (drop k w0) ?p1 = Ret (p2, drop (length d) (drop k w0)) \<and>
      sb_held p2 = take (k + length d) (d @ drop (length d) (sarr b))"
    if a: "Acquire pick' (spool ?p1) = (b, pool)" and d: "d = take (min n PoolBuffSize) (drop k w0)" "d \<noteq> []" for pick' n b pool d
  proof -
    have "length (sarr b) = PoolBuffSize" using Acquire_ok [OF ok a] by (simp add: scap_def)
    then show ?thesis using a d
      by (simp add: sb_receive_def sb_GetRecvBuff_def sb_OnData_def sb_held_def Let_def)
  qed
  moreover have "header_cut ?p1" using k by (simp add: header_cut_def)
  ultimately show ?thesis using c by blast
qed

theorem share_header_loss_witness:
  "\<exists>p1. sb_complete 5 raw_proto (register_all [(''raw'', 7)]) (None, 2) raw_wires new_share = Some (Ret (p1, drop 2 raw_wires, [], None)) \<and>
     header_cut p1"
proof -
  have "\<forall>m \<in> set [[1, 2], [3]]. fits raw_proto (register_all [(''raw'', 7)]) maxPacket m" using raw_fits by simp
  moreover have "[[1, 2], [3]] \<noteq> ([] :: byte list list)" "(0 :: nat) < 2" "(2 :: nat) < 4" "(4 :: nat) < 5" by simp_all
  ultimately show ?thesis using share_header_loss [OF _ _ new_share_ok _ _ _ refl] by blast
qed

end
