(* ===== verification/WebSocket.thy ===== *)
theory WebSocket
  imports StreamSocket
begin

text \<open>
  The websocket session, \<open>src/socket/websocket.go\<close> with \<open>src/message/websocket.go\<close>: one frame for each object sent, one message
  for each frame received. The \<open>gorilla\<close> connection is a script of what \<open>WriteMessage\<close> and \<open>ReadMessage\<close> return, together
  with what the goroutine finds in the session's flags afterwards. The session's life cycle is that of \<open>SocketBase\<close>.
\<close>

section \<open>Definitions: messages\<close>

definition WSTextMessage :: int where "WSTextMessage = 1"
definition WSBinaryMessage :: int where "WSBinaryMessage = 2"
definition WSCloseMessage :: int where "WSCloseMessage = 8"
definition WSPingMessage :: int where "WSPingMessage = 9"
definition WSPongMessage :: int where "WSPongMessage = 10"

record 'd ws_message =
  messageType :: int
  data :: "'d option"

definition NewWSMessage :: "int \<Rightarrow> 'd list \<Rightarrow> 'd ws_message option" where
  "NewWSMessage ty ds =
     (if ty \<in> {WSTextMessage, WSBinaryMessage, WSCloseMessage, WSPingMessage, WSPongMessage} then
        (case ds of
           d # _ \<Rightarrow> Some \<lparr>messageType = ty, data = Some d\<rparr>
         | [] \<Rightarrow> Some \<lparr>messageType = ty, data = None\<rparr>)
      else None)"

text \<open>What the queue of a websocket session can hold besides byte slices: a \<open>WSMessage\<close>, or any other object.\<close>

datatype 'd ws_object = WSMsg "'d ws_message" | Other

text \<open>\<open>SendWSClose\<close> gives \<open>Send\<close> a close message; \<open>fmt_close\<close> is gorilla's \<open>FormatCloseMessage\<close>.\<close>

definition SendWSClose :: "(int \<Rightarrow> string \<Rightarrow> 'd) \<Rightarrow> string \<Rightarrow> 'd ws_object object option" where
  "SendWSClose fmt_close reason = map_option (\<lambda>m. OMsg (WSMsg m)) (NewWSMessage WSCloseMessage [fmt_close 1000 reason])"

text \<open>It is refused by a session without an encoder, although its payload needs none.\<close>

lemma SendWSClose_needs_encoder: "\<not> has_encoder s \<Longrightarrow> Send_check (SendWSClose fmt_close reason) s = Some ErrInvaildEncoder"
  by (simp add: SendWSClose_def NewWSMessage_def Send_check_def)

section \<open>Definitions: sendThreadFunc\<close>

record ws_state =
  frames :: "(int \<times> byte list) list"
  ws_errors :: "session_error list"
  ws_closes :: "session_error list"

text \<open>What follows a \<open>WriteMessage\<close>: whether the goroutine returns.\<close>

definition ws_written :: "bool \<Rightarrow> int \<Rightarrow> byte list \<Rightarrow> write_result \<Rightarrow> ws_state \<Rightarrow> ws_state \<times> bool" where
  "ws_written has_cb ty bytes r st =
     (case werr r of
        None \<Rightarrow> (st\<lparr>frames := frames st @ [(ty, bytes)]\<rparr>, False)
      | Some e \<Rightarrow>
          if wclosed r then (st, False)
          else
            (let err = (if e = NetTimeout then ErrSendTimeout else e);
                 st1 = (if e = NetTimeout then st else st\<lparr>ws_closes := ws_closes st @ [e]\<rparr>);
                 st2 = (if has_cb then st1\<lparr>ws_errors := ws_errors st1 @ [err]\<rparr> else st1)
             in (st2, e \<noteq> NetTimeout \<or> wcb r)))"

text \<open>What an object puts into the buffer: the frame's type and the buffer, or nothing to write.\<close>

definition ws_fill :: "growth \<Rightarrow> 'd encoder \<Rightarrow> 'd ws_object object \<Rightarrow> buffer \<Rightarrow> buffer \<Rightarrow> ((int \<times> buffer) option \<times> buffer) go" where
  "ws_fill g ec x b fresh =
     (case x of
        OBytes bytes \<Rightarrow> (let b1 = Buffer_AppendBytes g b bytes in Ret (Some (WSBinaryMessage, b1), b1))
      | OMsg (WSMsg msg) \<Rightarrow>
          (case data msg of
             None \<Rightarrow> Ret (Some (messageType msg, b), b)
           | Some d \<Rightarrow>
               (let (b1, err) = ec d fresh in
                if err \<noteq> None then Ret (None, Reset b1) else Ret (Some (messageType msg, b1), b1)))
      | OMsg Other \<Rightarrow> Panic (UserPanic ''invaild message''))"

text \<open>The loop over a batch. The flag says that the goroutine returns. \<open>None\<close>: a \<open>WriteMessage\<close> of the script does not return.\<close>

fun ws_batch :: "growth \<Rightarrow> 'd encoder \<Rightarrow> bool \<Rightarrow> buffer \<Rightarrow> write_result list \<Rightarrow> 'd ws_object object list \<Rightarrow> buffer \<Rightarrow> ws_state \<Rightarrow>
    (write_result list \<times> ws_state \<times> bool) go option" where
  "ws_batch g ec has_cb fresh script [] b st = Some (Ret (script, st, False))"
| "ws_batch g ec has_cb fresh script (x # xs) b st =
     (case ws_fill g ec x b fresh of
        Panic p \<Rightarrow> Some (Panic p)
      | Ret (None, b1) \<Rightarrow> ws_batch g ec has_cb fresh script xs b1 st
      | Ret (Some (ty, b2), b1) \<Rightarrow>
          (case script of
             [] \<Rightarrow> None
           | r # rs \<Rightarrow>
               (let (st1, ret) = ws_written has_cb ty (Bytes b2) r st in
                if ret then Some (Ret (rs, st1, True)) else ws_batch g ec has_cb fresh rs xs (Reset b1) st1)))"

text \<open>The goroutine over the batches that \<open>Get\<close> returns; the flag says that the write side was shut down at the end.\<close>

fun ws_send_thread :: "growth \<Rightarrow> 'd encoder \<Rightarrow> bool \<Rightarrow> buffer \<Rightarrow> write_result list \<Rightarrow> (bool \<times> 'd ws_object object list) list \<Rightarrow> ws_state \<Rightarrow>
    (ws_state \<times> bool) go option" where
  "ws_send_thread g ec has_cb fresh script [] st = Some (Ret (st, False))"
| "ws_send_thread g ec has_cb fresh script ((cl, items) # batches) st =
     (if cl \<and> items = [] then Some (Ret (st, True))
      else case ws_batch g ec has_cb fresh script items fresh st of
        None \<Rightarrow> None
      | Some (Panic p) \<Rightarrow> Some (Panic p)
      | Some (Ret (script', st', True)) \<Rightarrow> Some (Ret (st', False))
      | Some (Ret (script', st', False)) \<Rightarrow> ws_send_thread g ec has_cb fresh script' batches st')"

text \<open>\<open>DirectSend\<close>: \<open>cl\<close> is the flag test, \<open>err\<close> what \<open>WriteMessage\<close> returns.\<close>

definition ws_DirectSend :: "bool \<Rightarrow> byte list \<Rightarrow> session_error option \<Rightarrow> nat \<times> session_error option" where
  "ws_DirectSend cl bytes err =
     (if cl then (0, Some ErrSocketClose)
      else (case err of
              None \<Rightarrow> (length bytes, None)
            | Some e \<Rightarrow> (0, Some (if e = NetTimeout then ErrSendTimeout else e))))"

section \<open>Definitions: recvThreadFunc\<close>

record ws_processor =
  gotData :: bool
  pType :: int
  pData :: "byte list"

definition ws_OnData :: "ws_processor \<Rightarrow> int \<Rightarrow> byte list \<Rightarrow> ws_processor" where
  "ws_OnData p ty d = p\<lparr>gotData := True, pType := ty, pData := d\<rparr>"

text \<open>\<open>Unpack\<close>. \<open>Some None\<close> is a nil pointer in a non-nil interface.\<close>

definition ws_Unpack :: "ws_processor \<Rightarrow> ws_processor \<times> byte list ws_message option option" where
  "ws_Unpack p =
     (if gotData p then (p\<lparr>gotData := False, pData := []\<rparr>, Some (NewWSMessage (pType p) [pData p])) else (p, None))"

datatype ws_read = WData int "byte list" bool | WErr session_error bool

text \<open>The two loops of \<open>recvThreadFunc\<close> with the default processor; \<open>recv_error\<close> is what the stream socket does, too.\<close>

fun ws_recv :: "nat \<Rightarrow> bool \<Rightarrow> bool \<Rightarrow> ws_read list \<Rightarrow> ws_processor \<Rightarrow> byte list ws_message option recv_state \<Rightarrow>
    (ws_processor \<times> byte list ws_message option recv_state) option" where
  "ws_recv 0 has_cb outer script p st = None"
| "ws_recv (Suc fuel) has_cb outer script p st =
     (if outer \<and> stopped st then Some (p, st)
      else case ws_Unpack p of
        (p', Some m) \<Rightarrow>
          (if stopped st then Some (p', st) else ws_recv fuel has_cb True script p' (st\<lparr>received := received st @ [m]\<rparr>))
      | (p', None) \<Rightarrow>
          (case script of
             [] \<Rightarrow> Some (p', st)
           | WData ty d stop # rs \<Rightarrow> ws_recv fuel has_cb False rs (ws_OnData p' ty d) (st\<lparr>stopped := stopped st \<or> stop\<rparr>)
           | WErr e stop # rs \<Rightarrow>
               (let st1 = st\<lparr>stopped := stopped st \<or> stop\<rparr> in
                if stopped st1 then Some (p', st1) else ws_recv fuel has_cb True rs p' (recv_error has_cb False e st1))))"

section \<open>Sending\<close>

text \<open>The frame of an object; none when its encoding fails.\<close>

fun frame_of :: "('d \<Rightarrow> byte list) \<Rightarrow> ('d \<Rightarrow> session_error option) \<Rightarrow> 'd ws_object object \<Rightarrow> (int \<times> byte list) list" where
  "frame_of ebytes eerr (OBytes bytes) = [(WSBinaryMessage, bytes)]"
| "frame_of ebytes eerr (OMsg (WSMsg msg)) =
     (case data msg of
        None \<Rightarrow> [(messageType msg, [])]
      | Some d \<Rightarrow> if eerr d = None then [(messageType msg, ebytes d)] else [])"
| "frame_of ebytes eerr (OMsg Other) = []"

definition is_ws :: "'d ws_object object \<Rightarrow> bool" where
  "is_ws x \<longleftrightarrow> x \<noteq> OMsg Other"

lemma ws_fill_frame:
  assumes enc: "encodes ec ebytes eerr" and b: "wf_buffer b" "Bytes b = []" and f: "wf_buffer fresh" "Bytes fresh = []" and x: "is_ws x"
  shows "\<exists>r b1. ws_fill g ec x b fresh = Ret (r, b1) \<and> wf_buffer b1 \<and>
    frame_of ebytes eerr x = (case r of None \<Rightarrow> [] | Some (ty, b2) \<Rightarrow> [(ty, Bytes b2)]) \<and> (r = None \<longrightarrow> Bytes b1 = [])"
proof (cases x)
  case (OBytes bytes)
  then show ?thesis using b by (simp add: ws_fill_def Let_def)
next
  case (OMsg v)
  then obtain msg where v: "x = OMsg (WSMsg msg)" using x by (cases v) (auto simp: is_ws_def)
  show ?thesis
  proof (cases "data msg")
    case None
    then show ?thesis using v b by (simp add: ws_fill_def)
  next
    case (Some d)
    have e: "wf_buffer (fst (ec d fresh))" "Bytes (fst (ec d fresh)) = ebytes d" "snd (ec d fresh) = eerr d"
      using enc f by (simp_all add: encodes_def)
    have "ws_fill g ec x b fresh =
        (if eerr d \<noteq> None then Ret (None, Reset (fst (ec d fresh))) else Ret (Some (messageType msg, fst (ec d fresh)), fst (ec d fresh)))"
      using v Some e(3) by (simp add: ws_fill_def case_prod_beta Let_def)
    then show ?thesis using v Some e by (cases "eerr d") simp_all
  qed
qed

lemma ws_batch_ok:
  assumes enc: "encodes ec ebytes eerr" and f: "wf_buffer fresh" "Bytes fresh = []"
    and "list_all ok_write script" and "length items \<le> length script" and "\<forall>x \<in> set items. is_ws x" and "wf_buffer b" and "Bytes b = []"
  shows "\<exists>script'. ws_batch g ec has_cb fresh script items b st =
      Some (Ret (script', st\<lparr>frames := frames st @ concat (map (frame_of ebytes eerr) items)\<rparr>, False)) \<and>
    list_all ok_write script' \<and> length script \<le> length script' + length items"
  using assms(4-)
proof (induction items arbitrary: script b st)
  case (Cons x xs)
  have ix: "is_ws x" using Cons.prems(3) by simp
  obtain r b1 where w: "ws_fill g ec x b fresh = Ret (r, b1)" "wf_buffer b1"
      "frame_of ebytes eerr x = (case r of None \<Rightarrow> [] | Some (ty, b2) \<Rightarrow> [(ty, Bytes b2)])" "r = None \<longrightarrow> Bytes b1 = []"
    using ws_fill_frame [OF enc Cons.prems(4,5) f ix, of g] by blast
  show ?case
  proof (cases r)
    case None
    have "\<exists>script'. ws_batch g ec has_cb fresh script xs b1 st =
        Some (Ret (script', st\<lparr>frames := frames st @ concat (map (frame_of ebytes eerr) xs)\<rparr>, False)) \<and>
      list_all ok_write script' \<and> length script \<le> length script' + length xs"
      using Cons.IH [of script b1 st] Cons.prems w None by simp
    then show ?thesis using w None by auto
  next
    case (Some z)
    obtain ty b2 where z: "z = (ty, b2)" by (cases z)
    obtain q rs where s: "script = q # rs" using Cons.prems(2) by (cases script) auto
    let ?st = "st\<lparr>frames := frames st @ [(ty, Bytes b2)]\<rparr>"
    have q: "ws_written has_cb ty (Bytes b2) q st = (?st, False)" using Cons.prems(1) s by (simp add: ws_written_def ok_write_def)
    have "\<exists>script'. ws_batch g ec has_cb fresh rs xs (Reset b1) ?st =
        Some (Ret (script', ?st\<lparr>frames := frames ?st @ concat (map (frame_of ebytes eerr) xs)\<rparr>, False)) \<and>
      list_all ok_write script' \<and> length rs \<le> length script' + length xs"
      using Cons.IH [of rs "Reset b1" ?st] Cons.prems s by simp
    then show ?thesis using w Some z s q by auto
  qed
qed simp

lemma ws_send_ok:
  assumes enc: "encodes ec ebytes eerr" and f: "wf_buffer fresh" "Bytes fresh = []"
    and "list_all ok_write script" and "length (concat (map snd batches)) \<le> length script"
    and "\<forall>x \<in> set (concat (map snd batches)). is_ws x" and "\<forall>(cl, items) \<in> set batches. items \<noteq> []"
  shows "ws_send_thread g ec has_cb fresh script batches st =
    Some (Ret (st\<lparr>frames := frames st @ concat (map (frame_of ebytes eerr) (concat (map snd batches)))\<rparr>, False))"
  using assms(4-)
proof (induction batches arbitrary: script st)
  case (Cons z batches)
  obtain cl items where z: "z = (cl, items)" by (cases z)
  have p: "items \<noteq> []" "length items \<le> length script" "\<forall>x \<in> set items. is_ws x" using Cons.prems z by auto
  obtain script' where b: "ws_batch g ec has_cb fresh script items fresh st =
        Some (Ret (script', st\<lparr>frames := frames st @ concat (map (frame_of ebytes eerr) items)\<rparr>, False))"
      and s: "list_all ok_write script'" "length script \<le> length script' + length items"
    using ws_batch_ok [OF enc f Cons.prems(1) p(2,3) f, of g has_cb st] by blast
  have "length (concat (map snd batches)) \<le> length script'" using Cons.prems(2) s(2) z by simp
  then show ?case using Cons.IH [OF s(1)] Cons.prems(3,4) z b p(1) by simp
qed simp

section \<open>Receiving\<close>

fun read_messages :: "ws_read list \<Rightarrow> byte list ws_message option list" where
  "read_messages [] = []"
| "read_messages (WData ty d stop # rs) = NewWSMessage ty [d] # read_messages rs"
| "read_messages (WErr e stop # rs) = read_messages rs"

text \<open>Reads that leave the session running: data, and timeouts when there is an error callback.\<close>

fun runs_on :: "bool \<Rightarrow> ws_read \<Rightarrow> bool" where
  "runs_on has_cb (WData ty d stop) \<longleftrightarrow> \<not> stop"
| "runs_on has_cb (WErr e stop) \<longleftrightarrow> \<not> stop \<and> e = NetTimeout \<and> has_cb"

lemma ws_recv_all:
  assumes "\<forall>r \<in> set script. runs_on has_cb r" and "2 * length script + (if gotData p then 1 else 0) < fuel" and "\<not> stopped st"
  shows "\<exists>p' st'. ws_recv fuel has_cb outer script p st = Some (p', st') \<and> \<not> stopped st' \<and>
    received st' = received st @ (if gotData p then [NewWSMessage (pType p) [pData p]] else []) @ read_messages script"
  using assms
proof (induction fuel arbitrary: outer script p st)
  case (Suc fuel)
  show ?case
  proof (cases "gotData p")
    case True
    let ?p = "p\<lparr>gotData := False, pData := []\<rparr>" and ?st = "st\<lparr>received := received st @ [NewWSMessage (pType p) [pData p]]\<rparr>"
    have "ws_recv (Suc fuel) has_cb outer script p st = ws_recv fuel has_cb True script ?p ?st"
      using True Suc.prems(3) by (simp add: ws_Unpack_def)
    then show ?thesis using Suc.IH [of script ?p ?st True] Suc.prems True by simp
  next
    case no: False
    show ?thesis
    proof (cases script)
      case Nil
      then show ?thesis using no Suc.prems(3) by (simp add: ws_Unpack_def)
    next
      case (Cons r rs)
      have same: "st\<lparr>stopped := False\<rparr> = st" using Suc.prems(3) by (cases st) simp
      show ?thesis
      proof (cases r)
        case (WData ty d stop)
        let ?p = "ws_OnData p ty d"
        have "ws_recv (Suc fuel) has_cb outer script p st = ws_recv fuel has_cb False rs ?p st"
          using no Cons WData Suc.prems(1,3) by (simp add: ws_Unpack_def same)
        then show ?thesis using Suc.IH [of rs ?p st False] Suc.prems no Cons WData by (simp add: ws_OnData_def)
      next
        case (WErr e stop)
        let ?st = "st\<lparr>recv_errors := recv_errors st @ [ErrRecvTimeout]\<rparr>"
        have "ws_recv (Suc fuel) has_cb outer script p st = ws_recv fuel has_cb True rs p ?st"
          using no Cons WErr Suc.prems(1,3) by (simp add: ws_Unpack_def recv_error_def same)
        then show ?thesis using Suc.IH [of rs p ?st True] Suc.prems no Cons WErr by simp
      qed
    qed
  qed
qed simp

section \<open>Properties\<close>

text \<open>C31. A websocket session keeps message boundaries: with successful writes the frames sent are, in order, exactly one for each
  queued object whose encoding succeeds, with its type and its bytes alone, whatever failed encodings come in between; and the
  receive goroutine hands out exactly one message for each frame read, through timeouts, and gets through every such script of
  reads.\<close>

theorem ws_keeps_boundaries:
  assumes "encodes ec ebytes eerr" and "wf_buffer fresh" and "Bytes fresh = []" and "list_all ok_write script"
    and "length (concat (map snd batches)) \<le> length script" and "\<forall>x \<in> set (concat (map snd batches)). is_ws x"
    and "\<forall>(cl, items) \<in> set batches. items \<noteq> []" and "\<forall>r \<in> set reads. runs_on has_cb r"
  shows "ws_send_thread g ec has_cb fresh script batches \<lparr>frames = [], ws_errors = [], ws_closes = []\<rparr> =
      Some (Ret (\<lparr>frames = concat (map (frame_of ebytes eerr) (concat (map snd batches))), ws_errors = [], ws_closes = []\<rparr>, False)) \<and>
    (\<exists>p st. ws_recv (Suc (2 * length reads)) has_cb True reads \<lparr>gotData = False, pType = 0, pData = []\<rparr>
        \<lparr>stopped = False, received = [], recv_errors = [], recv_closes = []\<rparr> = Some (p, st) \<and> received st = read_messages reads)"
  using ws_send_ok [OF assms(1-7), of g has_cb "\<lparr>frames = [], ws_errors = [], ws_closes = []\<rparr>"]
    ws_recv_all [OF assms(8), of "\<lparr>gotData = False, pType = 0, pData = []\<rparr>" "Suc (2 * length reads)"
      "\<lparr>stopped = False, received = [], recv_errors = [], recv_closes = []\<rparr>" True]
  by auto

theorem ws_keeps_boundaries_witness:
  "ws_send_thread double (digit_enc double) True (New []) [all_written, all_written, all_written]
      [(False, [OMsg (WSMsg \<lparr>messageType = 1, data = Some 3\<rparr>), OMsg (WSMsg \<lparr>messageType = 1, data = Some 10\<rparr>)]), (True, [OBytes [7, 8]])]
      \<lparr>frames = [], ws_errors = [], ws_closes = []\<rparr> =
    Some (Ret (\<lparr>frames = [(1, [3]), (2, [7, 8])], ws_errors = [], ws_closes = []\<rparr>, False))"
  using ws_keeps_boundaries [OF digit_encodes [of double], of "New []" "[all_written, all_written, all_written]"
      "[(False, [OMsg (WSMsg \<lparr>messageType = 1, data = Some 3\<rparr>), OMsg (WSMsg \<lparr>messageType = 1, data = Some 10\<rparr>)]), (True, [OBytes [7, 8]])]"
      "[]" True double]
  by (simp add: ok_write_def all_written_def is_ws_def WSBinaryMessage_def)

text \<open>An object that is neither a byte slice nor a \<open>WSMessage\<close> passes \<open>Send\<close> when there is an encoder, and stops the program.\<close>

lemma ws_other_panics: "ws_batch g ec has_cb fresh script (OMsg Other # xs) b st = Some (Panic (UserPanic ''invaild message''))"
  by (simp add: ws_fill_def)

end
