(* ===== verification/GoPool.thy ===== *)
theory GoPool
  imports CircList
begin

text \<open>
  The goroutine pool, \<open>src/gopool/gopool.go\<close>: the task queue \<open>linkList\<close> with its cache of list items,
  the ring of free routines, the critical sections of \<open>Go\<close>, \<open>putRoutine\<close> and \<open>Close\<close>, and the system
  of callers and routines that interleaves them. A task is a value; running it is recorded.
\<close>

section \<open>Definitions: linkList\<close>

record 'v linkList =
  inext :: links
  iv :: "addr \<Rightarrow> 'v option"
  tail :: "addr option"
  count :: nat
  freeItems :: "addr option"
  freeCount :: nat

definition maxCacheItemCount :: nat where
  "maxCacheItemCount = 4096"

text \<open>\<open>pushItem\<close> and \<open>popItem\<close> are the ring operations of \<open>CircList\<close> on one of the two tails. The item \<open>a\<close> is
  what \<open>gItemPool\<close> hands out when the cache is empty.\<close>

definition getPoolItem :: "addr \<Rightarrow> 'v \<Rightarrow> 'v linkList \<Rightarrow> ('v linkList \<times> addr) go" where
  "getPoolItem a v l =
     bind_go (list_pop (inext l, freeItems l)) (\<lambda>((nxt, free), r).
       (case r of
          None \<Rightarrow> Ret (l\<lparr>inext := nxt, freeItems := free, iv := (iv l)(a := Some v)\<rparr>, a)
        | Some item \<Rightarrow> Ret (l\<lparr>inext := nxt, freeItems := free, freeCount := freeCount l - 1,
                              iv := (iv l)(item := Some v)\<rparr>, item)))"

definition putPoolItem :: "addr \<Rightarrow> 'v linkList \<Rightarrow> 'v linkList" where
  "putPoolItem item l =
     (let l1 = l\<lparr>iv := (iv l)(item := None)\<rparr> in
      if freeCount l1 < maxCacheItemCount
      then (let (nxt, free) = list_push item (inext l1, freeItems l1)
            in l1\<lparr>freeCount := freeCount l1 + 1, inext := nxt, freeItems := free\<rparr>)
      else l1)"

definition linkList_push :: "addr \<Rightarrow> 'v \<Rightarrow> 'v linkList \<Rightarrow> 'v linkList go" where
  "linkList_push a v l =
     map_ret (\<lambda>(l1, item).
       let (nxt, t) = list_push item (inext l1, tail l1)
       in l1\<lparr>inext := nxt, tail := t, count := count l1 + 1\<rparr>) (getPoolItem a v l)"

definition linkList_pop :: "'v linkList \<Rightarrow> ('v linkList \<times> 'v option) go" where
  "linkList_pop l =
     map_ret (\<lambda>((nxt, t), r).
       (case r of
          None \<Rightarrow> (l\<lparr>inext := nxt, tail := t\<rparr>, None)
        | Some item \<Rightarrow>
            (let l1 = l\<lparr>inext := nxt, tail := t, count := count l - 1\<rparr>; v = iv l1 item
             in (putPoolItem item l1, v)))) (list_pop (inext l, tail l))"

section \<open>Definitions: Pool\<close>

record pool_option =
  MaxRoutineCount :: int
  ReserveRoutineCount :: int
  MaxQueueSize :: int

record 'v pool =
  die :: bool
  routineCount :: int
  opts :: pool_option
  rnext :: links
  freeRoutines :: "addr option"
  taskQueue :: "'v linkList"

definition New :: "pool_option \<Rightarrow> 'v pool" where
  "New opt = \<lparr>die = False, routineCount = 0, opts = opt, rnext = (\<lambda>_. None), freeRoutines = None,
            taskQueue = \<lparr>inext = (\<lambda>_. None), iv = (\<lambda>_. None), tail = None, count = 0,
                         freeItems = None, freeCount = 0\<rparr>\<rparr>"

definition getRoutine :: "'v pool \<Rightarrow> ('v pool \<times> addr option) go" where
  "getRoutine p =
     map_ret (\<lambda>((nxt, free), r). (p\<lparr>rnext := nxt, freeRoutines := free\<rparr>, r))
       (list_pop (rnext p, freeRoutines p))"

text \<open>\<open>putRoutine\<close>: whether the routine goes on, and the task it got.\<close>

definition putRoutine :: "addr \<Rightarrow> 'v pool \<Rightarrow> ('v pool \<times> bool \<times> 'v option) go" where
  "putRoutine r p =
     (if die p then Ret (p, False, None)
      else map_ret (\<lambda>(q, v).
        let p1 = p\<lparr>taskQueue := q\<rparr> in
        if v \<noteq> None then (p1, True, v)
        else if routineCount p1 > ReserveRoutineCount (opts p1)
        then (p1\<lparr>routineCount := routineCount p1 - 1\<rparr>, False, None)
        else (let (nxt, free) = list_push r (rnext p1, freeRoutines p1)
              in (p1\<lparr>rnext := nxt, freeRoutines := free\<rparr>, True, None))) (linkList_pop (taskQueue p)))"

text \<open>The critical section of \<open>Go\<close> and what follows it: an error, a hand-over to routine \<open>r\<close>, a queued
  task, a plain \<open>go\<close> statement, or a new routine.\<close>

datatype go_error = Err_PoolClosed | Err_TaskQueueFull

datatype go_out = GoErr go_error | GoHand addr | GoQueued | GoPlain | GoNew

definition Go :: "addr \<Rightarrow> 'v \<Rightarrow> 'v pool \<Rightarrow> ('v pool \<times> go_out) go" where
  "Go a task p =
     (if die p then Ret (p, GoErr Err_PoolClosed)
      else bind_go (getRoutine p) (\<lambda>(p1, r).
        (case r of
           Some r \<Rightarrow> Ret (p1, GoHand r)
         | None \<Rightarrow>
             (let mx = MaxRoutineCount (opts p1); rs = ReserveRoutineCount (opts p1); mq = MaxQueueSize (opts p1) in
              if mx > 0 \<and> routineCount p1 = mx then
                (if mq \<ge> 0 \<and> int (count (taskQueue p1)) \<ge> mq then Ret (p1, GoErr Err_TaskQueueFull)
                 else map_ret (\<lambda>q. (p1\<lparr>taskQueue := q\<rparr>, GoQueued)) (linkList_push a task (taskQueue p1)))
              else if mx \<le> 0 \<and> routineCount p1 \<ge> rs then Ret (p1, GoPlain)
              else Ret (p1\<lparr>routineCount := routineCount p1 + 1\<rparr>, GoNew)))))"

text \<open>The loop of \<open>Close\<close> over the free routines, with fuel, and the routines whose channels it closes.\<close>

fun close_loop :: "nat \<Rightarrow> 'v pool \<Rightarrow> ('v pool \<times> addr list) go" where
  "close_loop 0 p = Ret (p, [])"
| "close_loop (Suc fuel) p =
     bind_go (getRoutine p) (\<lambda>(p1, r).
       (case r of
          None \<Rightarrow> Ret (p1, [])
        | Some r \<Rightarrow> map_ret (\<lambda>(p2, rs). (p2, r # rs)) (close_loop fuel p1)))"

definition Close :: "nat \<Rightarrow> 'v pool \<Rightarrow> ('v pool \<times> addr list) go" where
  "Close fuel p = (if die p then Ret (p, []) else close_loop fuel (p\<lparr>die := True\<rparr>))"

section \<open>Refinement of the task queue\<close>

text \<open>\<open>ll_rep l xs fs vs\<close>: the queue holds the tasks \<open>vs\<close> in the items \<open>xs\<close>, the cache the items \<open>fs\<close>.\<close>

definition ll_rep :: "'v linkList \<Rightarrow> addr list \<Rightarrow> addr list \<Rightarrow> 'v list \<Rightarrow> bool" where
  "ll_rep l xs fs vs \<longleftrightarrow>
     circ (inext l, tail l) xs \<and> circ (inext l, freeItems l) fs \<and> set xs \<inter> set fs = {} \<and>
     map (iv l) xs = map Some vs \<and> count l = length vs \<and>
     freeCount l = length fs \<and> freeCount l \<le> maxCacheItemCount"

text \<open>An item of \<open>gItemPool\<close>: in no ring.\<close>

definition free_item :: "'v linkList \<Rightarrow> addr \<Rightarrow> bool" where
  "free_item l a \<longleftrightarrow> inext l a = None"

lemma chain_linked: "chain nxt xs y \<Longrightarrow> x \<in> set xs \<Longrightarrow> nxt x \<noteq> None"
  by (induction xs) auto

lemma circ_linked: "circ (nxt, t) xs \<Longrightarrow> x \<in> set xs \<Longrightarrow> nxt x \<noteq> None"
  by (auto simp: circ_def dest: chain_linked split: if_splits)

lemma free_item_out: "ll_rep l xs fs vs \<Longrightarrow> free_item l a \<Longrightarrow> a \<notin> set xs \<and> a \<notin> set fs"
  unfolding ll_rep_def free_item_def using circ_linked by blast

lemma other_ring:
  assumes "circ (nxt, t) xs" and "\<And>y. y \<in> set xs \<Longrightarrow> nxt' y = nxt y"
  shows "circ (nxt', t) xs"
  using assms circ_cong [of xs nxt' nxt t] by simp

lemma getPoolItem_rep:
  assumes rep: "ll_rep l xs fs vs" and a: "free_item l a"
  shows "\<exists>l' item fs'. getPoolItem a v l = Ret (l', item) \<and> ll_rep l' xs fs' vs \<and>
           item \<notin> set xs \<and> item \<notin> set fs' \<and> iv l' item = Some v"
proof -
  have r: "circ (inext l, tail l) xs" "circ (inext l, freeItems l) fs" "set xs \<inter> set fs = {}"
      "map (iv l) xs = map Some vs" "count l = length vs" "freeCount l = length fs" "freeCount l \<le> maxCacheItemCount"
    using rep by (simp_all add: ll_rep_def)
  show ?thesis
  proof (cases fs)
    case Nil
    have pop: "list_pop (inext l, freeItems l) = Ret ((inext l, freeItems l), None)"
      using cl.pop_Nil r(2) Nil by simp
    have "a \<notin> set xs" using free_item_out [OF rep a] by simp
    then have "map ((iv l)(a := Some v)) xs = map (iv l) xs" by simp
    then have "ll_rep (l\<lparr>iv := (iv l)(a := Some v)\<rparr>) xs [] vs"
      using r Nil by (simp add: ll_rep_def)
    then show ?thesis using \<open>a \<notin> set xs\<close> by (auto simp: getPoolItem_def pop)
  next
    case (Cons f gs)
    obtain nxt free where pop: "list_pop (inext l, freeItems l) = Ret ((nxt, free), Some f)" "circ (nxt, free) gs"
      using cl.pop_Cons [of "(inext l, freeItems l)" f gs] r(2) Cons by auto
    have "nxt y = inext l y" if "y \<in> set xs" for y
      using list_pop_frame [OF r(2) pop(1), of y] that r(3) by auto
    then have c: "circ (nxt, tail l) xs" by (intro other_ring [OF r(1)])
    have f: "f \<notin> set xs" "f \<notin> set gs" using r(3) Cons circ_distinct [OF r(2)] by auto
    then have "map ((iv l)(f := Some v)) xs = map (iv l) xs" by simp
    then have "ll_rep (l\<lparr>inext := nxt, freeItems := free, freeCount := freeCount l - 1, iv := (iv l)(f := Some v)\<rparr>) xs gs vs"
      using r c pop(2) Cons by (simp add: ll_rep_def disjoint_iff)
    then show ?thesis using f by (auto simp: getPoolItem_def pop)
  qed
qed

lemma linkList_push_rep:
  assumes "ll_rep l xs fs vs" and "free_item l a"
  shows "\<exists>l' xs' fs'. linkList_push a v l = Ret l' \<and> ll_rep l' xs' fs' (vs @ [v])"
proof -
  obtain l1 item fs' where g: "getPoolItem a v l = Ret (l1, item)" "ll_rep l1 xs fs' vs"
      "item \<notin> set xs" "item \<notin> set fs'" "iv l1 item = Some v"
    using getPoolItem_rep [OF assms] by blast
  have r: "circ (inext l1, tail l1) xs" "circ (inext l1, freeItems l1) fs'" "set xs \<inter> set fs' = {}"
    using g(2) by (simp_all add: ll_rep_def)
  obtain nxt t where push: "list_push item (inext l1, tail l1) = (nxt, t)" by fastforce
  have c: "circ (nxt, t) (xs @ [item])" using circ_push [OF r(1) g(3)] push by simp
  have "nxt y = inext l1 y" if "y \<in> set fs'" for y
    using list_push_frame [OF r(1), of y item] that r(3) g(4) push by auto
  then have "circ (nxt, freeItems l1) fs'" by (intro other_ring [OF r(2)])
  then have "ll_rep (l1\<lparr>inext := nxt, tail := t, count := count l1 + 1\<rparr>) (xs @ [item]) fs' (vs @ [v])"
    using g c by (auto simp: ll_rep_def)
  then show ?thesis using g(1) push by (auto simp: linkList_push_def)
qed

lemma linkList_pop_empty:
  assumes "ll_rep l xs fs []"
  shows "linkList_pop l = Ret (l, None)"
proof -
  have "xs = []" using assms by (simp add: ll_rep_def)
  then have "list_pop (inext l, tail l) = Ret ((inext l, tail l), None)"
    using assms cl.pop_Nil by (simp add: ll_rep_def)
  then show ?thesis by (simp add: linkList_pop_def)
qed

lemma linkList_pop_rep:
  assumes "ll_rep l xs fs (v # vs)"
  shows "\<exists>l' xs' fs'. linkList_pop l = Ret (l', Some v) \<and> ll_rep l' xs' fs' vs"
proof -
  obtain x ys where xs: "xs = x # ys" "iv l x = Some v" "map (iv l) ys = map Some vs"
    using assms by (cases xs) (auto simp: ll_rep_def)
  have r: "circ (inext l, tail l) (x # ys)" "circ (inext l, freeItems l) fs" "set (x # ys) \<inter> set fs = {}"
      "count l = Suc (length vs)" "freeCount l = length fs" "freeCount l \<le> maxCacheItemCount"
    using assms xs(1) by (simp_all add: ll_rep_def)
  obtain nxt t where pop: "list_pop (inext l, tail l) = Ret ((nxt, t), Some x)" "circ (nxt, t) ys"
    using cl.pop_Cons [OF r(1)] by auto
  have "nxt y = inext l y" if "y \<in> set fs" for y
    using list_pop_frame [OF r(1) pop(1), of y] that r(3) by auto
  then have cf: "circ (nxt, freeItems l) fs" by (intro other_ring [OF r(2)])
  have x: "x \<notin> set ys" "x \<notin> set fs" using circ_distinct [OF r(1)] r(3) by auto
  have iv: "map ((iv l)(x := None)) ys = map Some vs" using x(1) xs(3) by simp
  define l1 where "l1 = l\<lparr>inext := nxt, tail := t, count := count l - 1\<rparr>"
  have eq: "linkList_pop l = Ret (putPoolItem x l1, Some v)"
    using pop(1) xs(2) by (simp add: linkList_pop_def l1_def Let_def)
  show ?thesis
  proof (cases "freeCount l < maxCacheItemCount")
    case True
    obtain nxt' free where push: "list_push x (nxt, freeItems l) = (nxt', free)" by fastforce
    have "circ (nxt', free) (fs @ [x])" using circ_push [OF cf x(2)] push by simp
    moreover have "nxt' y = nxt y" if "y \<in> set ys" for y
      using list_push_frame [OF cf, of y x] that x(1) r(3) push by auto
    then have "circ (nxt', t) ys" by (intro other_ring [OF pop(2)])
    ultimately have "ll_rep (putPoolItem x l1) ys (fs @ [x]) vs"
      using True r x iv push by (auto simp: ll_rep_def putPoolItem_def l1_def Let_def)
    then show ?thesis using eq by blast
  next
    case False
    then have "ll_rep (putPoolItem x l1) ys fs vs"
      using r x iv pop(2) cf by (auto simp: ll_rep_def putPoolItem_def l1_def Let_def)
    then show ?thesis using eq by blast
  qed
qed

section \<open>Specification of the pool\<close>

text \<open>What the pool promises, over lists: the free routines in the order they are handed out, the queued tasks
  in the order they are run.\<close>

record 'v apool =
  adie :: bool
  acount :: int
  aopts :: pool_option
  afree :: "addr list"
  aqueue :: "'v list"

definition aGo :: "'v \<Rightarrow> 'v apool \<Rightarrow> 'v apool \<times> go_out" where
  "aGo task A =
     (if adie A then (A, GoErr Err_PoolClosed)
      else if afree A \<noteq> [] then (A\<lparr>afree := tl (afree A)\<rparr>, GoHand (hd (afree A)))
      else if MaxRoutineCount (aopts A) > 0 \<and> acount A = MaxRoutineCount (aopts A) then
        (if MaxQueueSize (aopts A) \<ge> 0 \<and> int (length (aqueue A)) \<ge> MaxQueueSize (aopts A)
         then (A, GoErr Err_TaskQueueFull) else (A\<lparr>aqueue := aqueue A @ [task]\<rparr>, GoQueued))
      else if MaxRoutineCount (aopts A) \<le> 0 \<and> acount A \<ge> ReserveRoutineCount (aopts A) then (A, GoPlain)
      else (A\<lparr>acount := acount A + 1\<rparr>, GoNew))"

definition aPut :: "addr \<Rightarrow> 'v apool \<Rightarrow> 'v apool \<times> bool \<times> 'v option" where
  "aPut r A =
     (if adie A then (A, False, None)
      else if aqueue A \<noteq> [] then (A\<lparr>aqueue := tl (aqueue A)\<rparr>, True, Some (hd (aqueue A)))
      else if acount A > ReserveRoutineCount (aopts A) then (A\<lparr>acount := acount A - 1\<rparr>, False, None)
      else (A\<lparr>afree := afree A @ [r]\<rparr>, True, None))"

definition aClose :: "'v apool \<Rightarrow> 'v apool \<times> addr list" where
  "aClose A = (if adie A then (A, []) else (A\<lparr>adie := True, afree := []\<rparr>, afree A))"

definition pool_rep :: "'v pool \<Rightarrow> 'v apool \<Rightarrow> bool" where
  "pool_rep p A \<longleftrightarrow>
     adie A = die p \<and> acount A = routineCount p \<and> aopts A = opts p \<and>
     circ (rnext p, freeRoutines p) (afree A) \<and> (\<exists>xs fs. ll_rep (taskQueue p) xs fs (aqueue A))"

lemma getRoutine_rep:
  assumes "circ (rnext p, freeRoutines p) rs"
  shows "(rs = [] \<longrightarrow> getRoutine p = Ret (p, None)) \<and>
         (rs \<noteq> [] \<longrightarrow> (\<exists>nxt t. getRoutine p = Ret (p\<lparr>rnext := nxt, freeRoutines := t\<rparr>, Some (hd rs)) \<and>
                                 circ (nxt, t) (tl rs)))"
proof (cases rs)
  case Nil
  then show ?thesis using assms cl.pop_Nil [of "(rnext p, freeRoutines p)"] by (simp add: getRoutine_def)
next
  case (Cons r gs)
  then obtain nxt t where "list_pop (rnext p, freeRoutines p) = Ret ((nxt, t), Some r)" "circ (nxt, t) gs"
    using assms cl.pop_Cons [of "(rnext p, freeRoutines p)" r gs] by auto
  then show ?thesis using Cons by (auto simp: getRoutine_def intro!: exI [of _ nxt] exI [of _ t])
qed

lemma Go_refines:
  assumes rep: "pool_rep p A" and a: "free_item (taskQueue p) a"
  shows "\<exists>p'. Go a task p = Ret (p', snd (aGo task A)) \<and> pool_rep p' (fst (aGo task A))"
proof -
  obtain xs fs where r: "adie A = die p" "acount A = routineCount p" "aopts A = opts p"
      "circ (rnext p, freeRoutines p) (afree A)" "ll_rep (taskQueue p) xs fs (aqueue A)"
    using rep by (auto simp: pool_rep_def)
  have len: "count (taskQueue p) = length (aqueue A)" using r(5) by (simp add: ll_rep_def)
  obtain q xs' fs' where push: "linkList_push a task (taskQueue p) = Ret q" "ll_rep q xs' fs' (aqueue A @ [task])"
    using linkList_push_rep [OF r(5) a] by blast
  show ?thesis
  proof (cases "afree A = []")
    case True
    then have g: "getRoutine p = Ret (p, None)" using getRoutine_rep [OF r(4)] by simp
    show ?thesis using True r(1,2,3,4,5) len push
      by (auto simp: Go_def aGo_def g pool_rep_def Let_def)
  next
    case False
    then obtain nxt t where g: "getRoutine p = Ret (p\<lparr>rnext := nxt, freeRoutines := t\<rparr>, Some (hd (afree A)))"
        "circ (nxt, t) (tl (afree A))"
      using getRoutine_rep [OF r(4)] by auto
    show ?thesis using False r(1,2,3,4,5) g(2) by (auto simp: Go_def aGo_def g(1) pool_rep_def)
  qed
qed

lemma putRoutine_refines:
  assumes rep: "pool_rep p A" and fresh: "r \<notin> set (afree A)"
  shows "\<exists>p'. putRoutine r p = Ret (p', snd (aPut r A)) \<and> pool_rep p' (fst (aPut r A))"
proof -
  obtain xs fs where e: "adie A = die p" "acount A = routineCount p" "aopts A = opts p"
      "circ (rnext p, freeRoutines p) (afree A)" "ll_rep (taskQueue p) xs fs (aqueue A)"
    using rep by (auto simp: pool_rep_def)
  show ?thesis
  proof (cases "aqueue A")
    case Nil
    then have pop: "linkList_pop (taskQueue p) = Ret (taskQueue p, None)" using linkList_pop_empty e(5) by simp
    obtain nxt t where push: "list_push r (rnext p, freeRoutines p) = (nxt, t)" by fastforce
    have "circ (nxt, t) (afree A @ [r])" using circ_push [OF e(4) fresh] push by simp
    then show ?thesis using Nil e push by (auto simp: putRoutine_def aPut_def pop pool_rep_def Let_def)
  next
    case (Cons v vs)
    obtain q xs' fs' where pop: "linkList_pop (taskQueue p) = Ret (q, Some v)" "ll_rep q xs' fs' vs"
      using linkList_pop_rep e(5) Cons by metis
    then show ?thesis using Cons e by (auto simp: putRoutine_def aPut_def pool_rep_def Let_def)
  qed
qed

lemma close_loop_rep:
  assumes "circ (rnext p, freeRoutines p) rs" and "length rs < fuel"
  shows "\<exists>nxt t. close_loop fuel p = Ret (p\<lparr>rnext := nxt, freeRoutines := t\<rparr>, rs) \<and> circ (nxt, t) []"
  using assms
proof (induction fuel arbitrary: p rs)
  case (Suc fuel)
  show ?case
  proof (cases rs)
    case Nil
    then have "getRoutine p = Ret (p, None)" using getRoutine_rep [OF Suc.prems(1)] by simp
    moreover have "p = p\<lparr>rnext := rnext p, freeRoutines := freeRoutines p\<rparr>" by simp
    ultimately show ?thesis using Nil Suc.prems(1) by (auto intro!: exI [of _ "rnext p"] exI [of _ "freeRoutines p"])
  next
    case (Cons r gs)
    obtain nxt t where g: "getRoutine p = Ret (p\<lparr>rnext := nxt, freeRoutines := t\<rparr>, Some r)" "circ (nxt, t) gs"
      using getRoutine_rep [OF Suc.prems(1)] Cons by auto
    obtain nxt' t' where "close_loop fuel (p\<lparr>rnext := nxt, freeRoutines := t\<rparr>)
        = Ret (p\<lparr>rnext := nxt', freeRoutines := t'\<rparr>, gs) \<and> circ (nxt', t') []"
      using Suc.IH [of "p\<lparr>rnext := nxt, freeRoutines := t\<rparr>" gs] g(2) Suc.prems(2) Cons by auto
    then show ?thesis using g(1) Cons by auto
  qed
qed simp

lemma Close_refines:
  assumes rep: "pool_rep p A" and fuel: "length (afree A) < fuel"
  shows "\<exists>p'. Close fuel p = Ret (p', snd (aClose A)) \<and> pool_rep p' (fst (aClose A))"
proof -
  have "circ (rnext (p\<lparr>die := True\<rparr>), freeRoutines (p\<lparr>die := True\<rparr>)) (afree A)"
    using rep by (simp add: pool_rep_def)
  then obtain nxt t where c: "close_loop fuel (p\<lparr>die := True\<rparr>) = Ret (p\<lparr>die := True, rnext := nxt, freeRoutines := t\<rparr>, afree A)"
      "circ (nxt, t) []"
    using close_loop_rep [of "p\<lparr>die := True\<rparr>" "afree A" fuel] fuel by auto
  then show ?thesis using rep by (auto simp: Close_def aClose_def pool_rep_def)
qed

section \<open>Definitions: callers and routines\<close>

text \<open>Where a routine is in \<open>run\<close>: at the receive of the \<open>range\<close> loop, in a task, before \<open>putRoutine\<close>, returned.\<close>

datatype 'v routine_pc = Recv | Run 'v | Put | Exited

text \<open>The pool, the routines made so far, the callers that wait at \<open>r.taskCh <- task\<close>, the goroutines of
  \<open>go task()\<close> not yet run, the closed channels; and, for the statements, the tasks \<open>Go\<close> took with a nil error
  and the tasks that started.\<close>

record 'v gsys =
  pl :: "'v pool"
  pcs :: "addr \<Rightarrow> 'v routine_pc"
  created :: "addr list"
  sends :: "(addr \<times> 'v) list"
  plain :: "'v list"
  chclosed :: "addr list"
  accepted :: "'v list"
  started :: "'v list"

definition gp_init :: "pool_option \<Rightarrow> 'v gsys" where
  "gp_init opt = \<lparr>pl = New opt, pcs = (\<lambda>_. Exited), created = [], sends = [], plain = [], chclosed = [],
     accepted = [], started = []\<rparr>"

definition sys_go :: "addr \<Rightarrow> addr \<Rightarrow> 'v \<Rightarrow> 'v gsys \<Rightarrow> 'v gsys go" where
  "sys_go a r task s =
     map_ret (\<lambda>(p, out).
       (case out of
          GoErr e \<Rightarrow> s\<lparr>pl := p\<rparr>
        | GoHand f \<Rightarrow> s\<lparr>pl := p, sends := sends s @ [(f, task)], accepted := accepted s @ [task]\<rparr>
        | GoQueued \<Rightarrow> s\<lparr>pl := p, accepted := accepted s @ [task]\<rparr>
        | GoPlain \<Rightarrow> s\<lparr>pl := p, plain := plain s @ [task], accepted := accepted s @ [task]\<rparr>
        | GoNew \<Rightarrow> s\<lparr>pl := p, pcs := (pcs s)(r := Recv), created := r # created s,
                     sends := sends s @ [(r, task)], accepted := accepted s @ [task]\<rparr>)) (Go a task (pl s))"

definition sys_put :: "addr \<Rightarrow> 'v gsys \<Rightarrow> 'v gsys go" where
  "sys_put r s =
     map_ret (\<lambda>(p, ok, v).
       if \<not> ok then s\<lparr>pl := p, pcs := (pcs s)(r := Exited)\<rparr>
       else (case v of
               Some t \<Rightarrow> s\<lparr>pl := p, pcs := (pcs s)(r := Run t), started := started s @ [t]\<rparr>
             | None \<Rightarrow> s\<lparr>pl := p, pcs := (pcs s)(r := Recv)\<rparr>)) (putRoutine r (pl s))"

text \<open>Closing a closed channel panics.\<close>

definition sys_close :: "'v gsys \<Rightarrow> 'v gsys go" where
  "sys_close s =
     bind_go (Close (Suc (length (created s))) (pl s)) (\<lambda>(p, rs).
       if distinct rs \<and> set rs \<inter> set (chclosed s) = {} then Ret (s\<lparr>pl := p, chclosed := chclosed s @ rs\<rparr>)
       else Panic CloseOfClosed)"

inductive gp_step :: "'v gsys \<Rightarrow> 'v gsys \<Rightarrow> bool" where
  gp_go: "free_item (taskQueue (pl s)) a \<Longrightarrow> r \<notin> set (created s) \<Longrightarrow> sys_go a r task s = Ret s' \<Longrightarrow> gp_step s s'"
| gp_recv: "sends s = xs @ (r, task) # ys \<Longrightarrow> pcs s r = Recv \<Longrightarrow>
     gp_step s (s\<lparr>sends := xs @ ys, pcs := (pcs s)(r := Run task), started := started s @ [task]\<rparr>)"
| gp_eof: "pcs s r = Recv \<Longrightarrow> r \<in> set (chclosed s) \<Longrightarrow> gp_step s (s\<lparr>pcs := (pcs s)(r := Exited)\<rparr>)"
| gp_done: "pcs s r = Run t \<Longrightarrow> gp_step s (s\<lparr>pcs := (pcs s)(r := Put)\<rparr>)"
| gp_put: "pcs s r = Put \<Longrightarrow> sys_put r s = Ret s' \<Longrightarrow> gp_step s s'"
| gp_plain: "plain s = xs @ t # ys \<Longrightarrow> gp_step s (s\<lparr>plain := xs @ ys, started := started s @ [t]\<rparr>)"
| gp_close: "sys_close s = Ret s' \<Longrightarrow> gp_step s s'"

section \<open>Invariant\<close>

definition nlive :: "(addr \<Rightarrow> 'v routine_pc) \<Rightarrow> addr list \<Rightarrow> nat" where
  "nlive f xs = length (filter (\<lambda>r. f r \<noteq> Exited) xs)"

lemma nlive_same: "(\<And>x. x \<in> set xs \<Longrightarrow> (f x = Exited) = (g x = Exited)) \<Longrightarrow> nlive f xs = nlive g xs"
  unfolding nlive_def by (induction xs) auto

lemma nlive_upd:
  "distinct xs \<Longrightarrow> r \<in> set xs \<Longrightarrow> f r \<noteq> Exited \<Longrightarrow>
     nlive f xs = nlive (f(r := v)) xs + (if v = Exited then 1 else 0)"
proof (induction xs)
  case (Cons x xs)
  show ?case
  proof (cases "x = r")
    case True
    then have "nlive (f(r := v)) xs = nlive f xs" using Cons.prems(1) by (intro nlive_same) auto
    then show ?thesis using True Cons.prems(3) by (auto simp: nlive_def)
  next
    case False
    then show ?thesis using Cons by (auto simp: nlive_def)
  qed
qed simp

text \<open>Who is at a receive, and which channels are closed.\<close>

definition gp_threads :: "'v gsys \<Rightarrow> addr list \<Rightarrow> bool" where
  "gp_threads s fr \<longleftrightarrow>
     distinct (created s) \<and> distinct (fr @ map fst (sends s) @ chclosed s) \<and>
     (\<forall>r \<in> set fr \<union> fst ` set (sends s). r \<in> set (created s) \<and> pcs s r = Recv) \<and>
     (\<forall>r. pcs s r = Recv \<longrightarrow> r \<in> set fr \<union> fst ` set (sends s) \<union> set (chclosed s)) \<and>
     (\<forall>r \<in> set (chclosed s). r \<in> set (created s) \<and> (pcs s r = Recv \<or> pcs s r = Exited)) \<and>
     (\<forall>r. pcs s r \<noteq> Exited \<longrightarrow> r \<in> set (created s))"

definition routine_cap :: "pool_option \<Rightarrow> int" where
  "routine_cap opt = (if MaxRoutineCount opt > 0 then MaxRoutineCount opt else max 0 (ReserveRoutineCount opt))"

definition gp_counts :: "'v gsys \<Rightarrow> 'v apool \<Rightarrow> bool" where
  "gp_counts s A \<longleftrightarrow>
     int (nlive (pcs s) (created s)) \<le> acount A \<and> (\<not> adie A \<longrightarrow> acount A = int (nlive (pcs s) (created s))) \<and>
     acount A \<le> routine_cap (aopts A) \<and>
     (MaxQueueSize (aopts A) \<ge> 0 \<longrightarrow> int (length (aqueue A)) \<le> MaxQueueSize (aopts A)) \<and>
     (adie A \<longrightarrow> afree A = []) \<and> (\<not> adie A \<longrightarrow> chclosed s = []) \<and>
     (\<not> adie A \<and> aqueue A \<noteq> [] \<longrightarrow>
        afree A = [] \<and> MaxRoutineCount (aopts A) > 0 \<and> acount A = MaxRoutineCount (aopts A))"

definition gp_tasks :: "'v gsys \<Rightarrow> 'v list \<Rightarrow> bool" where
  "gp_tasks s vs \<longleftrightarrow>
     mset (accepted s) = mset (started s) + mset vs + mset (map snd (sends s)) + mset (plain s)"

definition gp_inv :: "'v gsys \<Rightarrow> 'v apool \<Rightarrow> bool" where
  "gp_inv s A \<longleftrightarrow> pool_rep (pl s) A \<and> gp_threads s (afree A) \<and> gp_counts s A \<and> gp_tasks s (aqueue A)"

lemma aGo_cases:
  assumes "\<not> adie A" "afree A = []" "\<not> (MaxRoutineCount (aopts A) > 0 \<and> acount A = MaxRoutineCount (aopts A))"
  shows "aGo task A = (A, GoPlain) \<or> acount A < routine_cap (aopts A) \<and> aGo task A = (A\<lparr>acount := acount A + 1\<rparr>, GoNew) \<or>
         acount A > routine_cap (aopts A)"
  using assms by (auto simp: aGo_def routine_cap_def)

text \<open>Fields a part of the invariant does not read.\<close>

lemma gp_frame:
  "gp_threads (s\<lparr>pl := p\<rparr>) fr = gp_threads s fr" "gp_threads (s\<lparr>accepted := xs\<rparr>) fr = gp_threads s fr"
  "gp_threads (s\<lparr>started := xs\<rparr>) fr = gp_threads s fr" "gp_threads (s\<lparr>plain := xs\<rparr>) fr = gp_threads s fr"
  "gp_counts (s\<lparr>pl := p\<rparr>) A = gp_counts s A" "gp_counts (s\<lparr>accepted := xs\<rparr>) A = gp_counts s A"
  "gp_counts (s\<lparr>started := xs\<rparr>) A = gp_counts s A" "gp_counts (s\<lparr>plain := xs\<rparr>) A = gp_counts s A"
  "gp_counts (s\<lparr>sends := ys\<rparr>) A = gp_counts s A"
  unfolding gp_threads_def gp_counts_def by simp_all

lemma gp_inv_hand:
  assumes inv: "gp_inv s A" and p: "pool_rep p (A\<lparr>afree := fs\<rparr>)" and A: "\<not> adie A" "afree A = f # fs"
  shows "gp_inv (s\<lparr>pl := p, sends := sends s @ [(f, task)], accepted := accepted s @ [task]\<rparr>) (A\<lparr>afree := fs\<rparr>)"
proof -
  have t: "gp_threads s (f # fs)" and c: "gp_counts s A" and m: "gp_tasks s (aqueue A)"
    using inv A(2) by (simp_all add: gp_inv_def)
  have "gp_threads (s\<lparr>pl := p, sends := sends s @ [(f, task)], accepted := accepted s @ [task]\<rparr>) fs"
    using t by (auto simp: gp_threads_def)
  moreover have "gp_counts (s\<lparr>pl := p, sends := sends s @ [(f, task)], accepted := accepted s @ [task]\<rparr>) (A\<lparr>afree := fs\<rparr>)"
    using c A by (simp add: gp_counts_def)
  ultimately show ?thesis using p m by (simp add: gp_inv_def gp_tasks_def)
qed

lemma gp_inv_queue:
  assumes inv: "gp_inv s A" and p: "pool_rep p (A\<lparr>aqueue := aqueue A @ [task]\<rparr>)" and A: "\<not> adie A" "afree A = []"
    and mx: "MaxRoutineCount (aopts A) > 0" "acount A = MaxRoutineCount (aopts A)"
    and q: "MaxQueueSize (aopts A) \<ge> 0 \<longrightarrow> int (length (aqueue A)) < MaxQueueSize (aopts A)"
  shows "gp_inv (s\<lparr>pl := p, accepted := accepted s @ [task]\<rparr>) (A\<lparr>aqueue := aqueue A @ [task]\<rparr>)"
proof -
  have t: "gp_threads s (afree A)" and c: "gp_counts s A" and m: "gp_tasks s (aqueue A)"
    using inv by (simp_all add: gp_inv_def)
  have "gp_threads (s\<lparr>pl := p, accepted := accepted s @ [task]\<rparr>) (afree A)"
    using t by (simp add: gp_threads_def)
  moreover have "gp_counts (s\<lparr>pl := p, accepted := accepted s @ [task]\<rparr>) (A\<lparr>aqueue := aqueue A @ [task]\<rparr>)"
    using c A mx q by (auto simp: gp_counts_def)
  ultimately show ?thesis using p m by (simp add: gp_inv_def gp_tasks_def)
qed

lemma gp_inv_new:
  assumes inv: "gp_inv s A" and p: "pool_rep p (A\<lparr>acount := acount A + 1\<rparr>)" and A: "\<not> adie A" "afree A = []"
    and cap: "acount A < routine_cap (aopts A)" and r: "r \<notin> set (created s)"
    and q: "aqueue A = []"
  shows "gp_inv (s\<lparr>pl := p, pcs := (pcs s)(r := Recv), created := r # created s,
           sends := sends s @ [(r, task)], accepted := accepted s @ [task]\<rparr>) (A\<lparr>acount := acount A + 1\<rparr>)"
    (is "gp_inv ?s ?A")
proof -
  have t: "gp_threads s (afree A)" and c: "gp_counts s A" and m: "gp_tasks s (aqueue A)"
    using inv by (simp_all add: gp_inv_def)
  have "nlive ((pcs s)(r := Recv)) (created s) = nlive (pcs s) (created s)"
    using r by (intro nlive_same) auto
  then have "nlive (pcs ?s) (created ?s) = Suc (nlive (pcs s) (created s))" by (simp add: nlive_def)
  then have "gp_counts ?s ?A" using c A cap q by (simp add: gp_counts_def)
  moreover have "gp_threads ?s (afree A)" using t r by (auto simp: gp_threads_def)
  ultimately show ?thesis using p m by (simp add: gp_inv_def gp_tasks_def)
qed

lemma gp_inv_plain:
  assumes inv: "gp_inv s A" and p: "pool_rep p A"
  shows "gp_inv (s\<lparr>pl := p, plain := plain s @ [task], accepted := accepted s @ [task]\<rparr>) A"
    and "gp_inv (s\<lparr>pl := p\<rparr>) A"
proof -
  have t: "gp_threads s (afree A)" and c: "gp_counts s A" and m: "gp_tasks s (aqueue A)"
    using inv by (simp_all add: gp_inv_def)
  show "gp_inv (s\<lparr>pl := p, plain := plain s @ [task], accepted := accepted s @ [task]\<rparr>) A"
    using p t c m by (simp add: gp_inv_def gp_tasks_def gp_frame)
  show "gp_inv (s\<lparr>pl := p\<rparr>) A"
    using p t c m by (simp add: gp_inv_def gp_tasks_def gp_frame)
qed

lemma gp_go_inv:
  assumes inv: "gp_inv s A" and a: "free_item (taskQueue (pl s)) a" and r: "r \<notin> set (created s)"
  shows "\<exists>s' A'. sys_go a r task s = Ret s' \<and> gp_inv s' A' \<and> aopts A' = aopts A"
proof -
  have rep: "pool_rep (pl s) A" and c: "gp_counts s A" using inv by (simp_all add: gp_inv_def)
  obtain p where p: "Go a task (pl s) = Ret (p, snd (aGo task A))" "pool_rep p (fst (aGo task A))"
    using Go_refines [OF rep a] by blast
  consider (die) "adie A" | (hand) "\<not> adie A" "afree A \<noteq> []"
    | (full) "\<not> adie A" "afree A = []" "MaxRoutineCount (aopts A) > 0" "acount A = MaxRoutineCount (aopts A)"
    | (grow) "\<not> adie A" "afree A = []" "\<not> (MaxRoutineCount (aopts A) > 0 \<and> acount A = MaxRoutineCount (aopts A))"
    by blast
  then show ?thesis
  proof cases
    case die
    then have g: "aGo task A = (A, GoErr Err_PoolClosed)" by (simp add: aGo_def)
    then show ?thesis using p gp_inv_plain(2) [OF inv] by (auto simp: sys_go_def)
  next
    case hand
    then obtain f fs where f: "afree A = f # fs" by (cases "afree A") auto
    have g: "aGo task A = (A\<lparr>afree := fs\<rparr>, GoHand f)" using hand f by (simp add: aGo_def)
    show ?thesis using p gp_inv_hand [OF inv _ hand(1) f, of p task] by (auto simp: sys_go_def g)
  next
    case full
    show ?thesis
    proof (cases "MaxQueueSize (aopts A) \<ge> 0 \<and> int (length (aqueue A)) \<ge> MaxQueueSize (aopts A)")
      case True
      then have g: "aGo task A = (A, GoErr Err_TaskQueueFull)" using full by (simp add: aGo_def)
      then show ?thesis using p gp_inv_plain(2) [OF inv] by (auto simp: sys_go_def)
    next
      case False
      then have g: "aGo task A = (A\<lparr>aqueue := aqueue A @ [task]\<rparr>, GoQueued)" using full by (simp add: aGo_def)
      show ?thesis using p gp_inv_queue [OF inv _ full, of p task] False by (auto simp: sys_go_def g)
    qed
  next
    case grow
    have q: "aqueue A = []" using grow c by (auto simp: gp_counts_def)
    from aGo_cases [OF grow, of task] show ?thesis
    proof (elim disjE conjE)
      assume "aGo task A = (A, GoPlain)"
      then show ?thesis using p gp_inv_plain(1) [OF inv, of p task] by (auto simp: sys_go_def)
    next
      assume cap: "acount A < routine_cap (aopts A)" and g: "aGo task A = (A\<lparr>acount := acount A + 1\<rparr>, GoNew)"
      then show ?thesis using p gp_inv_new [OF inv _ grow(1,2) cap r q, of p task] by (auto simp: sys_go_def)
    next
      assume "routine_cap (aopts A) < acount A"
      then show ?thesis using c by (simp add: gp_counts_def)
    qed
  qed
qed

lemma gp_threads_out:
  "gp_threads s fr \<Longrightarrow> pcs s r \<noteq> Recv \<Longrightarrow> r \<notin> set fr \<and> r \<notin> fst ` set (sends s)"
  unfolding gp_threads_def by blast

lemma gp_threads_upd:
  assumes t: "gp_threads s fr" and r: "pcs s r \<noteq> Recv" "pcs s r \<noteq> Exited" and v: "v \<noteq> Recv"
  shows "gp_threads (s\<lparr>pcs := (pcs s)(r := v)\<rparr>) fr"
proof -
  have "r \<notin> set fr \<union> fst ` set (sends s)" using gp_threads_out [OF t r(1)] by simp
  moreover have "r \<notin> set (chclosed s)" using t r by (auto simp: gp_threads_def)
  moreover have "r \<in> set (created s)" using t r by (simp add: gp_threads_def)
  ultimately show ?thesis using t v by (simp add: gp_threads_def) blast
qed

lemma gp_inv_pcs:
  assumes inv: "gp_inv s A" and p: "pool_rep p B" and thr: "gp_threads (s\<lparr>sends := ss, pcs := (pcs s)(r := v)\<rparr>) (afree B)"
    and r: "pcs s r \<noteq> Exited" and v: "v = Exited \<longrightarrow> adie A"
    and B: "B = A\<lparr>afree := fr, aqueue := q\<rparr>"
    and cnt: "adie A \<longrightarrow> fr = []" "length q \<le> length (aqueue A)" "q \<noteq> [] \<longrightarrow> fr = [] \<and> aqueue A \<noteq> []"
    and tasks: "gp_tasks (s\<lparr>sends := ss, started := started s @ ts\<rparr>) q"
  shows "gp_inv (s\<lparr>pl := p, sends := ss, pcs := (pcs s)(r := v), started := started s @ ts\<rparr>) B"
proof -
  have t: "gp_threads s (afree A)" and c: "gp_counts s A" using inv by (simp_all add: gp_inv_def)
  have "r \<in> set (created s)" "distinct (created s)" using t r by (simp_all add: gp_threads_def)
  then have "nlive (pcs s) (created s) = nlive ((pcs s)(r := v)) (created s) + (if v = Exited then 1 else 0)"
    using nlive_upd r by metis
  then have "gp_counts (s\<lparr>pcs := (pcs s)(r := v)\<rparr>) B" using c v cnt by (auto simp: gp_counts_def B)
  moreover have "gp_threads (s\<lparr>pl := p, sends := ss, pcs := (pcs s)(r := v), started := started s @ ts\<rparr>) (afree B)"
    using thr by (simp add: gp_threads_def)
  moreover have "gp_counts (s\<lparr>pl := p, sends := ss, pcs := (pcs s)(r := v), started := started s @ ts\<rparr>) B
      = gp_counts (s\<lparr>pcs := (pcs s)(r := v)\<rparr>) B" by (simp add: gp_counts_def)
  moreover have "gp_tasks (s\<lparr>pl := p, sends := ss, pcs := (pcs s)(r := v), started := started s @ ts\<rparr>) (aqueue B)"
    using tasks by (simp add: gp_tasks_def B)
  ultimately show ?thesis using p by (simp add: gp_inv_def)
qed

lemma gp_recv_inv:
  assumes inv: "gp_inv s A" and s: "sends s = xs @ (r, task) # ys" "pcs s r = Recv"
  shows "gp_inv (s\<lparr>sends := xs @ ys, pcs := (pcs s)(r := Run task), started := started s @ [task]\<rparr>) A"
proof -
  have t: "gp_threads s (afree A)" and m: "gp_tasks s (aqueue A)" and p: "pool_rep (pl s) A" and c: "gp_counts s A"
    using inv by (simp_all add: gp_inv_def)
  have thr: "gp_threads (s\<lparr>sends := xs @ ys, pcs := (pcs s)(r := Run task)\<rparr>) (afree A)"
    using t s(1) unfolding gp_threads_def by (auto simp: image_iff)
  have "gp_inv (s\<lparr>pl := pl s, sends := xs @ ys, pcs := (pcs s)(r := Run task), started := started s @ [task]\<rparr>) A"
    by (rule gp_inv_pcs [OF inv p thr, where fr = "afree A" and q = "aqueue A"]) (use s m c in \<open>auto simp: gp_tasks_def gp_counts_def\<close>)
  then show ?thesis by simp
qed

lemma gp_eof_inv:
  assumes inv: "gp_inv s A" and s: "pcs s r = Recv" "r \<in> set (chclosed s)"
  shows "gp_inv (s\<lparr>pcs := (pcs s)(r := Exited)\<rparr>) A"
proof -
  have t: "gp_threads s (afree A)" and m: "gp_tasks s (aqueue A)" and p: "pool_rep (pl s) A" and c: "gp_counts s A"
    using inv by (simp_all add: gp_inv_def)
  have thr: "gp_threads (s\<lparr>sends := sends s, pcs := (pcs s)(r := Exited)\<rparr>) (afree A)"
    using t s unfolding gp_threads_def by auto
  have "adie A" using c s(2) by (auto simp: gp_counts_def)
  have "gp_inv (s\<lparr>pl := pl s, sends := sends s, pcs := (pcs s)(r := Exited), started := started s @ []\<rparr>) A"
    by (rule gp_inv_pcs [OF inv p thr, where fr = "afree A" and q = "aqueue A"])
      (use s m c \<open>adie A\<close> in \<open>auto simp: gp_tasks_def gp_counts_def\<close>)
  then show ?thesis by simp
qed

lemma gp_done_inv:
  assumes inv: "gp_inv s A" and s: "pcs s r = Run t"
  shows "gp_inv (s\<lparr>pcs := (pcs s)(r := Put)\<rparr>) A"
proof -
  have t: "gp_threads s (afree A)" and m: "gp_tasks s (aqueue A)" and p: "pool_rep (pl s) A" and c: "gp_counts s A"
    using inv by (simp_all add: gp_inv_def)
  have thr: "gp_threads (s\<lparr>sends := sends s, pcs := (pcs s)(r := Put)\<rparr>) (afree A)"
    using gp_threads_upd [OF t, of r Put] s by simp
  have "gp_inv (s\<lparr>pl := pl s, sends := sends s, pcs := (pcs s)(r := Put), started := started s @ []\<rparr>) A"
    by (rule gp_inv_pcs [OF inv p thr, where fr = "afree A" and q = "aqueue A"]) (use s m c in \<open>auto simp: gp_tasks_def gp_counts_def\<close>)
  then show ?thesis by simp
qed

lemma gp_plain_inv:
  assumes inv: "gp_inv s A" and s: "plain s = xs @ t # ys"
  shows "gp_inv (s\<lparr>plain := xs @ ys, started := started s @ [t]\<rparr>) A"
  using assms by (simp add: gp_inv_def gp_frame gp_tasks_def)

lemma gp_put_inv:
  assumes inv: "gp_inv s A" and s: "pcs s r = Put"
  shows "\<exists>s' A'. sys_put r s = Ret s' \<and> gp_inv s' A' \<and> aopts A' = aopts A"
proof -
  have t: "gp_threads s (afree A)" and m: "gp_tasks s (aqueue A)" and rep: "pool_rep (pl s) A" and c: "gp_counts s A"
    using inv by (simp_all add: gp_inv_def)
  have out: "r \<notin> set (afree A)" "r \<notin> fst ` set (sends s)" using gp_threads_out [OF t] s by simp_all
  have out2: "r \<notin> set (chclosed s)" "r \<in> set (created s)" using t s by (auto simp: gp_threads_def)
  obtain p where p: "putRoutine r (pl s) = Ret (p, snd (aPut r A))" "pool_rep p (fst (aPut r A))"
    using putRoutine_refines [OF rep out(1)] by blast
  have thr: "gp_threads (s\<lparr>sends := sends s, pcs := (pcs s)(r := v)\<rparr>) (afree A)" if "v \<noteq> Recv" for v
    using gp_threads_upd [OF t] s that by simp
  have thr2: "gp_threads (s\<lparr>sends := sends s, pcs := (pcs s)(r := Recv)\<rparr>) (afree A @ [r])"
    using t out out2 by (simp add: gp_threads_def)
  consider (die) "adie A" | (task) v vs where "\<not> adie A" "aqueue A = v # vs"
    | (exit) "\<not> adie A" "aqueue A = []" "acount A > ReserveRoutineCount (aopts A)"
    | (idle) "\<not> adie A" "aqueue A = []" "\<not> acount A > ReserveRoutineCount (aopts A)"
    by (cases "aqueue A") auto
  then show ?thesis
  proof cases
    case die
    then have a: "aPut r A = (A, False, None)" by (simp add: aPut_def)
    have "gp_inv (s\<lparr>pl := p, sends := sends s, pcs := (pcs s)(r := Exited), started := started s @ []\<rparr>) A"
      by (rule gp_inv_pcs [OF inv _ thr, where p = p and fr = "afree A" and q = "aqueue A"])
        (use p a s m c die in \<open>auto simp: gp_tasks_def gp_counts_def\<close>)
    then show ?thesis using p a by (auto simp: sys_put_def)
  next
    case task
    let ?A = "A\<lparr>aqueue := vs\<rparr>"
    have a: "aPut r A = (?A, True, Some v)" using task by (simp add: aPut_def)
    have fr: "afree A = []" using task c by (simp add: gp_counts_def)
    have "gp_inv (s\<lparr>pl := p, sends := sends s, pcs := (pcs s)(r := Run v), started := started s @ [v]\<rparr>) ?A"
      by (rule gp_inv_pcs [OF inv, where fr = "[]" and q = vs])
        (use p a s m fr task thr [of "Run v"] in \<open>auto simp: gp_tasks_def\<close>)
    then have "gp_inv (s\<lparr>pl := p, pcs := (pcs s)(r := Run v), started := started s @ [v]\<rparr>) ?A" by simp
    then show ?thesis using p a by (auto simp: sys_put_def)
  next
    case exit
    let ?A = "A\<lparr>acount := acount A - 1\<rparr>" and ?s = "s\<lparr>pl := p, pcs := (pcs s)(r := Exited)\<rparr>"
    have a: "aPut r A = (?A, False, None)" using exit by (simp add: aPut_def)
    have "nlive (pcs s) (created s) = nlive ((pcs s)(r := Exited)) (created s) + 1"
      using nlive_upd [of "created s" r "pcs s" Exited] out2 s t by (simp add: gp_threads_def)
    then have "gp_counts ?s ?A" using c exit by (auto simp: gp_counts_def)
    moreover have "gp_threads ?s (afree A)" using thr [of Exited] by (simp add: gp_threads_def)
    ultimately have "gp_inv ?s ?A" using p a m by (simp add: gp_inv_def gp_tasks_def)
    then show ?thesis using p a by (auto simp: sys_put_def)
  next
    case idle
    let ?A = "A\<lparr>afree := afree A @ [r]\<rparr>"
    have a: "aPut r A = (?A, True, None)" using idle by (simp add: aPut_def)
    have "gp_inv (s\<lparr>pl := p, sends := sends s, pcs := (pcs s)(r := Recv), started := started s @ []\<rparr>) ?A"
      by (rule gp_inv_pcs [OF inv, where fr = "afree A @ [r]" and q = "[]"])
        (use p a s m idle thr2 in \<open>auto simp: gp_tasks_def\<close>)
    then have "gp_inv (s\<lparr>pl := p, pcs := (pcs s)(r := Recv)\<rparr>) ?A" by simp
    then show ?thesis using p a by (auto simp: sys_put_def)
  qed
qed

lemma gp_close_inv:
  assumes inv: "gp_inv s A"
  shows "\<exists>s' A'. sys_close s = Ret s' \<and> gp_inv s' A' \<and> aopts A' = aopts A"
proof -
  have t: "gp_threads s (afree A)" and m: "gp_tasks s (aqueue A)" and rep: "pool_rep (pl s) A" and c: "gp_counts s A"
    using inv by (simp_all add: gp_inv_def)
  have d: "distinct (afree A)" "set (afree A) \<subseteq> set (created s)" "set (afree A) \<inter> set (chclosed s) = {}"
    using t unfolding gp_threads_def by auto
  then have "length (afree A) < Suc (length (created s))"
    using card_mono [OF _ d(2)] distinct_card [OF d(1)] card_length [of "created s"] by simp
  then obtain p where p: "Close (Suc (length (created s))) (pl s) = Ret (p, snd (aClose A))" "pool_rep p (fst (aClose A))"
    using Close_refines [OF rep] by blast
  show ?thesis
  proof (cases "adie A")
    case True
    then have a: "aClose A = (A, [])" by (simp add: aClose_def)
    then show ?thesis using p gp_inv_plain(2) [OF inv] by (auto simp: sys_close_def)
  next
    case False
    then have a: "aClose A = (A\<lparr>adie := True, afree := []\<rparr>, afree A)" by (simp add: aClose_def)
    let ?s = "s\<lparr>pl := p, chclosed := chclosed s @ afree A\<rparr>" and ?A = "A\<lparr>adie := True, afree := []\<rparr>"
    have "gp_threads ?s []" using t unfolding gp_threads_def by auto
    moreover have "gp_counts ?s ?A" using c by (simp add: gp_counts_def)
    ultimately have "gp_inv ?s ?A" using p a m by (simp add: gp_inv_def gp_tasks_def)
    then show ?thesis using p a d by (auto simp: sys_close_def)
  qed
qed

lemma gp_init_inv: "gp_inv (gp_init opt) \<lparr>adie = False, acount = 0, aopts = opt, afree = [], aqueue = []\<rparr>"
  by (auto simp: gp_inv_def gp_init_def New_def pool_rep_def ll_rep_def circ_def gp_threads_def gp_counts_def
      gp_tasks_def nlive_def routine_cap_def maxCacheItemCount_def)

lemma gp_step_inv:
  assumes "gp_step s s'" and "gp_inv s A"
  shows "\<exists>A'. gp_inv s' A' \<and> aopts A' = aopts A"
  using assms
proof (induction rule: gp_step.induct)
  case (gp_go s a r task s')
  then show ?case using gp_go_inv [of s A a r task] by auto
next
  case (gp_recv s xs r task ys)
  have "gp_inv (s\<lparr>sends := xs @ ys, pcs := (pcs s)(r := Run task), started := started s @ [task]\<rparr>) A"
    by (rule gp_recv_inv [OF gp_recv(3) gp_recv(1) gp_recv(2)])
  then show ?case by (intro exI [of _ A]) simp
next
  case (gp_eof s r)
  show ?case using gp_eof_inv [OF gp_eof(3,1,2)] by (intro exI [of _ A]) simp
next
  case (gp_done s r t)
  show ?case using gp_done_inv [OF gp_done(2,1)] by (intro exI [of _ A]) simp
next
  case (gp_put s r s')
  then show ?case using gp_put_inv [of s A r] by auto
next
  case (gp_plain s xs t ys)
  show ?case using gp_plain_inv [OF gp_plain(2,1)] by (intro exI [of _ A]) simp
next
  case (gp_close s s')
  then show ?case using gp_close_inv [of s A] by auto
qed

lemma gp_reach_inv: "gp_step\<^sup>*\<^sup>* (gp_init opt) s \<Longrightarrow> \<exists>A. gp_inv s A \<and> aopts A = opt"
proof (induction rule: rtranclp_induct)
  case base
  show ?case using gp_init_inv by (intro exI conjI) (assumption | simp)+
next
  case (step s s')
  then show ?case using gp_step_inv by metis
qed

section \<open>Properties\<close>

text \<open>After \<open>Close\<close> nothing touches the task queue: \<open>Go\<close> fails and \<open>putRoutine\<close> ends the routine before it looks
  at the queue.\<close>

lemma gp_closed_step:
  "gp_step s s' \<Longrightarrow> die (pl s) \<Longrightarrow>
     die (pl s') \<and> taskQueue (pl s') = taskQueue (pl s) \<and> accepted s' = accepted s"
  by (induction rule: gp_step.induct)
    (auto simp: sys_go_def Go_def sys_put_def putRoutine_def sys_close_def Close_def split: if_splits)

lemma gp_closed_steps:
  "gp_step\<^sup>*\<^sup>* s s' \<Longrightarrow> die (pl s) \<Longrightarrow>
     die (pl s') \<and> taskQueue (pl s') = taskQueue (pl s) \<and> accepted s' = accepted s"
  by (induction rule: rtranclp_induct) (use gp_closed_step in \<open>metis+\<close>)

lemma ll_rep_unique: "ll_rep l xs fs vs \<Longrightarrow> ll_rep l ys gs ws \<Longrightarrow> vs = ws"
proof (induction vs arbitrary: l xs fs ys gs ws)
  case Nil
  then show ?case using linkList_pop_empty [OF Nil.prems(1)] linkList_pop_rep [of l ys gs] by (cases ws) auto
next
  case (Cons v vs)
  obtain l' xs' fs' where l': "linkList_pop l = Ret (l', Some v)" "ll_rep l' xs' fs' vs"
    using linkList_pop_rep [OF Cons.prems(1)] by blast
  show ?case
  proof (cases ws)
    case Nil
    then show ?thesis using l'(1) linkList_pop_empty [of l ys gs] Cons.prems(2) by simp
  next
    case (Cons w ws')
    then obtain l'' ys' gs' where l'': "linkList_pop l = Ret (l'', Some w)" "ll_rep l'' ys' gs' ws'"
      using linkList_pop_rep [of l ys gs w ws'] \<open>ll_rep l ys gs ws\<close> by blast
    then show ?thesis using l' Cons Cons.IH [OF l'(2), of ys' gs' ws'] by simp
  qed
qed

text \<open>C18. In every reachable state of the callers and routines of a pool, the routines that have not returned
  are at most \<open>MaxRoutineCount\<close> (or, without that limit, \<open>ReserveRoutineCount\<close>), at most \<open>MaxQueueSize\<close>
  tasks are queued, no caller waits on a closed channel, and the tasks that \<open>Go\<close> took are exactly the tasks
  that started, those in the queue and those being handed over, so none is started twice. Once the pool is closed
  the queue is abandoned: in every later state \<open>Go\<close> has taken no further task and the tasks that were
  queued, although \<open>Go\<close> returned no error for them, are not among those that started.\<close>

theorem gopool_safe:
  assumes "gp_step\<^sup>*\<^sup>* (gp_init opt) s"
  shows "int (length (filter (\<lambda>r. pcs s r \<noteq> Exited) (created s))) \<le> routine_cap opt \<and>
    (MaxQueueSize opt \<ge> 0 \<longrightarrow> int (count (taskQueue (pl s))) \<le> MaxQueueSize opt) \<and>
    set (map fst (sends s)) \<inter> set (chclosed s) = {} \<and>
    (\<exists>xs fs vs. ll_rep (taskQueue (pl s)) xs fs vs \<and>
       mset (accepted s) = mset (started s) + mset vs + mset (map snd (sends s)) + mset (plain s) \<and>
       (die (pl s) \<longrightarrow> (\<forall>s'. gp_step\<^sup>*\<^sup>* s s' \<longrightarrow>
          accepted s' = accepted s \<and> mset (started s') + mset vs \<subseteq># mset (accepted s))))"
proof -
  obtain A where A: "gp_inv s A" "aopts A = opt" using gp_reach_inv [OF assms] by blast
  obtain xs fs where q: "ll_rep (taskQueue (pl s)) xs fs (aqueue A)" using A(1) by (auto simp: gp_inv_def pool_rep_def)
  have "int (length (filter (\<lambda>r. pcs s r \<noteq> Exited) (created s))) \<le> routine_cap opt"
    using A by (simp add: gp_inv_def gp_counts_def nlive_def)
  moreover have "MaxQueueSize opt \<ge> 0 \<longrightarrow> int (count (taskQueue (pl s))) \<le> MaxQueueSize opt"
    using A q by (simp add: gp_inv_def gp_counts_def ll_rep_def)
  moreover have "set (map fst (sends s)) \<inter> set (chclosed s) = {}"
    using A by (simp add: gp_inv_def gp_threads_def)
  moreover have "mset (accepted s) = mset (started s) + mset (aqueue A) + mset (map snd (sends s)) + mset (plain s)"
    using A by (simp add: gp_inv_def gp_tasks_def)
  moreover have "accepted s' = accepted s \<and> mset (started s') + mset (aqueue A) \<subseteq># mset (accepted s)"
    if "die (pl s)" and s': "gp_step\<^sup>*\<^sup>* s s'" for s'
  proof -
    have closed: "taskQueue (pl s') = taskQueue (pl s)" "accepted s' = accepted s"
      using gp_closed_steps [OF s' that(1)] by simp_all
    obtain B where B: "gp_inv s' B" using gp_reach_inv [OF rtranclp_trans [OF assms s']] by blast
    then have "aqueue B = aqueue A" using q closed(1) ll_rep_unique by (auto simp: gp_inv_def pool_rep_def)
    moreover have "mset (accepted s') = mset (started s') + mset (aqueue B) + mset (map snd (sends s')) + mset (plain s')"
      using B by (simp add: gp_inv_def gp_tasks_def)
    ultimately show ?thesis using closed(2) by (simp add: ac_simps)
  qed
  ultimately show ?thesis using q by blast
qed

text \<open>No operation of the pool panics: in every reachable state \<open>Go\<close> with an item of the item pool,
  \<open>putRoutine\<close> by a routine that finished a task and \<open>Close\<close> return, and \<open>Close\<close> never closes a closed channel.\<close>

theorem gopool_total:
  assumes "gp_step\<^sup>*\<^sup>* (gp_init opt) s"
  shows "(free_item (taskQueue (pl s)) a \<and> r \<notin> set (created s) \<longrightarrow> (\<exists>s'. sys_go a r task s = Ret s')) \<and>
    (pcs s r' = Put \<longrightarrow> (\<exists>s'. sys_put r' s = Ret s')) \<and> (\<exists>s'. sys_close s = Ret s')"
proof -
  obtain A where inv: "gp_inv s A" using gp_reach_inv [OF assms] by blast
  have "\<exists>s'. sys_go a r task s = Ret s'" if "free_item (taskQueue (pl s)) a" "r \<notin> set (created s)"
    using gp_go_inv [OF inv that, of task] by auto
  moreover have "\<exists>s'. sys_put r' s = Ret s'" if "pcs s r' = Put" using gp_put_inv [OF inv that] by auto
  moreover have "\<exists>s'. sys_close s = Ret s'" using gp_close_inv [OF inv] by auto
  ultimately show ?thesis by simp
qed

text \<open>C19. Progress: in every reachable state of an open pool either every task that \<open>Go\<close> took has started, or
  some goroutine can go on: a plain goroutine, a routine whose next task is being handed over and that is at its
  receive, or a routine in or behind a task, which then takes the queued tasks. A queued task is never left behind by
  routines that went idle or returned.\<close>

theorem gopool_progress:
  assumes reach: "gp_step\<^sup>*\<^sup>* (gp_init opt) s" and open_pool: "\<not> die (pl s)"
  shows "mset (accepted s) = mset (started s) \<or> plain s \<noteq> [] \<or> (\<exists>r t. (r, t) \<in> set (sends s) \<and> pcs s r = Recv) \<or>
    (\<exists>r. pcs s r = Put \<or> (\<exists>t. pcs s r = Run t))"
proof -
  obtain A where A: "gp_inv s A" using gp_reach_inv [OF reach] by blast
  have t: "gp_threads s (afree A)" and c: "gp_counts s A" and m: "gp_tasks s (aqueue A)" and rep: "pool_rep (pl s) A"
    using A by (simp_all add: gp_inv_def)
  have nodie: "\<not> adie A" using rep open_pool by (simp add: pool_rep_def)
  consider (send) "sends s \<noteq> []" | (queue) "sends s = []" "aqueue A \<noteq> []" | (idle) "sends s = []" "aqueue A = []" by blast
  then show ?thesis
  proof cases
    case send
    then obtain r x where rx: "(r, x) \<in> set (sends s)" by (cases "sends s") auto
    then have "pcs s r = Recv" using gp_threads_out [OF t, of r] by (metis fst_conv image_eqI)
    then show ?thesis using rx by blast
  next
    case queue
    then have fr: "afree A = []" "nlive (pcs s) (created s) > 0" using c nodie by (auto simp: gp_counts_def)
    then obtain r where r: "pcs s r \<noteq> Exited" by (auto simp: nlive_def filter_empty_conv)
    have "chclosed s = []" using c nodie by (simp add: gp_counts_def)
    then have "pcs s r \<noteq> Recv" using t queue(1) fr(1) by (simp add: gp_threads_def)
    then have "pcs s r = Put \<or> (\<exists>t. pcs s r = Run t)" using r by (cases "pcs s r") simp_all
    then show ?thesis by blast
  next
    case idle
    then show ?thesis using m by (auto simp: gp_tasks_def)
  qed
qed

section \<open>Witnesses\<close>

text \<open>A pool of one routine and a queue of one task: the first \<open>Go\<close> makes the routine, the second one queues.\<close>

definition opt1 :: pool_option where
  "opt1 = \<lparr>MaxRoutineCount = 1, ReserveRoutineCount = 0, MaxQueueSize = 1\<rparr>"

definition gp_ex :: "nat gsys" where
  "gp_ex = (case bind_go (sys_go 1 100 7 (gp_init opt1)) (\<lambda>s. sys_go 2 101 8 s) of Ret s \<Rightarrow> s | Panic _ \<Rightarrow> gp_init opt1)"

lemmas gp_eval = gp_init_def New_def opt1_def sys_go_def Go_def getRoutine_def list_pop_def list_push_def linkList_push_def
  getPoolItem_def free_item_def

lemma gp_ex_reach: "gp_step\<^sup>*\<^sup>* (gp_init opt1) gp_ex"
proof -
  obtain s1 where s1: "sys_go 1 100 7 (gp_init opt1 :: nat gsys) = Ret s1"
      "taskQueue (pl s1) = taskQueue (pl (gp_init opt1))" "created s1 = [100]"
    by (simp add: gp_eval)
  have "gp_step (gp_init opt1) s1" by (rule gp_go [OF _ _ s1(1)]) (simp_all add: gp_eval)
  moreover have "sys_go 2 101 8 s1 = Ret gp_ex" using s1(1) by (auto simp: gp_ex_def gp_eval)
  then have "gp_step s1 gp_ex" by (rule gp_go [rotated 2]) (simp_all add: s1 gp_eval)
  ultimately show ?thesis by (meson r_into_rtranclp rtranclp_trans)
qed

theorem gopool_safe_witness:
  "\<exists>xs fs vs. ll_rep (taskQueue (pl gp_ex)) xs fs vs \<and>
     mset (accepted gp_ex) = mset (started gp_ex) + mset vs + mset (map snd (sends gp_ex)) + mset (plain gp_ex)"
  using gopool_safe [OF gp_ex_reach] by blast

theorem gopool_total_witness: "\<exists>s'. sys_close gp_ex = Ret s'"
  using gopool_total [OF gp_ex_reach] by blast

theorem gopool_progress_witness:
  "accepted gp_ex = [7, 8] \<and> started gp_ex = [] \<and> ((\<exists>r t. (r, t) \<in> set (sends gp_ex) \<and> pcs gp_ex r = Recv) \<or>
     (\<exists>r. pcs gp_ex r = Put \<or> (\<exists>t. pcs gp_ex r = Run t)))"
proof -
  have e: "accepted gp_ex = [7, 8]" "started gp_ex = []" "plain gp_ex = []" "\<not> die (pl gp_ex)"
    by (simp_all add: gp_ex_def gp_eval)
  then show ?thesis using gopool_progress [OF gp_ex_reach e(4)] by simp
qed

end
