(* ===== verification/MinHeap.thy ===== *)
theory MinHeap
  imports KendyPrelude
begin

text \<open>
  The intrusive binary heap of \<open>src/util/minHeap.go\<close> with the sift operations of \<open>container/heap\<close> it calls. Elements
  carry their own position; \<open>Less\<close> compares keys of a linear order.
\<close>

section \<open>Definitions\<close>

record 'a mheap =
  elems :: "'a list"
  pos :: "'a \<Rightarrow> int"

definition heap_Less :: "('a \<Rightarrow> 'k::linorder) \<Rightarrow> 'a mheap \<Rightarrow> nat \<Rightarrow> nat \<Rightarrow> bool" where
  "heap_Less key h i j = (key (elems h ! i) < key (elems h ! j))"

definition heap_Swap :: "nat \<Rightarrow> nat \<Rightarrow> 'a mheap \<Rightarrow> 'a mheap" where
  "heap_Swap i j h =
     (let ys = (elems h)[i := elems h ! j, j := elems h ! i]
      in h\<lparr>elems := ys, pos := (pos h)(ys ! i := int i, ys ! j := int j)\<rparr>)"

definition heap_Push :: "'a \<Rightarrow> 'a mheap \<Rightarrow> 'a mheap" where
  "heap_Push x h = (let ys = elems h @ [x] in h\<lparr>elems := ys, pos := (pos h)(x := int (length ys - 1))\<rparr>)"

definition heap_Pop :: "'a mheap \<Rightarrow> 'a mheap \<times> 'a" where
  "heap_Pop h = (h\<lparr>elems := butlast (elems h)\<rparr>, last (elems h))"

text \<open>\<open>up\<close> and \<open>down\<close> of \<open>container/heap\<close>; \<open>down\<close> also returns where the element ended.\<close>

function up :: "('a \<Rightarrow> 'k::linorder) \<Rightarrow> nat \<Rightarrow> 'a mheap \<Rightarrow> 'a mheap" where
  "up key j h =
     (let i = (j - 1) div 2 in if i = j \<or> \<not> heap_Less key h j i then h else up key i (heap_Swap i j h))"
  by pat_completeness auto
termination by (relation "measure (\<lambda>(key, j, h). j)") auto

definition down_child :: "('a \<Rightarrow> 'k::linorder) \<Rightarrow> nat \<Rightarrow> nat \<Rightarrow> 'a mheap \<Rightarrow> nat" where
  "down_child key i n h = (let j1 = 2 * i + 1; j2 = j1 + 1 in if j2 < n \<and> heap_Less key h j2 j1 then j2 else j1)"

function down_loop :: "('a \<Rightarrow> 'k::linorder) \<Rightarrow> nat \<Rightarrow> nat \<Rightarrow> 'a mheap \<Rightarrow> 'a mheap \<times> nat" where
  "down_loop key i n h =
     (if 2 * i + 1 \<ge> n \<or> \<not> heap_Less key h (down_child key i n h) i then (h, i)
      else down_loop key (down_child key i n h) n (heap_Swap i (down_child key i n h) h))"
  by pat_completeness auto
termination by (relation "measure (\<lambda>(key, i, n, h). n - i)") (auto simp: down_child_def Let_def)

declare up.simps [simp del] down_loop.simps [simp del]

definition down :: "('a \<Rightarrow> 'k::linorder) \<Rightarrow> nat \<Rightarrow> nat \<Rightarrow> 'a mheap \<Rightarrow> 'a mheap \<times> bool" where
  "down key i0 n h = (let (h1, i) = down_loop key i0 n h in (h1, i > i0))"

definition Insert :: "('a \<Rightarrow> 'k::linorder) \<Rightarrow> 'a \<Rightarrow> 'a mheap \<Rightarrow> 'a mheap" where
  "Insert key e h = (let h1 = heap_Push e h in up key (length (elems h1) - 1) h1)"

text \<open>\<open>heap.Fix\<close> at a position inside, and \<open>Fix\<close> at the stored position: -1 passes both loops without a step, any other
  position outside reads the slice out of range, except 0 in an empty heap, where neither loop compares.\<close>

definition heap_fix :: "('a \<Rightarrow> 'k::linorder) \<Rightarrow> nat \<Rightarrow> 'a mheap \<Rightarrow> 'a mheap" where
  "heap_fix key i h = (let (h1, moved) = down key i (length (elems h)) h in if moved then h1 else up key i h1)"

definition Fix :: "('a \<Rightarrow> 'k::linorder) \<Rightarrow> 'a \<Rightarrow> 'a mheap \<Rightarrow> 'a mheap go" where
  "Fix key e h =
     (let i = pos h e in
      if i = -1 \<or> i = 0 \<and> elems h = [] then Ret h
      else if 0 \<le> i \<and> i < int (length (elems h)) then Ret (heap_fix key (nat i) h)
      else Panic IndexOutOfRange)"

definition heap_remove :: "('a \<Rightarrow> 'k::linorder) \<Rightarrow> nat \<Rightarrow> 'a mheap \<Rightarrow> 'a mheap \<times> 'a" where
  "heap_remove key i h =
     (let n = length (elems h) - 1;
          h1 = (if n \<noteq> i then (let (h2, moved) = down key i n (heap_Swap i n h) in if moved then h2 else up key i h2) else h)
      in heap_Pop h1)"

definition Remove :: "('a \<Rightarrow> 'k::linorder) \<Rightarrow> 'a \<Rightarrow> 'a mheap \<Rightarrow> 'a mheap go" where
  "Remove key e h =
     (let i = pos h e in
      if 0 \<le> i \<and> int (length (elems h)) > i \<and> elems h ! nat i = e
      then (let h1 = fst (heap_remove key (nat i) h) in Ret (h1\<lparr>pos := (pos h1)(e := -1)\<rparr>))
      else Panic (UserPanic ''invaild HeapElement''))"

definition Min :: "'a mheap \<Rightarrow> 'a option" where
  "Min h = (if length (elems h) > 0 then Some (elems h ! 0) else None)"

definition PopMin :: "('a \<Rightarrow> 'k::linorder) \<Rightarrow> 'a mheap \<Rightarrow> 'a mheap \<times> 'a option" where
  "PopMin key h =
     (if length (elems h) > 0 then
        (let m = elems h ! 0; n = length (elems h) - 1;
             h1 = fst (heap_Pop (fst (down key 0 n (heap_Swap 0 n h))))
         in (h1\<lparr>pos := (pos h1)(m := -1)\<rparr>, Some m))
      else (h, None))"

definition Clear :: "'a mheap \<Rightarrow> 'a mheap" where
  "Clear h = h\<lparr>elems := [], pos := (\<lambda>e. if e \<in> set (elems h) then -1 else pos h e)\<rparr>"

section \<open>Positions\<close>

definition pos_ok :: "'a mheap \<Rightarrow> bool" where
  "pos_ok h \<longleftrightarrow> distinct (elems h) \<and> (\<forall>i < length (elems h). pos h (elems h ! i) = int i)"

lemma elems_Swap [simp]: "elems (heap_Swap i j h) = (elems h)[i := elems h ! j, j := elems h ! i]"
  by (simp add: heap_Swap_def Let_def)

lemma length_Swap [simp]: "length (elems (heap_Swap i j h)) = length (elems h)"
  by simp

lemma mset_Swap: "i < length (elems h) \<Longrightarrow> j < length (elems h) \<Longrightarrow> mset (elems (heap_Swap i j h)) = mset (elems h)"
  by (simp add: mset_swap)

lemma nth_Swap:
  "i < length (elems h) \<Longrightarrow> j < length (elems h) \<Longrightarrow> k < length (elems h) \<Longrightarrow>
     elems (heap_Swap i j h) ! k = (if k = j then elems h ! i else if k = i then elems h ! j else elems h ! k)"
  by (simp add: nth_list_update)

lemma pos_ok_Swap:
  assumes "pos_ok h" and "i < length (elems h)" and "j < length (elems h)"
  shows "pos_ok (heap_Swap i j h)"
proof -
  let ?h = "heap_Swap i j h"
  have d: "distinct (elems ?h)" using assms by (simp add: pos_ok_def distinct_swap)
  have ij: "(elems ?h ! i = elems ?h ! j) = (i = j)" using nth_eq_iff_index_eq [OF d, of i j] assms(2,3) by simp
  have "pos ?h (elems ?h ! k) = int k" if k: "k < length (elems h)" for k
  proof (cases "k = i \<or> k = j")
    case True
    then show ?thesis using ij by (auto simp: heap_Swap_def Let_def)
  next
    case False
    have "elems ?h ! k \<noteq> elems ?h ! i" "elems ?h ! k \<noteq> elems ?h ! j"
      using d False k assms(2,3) by (simp_all only: nth_eq_iff_index_eq length_Swap) auto
    moreover have "elems ?h ! k = elems h ! k" using False by simp
    ultimately show ?thesis using assms(1) k by (simp add: heap_Swap_def Let_def pos_ok_def)
  qed
  then show ?thesis using d by (simp only: pos_ok_def length_Swap) blast
qed

section \<open>Order\<close>

text \<open>Over the keys by position: the heap order, the order everywhere but around one position, whose parent is then at
  most its children, and the order between a position and its children.\<close>

definition parent :: "nat \<Rightarrow> nat" where
  "parent j = (j - 1) div 2"

definition heap_order :: "(nat \<Rightarrow> 'k::linorder) \<Rightarrow> nat \<Rightarrow> bool" where
  "heap_order f n \<longleftrightarrow> (\<forall>j < n. 0 < j \<longrightarrow> f (parent j) \<le> f j)"

definition order_but :: "(nat \<Rightarrow> 'k::linorder) \<Rightarrow> nat \<Rightarrow> nat \<Rightarrow> bool" where
  "order_but f n i \<longleftrightarrow>
     (\<forall>j < n. 0 < j \<longrightarrow> j \<noteq> i \<longrightarrow> parent j \<noteq> i \<longrightarrow> f (parent j) \<le> f j) \<and>
     (\<forall>j < n. 0 < j \<longrightarrow> parent j = i \<longrightarrow> 0 < i \<longrightarrow> f (parent i) \<le> f j)"

definition kids_ok :: "(nat \<Rightarrow> 'k::linorder) \<Rightarrow> nat \<Rightarrow> nat \<Rightarrow> bool" where
  "kids_ok f n i \<longleftrightarrow> (\<forall>j < n. 0 < j \<longrightarrow> parent j = i \<longrightarrow> f i \<le> f j)"

lemma parent_less: "0 < j \<Longrightarrow> parent j < j"
  by (simp add: parent_def)

lemma kids_iff: "0 < j \<Longrightarrow> parent j = i \<longleftrightarrow> j = 2 * i + 1 \<or> j = 2 * i + 2"
  by (auto simp: parent_def)

lemma order_exit:
  assumes "order_but f n i" and "kids_ok f n i" and "i = 0 \<or> f (parent i) \<le> f i"
  shows "heap_order f n"
  unfolding heap_order_def
proof (intro allI impI)
  fix j assume j: "j < n" "0 < j"
  consider "j = i" | "j \<noteq> i" "parent j = i" | "j \<noteq> i" "parent j \<noteq> i" by blast
  then show "f (parent j) \<le> f j"
  proof cases
    case 1
    then show ?thesis using assms(3) j by auto
  next
    case 2
    then show ?thesis using assms(2) j by (simp add: kids_ok_def)
  next
    case 3
    then show ?thesis using assms(1) j by (simp add: order_but_def)
  qed
qed

lemma up_step:
  assumes b: "order_but f n j" and k: "kids_ok f n j" and j: "0 < j" "j < n" and lt: "f j < f (parent j)"
    and g: "\<And>k. k < n \<Longrightarrow> g k = (if k = j then f (parent j) else if k = parent j then f j else f k)"
  shows "order_but g n (parent j)" and "kids_ok g n (parent j)"
proof -
  let ?i = "parent j"
  have i: "?i < j" "?i < n" using parent_less [OF j(1)] j(2) by simp_all
  have b1: "f (parent k) \<le> f k" if "k < n" "0 < k" "k \<noteq> j" "parent k \<noteq> j" for k using b that by (simp add: order_but_def)
  have b2: "f ?i \<le> f k" if "k < n" "0 < k" "parent k = j" for k using b that j(1) by (simp add: order_but_def)
  have pk: "parent k < n" "parent k < k" if "k < n" "0 < k" for k using parent_less [OF that(2)] that(1) by simp_all
  have "g (parent k) \<le> g k" if k: "k < n" "0 < k" "k \<noteq> ?i" "parent k \<noteq> ?i" for k
  proof (cases "parent k = j")
    case True
    then have "k \<noteq> j" using k pk by auto
    then show ?thesis using b2 [OF k(1,2) True] g k(1,3) j(2) True by simp
  next
    case False
    moreover have "k \<noteq> j" using k(4) by auto
    ultimately show ?thesis using b1 k g pk by simp
  qed
  moreover have "g (parent ?i) \<le> g k" if k: "k < n" "0 < k" "parent k = ?i" "0 < ?i" for k
  proof -
    have pi: "f (parent ?i) \<le> f ?i" using b1 [OF i(2) k(4)] i parent_less [OF k(4)] by simp
    have "g (parent ?i) = f (parent ?i)" using g [of "parent ?i"] i parent_less [OF k(4)] by simp
    moreover have "f (parent ?i) \<le> g k"
    proof (cases "k = j")
      case True
      then show ?thesis using g [OF k(1)] pi by simp
    next
      case False
      have "k \<noteq> ?i" using k(2,3) pk k(1) by fastforce
      then show ?thesis using g [OF k(1)] False b1 [OF k(1,2) False] k(3) i pi by (simp add: order_trans)
    qed
    ultimately show ?thesis by simp
  qed
  ultimately show "order_but g n ?i" by (simp add: order_but_def)
  have "g ?i \<le> g k" if k: "k < n" "0 < k" "parent k = ?i" for k
  proof (cases "k = j")
    case True
    then show ?thesis using g [OF k(1)] g [OF i(2)] i lt by simp
  next
    case False
    have "k \<noteq> ?i" using k(2,3) pk k(1) by fastforce
    moreover have "f ?i \<le> f k" using b1 [OF k(1,2) False] k(3) i by simp
    ultimately show ?thesis using False g [OF k(1)] g [OF i(2)] i lt by simp
  qed
  then show "kids_ok g n ?i" by (simp add: kids_ok_def)
qed

lemma down_step:
  assumes b: "order_but f n i" and c: "c < n" "0 < c" "parent c = i" and lt: "f c < f i"
    and least: "\<And>k. k < n \<Longrightarrow> 0 < k \<Longrightarrow> parent k = i \<Longrightarrow> f c \<le> f k"
    and g: "\<And>k. k < n \<Longrightarrow> g k = (if k = c then f i else if k = i then f c else f k)"
  shows "order_but g n c" and "g (parent c) \<le> g c"
proof -
  have i: "i < c" "i < n" using parent_less [OF c(2)] c by simp_all
  have b1: "f (parent k) \<le> f k" if "k < n" "0 < k" "k \<noteq> i" "parent k \<noteq> i" for k using b that by (simp add: order_but_def)
  have b2: "f (parent i) \<le> f c" if "0 < i" using b that c by (simp add: order_but_def)
  have pk: "parent k < n" "parent k < k" if "k < n" "0 < k" for k using parent_less [OF that(2)] that(1) by simp_all
  have "g (parent k) \<le> g k" if k: "k < n" "0 < k" "k \<noteq> c" "parent k \<noteq> c" for k
  proof -
    consider (self) "k = i" | (kid) "k \<noteq> i" "parent k = i" | (other) "k \<noteq> i" "parent k \<noteq> i" by blast
    then show ?thesis
    proof cases
      case self
      then show ?thesis using b2 k g [OF k(1)] g [OF pk(1) [OF k(1,2)]] pk [OF k(1,2)] by simp
    next
      case kid
      then show ?thesis using least [OF k(1,2)] g [OF k(1)] g [OF i(2)] i k(3) by simp
    next
      case other
      then show ?thesis using b1 [OF k(1,2)] g [OF k(1)] g [OF pk(1) [OF k(1,2)]] k(3,4) by simp
    qed
  qed
  moreover have "g (parent c) \<le> g k" if k: "k < n" "0 < k" "parent k = c" for k
  proof -
    have kc: "k \<noteq> c" "k \<noteq> i" using k(3) pk [OF k(1,2)] i by auto
    have "f c \<le> f k" using b1 [OF k(1,2) kc(2)] k(3) i by simp
    then show ?thesis using g [OF k(1)] g [OF i(2)] kc c(3) i by simp
  qed
  ultimately show "order_but g n c" by (simp add: order_but_def)
  show "g (parent c) \<le> g c" using g [OF c(1)] g [OF i(2)] c(3) i lt by simp
qed

section \<open>Sifting\<close>

definition keys :: "('a \<Rightarrow> 'k) \<Rightarrow> 'a mheap \<Rightarrow> nat \<Rightarrow> 'k" where
  "keys key h k = key (elems h ! k)"

text \<open>What a sift within the first \<open>n\<close> positions keeps.\<close>

definition same_beyond :: "nat \<Rightarrow> 'a mheap \<Rightarrow> 'a mheap \<Rightarrow> bool" where
  "same_beyond n h h' \<longleftrightarrow>
     mset (elems h') = mset (elems h) \<and> drop n (elems h') = drop n (elems h) \<and> (pos_ok h \<longrightarrow> pos_ok h') \<and>
     (\<forall>e. e \<notin> set (elems h) \<longrightarrow> pos h' e = pos h e)"

lemma same_beyond_refl [simp]: "same_beyond n h h"
  by (simp add: same_beyond_def)

lemma same_beyond_trans: "same_beyond n h h1 \<Longrightarrow> same_beyond n h1 h2 \<Longrightarrow> same_beyond n h h2"
  by (auto simp: same_beyond_def dest: mset_eq_setD)

lemma same_beyond_length: "same_beyond n h h' \<Longrightarrow> length (elems h') = length (elems h)"
  by (auto simp: same_beyond_def dest: mset_eq_length)

lemma same_beyond_Swap:
  assumes "i < n" and "j < n" and "n \<le> length (elems h)"
  shows "same_beyond n h (heap_Swap i j h)"
proof -
  have "pos (heap_Swap i j h) e = pos h e" if "e \<notin> set (elems h)" for e
  proof -
    have "elems (heap_Swap i j h) ! k \<in> set (elems h)" if "k < length (elems h)" for k
      using mset_eq_setD [OF mset_Swap, of i h j] nth_mem [of k "elems (heap_Swap i j h)"] that assms by (metis length_Swap less_le_trans)
    then show ?thesis using assms that by (auto simp: heap_Swap_def Let_def)
  qed
  then show ?thesis using assms mset_Swap [of i h j] pos_ok_Swap [of h i j] by (auto simp: same_beyond_def)
qed

lemma keys_Swap:
  "i < length (elems h) \<Longrightarrow> j < length (elems h) \<Longrightarrow> k < length (elems h) \<Longrightarrow>
     keys key (heap_Swap i j h) k = (if k = j then keys key h i else if k = i then keys key h j else keys key h k)"
  unfolding keys_def by (simp only: nth_Swap) simp

lemma up_eq: "up key j h = (if parent j = j \<or> \<not> heap_Less key h j (parent j) then h else up key (parent j) (heap_Swap (parent j) j h))"
  by (subst up.simps) (simp add: parent_def Let_def)

lemma up_sift:
  assumes "j < n" and "n \<le> length (elems h)" and "order_but (keys key h) n j" and "kids_ok (keys key h) n j"
  shows "heap_order (keys key (up key j h)) n \<and> same_beyond n h (up key j h)"
  using assms
proof (induction key j h rule: up.induct)
  case (1 key j h)
  let ?i = "parent j"
  have i: "(j - 1) div 2 = ?i" by (simp add: parent_def)
  show ?case
  proof (cases "?i = j \<or> \<not> heap_Less key h j ?i")
    case True
    then have u: "up key j h = h" by (subst up_eq) simp
    have "j = 0 \<or> keys key h ?i \<le> keys key h j"
      using True parent_less [of j] by (auto simp: heap_Less_def keys_def)
    then show ?thesis using order_exit 1(4,5) u by simp
  next
    case False
    then have u: "up key j h = up key ?i (heap_Swap ?i j h)" by (subst up_eq) simp
    have j: "0 < j" using False by (cases "j = 0") (auto simp: parent_def)
    then have i': "?i < j" by (rule parent_less)
    have lt: "keys key h j < keys key h ?i" using False by (simp add: heap_Less_def keys_def)
    have g: "keys key (heap_Swap ?i j h) k = (if k = j then keys key h ?i else if k = ?i then keys key h j else keys key h k)" if "k < n" for k
      using keys_Swap [of ?i h j k key] that 1(2,3) i' by simp
    note s = up_step [OF 1(4,5) j 1(2) lt g]
    have "heap_order (keys key (up key ?i (heap_Swap ?i j h))) n \<and> same_beyond n (heap_Swap ?i j h) (up key ?i (heap_Swap ?i j h))"
      using 1(1) [OF i [symmetric]] False 1(2,3) i' s by simp
    moreover have "same_beyond n h (heap_Swap ?i j h)" using same_beyond_Swap [of ?i n j h] 1(2,3) i' by simp
    ultimately show ?thesis using u same_beyond_trans by metis
  qed
qed

lemma down_child_spec:
  assumes "2 * i + 1 < n"
  shows "down_child key i n h < n" and "0 < down_child key i n h" and "parent (down_child key i n h) = i"
    and "\<And>k. k < n \<Longrightarrow> 0 < k \<Longrightarrow> parent k = i \<Longrightarrow> keys key h (down_child key i n h) \<le> keys key h k"
proof -
  show "down_child key i n h < n" "0 < down_child key i n h" "parent (down_child key i n h) = i"
    using assms by (auto simp: down_child_def Let_def parent_def)
  fix k assume k: "k < n" "0 < k" "parent k = i"
  then have "k = 2 * i + 1 \<or> k = 2 * i + 2" by (simp add: kids_iff)
  then show "keys key h (down_child key i n h) \<le> keys key h k"
    using k(1) by (auto simp: down_child_def Let_def heap_Less_def keys_def)
qed

lemma down_sift:
  assumes "n \<le> length (elems h)" and "order_but (keys key h) n i"
    and "down_loop key i n h = (h', i')"
  shows "same_beyond n h h' \<and> i \<le> i' \<and> (i < i' \<longrightarrow> i' < n) \<and> order_but (keys key h') n i' \<and> kids_ok (keys key h') n i' \<and>
         (i < i' \<longrightarrow> keys key h' (parent i') \<le> keys key h' i') \<and> (i = i' \<longrightarrow> h' = h)"
  using assms
proof (induction key i n h rule: down_loop.induct)
  case (1 key i n h)
  let ?c = "down_child key i n h"
  show ?case
  proof (cases "2 * i + 1 \<ge> n \<or> \<not> heap_Less key h ?c i")
    case True
    then have e: "h' = h" "i' = i" using 1(4) by (simp_all add: down_loop.simps [of key i n h])
    have "kids_ok (keys key h) n i"
    proof (cases "2 * i + 1 < n")
      case inside: True
      then have "keys key h i \<le> keys key h ?c" using True by (simp add: heap_Less_def keys_def)
      then show ?thesis using down_child_spec(4) [OF inside] by (auto simp: kids_ok_def intro: order_trans)
    next
      case False
      then show ?thesis by (auto simp: kids_ok_def kids_iff)
    qed
    then show ?thesis using e 1(3) by simp
  next
    case False
    then have inside: "2 * i + 1 < n" and lt: "keys key h ?c < keys key h i" by (simp_all add: heap_Less_def keys_def)
    note c = down_child_spec [OF inside, where key = key and h = h]
    have ic: "i < ?c" using c(2,3) parent_less by metis
    let ?h = "heap_Swap i ?c h"
    have g: "keys key ?h k = (if k = ?c then keys key h i else if k = i then keys key h ?c else keys key h k)" if "k < n" for k
      using keys_Swap [of i h ?c k key] that 1(2) c(1) ic by simp
    note s = down_step [OF 1(3) c(1,2,3) lt c(4) g]
    have rec: "down_loop key ?c n ?h = (h', i')" using 1(4) False by (simp add: down_loop.simps [of key i n h])
    have ih: "same_beyond n ?h h' \<and> ?c \<le> i' \<and> (?c < i' \<longrightarrow> i' < n) \<and> order_but (keys key h') n i' \<and> kids_ok (keys key h') n i' \<and>
         (?c < i' \<longrightarrow> keys key h' (parent i') \<le> keys key h' i') \<and> (?c = i' \<longrightarrow> h' = ?h)"
      by (rule 1(1) [OF False _ s(1) rec]) (simp add: 1(2))
    have "same_beyond n h ?h" using same_beyond_Swap [of i n ?c h] 1(2) c(1) ic by simp
    then have sb: "same_beyond n h h'" using same_beyond_trans ih by blast
    have "keys key h' (parent i') \<le> keys key h' i'"
    proof (cases "?c = i'")
      case True
      then have "h' = ?h" using ih by blast
      then show ?thesis using s(2) True by metis
    next
      case False
      then show ?thesis using ih by linarith
    qed
    moreover have "i < i'" "i' < n" using ih ic c(1) by linarith+
    ultimately show ?thesis using sb ih by simp
  qed
qed

lemma down_up_sift:
  assumes n: "n \<le> length (elems h)" "i < n" and b: "order_but (keys key h) n i"
    and h': "h' = (let (h2, moved) = down key i n h in if moved then h2 else up key i h2)"
  shows "heap_order (keys key h') n \<and> same_beyond n h h'"
proof -
  obtain h2 i2 where d: "down_loop key i n h = (h2, i2)" by fastforce
  note s = down_sift [OF n(1) b d]
  show ?thesis
  proof (cases "i < i2")
    case True
    then have "heap_order (keys key h2) n" using s by (intro order_exit [of _ _ i2]) auto
    then show ?thesis using True s d h' by (simp add: down_def)
  next
    case False
    then have "i2 = i" "h2 = h" using s by auto
    then have "h' = up key i h" "kids_ok (keys key h) n i" using d h' s by (simp add: down_def, auto)
    then show ?thesis using up_sift [OF n(2,1) b] by simp
  qed
qed

section \<open>Operations\<close>

definition wf_heap :: "('a \<Rightarrow> 'k::linorder) \<Rightarrow> 'a mheap \<Rightarrow> bool" where
  "wf_heap key h \<longleftrightarrow> pos_ok h \<and> heap_order (keys key h) (length (elems h))"

lemma heap_root_least: "heap_order f n \<Longrightarrow> k < n \<Longrightarrow> f 0 \<le> f k"
proof (induction k rule: less_induct)
  case (less k)
  show ?case
  proof (cases "k = 0")
    case False
    then have "f (parent k) \<le> f k" "parent k < k" using less.prems parent_less [of k] by (simp_all add: heap_order_def)
    then show ?thesis using less.IH [of "parent k"] less.prems by force
  qed simp
qed

lemma order_but_cong:
  assumes "heap_order f m" and "n \<le> m" and "\<And>k. k < n \<Longrightarrow> k \<noteq> i \<Longrightarrow> g k = f k" and "i < m"
  shows "order_but g n i"
proof -
  have f: "f (parent k) \<le> f k" if "k < m" "0 < k" for k using assms(1) that by (simp add: heap_order_def)
  have "g (parent k) \<le> g k" if k: "k < n" "0 < k" "k \<noteq> i" "parent k \<noteq> i" for k
    using f [of k] assms(2,3) k parent_less [OF k(2)] by simp
  moreover have "g (parent i) \<le> g k" if k: "k < n" "0 < k" "parent k = i" "0 < i" for k
  proof -
    have lt: "parent i < i" "i < k" using parent_less [OF k(4)] parent_less [OF k(2)] k(3) by simp_all
    then have "f (parent i) \<le> f i" "f i \<le> f k" using f [OF assms(4) k(4)] f [of k] k assms(2) by simp_all
    then show ?thesis using assms(3) lt k(1) by (simp add: order_trans)
  qed
  ultimately show ?thesis by (simp add: order_but_def)
qed

lemma Insert_wf:
  assumes wf: "wf_heap key h" and e: "e \<notin> set (elems h)"
  shows "wf_heap key (Insert key e h)" and "mset (elems (Insert key e h)) = add_mset e (mset (elems h))"
proof -
  let ?n = "length (elems h)" and ?h = "heap_Push e h"
  have p: "elems ?h = elems h @ [e]" "pos ?h = (pos h)(e := int ?n)" by (simp_all add: heap_Push_def Let_def)
  have ins: "Insert key e h = up key ?n ?h" by (simp add: Insert_def p(1))
  have ok: "pos_ok ?h" using wf e by (auto simp: pos_ok_def wf_heap_def p nth_append less_Suc_eq)
  have b: "order_but (keys key ?h) (Suc ?n) ?n"
  proof -
    have f: "keys key h (parent k) \<le> keys key h k" if "k < ?n" "0 < k" for k
      using wf that by (simp add: wf_heap_def heap_order_def)
    have "keys key ?h (parent k) \<le> keys key ?h k" if k: "k < Suc ?n" "0 < k" "k \<noteq> ?n" for k
      using f [of k] k parent_less [OF k(2)] by (simp add: keys_def p nth_append)
    moreover have "parent k \<noteq> ?n" if "k < Suc ?n" "0 < k" for k using that parent_less [of k] by simp
    ultimately show ?thesis by (simp add: order_but_def)
  qed
  have k: "kids_ok (keys key ?h) (Suc ?n) ?n"
    unfolding kids_ok_def using parent_less by (metis less_Suc_eq_le not_less)
  have s: "heap_order (keys key (up key ?n ?h)) (Suc ?n)" "same_beyond (Suc ?n) ?h (up key ?n ?h)"
    using up_sift [OF _ _ b k] p(1) by simp_all
  have "length (elems (up key ?n ?h)) = Suc ?n" using same_beyond_length [OF s(2)] p(1) by simp
  then show "wf_heap key (Insert key e h)" using s ok by (simp add: wf_heap_def ins same_beyond_def)
  show "mset (elems (Insert key e h)) = add_mset e (mset (elems h))" using s(2) by (simp add: ins same_beyond_def p(1))
qed

lemma pop_last:
  assumes sb: "same_beyond n h1 h2" and len: "length (elems h1) = Suc n" and m: "last (elems h1) = m"
    and ok: "pos_ok h1" and ho: "heap_order (keys key h2) n" and h3: "h3 = (fst (heap_Pop h2))\<lparr>pos := (pos h2)(m := -1)\<rparr>"
  shows "wf_heap key h3 \<and> add_mset m (mset (elems h3)) = mset (elems h1) \<and> pos h3 m = -1"
proof -
  have len2: "length (elems h2) = Suc n" using same_beyond_length [OF sb] len by simp
  then have split: "elems h2 = butlast (elems h2) @ [last (elems h2)]" by (metis append_butlast_last_id list.size(3) nat.simps(3))
  have "drop n (elems h2) = drop n (elems h1)" using sb by (simp add: same_beyond_def)
  then have "last (elems h2) = m" using m len len2 by (metis last_drop lessI)
  then have e2: "elems h2 = elems h3 @ [m]" using split h3 by (simp add: heap_Pop_def)
  have ok2: "pos_ok h2" using sb ok by (simp add: same_beyond_def)
  have "pos h3 (elems h3 ! i) = int i" if i: "i < n" for i
  proof -
    have "length (elems h3) = n" using e2 len2 by simp
    then have "elems h3 ! i = elems h2 ! i" "elems h3 ! i \<noteq> m"
      using i e2 ok2 nth_mem [of i "elems h3"] by (auto simp: nth_append pos_ok_def)
    then show ?thesis using ok2 i len2 h3 by (simp add: pos_ok_def)
  qed
  then have "pos_ok h3" using ok2 e2 len2 by (auto simp: pos_ok_def)
  moreover have "heap_order (keys key h3) (length (elems h3))"
    unfolding heap_order_def
  proof (intro allI impI)
    fix j assume j: "j < length (elems h3)" "0 < j"
    then have "keys key h2 (parent j) \<le> keys key h2 j" using ho e2 len2 by (simp add: heap_order_def)
    then show "keys key h3 (parent j) \<le> keys key h3 j" using j parent_less [OF j(2)] by (simp add: keys_def e2 nth_append)
  qed
  moreover have "add_mset m (mset (elems h3)) = mset (elems h1)" using sb e2 by (simp add: same_beyond_def)
  ultimately show ?thesis using h3 by (simp add: wf_heap_def)
qed

lemma swap_last_order:
  assumes wf: "wf_heap key h" and i: "i < length (elems h) - 1"
  shows "order_but (keys key (heap_Swap i (length (elems h) - 1) h)) (length (elems h) - 1) i"
proof (rule order_but_cong)
  show "heap_order (keys key h) (length (elems h))" using wf by (simp add: wf_heap_def)
  show "keys key (heap_Swap i (length (elems h) - 1) h) k = keys key h k" if "k < length (elems h) - 1" "k \<noteq> i" for k
    using keys_Swap [of i h "length (elems h) - 1" k key] that i by simp
qed (use i in simp_all)

lemma last_Swap: "i < length (elems h) \<Longrightarrow> last (elems (heap_Swap i (length (elems h) - 1) h)) = elems h ! i"
  by (cases "elems h = []") (auto simp: last_conv_nth nth_list_update)

lemma PopMin_wf:
  assumes wf: "wf_heap key h" and ne: "elems h \<noteq> []"
  shows "\<exists>h'. PopMin key h = (h', Some (elems h ! 0)) \<and> wf_heap key h' \<and>
           add_mset (elems h ! 0) (mset (elems h')) = mset (elems h) \<and> pos h' (elems h ! 0) = -1"
proof -
  let ?n = "length (elems h) - 1" and ?m = "elems h ! 0"
  let ?h = "heap_Swap 0 ?n h"
  have pos: "0 < length (elems h)" using ne by simp
  obtain h2 i2 where d: "down_loop key 0 ?n ?h = (h2, i2)" by fastforce
  have b: "order_but (keys key ?h) ?n 0"
  proof (cases "0 < ?n")
    case True
    then show ?thesis by (rule swap_last_order [OF wf])
  qed (simp add: order_but_def)
  note s = down_sift [OF _ b d]
  have sb: "same_beyond ?n ?h h2" using s by simp
  have "order_but (keys key h2) ?n i2" "kids_ok (keys key h2) ?n i2" "i2 = 0 \<or> keys key h2 (parent i2) \<le> keys key h2 i2"
    using s by simp_all blast
  then have "heap_order (keys key h2) ?n" by (rule order_exit)
  moreover have "pos_ok ?h" using wf pos_ok_Swap [of h 0 ?n] pos by (simp add: wf_heap_def)
  ultimately have "wf_heap key ((fst (heap_Pop h2))\<lparr>pos := (pos h2)(?m := -1)\<rparr>) \<and>
      add_mset ?m (mset (elems ((fst (heap_Pop h2))\<lparr>pos := (pos h2)(?m := -1)\<rparr>))) = mset (elems ?h) \<and>
      pos ((fst (heap_Pop h2))\<lparr>pos := (pos h2)(?m := -1)\<rparr>) ?m = -1"
    using last_Swap [OF pos] pos by (intro pop_last [OF sb]) simp_all
  moreover have "mset (elems ?h) = mset (elems h)" using mset_Swap [of 0 h ?n] pos by simp
  moreover have "pos (fst (heap_Pop h2)) = pos h2" by (simp add: heap_Pop_def)
  ultimately show ?thesis using d pos by (simp add: PopMin_def down_def Let_def)
qed

lemma Remove_wf:
  assumes wf: "wf_heap key h" and e: "e \<in> set (elems h)"
  shows "\<exists>h'. Remove key e h = Ret h' \<and> wf_heap key h' \<and> add_mset e (mset (elems h')) = mset (elems h) \<and> pos h' e = -1"
proof -
  obtain i where i: "i < length (elems h)" "elems h ! i = e" using e by (auto simp: in_set_conv_nth)
  have pe: "pos h e = int i" using wf i by (auto simp: wf_heap_def pos_ok_def)
  let ?n = "length (elems h) - 1"
  define h2 where "h2 = (if ?n \<noteq> i then (let (h2, moved) = down key i ?n (heap_Swap i ?n h) in if moved then h2 else up key i h2) else h)"
  have rem: "Remove key e h = Ret ((fst (heap_Pop h2))\<lparr>pos := (pos h2)(e := -1)\<rparr>)"
    using pe i by (simp add: Remove_def heap_remove_def Let_def h2_def heap_Pop_def)
  have len: "length (elems h) = Suc ?n" using i(1) by simp
  show ?thesis
  proof (cases "?n = i")
    case True
    have "heap_order (keys key h) ?n" using wf len by (simp add: wf_heap_def heap_order_def)
    moreover have "last (elems h) = e" using i True by (metis last_conv_nth length_0_conv not_less_zero)
    moreover have "h2 = h" using True by (simp add: h2_def)
    ultimately show ?thesis using rem wf len pop_last [OF same_beyond_refl len, of e key] by (auto simp: wf_heap_def)
  next
    case False
    let ?h = "heap_Swap i ?n h"
    have lt: "i < ?n" using False i(1) by simp
    have "h2 = (let (h2, moved) = down key i ?n ?h in if moved then h2 else up key i h2)" using False by (simp add: h2_def)
    then have s: "heap_order (keys key h2) ?n \<and> same_beyond ?n ?h h2"
      using down_up_sift [of ?n ?h i key h2] swap_last_order [OF wf lt] lt by simp
    have ok: "pos_ok ?h" using wf pos_ok_Swap [of h i ?n] i(1) len by (simp add: wf_heap_def)
    have "mset (elems ?h) = mset (elems h)" using mset_Swap [of i h ?n] i(1) len by simp
    moreover have l: "length (elems ?h) = Suc ?n" using len by simp
    ultimately show ?thesis
      using rem pop_last [OF conjunct2 [OF s] l _ ok conjunct1 [OF s] refl, of e] last_Swap [OF i(1)] i(2) by auto
  qed
qed

lemma Fix_wf:
  assumes wf: "wf_heap old h" and e: "e \<in> set (elems h)" and same: "\<And>x. x \<noteq> e \<Longrightarrow> key x = old x"
  shows "\<exists>h'. Fix key e h = Ret h' \<and> wf_heap key h' \<and> mset (elems h') = mset (elems h)"
proof -
  obtain i where i: "i < length (elems h)" "elems h ! i = e" using e by (auto simp: in_set_conv_nth)
  have ok: "pos_ok h" and pe: "pos h e = int i" using wf i by (auto simp: wf_heap_def pos_ok_def)
  let ?n = "length (elems h)"
  have "keys key h k = keys old h k" if "k < ?n" "k \<noteq> i" for k
    using ok that i same [of "elems h ! k"] by (auto simp: keys_def pos_ok_def nth_eq_iff_index_eq)
  then have b: "order_but (keys key h) ?n i"
    using wf i(1) by (intro order_but_cong [of "keys old h" ?n]) (simp_all add: wf_heap_def)
  have s: "heap_order (keys key (heap_fix key i h)) ?n \<and> same_beyond ?n h (heap_fix key i h)"
    by (rule down_up_sift [OF _ i(1) b]) (simp_all add: heap_fix_def)
  have "Fix key e h = Ret (heap_fix key i h)" using pe i by (auto simp: Fix_def Let_def)
  moreover have "length (elems (heap_fix key i h)) = ?n" using same_beyond_length s by blast
  ultimately show ?thesis using s ok by (simp add: wf_heap_def same_beyond_def)
qed

text \<open>C22. The heap is a priority queue of elements that know their positions: \<open>Insert\<close> adds an element, \<open>PopMin\<close> takes out
  an element of least key and marks it as outside, \<open>Remove\<close> takes out exactly the element it is given and panics for an
  element that is not there, and \<open>Fix\<close> repairs the heap after the key of one element has changed; each of them keeps the
  heap order and the stored positions.\<close>

theorem minheap_operations:
  assumes wf: "wf_heap key h"
  shows "(e \<notin> set (elems h) \<longrightarrow> wf_heap key (Insert key e h) \<and> mset (elems (Insert key e h)) = add_mset e (mset (elems h))) \<and>
    (elems h \<noteq> [] \<longrightarrow> (\<exists>h' m. PopMin key h = (h', Some m) \<and> Min h = Some m \<and> wf_heap key h' \<and> pos h' m = -1 \<and>
       add_mset m (mset (elems h')) = mset (elems h) \<and> (\<forall>x \<in> set (elems h). key m \<le> key x))) \<and>
    (e \<in> set (elems h) \<longrightarrow> (\<exists>h'. Remove key e h = Ret h' \<and> wf_heap key h' \<and> pos h' e = -1 \<and>
       add_mset e (mset (elems h')) = mset (elems h))) \<and>
    (e \<notin> set (elems h) \<longrightarrow> Remove key e h = Panic (UserPanic ''invaild HeapElement'')) \<and>
    (e \<in> set (elems h) \<longrightarrow> (\<exists>h'. Fix (key(e := k)) e h = Ret h' \<and> wf_heap (key(e := k)) h' \<and> mset (elems h') = mset (elems h)))"
proof (intro conjI impI)
  show "wf_heap key (Insert key e h)" "mset (elems (Insert key e h)) = add_mset e (mset (elems h))" if "e \<notin> set (elems h)"
    using Insert_wf [OF wf that] by simp_all
  show "\<exists>h' m. PopMin key h = (h', Some m) \<and> Min h = Some m \<and> wf_heap key h' \<and> pos h' m = -1 \<and>
       add_mset m (mset (elems h')) = mset (elems h) \<and> (\<forall>x \<in> set (elems h). key m \<le> key x)" if ne: "elems h \<noteq> []"
  proof -
    have "\<forall>x \<in> set (elems h). key (elems h ! 0) \<le> key x"
      using heap_root_least [of "keys key h" "length (elems h)"] wf by (auto simp: wf_heap_def keys_def in_set_conv_nth)
    moreover have "Min h = Some (elems h ! 0)" using ne by (simp add: Min_def)
    ultimately show ?thesis using PopMin_wf [OF wf ne] by blast
  qed
  show "\<exists>h'. Remove key e h = Ret h' \<and> wf_heap key h' \<and> pos h' e = -1 \<and> add_mset e (mset (elems h')) = mset (elems h)"
    if "e \<in> set (elems h)" using Remove_wf [OF wf that] by blast
  show "Remove key e h = Panic (UserPanic ''invaild HeapElement'')" if "e \<notin> set (elems h)"
  proof -
    have "\<not> (0 \<le> pos h e \<and> pos h e < int (length (elems h)) \<and> elems h ! nat (pos h e) = e)"
      using that by (metis nat_less_iff nth_mem)
    then show ?thesis by (auto simp: Remove_def Let_def)
  qed
  show "\<exists>h'. Fix (key(e := k)) e h = Ret h' \<and> wf_heap (key(e := k)) h' \<and> mset (elems h') = mset (elems h)"
    if "e \<in> set (elems h)" by (rule Fix_wf [OF wf that]) simp
qed

theorem minheap_operations_witness:
  "\<exists>h' m. PopMin (\<lambda>x. x) \<lparr>elems = [1, 5, 3], pos = (\<lambda>x. if x = 5 then 1 else if x = (3::nat) then 2 else 0)\<rparr> = (h', Some m) \<and>
     wf_heap (\<lambda>x. x) h' \<and> add_mset m (mset (elems h')) = {#1, 5, 3#}"
proof -
  let ?h = "\<lparr>elems = [1, 5, 3], pos = (\<lambda>x. if x = 5 then 1 else if x = (3::nat) then 2 else 0)\<rparr>"
  have "wf_heap (\<lambda>x. x) ?h"
    by (auto simp: wf_heap_def pos_ok_def heap_order_def keys_def parent_def numeral_eq_Suc less_Suc_eq)
  from minheap_operations [OF this] show ?thesis by simp blast
qed

end
