(* ===== verification/Timers.thy ===== *)
theory Timers
  imports KendyPrelude
begin

text \<open>
  Timers, \<open>src/timer/timer.go\<close>: the status word, the goroutines that the run-time starts when a timer fires, \<open>Cancel\<close> and
  \<open>ResetFireTime\<close>, interleaved at their atomic operations. A run-time timer is a number; it is armed until it fires or is
  stopped.
\<close>

section \<open>Definitions\<close>

datatype status = Waitting | Firing | Removed

text \<open>Where a goroutine is: in \<open>call\<close> before the first compare-and-swap, in the callback, behind it, before the store of
  the new run-time timer, before the last check; in \<open>newTimer\<close> before its store; in \<open>Cancel\<close> before \<open>Stop\<close> (the
  compare-and-swap was won) or before the store of \<open>removed\<close> (it was lost); in \<open>ResetFireTime\<close> before \<open>Reset\<close>.\<close>

datatype pc = CEnter | CRun | CBehind | CArm | CStore nat | CCheck | NStore nat | KStop | KStore | RReset

record timer =
  repeat :: bool
  status :: status
  tcur :: "nat option"
  armed :: "nat list"
  fresh :: nat
  threads :: "pc list"
  runs :: nat
  tried_at :: "nat option"
  stopped_at :: "nat option"
  paniced :: bool

text \<open>Ghosts: \<open>runs\<close> counts the callbacks that started; \<open>tried_at\<close> is their number when a \<open>Cancel\<close> first did its
  compare-and-swap, \<open>stopped_at\<close> when a \<open>Cancel\<close> first wrote \<open>removed\<close>.

  \<open>newTimer\<close> up to its store: \<open>AfterFunc\<close> has armed timer 0.\<close>

definition newTimer :: "bool \<Rightarrow> timer" where
  "newTimer rpt = \<lparr>repeat = rpt, status = Waitting, tcur = None, armed = [0], fresh = 1, threads = [NStore 0],
     runs = 0, tried_at = None, stopped_at = None, paniced = False\<rparr>"

text \<open>The first of several marks stays.\<close>

definition mark :: "nat option \<Rightarrow> nat \<Rightarrow> nat option" where
  "mark m k = (case m of None \<Rightarrow> Some k | Some j \<Rightarrow> Some j)"

definition Once :: timer where "Once = newTimer False"
definition Repeat :: timer where "Repeat = newTimer True"

text \<open>One atomic operation of a goroutine at \<open>pc\<close>: the state and where the goroutine goes, if it goes on.\<close>

fun call_step :: "pc \<Rightarrow> timer \<Rightarrow> timer \<times> pc option" where
  "call_step CEnter t =
     (if status t = Waitting then (t\<lparr>status := Firing, runs := runs t + 1\<rparr>, Some CRun) else (t, None))"
| "call_step CRun t = (t, Some CBehind)"
| "call_step CBehind t =
     (if repeat t then (if status t = Firing then (t\<lparr>status := Waitting\<rparr>, Some CArm) else (t, None))
      else (t\<lparr>status := Removed\<rparr>, None))"
| "call_step CArm t = (t\<lparr>armed := fresh t # armed t, fresh := fresh t + 1\<rparr>, Some (CStore (fresh t)))"
| "call_step (CStore n) t = (t\<lparr>tcur := Some n\<rparr>, Some CCheck)"
| "call_step CCheck t =
     (if status t = Removed then
        (case tcur t of None \<Rightarrow> (t\<lparr>paniced := True\<rparr>, None) | Some n \<Rightarrow> (t\<lparr>armed := removeAll n (armed t)\<rparr>, None))
      else (t, None))"
| "call_step (NStore n) t = (t\<lparr>tcur := Some n\<rparr>, None)"
| "call_step KStop t =
     (case tcur t of None \<Rightarrow> (t\<lparr>paniced := True\<rparr>, None) | Some n \<Rightarrow> (t\<lparr>armed := removeAll n (armed t)\<rparr>, None))"
| "call_step KStore t = (t\<lparr>status := Removed, stopped_at := mark (stopped_at t) (runs t)\<rparr>, None)"
| "call_step RReset t =
     (case tcur t of None \<Rightarrow> (t\<lparr>paniced := True\<rparr>, None) | Some n \<Rightarrow> (t\<lparr>armed := n # removeAll n (armed t)\<rparr>, None))"

text \<open>The first operation of \<open>Cancel\<close>, its compare-and-swap, and where the call goes on: to \<open>Stop\<close>, or to the separate
  store of \<open>removed\<close>. The first operation of \<open>ResetFireTime\<close>, and whether it goes on to the run-time timer.\<close>

definition Cancel :: "timer \<Rightarrow> timer \<times> pc" where
  "Cancel t =
     (let t1 = t\<lparr>tried_at := mark (tried_at t) (runs t)\<rparr> in
      if status t = Waitting then (t1\<lparr>status := Removed, stopped_at := mark (stopped_at t) (runs t)\<rparr>, KStop)
      else (t1, KStore))"

definition ResetFireTime :: "timer \<Rightarrow> bool" where
  "ResetFireTime t = (if repeat t \<or> status t \<noteq> Waitting then False else True)"

inductive tm_step :: "timer \<Rightarrow> timer \<Rightarrow> bool" where
  tm_fire: "armed t = xs @ n # ys \<Longrightarrow> tm_step t (t\<lparr>armed := xs @ ys, threads := CEnter # threads t\<rparr>)"
| tm_go: "threads t = ps @ p # qs \<Longrightarrow> call_step p t = (t', Some q) \<Longrightarrow> tm_step t (t'\<lparr>threads := ps @ q # qs\<rparr>)"
| tm_end: "threads t = ps @ p # qs \<Longrightarrow> call_step p t = (t', None) \<Longrightarrow> tm_step t (t'\<lparr>threads := ps @ qs\<rparr>)"
| tm_cancel: "Cancel t = (t', p) \<Longrightarrow> tm_step t (t'\<lparr>threads := p # threads t\<rparr>)"
| tm_reset: "ResetFireTime t \<Longrightarrow> tm_step t (t\<lparr>threads := RReset # threads t\<rparr>)"

section \<open>Invariant\<close>

definition running :: "pc \<Rightarrow> bool" where
  "running p \<longleftrightarrow> p = CRun \<or> p = CBehind"

definition tm_inv :: "timer \<Rightarrow> bool" where
  "tm_inv t \<longleftrightarrow>
     length (filter running (threads t)) \<le> 1 \<and> (status t = Waitting \<longrightarrow> filter running (threads t) = []) \<and>
     (\<forall>k. stopped_at t = Some k \<longrightarrow> status t = Removed \<and> runs t = k) \<and>
     (\<not> repeat t \<longrightarrow> runs t \<le> 1 \<and> (runs t = 1 \<longrightarrow> status t \<noteq> Waitting)) \<and>
     (\<forall>k. tried_at t = Some k \<longrightarrow>
        (\<not> repeat t \<longrightarrow> runs t = k \<and> status t \<noteq> Waitting) \<and> (stopped_at t = None \<longrightarrow> KStore \<in> set (threads t)))"

lemma tm_invD:
  assumes "tm_inv t"
  shows "length (filter running (threads t)) \<le> 1" and "status t = Waitting \<Longrightarrow> filter running (threads t) = []"
    and "stopped_at t = Some k \<Longrightarrow> status t = Removed \<and> runs t = k"
    and "\<not> repeat t \<Longrightarrow> runs t \<le> 1 \<and> (runs t = 1 \<longrightarrow> status t \<noteq> Waitting)"
    and "tried_at t = Some k \<Longrightarrow> \<not> repeat t \<Longrightarrow> runs t = k \<and> status t \<noteq> Waitting"
    and "tried_at t = Some k \<Longrightarrow> stopped_at t = None \<Longrightarrow> KStore \<in> set (threads t)"
  using assms unfolding tm_inv_def by blast+

lemma mark_Some [simp]: "mark m k \<noteq> None" "(mark m k = Some j) = (m = Some j \<or> m = None \<and> k = j)"
  by (auto simp: mark_def split: option.splits)

lemma call_step_fields:
  "call_step p t = (t', q) \<Longrightarrow> threads t' = threads t \<and> repeat t' = repeat t \<and> tried_at t' = tried_at t"
  by (cases p) (auto split: if_splits option.splits)

lemma call_step_inv:
  assumes inv: "tm_inv t" and th: "threads t = ps @ p # qs" and st: "call_step p t = (t', q)"
  shows "tm_inv (t'\<lparr>threads := ps @ (case q of None \<Rightarrow> [] | Some r \<Rightarrow> [r]) @ qs\<rparr>)"
proof -
  note i = tm_invD [OF inv]
  have "stopped_at t = None \<or> status t = Removed" using i(3) by (cases "stopped_at t") auto
  then show ?thesis
    using st i(1) i(2) i(3) i(4) i(5) i(6) th
    by (cases p) (auto simp: tm_inv_def running_def split: if_splits option.splits)
qed

lemma tm_step_inv: "tm_step t t' \<Longrightarrow> tm_inv t \<Longrightarrow> tm_inv t'"
proof (induction rule: tm_step.induct)
  case (tm_fire t xs n ys)
  then show ?case by (simp add: tm_inv_def running_def)
next
  case (tm_go t ps p qs t' q)
  then show ?case using call_step_inv [of t ps p qs t' "Some q"] by simp
next
  case (tm_end t ps p qs t')
  then show ?case using call_step_inv [of t ps p qs t' None] by simp
next
  case (tm_cancel t t' p)
  note i = tm_invD [OF \<open>tm_inv t\<close>]
  show ?case
    using tm_cancel(1) i(1) i(2) i(3) i(4) i(5) by (auto simp: tm_inv_def running_def Cancel_def Let_def split: if_splits)
next
  case (tm_reset t)
  then show ?case by (simp add: tm_inv_def running_def)
qed

lemma tm_step_repeat: "tm_step t t' \<Longrightarrow> repeat t' = repeat t"
  by (induction rule: tm_step.induct) (auto simp: Cancel_def Let_def dest: call_step_fields split: if_splits)

lemma tm_reach_inv: "tm_step\<^sup>*\<^sup>* (newTimer rpt) t \<Longrightarrow> tm_inv t \<and> repeat t = rpt"
  by (induction rule: rtranclp_induct) (auto simp: newTimer_def tm_inv_def running_def dest: tm_step_inv tm_step_repeat)

text \<open>C23. In every interleaving of firings, \<open>Cancel\<close> and \<open>ResetFireTime\<close>, the callbacks of a timer never overlap, and
  once \<open>Cancel\<close> has written \<open>removed\<close> (in the compare-and-swap it wins or in the store after the one it loses, so in
  any case before it returns) no further callback starts. A timer of \<open>Once\<close> runs its callback at most once, and for it
  no callback starts after the compare-and-swap of \<open>Cancel\<close> either; a repeating timer may be armed again and run
  callbacks between a lost compare-and-swap and the store.\<close>

theorem timer_callbacks:
  assumes "tm_step\<^sup>*\<^sup>* (newTimer rpt) t"
  shows "length (filter running (threads t)) \<le> 1 \<and>
    (\<forall>k. stopped_at t = Some k \<longrightarrow> runs t = k \<and> status t = Removed) \<and>
    (tried_at t \<noteq> None \<and> KStore \<notin> set (threads t) \<longrightarrow> stopped_at t \<noteq> None) \<and>
    (\<not> rpt \<longrightarrow> runs t \<le> 1 \<and> (\<forall>k. tried_at t = Some k \<longrightarrow> runs t = k))"
proof -
  have inv: "tm_inv t" "repeat t = rpt" using tm_reach_inv [OF assms] by simp_all
  note i = tm_invD [OF inv(1)]
  have "\<forall>k. stopped_at t = Some k \<longrightarrow> runs t = k \<and> status t = Removed" using i(3) by blast
  moreover have "tried_at t \<noteq> None \<and> KStore \<notin> set (threads t) \<longrightarrow> stopped_at t \<noteq> None" using i(6) by blast
  moreover have "\<not> rpt \<longrightarrow> runs t \<le> 1 \<and> (\<forall>k. tried_at t = Some k \<longrightarrow> runs t = k)" using i(4) i(5) inv(2) by blast
  ultimately show ?thesis using i(1) by blast
qed

text \<open>The gap in \<open>Cancel\<close> of a repeating timer: the compare-and-swap comes during a callback and fails, the callback
  ends and arms the timer again, which fires, and a second callback starts; \<open>Cancel\<close> has not stored \<open>removed\<close> yet.\<close>

lemma cancel_gap_callback:
  "\<exists>t. tm_step\<^sup>*\<^sup>* (newTimer True) t \<and> tried_at t = Some 1 \<and> runs t = 2 \<and> CRun \<in> set (threads t) \<and> KStore \<in> set (threads t)"
proof -
  let ?t = "\<lambda>st n ar fr th r tr. \<lparr>repeat = True, status = st, tcur = n, armed = ar, fresh = fr, threads = th, runs = r,
      tried_at = tr, stopped_at = None, paniced = False\<rparr>"
  let ?one = "Some (Suc 0)"
  have "tm_step (newTimer True) (?t Waitting (Some 0) [0] 1 [] 0 None)"
    using tm_end [of "newTimer True" "[]" "NStore 0" "[]"] by (simp add: newTimer_def)
  also have "tm_step\<^sup>*\<^sup>* \<dots> (?t Waitting (Some 0) [] 1 [CEnter] 0 None)"
    using tm_fire [of "?t Waitting (Some 0) [0] 1 [] 0 None" "[]" 0 "[]"] by (intro r_into_rtranclp) simp
  also have "tm_step\<^sup>*\<^sup>* \<dots> (?t Firing (Some 0) [] 1 [CRun] 1 None)"
    using tm_go [of "?t Waitting (Some 0) [] 1 [CEnter] 0 None" "[]" CEnter "[]"] by (intro r_into_rtranclp) simp
  also have "tm_step\<^sup>*\<^sup>* \<dots> (?t Firing (Some 0) [] 1 [KStore, CRun] 1 ?one)"
    using tm_cancel [of "?t Firing (Some 0) [] 1 [CRun] 1 None"] by (intro r_into_rtranclp) (simp add: Cancel_def mark_def)
  also have "tm_step\<^sup>*\<^sup>* \<dots> (?t Firing (Some 0) [] 1 [KStore, CBehind] 1 ?one)"
    using tm_go [of "?t Firing (Some 0) [] 1 [KStore, CRun] 1 ?one" "[KStore]" CRun "[]"] by (intro r_into_rtranclp) simp
  also have "tm_step\<^sup>*\<^sup>* \<dots> (?t Waitting (Some 0) [] 1 [KStore, CArm] 1 ?one)"
    using tm_go [of "?t Firing (Some 0) [] 1 [KStore, CBehind] 1 ?one" "[KStore]" CBehind "[]"] by (intro r_into_rtranclp) simp
  also have "tm_step\<^sup>*\<^sup>* \<dots> (?t Waitting (Some 0) [1] 2 [KStore, CStore 1] 1 ?one)"
    using tm_go [of "?t Waitting (Some 0) [] 1 [KStore, CArm] 1 ?one" "[KStore]" CArm "[]"] by (intro r_into_rtranclp) (simp add: numeral_2_eq_2)
  also have "tm_step\<^sup>*\<^sup>* \<dots> (?t Waitting (Some 0) [] 2 [CEnter, KStore, CStore 1] 1 ?one)"
    using tm_fire [of "?t Waitting (Some 0) [1] 2 [KStore, CStore 1] 1 ?one" "[]" 1 "[]"] by (intro r_into_rtranclp) simp
  also have "tm_step\<^sup>*\<^sup>* \<dots> (?t Firing (Some 0) [] 2 [CRun, KStore, CStore 1] 2 ?one)"
    using tm_go [of "?t Waitting (Some 0) [] 2 [CEnter, KStore, CStore 1] 1 ?one" "[]" CEnter "[KStore, CStore 1]"]
    by (intro r_into_rtranclp) (simp add: numeral_2_eq_2)
  finally show ?thesis by (intro exI conjI) (assumption | simp)+
qed

text \<open>A repeating timer whose first callback hands it to another goroutine before \<open>newTimer\<close> has stored the run-time
  timer: \<open>Cancel\<close> then loads an empty value and its type assertion panics.\<close>

lemma cancel_before_store_panics: "\<exists>t. tm_step\<^sup>*\<^sup>* (newTimer True) t \<and> paniced t"
proof -
  let ?t = "\<lambda>st th r sp p. \<lparr>repeat = True, status = st, tcur = None, armed = [], fresh = 1, threads = th, runs = r,
      tried_at = sp, stopped_at = sp, paniced = p\<rparr>"
  have "tm_step (newTimer True) (?t Waitting [CEnter, NStore 0] 0 None False)"
    using tm_fire [of "newTimer True" "[]" 0 "[]"] by (simp add: newTimer_def)
  also have "tm_step\<^sup>*\<^sup>* \<dots> (?t Firing [CRun, NStore 0] 1 None False)"
    using tm_go [of "?t Waitting [CEnter, NStore 0] 0 None False" "[]" CEnter "[NStore 0]"] by (intro r_into_rtranclp) simp
  also have "tm_step\<^sup>*\<^sup>* \<dots> (?t Firing [CBehind, NStore 0] 1 None False)"
    using tm_go [of "?t Firing [CRun, NStore 0] 1 None False" "[]" CRun "[NStore 0]"] by (intro r_into_rtranclp) simp
  also have "tm_step\<^sup>*\<^sup>* \<dots> (?t Waitting [CArm, NStore 0] 1 None False)"
    using tm_go [of "?t Firing [CBehind, NStore 0] 1 None False" "[]" CBehind "[NStore 0]"] by (intro r_into_rtranclp) simp
  also have "tm_step\<^sup>*\<^sup>* \<dots> (?t Removed [KStop, CArm, NStore 0] 1 (Some 1) False)"
    using tm_cancel [of "?t Waitting [CArm, NStore 0] 1 None False"] by (intro r_into_rtranclp) (simp add: Cancel_def mark_def)
  also have "tm_step\<^sup>*\<^sup>* \<dots> (?t Removed [CArm, NStore 0] 1 (Some 1) True)"
    using tm_end [of "?t Removed [KStop, CArm, NStore 0] 1 (Some 1) False" "[]" KStop "[CArm, NStore 0]"]
    by (intro r_into_rtranclp) simp
  finally show ?thesis by (intro exI conjI) (assumption | simp)+
qed

theorem timer_callbacks_witness:
  "\<exists>t. tm_step\<^sup>*\<^sup>* (newTimer False) t \<and> stopped_at t = Some 0 \<and> runs t = 0 \<and> status t = Removed"
proof -
  let ?t = "(fst (Cancel (newTimer False)))\<lparr>threads := [KStop, NStore 0]\<rparr>"
  have s: "tm_step\<^sup>*\<^sup>* (newTimer False) ?t"
    using tm_cancel [of "newTimer False" "fst (Cancel (newTimer False))" KStop]
    by (intro r_into_rtranclp) (simp add: Cancel_def newTimer_def)
  have "stopped_at ?t = Some 0" by (simp add: Cancel_def newTimer_def)
  then show ?thesis using timer_callbacks [OF s] s by blast
qed

end
