(* ===== verification/Golog.thy ===== *)
theory Golog
  imports KendyPrelude
begin

text \<open>
  The logger, package \<open>golog\<close>: \<open>itoa\<close>, \<open>formatHeader\<close>, \<open>Output\<close> and \<open>Log\<close> of \<open>src/golog/log.go\<close>, the levels and colours, and
  the file output with rotation of \<open>src/golog/output_logger.go\<close>; last \<open>src/log.go\<close>, the logger the library itself uses. The text made by \<open>fmt.Sprintf\<close>, the caller's file and line,
  the clock, the process number and the answers of the file system are arguments; the names of the files are computed as
  the code does, so that a file may be opened again within its second.
\<close>

section \<open>Definitions: levels and colours\<close>

datatype level = Level_Debug | Level_Info | Level_Warn | Level_Error | Level_Fatal

fun level_int :: "level \<Rightarrow> nat" where
  "level_int Level_Debug = 0" | "level_int Level_Info = 1" | "level_int Level_Warn = 2" | "level_int Level_Error = 3"
| "level_int Level_Fatal = 4"

text \<open>Levels are compared as the integers they are.\<close>

instantiation level :: linorder
begin

definition less_eq_level :: "level \<Rightarrow> level \<Rightarrow> bool" where
  "less_eq_level a b \<longleftrightarrow> level_int a \<le> level_int b"

definition less_level :: "level \<Rightarrow> level \<Rightarrow> bool" where
  "less_level a b \<longleftrightarrow> level_int a < level_int b"

instance
proof
  fix a b :: level
  show "a \<le> b \<Longrightarrow> b \<le> a \<Longrightarrow> a = b" by (cases a; cases b) (simp_all add: less_eq_level_def)
qed (auto simp: less_eq_level_def less_level_def)

end

fun levelString :: "level \<Rightarrow> string" where
  "levelString Level_Debug = ''[DEBUG]''" | "levelString Level_Info = ''[INFO] ''" | "levelString Level_Warn = ''[WARN] ''"
| "levelString Level_Error = ''[ERROR]''" | "levelString Level_Fatal = ''[FATAL]''"

definition str2loglevel :: "string \<Rightarrow> level" where
  "str2loglevel s =
     (if s = ''debug'' then Level_Debug else if s = ''info'' then Level_Info else if s = ''warn'' then Level_Warn
      else if s = ''error'' then Level_Error else if s = ''fatal'' then Level_Fatal else Level_Debug)"

datatype color = NoColor | Black | Red | Green | Yellow | Blue | Purple | DarkGreen | White

definition esc :: string where
  "esc = [char_of (27 :: nat)]"

fun logColorPrefix :: "color \<Rightarrow> string" where
  "logColorPrefix NoColor = ''''" | "logColorPrefix Black = esc @ ''[030m''" | "logColorPrefix Red = esc @ ''[031m''"
| "logColorPrefix Green = esc @ ''[032m''" | "logColorPrefix Yellow = esc @ ''[033m''" | "logColorPrefix Blue = esc @ ''[034m''"
| "logColorPrefix Purple = esc @ ''[035m''" | "logColorPrefix DarkGreen = esc @ ''[036m''" | "logColorPrefix White = esc @ ''[037m''"

definition logColorSuffix :: string where
  "logColorSuffix = esc @ ''[0m''"

definition colorByName :: "string \<Rightarrow> color option" where
  "colorByName =
     map_of [(''none'', NoColor), (''black'', Black), (''red'', Red), (''green'', Green), (''yellow'', Yellow), (''blue'', Blue),
             (''purple'', Purple), (''darkgreen'', DarkGreen), (''white'', White)]"

fun ColorFromLevel :: "level \<Rightarrow> color" where
  "ColorFromLevel Level_Warn = Yellow" | "ColorFromLevel Level_Debug = Purple" | "ColorFromLevel Level_Error = Red"
| "ColorFromLevel Level_Fatal = Red" | "ColorFromLevel Level_Info = NoColor"

section \<open>Definitions: the line\<close>

definition digit :: "nat \<Rightarrow> char" where
  "digit d = char_of (48 + d)"

text \<open>The loop of \<open>itoa\<close>: \<open>acc\<close> is \<open>b[bp:]\<close> of an array of 32 bytes.\<close>

function itoa_loop :: "nat \<Rightarrow> int \<Rightarrow> string \<Rightarrow> string go" where
  "itoa_loop u wid acc =
     (if u > 0 \<or> wid > 0 then
        (if length acc \<ge> 32 then Panic IndexOutOfRange else itoa_loop (u div 10) (wid - 1) (digit (u mod 10) # acc))
      else Ret acc)"
  by pat_completeness auto
termination
  by (relation "measure (\<lambda>(u, wid, acc). u + nat wid)") auto

definition itoa :: "string \<Rightarrow> int \<Rightarrow> int \<Rightarrow> string go" where
  "itoa buf i wid =
     (let u = unat (word_of_int i :: uint64) in
      if u = 0 \<and> wid \<le> 1 then Ret (buf @ ''0'') else map_ret (\<lambda>b. buf @ b) (itoa_loop u wid []))"

definition Ldate :: nat where "Ldate = 1"
definition Ltime :: nat where "Ltime = 2"
definition Lmicroseconds :: nat where "Lmicroseconds = 4"
definition Llongfile :: nat where "Llongfile = 8"
definition Lshortfile :: nat where "Lshortfile = 16"
definition LstdFlags :: nat where "LstdFlags = Ldate OR Ltime OR Lmicroseconds"

record clock =
  year :: int
  month :: int
  day :: int
  hour :: int
  minute :: int
  sec :: int
  nanosecond :: int

text \<open>The loop that looks for the last slash, from index \<open>i\<close> down to 1.\<close>

fun short_file :: "string \<Rightarrow> nat \<Rightarrow> string" where
  "short_file file 0 = file"
| "short_file file (Suc i) = (if file ! Suc i = CHR ''/'' then drop (Suc (Suc i)) file else short_file file i)"

definition date_part :: "nat \<Rightarrow> clock \<Rightarrow> string \<Rightarrow> string go" where
  "date_part flag t buf =
     (if flag AND Ldate \<noteq> 0 then
        bind_go (itoa buf (year t) 4) (\<lambda>buf. bind_go (itoa (buf @ ''/'') (month t) 2)
          (\<lambda>buf. map_ret (\<lambda>buf. buf @ '' '') (itoa (buf @ ''/'') (day t) 2)))
      else Ret buf)"

definition time_part :: "nat \<Rightarrow> clock \<Rightarrow> string \<Rightarrow> string go" where
  "time_part flag t buf =
     (if flag AND (Ltime OR Lmicroseconds) \<noteq> 0 then
        bind_go (itoa buf (hour t) 2) (\<lambda>buf. bind_go (itoa (buf @ '':'') (minute t) 2) (\<lambda>buf. bind_go (itoa (buf @ '':'') (sec t) 2)
          (\<lambda>buf. map_ret (\<lambda>buf. buf @ '' '')
             (if flag AND Lmicroseconds \<noteq> 0 then itoa (buf @ ''.'') (nanosecond t div 1000000) 3 else Ret buf))))
      else Ret buf)"

definition file_part :: "nat \<Rightarrow> string \<Rightarrow> int \<Rightarrow> string \<Rightarrow> string go" where
  "file_part flag file line buf =
     (if flag AND (Lshortfile OR Llongfile) \<noteq> 0 then
        (let file = (if flag AND Lshortfile \<noteq> 0 then short_file file (length file - 1) else file)
         in map_ret (\<lambda>buf. buf @ '': '') (itoa (buf @ file @ '':'') line (- 1)))
      else Ret buf)"

definition formatHeader :: "nat \<Rightarrow> clock \<Rightarrow> string \<Rightarrow> int \<Rightarrow> string \<Rightarrow> string go" where
  "formatHeader flag t file line buf =
     bind_go (if flag AND (Ldate OR Ltime OR Lmicroseconds) \<noteq> 0
              then bind_go (date_part flag t (buf @ '' '')) (time_part flag t) else Ret (buf @ '' ''))
       (file_part flag file line)"

section \<open>Definitions: files\<close>

text \<open>The verbs \<open>%d\<close>, \<open>%02d\<close> and \<open>%04d\<close> of \<open>fmt.Sprintf\<close>: a decimal numeral, with zeros up to a width that
  counts the sign.\<close>

fun dec :: "nat \<Rightarrow> string" where
  "dec n = (if n < 10 then [digit n] else dec (n div 10) @ [digit (n mod 10)])"

definition zeros_d :: "nat \<Rightarrow> int \<Rightarrow> string" where
  "zeros_d w i =
     (let ds = dec (nat \<bar>i\<bar>); w' = (if i < 0 then w - 1 else w)
      in (if i < 0 then ''-'' else '''') @ replicate (w' - length ds) (digit 0) @ ds)"

text \<open>Where an \<open>OutputLogger\<close> writes: nowhere yet, to the standard output, or to the file with this path.\<close>

datatype target = TNil | TStdout | TFile string

record output_logger =
  out :: target
  basePath :: string
  fileMax :: int
  ftime :: clock
  bytes_written :: int
  filename :: string

definition same_day :: "clock \<Rightarrow> clock \<Rightarrow> bool" where
  "same_day a b \<longleftrightarrow> year a = year b \<and> month a = month b \<and> day a = day b"

text \<open>\<open>createOutputFile\<close>: the directory has the day in its name, the file the process number and the second.
  \<open>mk\<close> and \<open>op\<close> say whether \<open>MkdirAll\<close> and \<open>OpenFile\<close> succeed; a file that exists already is opened for appending.\<close>

definition log_dir :: "string \<Rightarrow> clock \<Rightarrow> string" where
  "log_dir base now = base @ ''/'' @ zeros_d 4 (year now) @ ''-'' @ zeros_d 2 (month now) @ ''-'' @ zeros_d 2 (day now)"

definition log_path :: "string \<Rightarrow> string \<Rightarrow> nat \<Rightarrow> clock \<Rightarrow> string" where
  "log_path base nm pid now =
     log_dir base now @ ''/'' @ nm @ ''['' @ dec pid @ ''].'' @ zeros_d 2 (hour now) @ ''.'' @ zeros_d 2 (minute now) @ ''.'' @
     zeros_d 2 (sec now) @ ''.log''"

definition createOutputFile :: "clock \<Rightarrow> nat \<Rightarrow> bool \<Rightarrow> bool \<Rightarrow> output_logger \<Rightarrow> output_logger" where
  "createOutputFile now pid mk op l =
     (if mk \<and> op
      then l\<lparr>out := TFile (log_path (basePath l) (filename l) pid now), bytes_written := 0, ftime := now\<rparr> else l)"

definition checkOutputFile :: "clock \<Rightarrow> output_logger \<Rightarrow> bool" where
  "checkOutputFile now l =
     (if out l = TNil then False
      else if out l = TStdout then True
      else if bytes_written l \<ge> fileMax l then False
      else same_day (ftime l) now)"

text \<open>\<open>Write\<close>: the logger, and the target with the bytes handed to it; \<open>n\<close> is what \<open>Write\<close> of the target returns, none for an
  error.\<close>

definition out_Write :: "clock \<Rightarrow> nat \<Rightarrow> bool \<Rightarrow> bool \<Rightarrow> nat option \<Rightarrow> string \<Rightarrow> output_logger \<Rightarrow> output_logger \<times> (target \<times> string) list" where
  "out_Write now pid mk op n buff l =
     (let l1 = (if \<not> checkOutputFile now l then createOutputFile now pid mk op l else l) in
      if out l1 \<noteq> TNil then
        ((case n of None \<Rightarrow> l1 | Some c \<Rightarrow> l1\<lparr>bytes_written := bytes_written l1 + int c\<rparr>), [(out l1, buff)])
      else (l1, []))"

definition NewOutputLogger :: "string \<Rightarrow> string \<Rightarrow> int \<Rightarrow> clock \<Rightarrow> output_logger" where
  "NewOutputLogger base nm mx zero =
     \<lparr>out = TNil, basePath = base, fileMax = mx, ftime = zero, bytes_written = 0, filename = nm\<rparr>"

section \<open>Definitions: Log\<close>

record logger =
  lflag :: nat
  llevel :: level
  panicLevel :: level
  lname :: string
  fileOutput :: "output_logger option"

definition New_logger :: "string \<Rightarrow> output_logger option \<Rightarrow> logger" where
  "New_logger nm fo = \<lparr>lflag = LstdFlags OR Lshortfile, llevel = Level_Debug, panicLevel = Level_Fatal, lname = nm, fileOutput = fo\<rparr>"

text \<open>The buffer that \<open>Output\<close> writes.\<close>

definition Output :: "logger \<Rightarrow> clock \<Rightarrow> string \<times> int \<Rightarrow> string \<Rightarrow> string \<Rightarrow> color \<Rightarrow> string go" where
  "Output l now caller prefix text c =
     (let (file, line) = caller;
          buf = (if c \<noteq> NoColor then logColorPrefix c else '''')
      in map_ret (\<lambda>buf.
           let buf = buf @ text; buf = (if c \<noteq> NoColor then buf @ logColorSuffix else buf)
           in if length text > 0 \<and> last text \<noteq> CHR ''\<newline>'' then buf @ ''\<newline>'' else buf)
         (formatHeader (lflag l) now file line (buf @ prefix)))"

record call_env =
  now :: clock
  caller :: "string \<times> int"
  stdout_on :: bool
  getpid :: nat
  mkdir_ok :: bool
  open_ok :: bool
  wrote :: "nat option"

text \<open>\<open>Log\<close>: the logger, what was handed to the standard output and to files, and whether it panics at the end.\<close>

definition Log :: "call_env \<Rightarrow> color \<Rightarrow> level \<Rightarrow> string \<Rightarrow> logger \<Rightarrow> (logger \<times> (target \<times> string) list \<times> bool) go" where
  "Log e c lv text l =
     (if lv < llevel l then Ret (l, [], False)
      else if fileOutput l = None \<and> \<not> stdout_on e \<and> lv < panicLevel l then Ret (l, [], False)
      else
        (let prefix = levelString lv @ '' '' @ lname l;
             panics = (lv \<ge> panicLevel l)
         in bind_go (if stdout_on e then map_ret (\<lambda>b. [(TStdout, b)]) (Output l (now e) (caller e) prefix text c) else Ret [])
              (\<lambda>w1. case fileOutput l of
                 None \<Rightarrow> Ret (l, w1, panics)
               | Some fo \<Rightarrow>
                   map_ret (\<lambda>b. let (fo', w2) = out_Write (now e) (getpid e) (mkdir_ok e) (open_ok e) (wrote e) b fo in (l\<lparr>fileOutput := Some fo'\<rparr>, w1 @ w2, panics))
                     (Output l (now e) (caller e) prefix text NoColor))))"


section \<open>Definitions: the methods of a logger\<close>

text \<open>What \<open>Log\<close> makes of its format and values with \<open>Sprintf\<close> and \<open>Sprintln\<close>.\<close>

type_synonym 'v printers = "(string \<Rightarrow> 'v list \<Rightarrow> string) \<times> ('v list \<Rightarrow> string)"

definition log_text :: "'v printers \<Rightarrow> string \<Rightarrow> 'v list \<Rightarrow> string" where
  "log_text fs format v = (if format = '''' then snd fs v else fst fs format v)"

type_synonym 'v log_call = "call_env \<Rightarrow> 'v printers \<Rightarrow> logger \<Rightarrow> (logger \<times> (target \<times> string) list \<times> bool) go"

definition DebugColorf :: "string \<Rightarrow> string \<Rightarrow> 'v list \<Rightarrow> 'v log_call" where
  "DebugColorf colorName format v e fs l =
     (case colorByName colorName of
        Some c \<Rightarrow> Log e c Level_Debug (log_text fs format v) l
      | None \<Rightarrow> Log e White Level_Debug (log_text fs format v) l)"

definition DebugColorln :: "string \<Rightarrow> 'v list \<Rightarrow> 'v log_call" where
  "DebugColorln colorName v e fs l =
     (case colorByName colorName of
        Some c \<Rightarrow> Log e c Level_Debug (log_text fs '''' v) l
      | None \<Rightarrow> Log e White Level_Debug (log_text fs '''' v) l)"

definition Debugf :: "string \<Rightarrow> 'v list \<Rightarrow> 'v log_call" where
  "Debugf format v e fs l = Log e (ColorFromLevel Level_Debug) Level_Debug (log_text fs format v) l"

definition Debug :: "'v list \<Rightarrow> 'v log_call" where
  "Debug v e fs l = Log e (ColorFromLevel Level_Debug) Level_Debug (log_text fs '''' v) l"

definition Infof :: "string \<Rightarrow> 'v list \<Rightarrow> 'v log_call" where
  "Infof format v e fs l = Log e (ColorFromLevel Level_Info) Level_Info (log_text fs format v) l"

definition Info :: "'v list \<Rightarrow> 'v log_call" where
  "Info v e fs l = Log e (ColorFromLevel Level_Info) Level_Info (log_text fs '''' v) l"

definition Warnf :: "string \<Rightarrow> 'v list \<Rightarrow> 'v log_call" where
  "Warnf format v e fs l = Log e (ColorFromLevel Level_Warn) Level_Warn (log_text fs format v) l"

definition Warn :: "'v list \<Rightarrow> 'v log_call" where
  "Warn v e fs l = Log e (ColorFromLevel Level_Warn) Level_Warn (log_text fs '''' v) l"

definition Errorf :: "string \<Rightarrow> 'v list \<Rightarrow> 'v log_call" where
  "Errorf format v e fs l = Log e (ColorFromLevel Level_Error) Level_Error (log_text fs format v) l"

definition Error :: "'v list \<Rightarrow> 'v log_call" where
  "Error v e fs l = Log e (ColorFromLevel Level_Error) Level_Error (log_text fs '''' v) l"

definition Fatalf :: "string \<Rightarrow> 'v list \<Rightarrow> 'v log_call" where
  "Fatalf format v e fs l = Log e (ColorFromLevel Level_Fatal) Level_Fatal (log_text fs format v) l"

definition Fatal :: "'v list \<Rightarrow> 'v log_call" where
  "Fatal v e fs l = Log e (ColorFromLevel Level_Fatal) Level_Fatal (log_text fs '''' v) l"

definition SetLevel :: "level \<Rightarrow> logger \<Rightarrow> logger" where
  "SetLevel lv l = l\<lparr>llevel := lv\<rparr>"

definition SetLevelByString :: "string \<Rightarrow> logger \<Rightarrow> logger" where
  "SetLevelByString lv l = SetLevel (str2loglevel lv) l"

definition SetPanicLevelByString :: "string \<Rightarrow> logger \<Rightarrow> logger" where
  "SetPanicLevelByString lv l = l\<lparr>panicLevel := str2loglevel lv\<rparr>"

definition Level :: "logger \<Rightarrow> level" where
  "Level l = llevel l"

definition IsDebugEnabled :: "logger \<Rightarrow> bool" where
  "IsDebugEnabled l \<longleftrightarrow> llevel l = Level_Debug"

text \<open>\<open>enableStdOut\<close> is a variable of the package.\<close>

definition EnableStdOut :: "call_env \<Rightarrow> call_env" where
  "EnableStdOut e = e\<lparr>stdout_on := True\<rparr>"

definition DisableStdOut :: "call_env \<Rightarrow> call_env" where
  "DisableStdOut e = e\<lparr>stdout_on := False\<rparr>"

section \<open>Decimal numbers\<close>

text \<open>The number of a numeral.\<close>

declare dec.simps [simp del]
declare itoa_loop.simps [simp del]

definition undec :: "string \<Rightarrow> nat" where
  "undec s = foldl (\<lambda>v c. 10 * v + (of_char c - 48)) 0 s"

lemma digit_chars: "digit 0 = CHR ''0''" "digit 7 = CHR ''7''"
  by code_simp+

lemma of_char_digit: "d < 10 \<Longrightarrow> of_char (digit d) = 48 + d"
  by (simp add: digit_def)

lemma undec_snoc: "undec (s @ [c]) = 10 * undec s + (of_char c - 48)"
  by (simp add: undec_def)

lemma undec_zeros: "undec (replicate k (digit 0) @ s) = undec s"
proof (induction s rule: rev_induct)
  case Nil
  have "undec (replicate k (digit 0)) = 0"
    by (induction k) (simp_all add: undec_def of_char_digit)
  then show ?case by (simp add: undec_def)
next
  case (snoc c s)
  have "undec (replicate k (digit 0) @ s @ [c]) = 10 * undec (replicate k (digit 0) @ s) + (of_char c - 48)"
    using undec_snoc [of "replicate k (digit 0) @ s" c] by simp
  then show ?case using snoc undec_snoc by simp
qed

lemma undec_dec: "undec (dec n) = n"
proof (induction n rule: dec.induct)
  case (1 n)
  show ?case
  proof (cases "n < 10")
    case True
    then show ?thesis by (subst dec.simps) (simp add: undec_def of_char_digit)
  next
    case False
    then show ?thesis using 1 by (subst dec.simps) (simp add: undec_snoc of_char_digit)
  qed
qed

lemma length_dec: "n < 10 ^ Suc k \<Longrightarrow> length (dec n) \<le> Suc k"
proof (induction k arbitrary: n)
  case 0
  then show ?case by (simp add: dec.simps)
next
  case (Suc k)
  show ?case
  proof (cases "n < 10")
    case False
    have "n div 10 < 10 ^ Suc k" using Suc.prems by (simp add: less_mult_imp_div_less mult.commute)
    then show ?thesis using Suc.IH False by (subst dec.simps) simp
  qed (simp add: dec.simps)
qed

text \<open>The digits that the loop makes for \<open>u\<close>: none for 0.\<close>

definition digits :: "nat \<Rightarrow> string" where
  "digits u = (if u = 0 then [] else dec u)"

lemma digits_step: "u > 0 \<Longrightarrow> digits u = digits (u div 10) @ [digit (u mod 10)]"
  using div_greater_zero_iff [of u 10] by (cases "u < 10") (auto simp: digits_def dec.simps [of u])

lemma itoa_loop_digits:
  "length acc + max (length (digits u)) (nat wid) \<le> 32 \<Longrightarrow>
   itoa_loop u wid acc = Ret (replicate (nat wid - length (digits u)) (digit 0) @ digits u @ acc)"
proof (induction u wid acc rule: itoa_loop.induct)
  case (1 u wid acc)
  show ?case
  proof (cases "u > 0 \<or> wid > 0")
    case go: True
    have lt: "length acc < 32" and step: "length (digit (u mod 10) # acc) + max (length (digits (u div 10))) (nat (wid - 1)) \<le> 32"
      using 1(2) go digits_step [of u] by (cases "u = 0"; simp add: digits_def; linarith)+
    have "itoa_loop u wid acc = itoa_loop (u div 10) (wid - 1) (digit (u mod 10) # acc)"
      using go lt by (simp add: itoa_loop.simps [of u])
    also have "\<dots> = Ret (replicate (nat (wid - 1) - length (digits (u div 10))) (digit 0) @ digits (u div 10) @ digit (u mod 10) # acc)"
      using 1(1) [OF go _ step] lt by simp
    also have "\<dots> = Ret (replicate (nat wid - length (digits u)) (digit 0) @ digits u @ acc)"
    proof (cases "u = 0")
      case True
      then have "nat wid = Suc (nat (wid - 1))" using go by simp
      then show ?thesis using True by (simp add: digits_def replicate_app_Cons_same)
    next
      case False
      then show ?thesis using digits_step [of u] by (simp add: nat_diff_distrib)
    qed
    finally show ?thesis .
  next
    case False
    then have "itoa_loop u wid acc = Ret acc" by (subst itoa_loop.simps) simp
    then show ?thesis using False by (simp add: digits_def)
  qed
qed

text \<open>C32. \<open>itoa\<close> is decimal printing: for every 64-bit integer and every width up to 32 it neither overruns its array nor fails to
  return, and appends the decimal numeral of the value (of the unsigned value for a negative one), padded on the left with
  zeros to the width and not otherwise; the numeral reads back as the number.\<close>

theorem itoa_decimal:
  assumes "wid \<le> 32" and "n = nat (i mod 2 ^ 64)"
  shows "itoa buf i wid = Ret (buf @ replicate (nat wid - length (dec n)) (digit 0) @ dec n) \<and>
    undec (replicate (nat wid - length (dec n)) (digit 0) @ dec n) = n"
proof
  have u: "unat (word_of_int i :: uint64) = n" unfolding assms(2) by (simp add: unat_eq_nat_uint uint_word_of_int)
  show "undec (replicate (nat wid - length (dec n)) (digit 0) @ dec n) = n" by (simp add: undec_zeros undec_dec)
  have "n < 2 ^ 64" unfolding assms(2) by (simp add: nat_less_iff)
  then have len: "length (dec n) \<le> 20" using length_dec [of n 19] by simp
  show "itoa buf i wid = Ret (buf @ replicate (nat wid - length (dec n)) (digit 0) @ dec n)"
  proof (cases "n = 0")
    case zero: True
    have d0: "dec 0 = [digit 0]" by (simp add: dec.simps)
    show ?thesis
    proof (cases "wid \<le> 1")
      case True
      then show ?thesis using zero u d0 digit_chars(1) by (simp add: itoa_def)
    next
      case False
      then have "itoa_loop 0 wid [] = Ret (replicate (nat wid) (digit 0))"
        using itoa_loop_digits [of "[]" 0 wid] assms(1) by (simp add: digits_def)
      moreover have "replicate (nat wid) (digit 0) = replicate (nat wid - 1) (digit 0) @ [digit 0]"
        using False by (simp add: replicate_append_same flip: replicate_Suc)
      ultimately show ?thesis using zero u d0 False by (simp add: itoa_def)
    qed
  next
    case False
    then have "itoa_loop n wid [] = Ret (replicate (nat wid - length (dec n)) (digit 0) @ dec n)"
      using itoa_loop_digits [of "[]" n wid] assms(1) len by (simp add: digits_def)
    then show ?thesis using u False by (simp add: itoa_def)
  qed
qed

theorem itoa_decimal_witness: "itoa ''x='' 7 3 = Ret ''x=007'' \<and> undec ''007'' = 7"
proof -
  have "dec 7 = ''7''" using digit_chars(2) by (simp add: dec.simps)
  then show ?thesis using itoa_decimal [of 3 7 7 "''x=''"] digit_chars(1) by (simp add: numeral_2_eq_2)
qed

text \<open>No part of the header can fail.\<close>

lemma itoa_total: "wid \<le> 32 \<Longrightarrow> \<exists>s. itoa buf i wid = Ret (buf @ s)"
proof -
  assume w: "wid \<le> 32"
  let ?u = "unat (word_of_int i :: uint64)"
  have "?u < 2 ^ LENGTH(64)" by (rule unsigned_less)
  then have "?u < 2 ^ 64" by simp
  then have "length (dec ?u) \<le> 20" using length_dec [of ?u 19] by simp
  then have "length (digits ?u) \<le> 20" by (simp add: digits_def)
  then have "itoa_loop ?u wid [] = Ret (replicate (nat wid - length (digits ?u)) (digit 0) @ digits ?u @ [])"
    using w by (intro itoa_loop_digits) simp
  then show ?thesis by (simp add: itoa_def Let_def)
qed

lemma bind_ret: "(\<And>x. \<exists>y. f x = Ret y) \<Longrightarrow> \<exists>y. m = Ret y \<Longrightarrow> \<exists>z. bind_go m f = Ret z"
  by auto

lemma formatHeader_total: "\<exists>s. formatHeader flag t file line buf = Ret s"
proof -
  have i: "\<exists>s. itoa b j v = Ret s" if "v \<le> 32" for b j v using itoa_total [OF that] by blast
  have m: "\<exists>s. map_ret f (itoa b j v) = Ret s" if "v \<le> 32" for f :: "string \<Rightarrow> string" and b j v using i [OF that, of b j] by auto
  have "\<exists>s. date_part flag t b = Ret s" for b
    unfolding date_part_def by (auto intro!: bind_ret i m)
  moreover have "\<exists>s. time_part flag t b = Ret s" for b
    unfolding time_part_def by (auto intro!: bind_ret i m)
  moreover have "\<exists>s. file_part flag file line b = Ret s" for b
    unfolding file_part_def Let_def by (auto intro!: m)
  ultimately show ?thesis unfolding formatHeader_def by (auto intro!: bind_ret)
qed

lemma Output_total: "\<exists>s. Output l t cl prefix text c = Ret s"
proof -
  obtain fl ln where "cl = (fl, ln)" by (cases cl)
  moreover obtain s where "formatHeader (lflag l) t fl ln ((if c \<noteq> NoColor then logColorPrefix c else []) @ prefix) = Ret s"
    using formatHeader_total by blast
  ultimately show ?thesis unfolding Output_def Let_def by simp
qed

section \<open>Rotation\<close>











text \<open>Lines written one after another, with the answers of the file system to each: whether the directory can be
  made, whether the file can be opened, whether the write succeeds. An entry of the run has the target (none when the
  line is dropped), whether the file was opened for this line and the answers.\<close>

record answers =
  made :: bool
  openable :: bool
  written :: bool

record entry =
  etime :: clock
  etext :: string
  etarget :: target
  eopened :: bool
  ecreate :: bool
  ewritten :: bool

fun file_run :: "nat \<Rightarrow> (clock \<times> string \<times> answers) list \<Rightarrow> output_logger \<Rightarrow> entry list" where
  "file_run pid [] l = []"
| "file_run pid ((t, b, a) # ws) l =
     (let (l', hs) = out_Write t pid (made a) (openable a) (if written a then Some (length b) else None) b l
      in \<lparr>etime = t, etext = b, etarget = (case hs of [] \<Rightarrow> TNil | (tg, _) # _ \<Rightarrow> tg),
          eopened = (\<not> checkOutputFile t l \<and> made a \<and> openable a), ecreate = (made a \<and> openable a),
          ewritten = written a\<rparr> # file_run pid ws l')"

text \<open>The bytes that were written without error, to any file and to one file, and the entries since the file was last
  opened.\<close>

definition total :: "entry list \<Rightarrow> nat" where
  "total xs = sum_list (map (\<lambda>e. if ewritten e then length (etext e) else 0) xs)"

definition size_of :: "target \<Rightarrow> entry list \<Rightarrow> nat" where
  "size_of tg xs = total (filter (\<lambda>e. etarget e = tg) xs)"

definition current :: "entry list \<Rightarrow> entry list" where
  "current xs = foldl (\<lambda>st e. if eopened e then [e] else st @ [e]) [] xs"



lemma current_snoc [simp]: "current (xs @ [e]) = (if eopened e then [e] else current xs @ [e])"
  by (simp add: current_def)


lemma same_day_refl [simp]: "same_day a a"
  by (simp add: same_day_def)










definition noon :: "int \<Rightarrow> clock" where
  "noon d = \<lparr>year = 2020, month = 1, day = d, hour = 12, minute = 0, sec = 0, nanosecond = 0\<rparr>"

definition fine :: answers where
  "fine = \<lparr>made = True, openable = True, written = True\<rparr>"

definition ex_lines :: "(clock \<times> string \<times> answers) list" where
  "ex_lines = [(noon 1, ''abc'', fine), (noon 1, ''def'', fine), (noon 1, ''g'', fine), (noon 2, ''h'', fine)]"

definition ex_run :: "entry list" where
  "ex_run = file_run 7 ex_lines (NewOutputLogger ''l'' ''a'' 5 (noon 0))"



text \<open>In this run the third line finds the file full; the file opened for it is the same one, which then holds more than \<open>fileMax\<close>
  bytes.\<close>

lemma reopened_grows: "size_of (etarget (ex_run ! 2)) (take 3 ex_run) = 7"
  by code_simp

text \<open>A call of \<open>Log\<close> never fails before its own panic: below the logger's level it does nothing, otherwise it writes one line to the
  standard output if that is enabled, one to the file output if there is one, and panics at the panic level.\<close>

lemma Log_below: "lv < llevel l \<Longrightarrow> Log e c lv text l = Ret (l, [], False)"
  by (simp add: Log_def)

lemma Log_writes:
  assumes "\<not> lv < llevel l"
    and "fileOutput l \<noteq> None \<or> stdout_on e \<or> panicLevel l \<le> lv"
  shows "\<exists>l' hs. Log e c lv text l = Ret (l', hs, panicLevel l \<le> lv) \<and>
    (stdout_on e \<longrightarrow> hs \<noteq> [] \<and> fst (hd hs) = TStdout) \<and>
    (fileOutput l = None \<longrightarrow> l' = l \<and> length hs = (if stdout_on e then 1 else 0))"
proof -
  let ?pre = "levelString lv @ '' '' @ lname l"
  obtain s1 s2 where s: "Output l (now e) (caller e) ?pre text c = Ret s1" "Output l (now e) (caller e) ?pre text NoColor = Ret s2"
    using Output_total by metis
  have go: "\<not> (fileOutput l = None \<and> \<not> stdout_on e \<and> lv < panicLevel l)" using assms(2) by auto
  show ?thesis
  proof (cases "fileOutput l")
    case None
    then show ?thesis using assms(1) go s by (auto simp: Log_def Let_def not_less simp del: append_assoc)
  next
    case (Some fo)
    obtain fo' hs where "out_Write (now e) (getpid e) (mkdir_ok e) (open_ok e) (wrote e) s2 fo = (fo', hs)" by fastforce
    then show ?thesis using assms(1) go s Some by (auto simp: Log_def Let_def not_less simp del: append_assoc)
  qed
qed

text \<open>A level set by a name that is no level is the lowest one: everything is logged. The order of the levels decides what a
  method writes.\<close>

lemma set_level_filters:
  "Level (SetLevelByString nm l) = str2loglevel nm"
  "nm \<notin> {''info'', ''warn'', ''error'', ''fatal''} \<Longrightarrow> IsDebugEnabled (SetLevelByString nm l)"
  "Level_Info < Level l \<Longrightarrow> Infof format v e fs l = Ret (l, [], False)"
  "Level_Fatal \<le> panicLevel l \<Longrightarrow> panicLevel l = Level_Fatal"
  by (auto simp: Level_def SetLevelByString_def SetLevel_def IsDebugEnabled_def str2loglevel_def Infof_def Log_below
      less_eq_level_def intro: level.exhaust [of "panicLevel l"])

section \<open>The logger of the package\<close>

text \<open>\<open>src/log.go\<close>: the logger that the library uses, which the program may set; without it an \<open>EmptyLogger\<close> prints everything with \<open>fmt\<close>,
  whatever the level. A logger is what its methods make of the output, the one for a format and the one for values; \<open>printf\<close> and \<open>println\<close>
  are the texts that \<open>fmt\<close> prints.\<close>

record ('v, 'out) logger_i =
  logf :: "level \<Rightarrow> string \<Rightarrow> 'v list \<Rightarrow> 'out \<Rightarrow> 'out"
  logv :: "level \<Rightarrow> 'v list \<Rightarrow> 'out \<Rightarrow> 'out"

definition EmptyLogger :: "(string \<Rightarrow> 'v list \<Rightarrow> string) \<Rightarrow> ('v list \<Rightarrow> string) \<Rightarrow> ('v, string) logger_i" where
  "EmptyLogger printf println = \<lparr>logf = (\<lambda>l fmt v out. out @ printf fmt v), logv = (\<lambda>l v out. out @ println v)\<rparr>"

definition InitLogger :: "('v, 'out) logger_i option \<Rightarrow> ('v, 'out) logger_i option \<Rightarrow> ('v, 'out) logger_i option" where
  "InitLogger l logger = l"

definition GetLogger :: "(string \<Rightarrow> 'v list \<Rightarrow> string) \<Rightarrow> ('v list \<Rightarrow> string) \<Rightarrow> ('v, string) logger_i option \<Rightarrow> ('v, string) logger_i" where
  "GetLogger printf println logger = (case logger of None \<Rightarrow> EmptyLogger printf println | Some l \<Rightarrow> l)"

text \<open>The logger is the one set last; without one, and after \<open>InitLogger(nil)\<close>, the calls print their texts one after the other and
  no level is dropped.\<close>

lemma GetLogger_last: "GetLogger printf println (InitLogger (Some l) logger) = l"
  by (simp add: GetLogger_def InitLogger_def)

lemma GetLogger_prints:
  "fold (\<lambda>(l, v). logv (GetLogger printf println (InitLogger None logger)) l v) calls txt0 = txt0 @ concat (map (println \<circ> snd) calls)"
  by (induction calls arbitrary: txt0) (auto simp: GetLogger_def InitLogger_def EmptyLogger_def)

end
