(* ===== verification/Spec2Isabelle.thy ===== *)
theory Spec2Isabelle
  imports SocksProxy RpcRace RpcStream PoolRace Reflection Buffers BufferPool PriorityQueue EventHandler EventQueue SendQueue RpcSystem StreamSocket AioClose AioRecv Sessions AioStream ShareBuffer WebSocket Network GoPool MinHeap Timers Golog
begin

text \<open>
  \<^bold>\<open>A verification of KendyNet\<close>, a Go library for network services: sessions over stream sockets, websockets and asynchronous I/O,
  each with a bounded queue of objects to send; buffers and codecs; remote procedure calls over any message channel; and
  the queues, pools, timers and event tables these and their users are built from. The sources are under \<open>src/\<close>.

  \<^bold>\<open>The program and its models.\<close> Every theory models one part and proves its properties; the numbered texts (C1, C2, ...) mark the
  properties that the manifest lists, the other lemmas carry them.

  \<^item> KendyPrelude: panics (\<open>go\<close>: a result or a run-time panic), slices with capacity and the run-time's growth policy as a
    parameter, big-endian words, counting the goroutines at a program point.
  \<^item> Buffers (\<open>buffer/buffer.go\<close>) and BufferPool (\<open>buffer/pool.go\<close>): the growable buffer, the reader, the size-class pool with its
    calibration. Shown: every value appended is read back, an \<open>int\<close> modulo \<open>2 ^ 32\<close>, checked reads stay in bounds and panic only for
    negative sizes, the class of a size is the least that
    holds it, the pool hands out empty buffers and keeps its counters in range. The locale \<open>byte_sink\<close> states what the send loops
    rely on. PoolRace: the same pool with any number of goroutines in \<open>Put\<close>, \<open>Get\<close> and \<open>calibrate\<close>: one calibration at a time, every
    \<open>Put\<close> counted once.
  \<^item> CircList, DList: the doubly linked rings and lists with pointers that the queues, the pool of goroutines, the event slots and
    the call tables share, each refined to a list.
  \<^item> PriorityQueue (\<open>event/priorityQueue.go\<close>) and EventQueue (\<open>event/eventQueue.go\<close>): the pointer structure refines a list of
    first-in first-out lists; with any number of goroutines no wake-up is lost; \<open>Run\<close> executes by priority, then age.
  \<^item> WaitList, SendQueue (\<open>socket/sendqueue.go\<close>): the condition variable with timeouts down to its nodes, and the bounded queue
    as interleaved critical sections: order in every run, no lost wake-up in runs without two races of timed waits, which are steps of the
    system too: a ticker branch inside the unlocked loop of a \<open>broadcast\<close>, and one that removes a node the pool has handed out again.
  \<^item> Util (\<open>util/flag.go\<close>, \<open>util/notify.go\<close>, \<open>util/util.go\<close>): atomic flags, the notifier, the string hash.
  \<^item> SocketBase (\<open>socket/socketBase.go\<close>): sending, starting goroutines, shutdown and close as interleaved atomic operations; the close
    callback runs exactly once, with the first reason.
  \<^item> StreamSocket (\<open>socket/streamSocket.go\<close>), WebSocket (\<open>socket/websocket.go\<close>, \<open>message/websocket.go\<close>): the send and receive
    goroutines over scripts of what the connection answers. The locale \<open>inbound\<close> is the contract of an inbound processor.
  \<^item> AioSocket, AioClose, AioRecv (\<open>socket/aio/aiosocket.go\<close>): the session over asynchronous I/O as a transition system of its atomic
    operations, with the buffers by address: one goroutine at most sends and the close callback runs exactly once; as long as no completion is
    given another goroutine's buffer through \<open>sendContext.b\<close>, the bytes on the wire are a prefix of the accepted objects and nothing is left
    behind. Runs in which this happens and bytes are lost are shown; received data is delivered in order. AioRecv interprets \<open>inbound\<close> a second time.
  \<^item> Sessions (\<open>socket/aio/aiosocket.go\<close>, \<open>socket/socketBase.go\<close>): what programs call on a session, \<open>Send\<close> with its errors, setters,
    constructors, and the service that spreads connections over pollers. A successful \<open>Send\<close> is a step of AioSocket's system.
  \<^item> Network (\<open>socket/listener/\<close>, \<open>socket/connector/\<close>): \<open>Serve\<close> and \<open>Close\<close> of a listener as a transition system: one accept loop,
    every connection handed on once and in order, \<open>Close\<close> ends \<open>Serve\<close>; the websocket listener and the dialers.
  \<^item> PbCodec (\<open>example/pb/pb.go\<close>, \<open>example/codec/pb.go\<close>): the frames, the registry, the encoder and the receiver that cuts a stream into
    messages. The end-to-end theorem below composes it with the send queue and the send goroutine, AioStream with
    the asynchronous session.
  \<^item> ShareBuffer (\<open>example/aio/aio_sharebuffer.go\<close>): the inbound processor that receives into pooled buffers: it delivers the stream
    and gives its buffers back, unless a receive ends inside a header.
  \<^item> RpcClient, RpcServer (\<open>rpc/client.go\<close>, \<open>rpc/server.go\<close>, \<open>rpc/rpc.go\<close>): call tables and rings, responses, timeouts,
    disconnects, replyers, one call at a time, and where the critical sections of a disconnect do not compose. RpcRace: the client's goroutines interleaved between their critical sections, with contexts
    reused: every call is answered exactly once, unless a failing \<open>AsynCall\<close> takes it, which is shown to be possible.
  \<^item> RpcCodec (\<open>example/test_rpc/test_rpc.go\<close>, \<open>example/testproto/testrpc.pb.go\<close>), RpcSystem: the codec of the RPC programs, and client and
    server with lossy channels between them, with the blocking \<open>Call\<close>. The locale \<open>rpc_codec\<close> is the contract of an encoder and its
    decoder; with the codec above every answer belongs to its call.
  \<^item> RpcStream (\<open>example/test_rpc/test_rpc.go\<close>): the programs' \<open>Caller\<close>, \<open>RPCServer\<close> and channels, joined with the sessions' queues, the
    send goroutine, the encoder and the receiver: calls and answers cross a byte stream. The locale \<open>link\<close> is the contract of one
    direction of a connection, \<open>rpc_exact\<close> that of a codec which keeps values, \<open>rpc_connection\<close> joins them.
  \<^item> SocksProxy (\<open>example/sock_proxy.go\<close>): the handshake and the forwarding of the SOCKS proxy, with the reply as a step of its own behind the start of the server's
    receive goroutine; its \<open>ByteBuffer\<close>, which is not in the
    sources, is the locale \<open>byte_buffer\<close>.
  \<^item> EventHandler (\<open>event/eventHandler.go\<close>): handler slots with registration, removal and clearing during an emission, refined to a
    list of handlers and a queue of deferred operations.
  \<^item> Reflection (\<open>util/util.go\<close>, \<open>util/hook.go\<close>): calls by reflection with the checks of package \<open>reflect\<close>, and the function wrappers.
  \<^item> GoPool (\<open>gopool/gopool.go\<close>), MinHeap (\<open>util/minHeap.go\<close>), Timers (\<open>timer/timer.go\<close>), Golog (\<open>golog/\<close>): the goroutine pool as a
    transition system, with the tasks that a closed pool abandons, the indexed heap, the timer's status word with \<open>Cancel\<close> at its two atomic
    operations, the logger with its number printing, its file names and file rotation, and the logger that the library uses (\<open>log.go\<close>).

  \<^bold>\<open>How Go is modelled.\<close> A struct is a record, pointers are addresses in an explicit store where a claim depends on them, unsigned
  integers keep their width, \<open>int\<close> is an integer (64 bits; the sizes that occur stay far below). A panic is the value \<open>Panic\<close>; an
  error is a value. A goroutine is a program point between two atomic operations or critical sections; a system of goroutines
  is an inductive step relation over the shared state and the list of points, and its properties hold in all reachable states,
  so for every schedule. A blocked goroutine has no step.

  \<^bold>\<open>Parameters.\<close> The connection (what \<open>Write\<close>, \<open>Read\<close>, \<open>goaio\<close> and \<open>gorilla/websocket\<close> return), application code (encoders, handlers,
  callbacks, closures), protobuf, the assignability of types, \<open>fmt\<close>, the run-time's slice growth, the clock and the file system. What is relied on is
  a hypothesis of the theorem: \<open>encodes\<close> (an encoder only appends), \<open>fits\<close> and \<open>carries\<close> (protobuf reads back what it wrote),
  \<open>ok_write\<close>; a method of an RPC server keeps to its specification \<open>ok\<close>.

  \<^bold>\<open>Fuel.\<close> Loops whose end depends on the environment take fuel; \<open>None\<close> is running out of it. The theorems state a fuel that is
  enough: the bytes and reads of a script (StreamSocket, PbCodec, WebSocket), one chunk (AioRecv),
  the stream and one largest packet of 4101 bytes (ShareBuffer). All other loops are total
  functions.

  \<^bold>\<open>Not modelled.\<close> Read and write deadlines (their effect, a timeout, is an answer of the connection); getters that return what a
  connection holds; the printing of stacks in \<open>util\<close>; the windows console; generated code but for the RPC structs; the other example
  programs, which start servers and clients of the library and print their throughput: of these the codecs, the registration, the
  share-buffer processor, the RPC programs and the proxy are modelled. The memory model is sequential consistency, as \<open>sync/atomic\<close>
  and mutexes give it.
\<close>

section \<open>From one end of a connection to the other\<close>

text \<open>C2. Messages from end to end: goroutines share a session's send queue in any interleaving; what its \<open>Get\<close> has returned, batch after
  batch, is packed by the stream socket's send goroutine with the protobuf encoder and written without error; then a \<open>PBReceiver\<close> at the
  other end delivers exactly the messages that the queue accepted first, in the order in which they were accepted and with no
  error, however the byte stream is cut into reads, once the reads have taken all of it; the other accepted messages are
  still queued.\<close>

theorem pb_end_to_end:
  assumes "sq_reach S" and "sqsys.delivered S = map OMsg (concat mss)" and "\<forall>ms \<in> set mss. ms \<noteq> []"
    and "\<forall>m. OMsg m \<in> set (sqsys.accepted S) \<longrightarrow> fits P (register_all ts) mx m"
    and "list_all ok_write script" and "length mss \<le> length script"
    and "length (wires P (register_all ts) (concat mss)) \<le> length (filter (\<lambda>n. 0 < n) sizes)"
  shows "(\<exists>st R input. send_thread g (PbEncoder g P (register_all ts) mx) has_cb pb script (as_batches mss) None
      \<lparr>wire = [], errors = [], closes = []\<rparr> = Some (Ret (st, False)) \<and>
    pb_session (Suc (length (concat mss) + length sizes)) P (register_all ts) sizes (wire st) (NewPBReceiver mx) [] =
      Some (Ret (R, input, concat mss, None))) \<and> sqsys.accepted S = map OMsg (concat mss) @ qlist (sqsys.queue S)"
proof -
  have acc: "sqsys.accepted S = map OMsg (concat mss) @ qlist (sqsys.queue S)"
    using sq_reach_fifo [OF assms(1)] assms(2) by (simp add: fifo_inv_def)
  have "fits P (register_all ts) mx m" if "ms \<in> set mss" "m \<in> set ms" for ms m
    using assms(4) that unfolding acc by auto
  then have "\<forall>ms \<in> set mss. ms \<noteq> [] \<and> (\<forall>m \<in> set ms. fits P (register_all ts) mx m)" using assms(3) by blast
  from pb_link [OF this assms(5-7), of g has_cb pb] acc show ?thesis by (rule conjI)
qed

text \<open>A queue for the witness: three messages accepted, two of them taken at once.\<close>

definition sq_state :: "byte list object list \<Rightarrow> byte list object list \<Rightarrow> byte list object list \<Rightarrow> byte list object sqsys" where
  "sq_state q acc del = \<lparr>sqsys.queue = \<lparr>qlist = q, fullSize = 8, closed = False, emptyWaited = 0, fullWaited = 0\<rparr>,
     sqsys.emptyCond = [], sqsys.fullCond = [], sqsys.procs = [SendQueue.Idle], sqsys.accepted = acc, sqsys.delivered = del, sqsys.raced = False\<rparr>"

lemma sq_state_add: "sq_reach (sq_state q acc del) \<Longrightarrow> length q < 8 \<Longrightarrow> sq_reach (sq_state (q @ [v]) (acc @ [v]) del)"
  by (erule sq_reach.step) (use sq_step.add [of "sq_state q acc del" 0 v] in \<open>simp add: sq_state_def SendQueue.at_def SendQueue.leave_add_def SendQueue.Add_def\<close>)

lemma sq_state_get: "sq_reach (sq_state q acc del) \<Longrightarrow> q \<noteq> [] \<Longrightarrow> sq_reach (sq_state [] acc (del @ q))"
  by (erule sq_reach.step) (use sq_step.get [of "sq_state q acc del" 0] in \<open>simp add: sq_state_def SendQueue.at_def SendQueue.leave_get_def SendQueue.Get_def\<close>)

lemma sq_state_reach: "sq_reach (sq_state [OMsg [3]] [OMsg [1, 2], OMsg [], OMsg [3]] [OMsg [1, 2], OMsg []])"
proof -
  have "NewSendQueue [8] = Some \<lparr>qlist = [], fullSize = 8, closed = False, emptyWaited = 0, fullWaited = 0\<rparr>"
    by (simp add: SendQueue.NewSendQueue_def)
  from sq_reach.init [OF this, of 1] have "sq_reach (sq_state [] [] [])" by (simp add: sq_state_def init_sqsys_def)
  from sq_state_add [OF sq_state_get [OF sq_state_add [OF sq_state_add [OF this]]]] show ?thesis by fastforce
qed

theorem pb_end_to_end_witness:
  "\<exists>st R input. send_thread double (PbEncoder double raw_proto (register_all [(''raw'', 7)]) 100) True (Buffers.New []) [all_written]
      (as_batches [[[1, 2], []]]) None \<lparr>wire = [], errors = [], closes = []\<rparr> = Some (Ret (st, False)) \<and>
    pb_session (Suc (2 + length (replicate 40 (1::nat)))) raw_proto (register_all [(''raw'', 7)]) (replicate 40 1) (wire st) (NewPBReceiver 100) [] =
      Some (Ret (R, input, [[1, 2], []], None))"
proof -
  let ?reg = "register_all [(''raw'', 7)]"
  let ?S = "sq_state [OMsg [3]] [OMsg [1, 2], OMsg [], OMsg [3]] [OMsg [1, 2], OMsg []]"
  have f: "fits raw_proto ?reg 100 m" if "length m < 10" for m
    using that by (simp add: fits_def raw_proto_def register_all_def PbCodec.Register_def empty_registry_def)
  have fit: "\<forall>m. OMsg m \<in> set (sqsys.accepted ?S) \<longrightarrow> fits raw_proto ?reg 100 m" using f by (auto simp: sq_state_def)
  have "sqsys.delivered ?S = map OMsg (concat [[[1, 2], []]])" by (simp add: sq_state_def)
  from pb_end_to_end [OF sq_state_reach this _ fit, of "[all_written]" "replicate 40 1" double True "Buffers.New []"]
  show ?thesis by (simp add: ok_write_def all_written_def wire_form_def raw_proto_def)
qed

end
